(* ===== verification/Prelude.thy ===== *)
theory Prelude
  imports Main "HOL-Library.Word"
begin

text \<open>
  Shared vocabulary of the development: the C++ integer types, the faults a
  call can end in, the parts of the C++ standard library the sources use
  (\<open>std::vector\<close> indexing and resizing, \<open>std::set\<close> over a comparator object), and two
  interfaces that several components share: invariants of step relations and
  tables that grow on demand.
\<close>

unbundle bit_operations_syntax

section \<open>Machine integers and faults\<close>

type_synonym u64 = "64 word"
type_synonym u32 = "32 word"

lemma word_less_succ: "n \<noteq> - 1 \<Longrightarrow> n < n + (1 :: 'a :: len word)"
proof -
  assume "n \<noteq> - 1"
  then have "1 + n \<noteq> 0" by (metis add.commute eq_neg_iff_add_eq_0)
  then have "unat (1 + n) = Suc (unat n)" by (rule unatSuc)
  then show ?thesis by (simp add: word_less_nat_alt add.commute)
qed

text \<open>
  A call of the program ends with a value or with one of these faults.
  \<^item> \<open>NullDeref\<close>: a null pointer is dereferenced;
  \<^item> \<open>OutOfRange\<close>: \<open>operator[]\<close> is used outside the bounds of a vector or string;
  \<^item> \<open>Undefined\<close>: any other undefined behaviour (a missing return value, erasing
    \<open>end()\<close>, unlocking a spin lock that is not held, running off a finished stack);
  \<^item> \<open>BadFunctionCall\<close>: an empty \<open>std::function\<close> is called;
  \<^item> \<open>SystemError\<close>: \<open>std::unique_lock::unlock\<close> on a lock that is not owned;
  \<^item> \<open>LengthError\<close>: \<open>std::vector::resize\<close> beyond \<open>max_size()\<close>.
\<close>

datatype fault =
    NullDeref
  | OutOfRange
  | Undefined
  | BadFunctionCall
  | SystemError
  | LengthError

definition rbind :: "fault + 'a \<Rightarrow> ('a \<Rightarrow> fault + 'b) \<Rightarrow> fault + 'b" where
  "rbind m f = (case m of Inl e \<Rightarrow> Inl e | Inr x \<Rightarrow> f x)"

lemma rbind_simps [simp]:
  "rbind (Inl e) f = Inl e"
  "rbind (Inr x) f = f x"
  by (simp_all add: rbind_def)

lemma rbind_eq_Inr: "rbind m f = Inr y \<longleftrightarrow> (\<exists>x. m = Inr x \<and> f x = Inr y)"
  by (cases m) auto

lemma rbind_cong [fundef_cong]:
  "m = m' \<Longrightarrow> (\<And>x. m' = Inr x \<Longrightarrow> f x = g x) \<Longrightarrow> rbind m f = rbind m' g"
  by (cases m') auto

section \<open>Vectors\<close>

text \<open>
  \<open>std::vector::operator[]\<close> with the \<open>int\<close> index of the callers: a negative index is
  converted to a huge \<open>size_t\<close>, so it is out of range like any index past the end.
\<close>

definition vec_get :: "'a list \<Rightarrow> int \<Rightarrow> fault + 'a" where
  "vec_get xs i = (if 0 \<le> i \<and> i < int (length xs) then Inr (xs ! nat i) else Inl OutOfRange)"

definition vec_put :: "'a list \<Rightarrow> int \<Rightarrow> 'a \<Rightarrow> fault + 'a list" where
  "vec_put xs i x = (if 0 \<le> i \<and> i < int (length xs) then Inr (xs[nat i := x]) else Inl OutOfRange)"

definition vec_resize :: "nat \<Rightarrow> 'a \<Rightarrow> 'a list \<Rightarrow> 'a list" where
  "vec_resize n d xs = take n xs @ replicate (n - length xs) d"

lemma length_vec_resize [simp]: "length (vec_resize n d xs) = n"
  by (simp add: vec_resize_def)

lemma nth_vec_resize:
  "i < n \<Longrightarrow> vec_resize n d xs ! i = (if i < length xs then xs ! i else d)"
  by (auto simp: vec_resize_def nth_append)

lemma vec_resize_same [simp]: "vec_resize (length xs) d xs = xs"
  by (simp add: vec_resize_def)

lemma vec_get_ok [simp]: "0 \<le> i \<Longrightarrow> i < int (length xs) \<Longrightarrow> vec_get xs i = Inr (xs ! nat i)"
  by (simp add: vec_get_def)

lemma vec_get_neg [simp]: "i < 0 \<Longrightarrow> vec_get xs i = Inl OutOfRange"
  by (simp add: vec_get_def)

lemma vec_put_ok [simp]: "0 \<le> i \<Longrightarrow> i < int (length xs) \<Longrightarrow> vec_put xs i x = Inr (xs[nat i := x])"
  by (simp add: vec_put_def)

lemma vec_get_Inr: "vec_get xs i = Inr x \<Longrightarrow> 0 \<le> i \<and> i < int (length xs) \<and> x = xs ! nat i"
  by (auto simp: vec_get_def split: if_splits)

text \<open>
  The two conversions of the sources: \<open>(int)v.size()\<close>, and an \<open>int\<close> compared with a \<open>size_t\<close>.
\<close>

definition int_of_size :: "nat \<Rightarrow> int" where
  "int_of_size n = sint (word_of_int (int n) :: 32 word)"

definition size_of_int :: "int \<Rightarrow> nat" where
  "size_of_int i = unat (word_of_int i :: 64 word)"

lemma int_of_size_small: "n < 2 ^ 31 \<Longrightarrow> int_of_size n = int n"
proof -
  assume "n < 2 ^ 31"
  then have "signed_take_bit 31 (int n) = int n" by (intro signed_take_bit_int_eq_self) simp_all
  then show ?thesis unfolding int_of_size_def by (subst sint_sbintrunc') simp
qed

lemma size_of_int_nonneg: "0 \<le> i \<Longrightarrow> i < 2 ^ 63 \<Longrightarrow> size_of_int i = nat i"
  by (simp add: size_of_int_def unat_eq_nat_uint uint_word_of_int)

lemma size_of_int_neg: "- (2 ^ 31) \<le> i \<Longrightarrow> i < 0 \<Longrightarrow> 2 ^ 63 \<le> size_of_int i"
proof -
  assume i: "- (2 ^ 31) \<le> i" "i < 0"
  then have "i mod 2 ^ 64 = i + 2 ^ 64"
    using mod_pos_pos_trivial [of "i + 2 ^ 64" "2 ^ 64"] by simp
  then have "uint (word_of_int i :: 64 word) = i + 2 ^ 64" by (simp add: uint_word_of_int)
  with i show ?thesis by (simp add: size_of_int_def unat_eq_nat_uint)
qed

text \<open>
  The descriptor tables of the program grow to \<open>fd * 1.5\<close>, computed in \<open>double\<close> and
  truncated when it is converted to \<open>size_t\<close>. For a non-negative \<open>int\<close> this is exact.
\<close>

definition grow_size :: "int \<Rightarrow> nat" where
  "grow_size fd = nat (fd * 3 div 2)"

text \<open>
  A table that grows on demand: as long as it starts with at least \<open>base\<close> slots, a
  descriptor that does not fit yet fits after growing, and growing never shrinks it.
\<close>

locale growing_table =
  fixes base :: nat and grow :: "int \<Rightarrow> nat"
  assumes grow_fits: "int base \<le> fd \<Longrightarrow> fd < int (grow fd)"
begin

lemma grown_slot:
  "base \<le> n \<Longrightarrow> int n \<le> fd \<Longrightarrow> fd < int (grow fd)"
  using grow_fits [of fd] by linarith

lemma grown_length:
  "base \<le> n \<Longrightarrow> int n \<le> fd \<Longrightarrow> n \<le> grow fd \<and> base \<le> grow fd"
  using grown_slot [of n fd] by linarith

lemma grown_keeps:
  "base \<le> length xs \<Longrightarrow> int (length xs) \<le> fd \<Longrightarrow> i < length xs \<Longrightarrow>
    vec_resize (grow fd) d xs ! i = xs ! i"
  using grown_length [of "length xs" fd] by (simp add: nth_vec_resize)

end

text \<open>A base of two slots is enough for \<open>fd * 1.5\<close>, and no smaller one is.\<close>

lemma grow_size_fits: "2 \<le> fd \<Longrightarrow> fd < int (grow_size fd)"
  unfolding grow_size_def by linarith

lemma grow_size_bound: "0 \<le> fd \<Longrightarrow> fd < 2 ^ 30 \<Longrightarrow> grow_size fd < 2 ^ 31"
  by (simp add: grow_size_def nat_less_iff)

section \<open>Ordered sets over a comparator\<close>

text \<open>
  \<open>std::set<T, Compare>\<close> as the list of its elements in iteration order; an iterator
  is an index into it and \<open>end()\<close> is the length. \<open>lt\<close> is the comparator object.
\<close>

definition set_lower_bound :: "('a \<Rightarrow> 'a \<Rightarrow> bool) \<Rightarrow> 'a \<Rightarrow> 'a list \<Rightarrow> nat" where
  "set_lower_bound lt x xs = length (takeWhile (\<lambda>y. lt y x) xs)"

definition set_find :: "('a \<Rightarrow> 'a \<Rightarrow> bool) \<Rightarrow> 'a \<Rightarrow> 'a list \<Rightarrow> nat" where
  "set_find lt x xs =
     (let i = set_lower_bound lt x xs
      in if i < length xs \<and> \<not> lt x (xs ! i) then i else length xs)"

text \<open>\<open>insert(x).first\<close> is the position of the element equivalent to \<open>x\<close> afterwards.\<close>

definition set_insert :: "('a \<Rightarrow> 'a \<Rightarrow> bool) \<Rightarrow> 'a \<Rightarrow> 'a list \<Rightarrow> nat \<times> 'a list" where
  "set_insert lt x xs =
     (let i = set_lower_bound lt x xs
      in if i < length xs \<and> \<not> lt x (xs ! i) then (i, xs)
         else (i, take i xs @ x # drop i xs))"

text \<open>Erasing through an iterator; erasing \<open>end()\<close> is undefined.\<close>

definition set_erase :: "nat \<Rightarrow> 'a list \<Rightarrow> fault + 'a list" where
  "set_erase i xs = (if i < length xs then Inr (take i xs @ drop (Suc i) xs) else Inl Undefined)"

locale comparator =
  fixes lt :: "'a \<Rightarrow> 'a \<Rightarrow> bool"
  assumes less_irrefl: "\<not> lt x x"
    and less_trans: "lt x y \<Longrightarrow> lt y z \<Longrightarrow> lt x z"
    and less_total: "x \<noteq> y \<Longrightarrow> lt x y \<or> lt y x"
begin

lemma less_asym: "lt x y \<Longrightarrow> \<not> lt y x"
  using less_irrefl less_trans by blast

lemma lower_bound_le: "set_lower_bound lt x xs \<le> length xs"
  by (simp add: set_lower_bound_def length_takeWhile_le)

lemma before_lower_bound: "y \<in> set (take (set_lower_bound lt x xs) xs) \<Longrightarrow> lt y x"
  by (metis set_lower_bound_def set_takeWhileD takeWhile_eq_take)

lemma from_lower_bound:
  assumes "sorted_wrt lt xs" and "y \<in> set (drop (set_lower_bound lt x xs) xs)"
  shows "\<not> lt y x"
proof -
  from assms(2) have y: "y \<in> set (dropWhile (\<lambda>y. lt y x) xs)"
    by (simp add: set_lower_bound_def dropWhile_eq_drop)
  from assms(1) have s: "sorted_wrt lt (dropWhile (\<lambda>y. lt y x) xs)"
    by (metis sorted_wrt_append takeWhile_dropWhile_id)
  show ?thesis
  proof (cases "dropWhile (\<lambda>y. lt y x) xs")
    case Nil
    with y show ?thesis by simp
  next
    case (Cons z zs)
    then have "\<not> lt z x" by (metis hd_dropWhile list.sel(1) list.distinct(1))
    with y s Cons show ?thesis using less_trans by auto
  qed
qed

lemma equivalent_at_lower_bound:
  assumes "sorted_wrt lt xs"
  shows "(set_lower_bound lt x xs < length xs \<and> \<not> lt x (xs ! set_lower_bound lt x xs))
    \<longleftrightarrow> x \<in> set xs" (is "?at \<longleftrightarrow> _")
proof
  let ?i = "set_lower_bound lt x xs"
  assume ?at
  then have "xs ! ?i \<in> set (drop ?i xs)"
    by (metis Cons_nth_drop_Suc list.set_intros(1))
  with assms have "\<not> lt (xs ! ?i) x" by (rule from_lower_bound)
  with \<open>?at\<close> have "xs ! ?i = x" using less_total [of "xs ! ?i" x] by blast
  with \<open>?at\<close> show "x \<in> set xs" using nth_mem [of ?i xs] by simp
next
  let ?i = "set_lower_bound lt x xs"
  assume "x \<in> set xs"
  moreover have "x \<notin> set (take ?i xs)" using before_lower_bound less_irrefl by blast
  ultimately have x: "x \<in> set (drop ?i xs)" by (metis Un_iff append_take_drop_id set_append)
  then have i: "?i < length xs" by (cases "?i < length xs") auto
  have "sorted_wrt lt (xs ! ?i # drop (Suc ?i) xs)"
    using assms i by (simp add: Cons_nth_drop_Suc sorted_wrt_drop)
  moreover have "x = xs ! ?i \<or> x \<in> set (drop (Suc ?i) xs)"
    using x i by (metis Cons_nth_drop_Suc set_ConsD)
  ultimately have "\<not> lt x (xs ! ?i)" using less_irrefl less_asym by auto
  with i show ?at by simp
qed

lemma find_iff: "sorted_wrt lt xs \<Longrightarrow> set_find lt x xs < length xs \<longleftrightarrow> x \<in> set xs"
  using equivalent_at_lower_bound [of xs x] by (auto simp: set_find_def Let_def)

lemma nth_find:
  assumes "sorted_wrt lt xs" and "x \<in> set xs"
  shows "xs ! set_find lt x xs = x"
proof -
  let ?i = "set_lower_bound lt x xs"
  have at: "?i < length xs \<and> \<not> lt x (xs ! ?i)"
    using equivalent_at_lower_bound assms by blast
  then have "xs ! ?i \<in> set (drop ?i xs)"
    by (metis Cons_nth_drop_Suc list.set_intros(1))
  then have "\<not> lt (xs ! ?i) x" using assms(1) from_lower_bound by blast
  with at have "xs ! ?i = x" using less_total [of "xs ! ?i" x] by blast
  with at show ?thesis by (simp add: set_find_def Let_def)
qed

lemma sorted_distinct: "sorted_wrt lt xs \<Longrightarrow> distinct xs"
  by (induction xs) (use less_irrefl in auto)

lemma erase_find:
  assumes "sorted_wrt lt xs" and "x \<in> set xs"
  shows "\<exists>ys. set_erase (set_find lt x xs) xs = Inr ys \<and> ys = removeAll x xs"
proof -
  let ?i = "set_find lt x xs"
  have i: "?i < length xs" and xi: "xs ! ?i = x"
    using assms find_iff nth_find by auto
  have d: "distinct xs" using assms(1) by (rule sorted_distinct)
  have split: "xs = take ?i xs @ x # drop (Suc ?i) xs"
    using i xi by (metis id_take_nth_drop)
  then have "x \<notin> set (take ?i xs)" and "x \<notin> set (drop (Suc ?i) xs)"
    using d by (metis distinct_append distinct.simps(2) disjoint_iff list.set_intros(1))+
  then have "removeAll x (take ?i xs @ x # drop (Suc ?i) xs) = take ?i xs @ drop (Suc ?i) xs"
    by simp
  with split have "removeAll x xs = take ?i xs @ drop (Suc ?i) xs" by simp
  with i show ?thesis by (simp add: set_erase_def)
qed

lemma sorted_removeAll: "sorted_wrt lt xs \<Longrightarrow> sorted_wrt lt (removeAll x xs)"
  by (induction xs) auto

lemma set_set_insert: "sorted_wrt lt xs \<Longrightarrow> set (snd (set_insert lt x xs)) = insert x (set xs)"
proof -
  assume s: "sorted_wrt lt xs"
  let ?i = "set_lower_bound lt x xs"
  have "set (take ?i xs @ x # drop ?i xs) = insert x (set xs)"
    by (metis (no_types, lifting) Un_insert_right append_take_drop_id list.simps(15) set_append)
  with equivalent_at_lower_bound [OF s, of x] show ?thesis
    by (auto simp: set_insert_def Let_def)
qed

lemma sorted_set_insert:
  assumes s: "sorted_wrt lt xs"
  shows "sorted_wrt lt (snd (set_insert lt x xs))"
proof (cases "x \<in> set xs")
  case True
  with equivalent_at_lower_bound [OF s, of x] s show ?thesis
    by (simp add: set_insert_def Let_def)
next
  case False
  let ?i = "set_lower_bound lt x xs"
  have "lt x y" if "y \<in> set (drop ?i xs)" for y
    using from_lower_bound [OF s that] less_total that False by (metis in_set_dropD)
  moreover have "lt y x" if "y \<in> set (take ?i xs)" for y
    using before_lower_bound that by blast
  moreover have "sorted_wrt lt (take ?i xs)" "sorted_wrt lt (drop ?i xs)"
    "\<forall>a\<in>set (take ?i xs). \<forall>b\<in>set (drop ?i xs). lt a b"
    using s by (metis append_take_drop_id sorted_wrt_append)+
  ultimately show ?thesis using False equivalent_at_lower_bound [OF s, of x]
    by (auto simp: set_insert_def Let_def sorted_wrt_append)
qed

end

section \<open>Counting threads\<close>

text \<open>How many of the threads \<open>T\<close> are at a point \<open>P\<close>, as the 64-bit counters of the sources have it.\<close>

definition threads_at :: "int set \<Rightarrow> ('p \<Rightarrow> bool) \<Rightarrow> (int \<Rightarrow> 'p) \<Rightarrow> u64" where
  "threads_at T P pc = of_nat (card {tid \<in> T. P (pc tid)})"

lemma threads_at_upd:
  assumes "finite T" and "tid \<in> T"
  shows "threads_at T P (pc(tid := p)) = threads_at T P pc + (if P p then 1 else 0) - (if P (pc tid) then 1 else 0)"
proof -
  let ?R = "{u \<in> T - {tid}. P (pc u)}"
  have fin: "finite ?R" and notin: "tid \<notin> ?R" using assms(1) by auto
  have "{u \<in> T. P (pc u)} = (if P (pc tid) then insert tid ?R else ?R)"
    using assms(2) by auto
  then have 1: "threads_at T P pc = of_nat (card ?R) + (if P (pc tid) then 1 else 0)"
    using fin notin by (simp add: threads_at_def)
  have "{u \<in> T. P ((pc(tid := p)) u)} = (if P p then insert tid ?R else ?R)"
    using assms(2) by auto
  then have 2: "threads_at T P (pc(tid := p)) = of_nat (card ?R) + (if P p then 1 else 0)"
    using fin notin by (simp add: threads_at_def)
  from 1 2 show ?thesis by simp
qed

lemma threads_at_zero:
  assumes "finite T" and "card T < 2 ^ 64" and "threads_at T P pc = 0" and "tid \<in> T"
  shows "\<not> P (pc tid)"
proof -
  let ?B = "{u \<in> T. P (pc u)}"
  have "card ?B \<le> card T" using assms(1) by (auto intro: card_mono)
  then have small: "card ?B < 2 ^ 64" using assms(2) by simp
  have "2 ^ 64 dvd card ?B" using assms(3) by (simp add: threads_at_def word_of_nat_eq_0_iff)
  then have "card ?B = 0" using small nat_dvd_not_less [of "card ?B" "2 ^ 64"] by auto
  then show ?thesis using assms(1,4) by simp
qed

lemma threads_at_none:
  assumes "\<And>tid. tid \<in> T \<Longrightarrow> \<not> P (pc tid)"
  shows "threads_at T P pc = 0"
proof -
  have none: "{tid \<in> T. P (pc tid)} = {}" using assms by blast
  show ?thesis unfolding threads_at_def none by simp
qed

section \<open>Invariants of step relations\<close>

locale step_invariant =
  fixes start :: "'s \<Rightarrow> bool" and step :: "'s \<Rightarrow> 's \<Rightarrow> bool" and good :: "'s \<Rightarrow> bool"
  assumes good_start: "start s \<Longrightarrow> good s"
    and good_step: "good s \<Longrightarrow> step s t \<Longrightarrow> good t"
begin

lemma good_steps: "step\<^sup>*\<^sup>* s t \<Longrightarrow> good s \<Longrightarrow> good t"
  by (induction rule: rtranclp_induct) (auto intro: good_step)

lemma good_reachable: "start s \<Longrightarrow> step\<^sup>*\<^sup>* s t \<Longrightarrow> good t"
  using good_start good_steps by blast

end

end
