(* ===== verification/Timer.thy ===== *)
theory Timer
  imports Prelude
begin

text \<open>
  Timers and the timer manager (\<open>include/timer.h\<close>, \<open>src/timer.cpp\<close>). Timer objects are
  shared through \<open>std::shared_ptr\<close>; here they live in a store addressed by \<open>nat\<close>, whose
  order is the pointer order the comparator uses. The addresses returned by \<open>new\<close> and the
  readings of \<open>KSC::GetElapsedMS()\<close> are arguments of the operations. An operation that
  inserts a timer also returns whether it called the virtual function
  \<open>onTimerInsertedAtFront\<close>, which is overridden by the IO manager.
\<close>

section \<open>Data\<close>

text \<open>
  Callbacks stored in a timer: a plain \<open>std::function\<close>, or the binding of \<open>OnTimer\<close> to a
  weak pointer and a (possibly empty) function that \<open>addConditionalTimer\<close> makes.
\<close>

datatype 'u callback =
    Callback 'u
  | OnTimerBind nat "'u option"

text \<open>
  \<open>OnTimer\<close>: \<open>alive w\<close> tells whether the weak pointer \<open>w\<close> can still be locked. The result is
  the user function that is called, if any.
\<close>

definition OnTimer :: "(nat \<Rightarrow> bool) \<Rightarrow> nat \<Rightarrow> 'u option \<Rightarrow> fault + 'u option" where
  "OnTimer alive weak_cond func =
     (if alive weak_cond
      then (case func of None \<Rightarrow> Inl BadFunctionCall | Some f \<Rightarrow> Inr (Some f))
      else Inr None)"

text \<open>Calling what a timer stored.\<close>

fun run_callback :: "(nat \<Rightarrow> bool) \<Rightarrow> 'u callback \<Rightarrow> fault + 'u option" where
  "run_callback alive (Callback f) = Inr (Some f)"
| "run_callback alive (OnTimerBind w f) = OnTimer alive w f"

record 'u Timer =
  t_repeat :: bool
  t_periodInMs :: u64
  t_next :: u64
  t_func :: "'u callback option"
  t_manager :: bool

definition Timer_new :: "u64 \<Rightarrow> 'u callback option \<Rightarrow> bool \<Rightarrow> u64 \<Rightarrow> 'u Timer" where
  "Timer_new ms func repeat elapsed =
     \<lparr>t_repeat = repeat, t_periodInMs = ms, t_next = elapsed + ms, t_func = func, t_manager = True\<rparr>"

definition Timer_at :: "u64 \<Rightarrow> 'u Timer" where
  "Timer_at next = \<lparr>t_repeat = False, t_periodInMs = 0, t_next = next, t_func = None, t_manager = False\<rparr>"

text \<open>The comparator, on pointers that may be null.\<close>

fun Comparator :: "(nat \<Rightarrow> 'u Timer) \<Rightarrow> nat option \<Rightarrow> nat option \<Rightarrow> bool" where
  "Comparator h None None = False"
| "Comparator h None (Some r) = True"
| "Comparator h (Some l) None = False"
| "Comparator h (Some l) (Some r) =
     (if t_next (h l) < t_next (h r) then True
      else if t_next (h r) < t_next (h l) then False
      else l < r)"

text \<open>The elements of the set are never null.\<close>

definition timer_less :: "(nat \<Rightarrow> 'u Timer) \<Rightarrow> nat \<Rightarrow> nat \<Rightarrow> bool" where
  "timer_less h l r = Comparator h (Some l) (Some r)"

record 'u TimerManager =
  tobj :: "nat \<Rightarrow> 'u Timer"
  m_timers :: "nat list"
  m_isTickled :: bool
  m_previouseTime :: u64

definition TimerManager_new :: "(nat \<Rightarrow> 'u Timer) \<Rightarrow> u64 \<Rightarrow> 'u TimerManager" where
  "TimerManager_new h elapsed =
     \<lparr>tobj = h, m_timers = [], m_isTickled = False, m_previouseTime = elapsed\<rparr>"

section \<open>Operations\<close>

text \<open>
  The protected \<open>addTimer(timer, lck)\<close>: \<open>owns\<close> says whether the caller's \<open>unique_lock\<close> owns the
  mutex. It is released on the way, which throws when it was not owned. The result holds
  the call of \<open>onTimerInsertedAtFront\<close>, the new state of the lock and of the manager.
\<close>

definition addTimer_lck ::
  "nat \<Rightarrow> bool \<Rightarrow> 'u TimerManager \<Rightarrow> fault + (bool \<times> bool \<times> 'u TimerManager)" where
  "addTimer_lck p owns mgr =
     (let (it, ts) = set_insert (timer_less (tobj mgr)) p (m_timers mgr);
          isFirst = (it = 0 \<and> \<not> m_isTickled mgr);
          mgr1 = mgr\<lparr>m_timers := ts, m_isTickled := (if isFirst then True else m_isTickled mgr)\<rparr>
      in if owns then Inr (isFirst, False, mgr1) else Inl SystemError)"

definition addTimer ::
  "nat \<Rightarrow> u64 \<Rightarrow> 'u callback option \<Rightarrow> bool \<Rightarrow> u64 \<Rightarrow> 'u TimerManager
    \<Rightarrow> fault + (bool \<times> 'u TimerManager)" where
  "addTimer p ms func repeat elapsed mgr =
     rbind (addTimer_lck p True (mgr\<lparr>tobj := (tobj mgr)(p := Timer_new ms func repeat elapsed)\<rparr>))
       (\<lambda>(front, _, mgr1). Inr (front, mgr1))"

definition addConditionalTimer ::
  "nat \<Rightarrow> u64 \<Rightarrow> 'u option \<Rightarrow> nat \<Rightarrow> bool \<Rightarrow> u64 \<Rightarrow> 'u TimerManager
    \<Rightarrow> fault + (bool \<times> 'u TimerManager)" where
  "addConditionalTimer p ms func weakCond repeat elapsed mgr =
     addTimer p ms (Some (OnTimerBind weakCond func)) repeat elapsed mgr"

definition cancel :: "nat \<Rightarrow> 'u TimerManager \<Rightarrow> fault + (bool \<times> 'u TimerManager)" where
  "cancel p mgr =
     (if \<not> t_manager (tobj mgr p) then Inl NullDeref
      else if t_func (tobj mgr p) \<noteq> None then
        let mgr1 = mgr\<lparr>tobj := (tobj mgr)(p := (tobj mgr p)\<lparr>t_func := None\<rparr>)\<rparr>;
            it = set_find (timer_less (tobj mgr1)) p (m_timers mgr1)
        in rbind (set_erase it (m_timers mgr1)) (\<lambda>ts. Inr (True, mgr1\<lparr>m_timers := ts\<rparr>))
      else Inr (False, mgr))"

definition refresh ::
  "nat \<Rightarrow> u64 \<Rightarrow> 'u TimerManager \<Rightarrow> fault + (bool \<times> bool \<times> 'u TimerManager)" where
  "refresh p elapsed mgr =
     (if \<not> t_manager (tobj mgr p) then Inl NullDeref
      else if t_func (tobj mgr p) = None then Inr (False, False, mgr)
      else let it = set_find (timer_less (tobj mgr)) p (m_timers mgr)
      in if it = length (m_timers mgr) then Inr (False, False, mgr)
      else rbind (set_erase it (m_timers mgr)) (\<lambda>ts.
        let mgr1 = mgr\<lparr>m_timers := ts,
              tobj := (tobj mgr)(p := (tobj mgr p)\<lparr>t_next := elapsed + t_periodInMs (tobj mgr p)\<rparr>)\<rparr>
        in rbind (addTimer_lck p True mgr1) (\<lambda>(front, _, mgr2). Inr (True, front, mgr2))))"

definition reset ::
  "nat \<Rightarrow> u64 \<Rightarrow> bool \<Rightarrow> u64 \<Rightarrow> 'u TimerManager \<Rightarrow> fault + (bool \<times> bool \<times> 'u TimerManager)" where
  "reset p ms fromNow elapsed mgr =
     (if ms = t_periodInMs (tobj mgr p) \<and> \<not> fromNow then Inr (True, False, mgr)
      else if \<not> t_manager (tobj mgr p) then Inl NullDeref
      else if t_func (tobj mgr p) = None then Inr (False, False, mgr)
      else let it = set_find (timer_less (tobj mgr)) p (m_timers mgr)
      in if it = length (m_timers mgr) then Inr (False, False, mgr)
      else rbind (set_erase it (m_timers mgr)) (\<lambda>ts.
        let start = (if fromNow then elapsed
                     else t_next (tobj mgr p) - t_periodInMs (tobj mgr p));
            mgr1 = mgr\<lparr>m_timers := ts,
              tobj := (tobj mgr)(p := (tobj mgr p)\<lparr>t_periodInMs := ms, t_next := start + ms\<rparr>)\<rparr>
        in rbind (addTimer_lck p True mgr1) (\<lambda>(front, _, mgr2). Inr (True, front, mgr2))))"

definition getNextTimer :: "u64 \<Rightarrow> 'u TimerManager \<Rightarrow> u64" where
  "getNextTimer elapsed mgr =
     (case m_timers mgr of
        [] \<Rightarrow> NOT 0
      | p # _ \<Rightarrow> (if elapsed < t_next (tobj mgr p) then t_next (tobj mgr p) - elapsed else 0))"

definition hasTimer :: "'u TimerManager \<Rightarrow> bool" where
  "hasTimer mgr = (m_timers mgr \<noteq> [])"

definition detectClockRollover :: "u64 \<Rightarrow> 'u TimerManager \<Rightarrow> bool \<times> 'u TimerManager" where
  "detectClockRollover now_ms mgr =
     (let rollover = (now_ms < m_previouseTime mgr
                      \<and> now_ms < m_previouseTime mgr - 60 * 60 * 1000)
      in (rollover, mgr\<lparr>m_previouseTime := now_ms\<rparr>))"

text \<open>
  The loop over the expired timers. \<open>owns\<close> is the state of the write lock, which the first
  \<open>addTimer(timer, lck)\<close> releases; \<open>fronts\<close> counts the calls of \<open>onTimerInsertedAtFront\<close>.
\<close>

fun expire_loop ::
  "u64 \<Rightarrow> nat list \<Rightarrow> bool \<Rightarrow> 'u callback option list \<Rightarrow> nat \<Rightarrow> 'u TimerManager
    \<Rightarrow> fault + ('u callback option list \<times> nat \<times> 'u TimerManager)" where
  "expire_loop nowInMs [] owns funcs fronts mgr = Inr (funcs, fronts, mgr)"
| "expire_loop nowInMs (p # expired) owns funcs fronts mgr =
     (let timer = tobj mgr p; funcs1 = funcs @ [t_func timer]
      in if t_repeat timer then
           let mgr1 = mgr\<lparr>tobj := (tobj mgr)(p := timer\<lparr>t_next := nowInMs + t_periodInMs timer\<rparr>)\<rparr>
           in rbind (addTimer_lck p owns mgr1) (\<lambda>(front, owns1, mgr2).
                expire_loop nowInMs expired owns1 funcs1 (if front then Suc fronts else fronts) mgr2)
         else
           expire_loop nowInMs expired owns funcs1 fronts
             (mgr\<lparr>tobj := (tobj mgr)(p := timer\<lparr>t_func := None\<rparr>)\<rparr>))"

text \<open>
  The iterator that ends the expired range: \<open>end()\<close> after a clock rollover, else the
  lower bound of a fresh timer object (at address \<open>q\<close>) with deadline \<open>nowInMs\<close>, advanced
  over the timers with exactly that deadline.
\<close>

definition expired_end :: "nat \<Rightarrow> u64 \<Rightarrow> bool \<Rightarrow> 'u TimerManager \<Rightarrow> nat" where
  "expired_end q nowInMs rollover mgr =
     (let h = (tobj mgr)(q := Timer_at nowInMs); ts = m_timers mgr;
          it = (if rollover then length ts else set_lower_bound (timer_less h) q ts)
      in it + length (takeWhile (\<lambda>p. t_next (h p) = nowInMs) (drop it ts)))"

definition listExpiredFunc ::
  "nat \<Rightarrow> u64 \<Rightarrow> 'u TimerManager \<Rightarrow> fault + ('u callback option list \<times> nat \<times> 'u TimerManager)" where
  "listExpiredFunc q nowInMs mgr =
     (case m_timers mgr of
        [] \<Rightarrow> Inr ([], 0, mgr)
      | first # _ \<Rightarrow>
          (let (rollover, mgr1) = detectClockRollover nowInMs mgr
           in if \<not> rollover \<and> nowInMs < t_next (tobj mgr1 first) then Inr ([], 0, mgr1)
              else let it = expired_end q nowInMs rollover mgr1;
                       expired = take it (m_timers mgr1);
                       mgr2 = mgr1\<lparr>m_timers := drop it (m_timers mgr1)\<rparr>
                   in expire_loop nowInMs expired True [] 0 mgr2))"

section \<open>The comparator is a strict total order\<close>

lemma timer_less_iff:
  "timer_less h l r \<longleftrightarrow> t_next (h l) < t_next (h r) \<or> t_next (h l) = t_next (h r) \<and> l < r"
  by (auto simp: timer_less_def)

interpretation timer_set: comparator "timer_less h" for h :: "nat \<Rightarrow> 'u Timer"
proof unfold_locales
  fix x y z :: nat
  show "\<not> timer_less h x x" by (simp add: timer_less_iff)
  show "timer_less h x y \<Longrightarrow> timer_less h y z \<Longrightarrow> timer_less h x z"
    by (auto simp: timer_less_iff)
  show "x \<noteq> y \<Longrightarrow> timer_less h x y \<or> timer_less h y x"
    by (auto simp: timer_less_iff)
qed

text \<open>The order looks at the deadlines of the elements only.\<close>

lemma sorted_timer_cong:
  assumes "\<And>p. p \<in> set ts \<Longrightarrow> t_next (h' p) = t_next (h p)"
  shows "sorted_wrt (timer_less h') ts = sorted_wrt (timer_less h) ts"
  using assms by (induction ts) (auto simp: timer_less_iff)

lemma sorted_timer_upd [simp]:
  "t_next t = t_next (h p) \<or> p \<notin> set ts \<Longrightarrow>
    sorted_wrt (timer_less (h(p := t))) ts = sorted_wrt (timer_less h) ts"
  by (rule sorted_timer_cong) auto

lemma sorted_deadlines:
  "sorted_wrt (timer_less h) ts \<Longrightarrow> sorted (map (\<lambda>p. t_next (h p)) ts)"
  by (induction ts) (auto simp: timer_less_iff)

section \<open>The invariant of the timer manager\<close>

text \<open>
  The set is in comparator order, every timer that still has a function is in it (so the
  iterator \<open>cancel\<close> erases is never \<open>end()\<close>), and its members belong to this manager.
\<close>

definition tm_inv :: "'u TimerManager \<Rightarrow> bool" where
  "tm_inv mgr \<longleftrightarrow>
     sorted_wrt (timer_less (tobj mgr)) (m_timers mgr)
     \<and> (\<forall>p. t_func (tobj mgr p) \<noteq> None \<longrightarrow> p \<in> set (m_timers mgr))
     \<and> (\<forall>p \<in> set (m_timers mgr). t_manager (tobj mgr p))"

lemma tm_invD:
  assumes "tm_inv mgr"
  shows tm_inv_sorted: "sorted_wrt (timer_less (tobj mgr)) (m_timers mgr)"
    and tm_inv_func: "t_func (tobj mgr p) \<noteq> None \<Longrightarrow> p \<in> set (m_timers mgr)"
    and tm_inv_manager: "p \<in> set (m_timers mgr) \<Longrightarrow> t_manager (tobj mgr p)"
    and tm_inv_distinct: "distinct (m_timers mgr)"
  using assms timer_set.sorted_distinct by (auto simp: tm_inv_def)

lemma tm_inv_new: "\<forall>p. t_func (h p) = None \<Longrightarrow> tm_inv (TimerManager_new h e)"
  by (simp add: tm_inv_def TimerManager_new_def)

text \<open>What the locked insertion does, on a set that is in order.\<close>

lemma addTimer_lck_ok:
  assumes s: "sorted_wrt (timer_less (tobj mgr)) (m_timers mgr)"
  obtains b mgr' where "addTimer_lck p True mgr = Inr (b, False, mgr')"
    and "tobj mgr' = tobj mgr" and "m_previouseTime mgr' = m_previouseTime mgr"
    and "set (m_timers mgr') = insert p (set (m_timers mgr))"
    and "sorted_wrt (timer_less (tobj mgr')) (m_timers mgr')"
    and "m_isTickled mgr' = (m_isTickled mgr \<or> b)" and "b \<longrightarrow> \<not> m_isTickled mgr"
proof -
  obtain it ts where ins: "set_insert (timer_less (tobj mgr)) p (m_timers mgr) = (it, ts)"
    by (cases "set_insert (timer_less (tobj mgr)) p (m_timers mgr)")
  then have "set ts = insert p (set (m_timers mgr))" "sorted_wrt (timer_less (tobj mgr)) ts"
    using timer_set.set_set_insert [OF s, of p] timer_set.sorted_set_insert [OF s, of p] by simp_all
  with ins show thesis
    by (intro that [of "it = 0 \<and> \<not> m_isTickled mgr"
      "mgr\<lparr>m_timers := ts, m_isTickled := (if it = 0 \<and> \<not> m_isTickled mgr then True else m_isTickled mgr)\<rparr>"])
      (simp_all add: addTimer_lck_def Let_def)
qed

lemma addTimer_lck_unowned [simp]: "addTimer_lck p False mgr = Inl SystemError"
  by (simp add: addTimer_lck_def Let_def split: prod.splits)

lemma find_timer:
  assumes "tm_inv mgr"
  shows "set_find (timer_less (tobj mgr)) p (m_timers mgr) = length (m_timers mgr)
    \<longleftrightarrow> p \<notin> set (m_timers mgr)"
proof -
  have "set_find (timer_less (tobj mgr)) p (m_timers mgr) \<le> length (m_timers mgr)"
    by (simp add: set_find_def Let_def)
  with timer_set.find_iff [OF tm_inv_sorted [OF assms], of p] show ?thesis by auto
qed

lemma erase_timer:
  assumes "sorted_wrt (timer_less h) ts" and "p \<in> set ts"
  shows "set_erase (set_find (timer_less h) p ts) ts = Inr (removeAll p ts)"
  using timer_set.erase_find [OF assms] by auto

subsection \<open>Every operation keeps the invariant\<close>

lemma tm_inv_addTimer:
  assumes inv: "tm_inv mgr" and fresh: "p \<notin> set (m_timers mgr)"
  shows "\<exists>b mgr'. addTimer p ms func repeat now mgr = Inr (b, mgr') \<and> tm_inv mgr'
    \<and> tobj mgr' = (tobj mgr)(p := Timer_new ms func repeat now)
    \<and> set (m_timers mgr') = insert p (set (m_timers mgr))
    \<and> m_isTickled mgr' = (m_isTickled mgr \<or> b) \<and> (b \<longrightarrow> \<not> m_isTickled mgr)"
proof -
  let ?m = "mgr\<lparr>tobj := (tobj mgr)(p := Timer_new ms func repeat now)\<rparr>"
  have "sorted_wrt (timer_less (tobj ?m)) (m_timers ?m)"
    using tm_inv_sorted [OF inv] fresh by simp
  then obtain b mgr' where
    "addTimer_lck p True ?m = Inr (b, False, mgr')" and t: "tobj mgr' = tobj ?m"
    and "m_previouseTime mgr' = m_previouseTime ?m"
    and s: "set (m_timers mgr') = insert p (set (m_timers ?m))"
    and o: "sorted_wrt (timer_less (tobj mgr')) (m_timers mgr')"
    and k: "m_isTickled mgr' = (m_isTickled ?m \<or> b)" "b \<longrightarrow> \<not> m_isTickled ?m"
    by (rule addTimer_lck_ok)
  moreover have "tm_inv mgr'"
    using inv t s o by (auto simp: tm_inv_def Timer_new_def)
  ultimately show ?thesis by (auto simp: addTimer_def)
qed

lemma cancel_ok:
  assumes inv: "tm_inv mgr" and m: "t_manager (tobj mgr p)"
  shows "cancel p mgr = Inr (t_func (tobj mgr p) \<noteq> None,
    if t_func (tobj mgr p) = None then mgr
    else mgr\<lparr>tobj := (tobj mgr)(p := (tobj mgr p)\<lparr>t_func := None\<rparr>),
             m_timers := removeAll p (m_timers mgr)\<rparr>)"
proof (cases "t_func (tobj mgr p)")
  case None
  with m show ?thesis by (simp add: cancel_def)
next
  case (Some f)
  then have p: "p \<in> set (m_timers mgr)" using tm_inv_func [OF inv] by simp
  have "sorted_wrt (timer_less ((tobj mgr)(p := (tobj mgr p)\<lparr>t_func := None\<rparr>))) (m_timers mgr)"
    using tm_inv_sorted [OF inv] by simp
  from erase_timer [OF this p] m Some show ?thesis by (simp add: cancel_def Let_def)
qed

lemma tm_inv_cancel:
  assumes "tm_inv mgr" and "cancel p mgr = Inr (b, mgr')"
  shows "tm_inv mgr'"
proof -
  from assms(2) have "t_manager (tobj mgr p)" by (auto simp: cancel_def split: if_splits)
  from cancel_ok [OF assms(1) this] assms show ?thesis
    by (auto simp: tm_inv_def timer_set.sorted_removeAll split: if_splits)
qed

text \<open>Re-inserting a timer under a new deadline, as \<open>refresh\<close> and \<open>reset\<close> do.\<close>

lemma reinsert_ok:
  assumes inv: "tm_inv mgr" and f: "t_func (tobj mgr p) \<noteq> None"
    and t: "t_func t = t_func (tobj mgr p)" "t_manager t"
  shows "\<exists>b mgr'. addTimer_lck p True (mgr\<lparr>m_timers := removeAll p (m_timers mgr),
      tobj := (tobj mgr)(p := t)\<rparr>) = Inr (b, False, mgr') \<and> tm_inv mgr'
    \<and> tobj mgr' = (tobj mgr)(p := t) \<and> set (m_timers mgr') = set (m_timers mgr)
    \<and> m_isTickled mgr' = (m_isTickled mgr \<or> b)"
proof -
  let ?m = "mgr\<lparr>m_timers := removeAll p (m_timers mgr), tobj := (tobj mgr)(p := t)\<rparr>"
  have p: "p \<in> set (m_timers mgr)" using tm_inv_func [OF inv] f by simp
  have "sorted_wrt (timer_less (tobj ?m)) (m_timers ?m)"
    using tm_inv_sorted [OF inv] by (simp add: timer_set.sorted_removeAll)
  then obtain b mgr' where
    "addTimer_lck p True ?m = Inr (b, False, mgr')" and "tobj mgr' = tobj ?m"
    and "m_previouseTime mgr' = m_previouseTime ?m"
    and s: "set (m_timers mgr') = insert p (set (m_timers ?m))"
    and "sorted_wrt (timer_less (tobj mgr')) (m_timers mgr')"
    and "m_isTickled mgr' = (m_isTickled ?m \<or> b)" "b \<longrightarrow> \<not> m_isTickled ?m"
    by (rule addTimer_lck_ok)
  moreover from s p have "set (m_timers mgr') = set (m_timers mgr)" by auto
  moreover from calculation have "tm_inv mgr'"
    using inv t f by (auto simp: tm_inv_def)
  ultimately show ?thesis by auto
qed

lemma refresh_ok:
  assumes inv: "tm_inv mgr" and m: "t_manager (tobj mgr p)" and f: "t_func (tobj mgr p) \<noteq> None"
  shows "\<exists>b mgr'. refresh p now mgr = Inr (True, b, mgr') \<and> tm_inv mgr'
    \<and> tobj mgr' = (tobj mgr)(p := (tobj mgr p)\<lparr>t_next := now + t_periodInMs (tobj mgr p)\<rparr>)
    \<and> set (m_timers mgr') = set (m_timers mgr) \<and> m_isTickled mgr' = (m_isTickled mgr \<or> b)"
proof -
  have p: "p \<in> set (m_timers mgr)" using tm_inv_func [OF inv] f by simp
  from reinsert_ok [OF inv f, of "(tobj mgr p)\<lparr>t_next := now + t_periodInMs (tobj mgr p)\<rparr>"]
    erase_timer [OF tm_inv_sorted [OF inv] p] find_timer [OF inv, of p] p m f
  show ?thesis by (auto simp: refresh_def Let_def)
qed

lemma reset_ok:
  assumes inv: "tm_inv mgr" and m: "t_manager (tobj mgr p)" and f: "t_func (tobj mgr p) \<noteq> None"
    and c: "ms \<noteq> t_periodInMs (tobj mgr p) \<or> fromNow"
  shows "\<exists>b mgr'. reset p ms fromNow now mgr = Inr (True, b, mgr') \<and> tm_inv mgr'
    \<and> tobj mgr' = (tobj mgr)(p := (tobj mgr p)\<lparr>t_periodInMs := ms,
        t_next := (if fromNow then now else t_next (tobj mgr p) - t_periodInMs (tobj mgr p)) + ms\<rparr>)
    \<and> set (m_timers mgr') = set (m_timers mgr) \<and> m_isTickled mgr' = (m_isTickled mgr \<or> b)"
proof -
  have p: "p \<in> set (m_timers mgr)" using tm_inv_func [OF inv] f by simp
  let ?t = "(tobj mgr p)\<lparr>t_periodInMs := ms,
        t_next := (if fromNow then now else t_next (tobj mgr p) - t_periodInMs (tobj mgr p)) + ms\<rparr>"
  from reinsert_ok [OF inv f, of ?t]
    erase_timer [OF tm_inv_sorted [OF inv] p] find_timer [OF inv, of p] p m f c
  show ?thesis by (auto simp: reset_def Let_def)
qed

section \<open>Expiry\<close>

text \<open>What the loop does to one expired timer, and the timers that are due.\<close>

definition fired :: "u64 \<Rightarrow> 'u Timer \<Rightarrow> 'u Timer" where
  "fired now t = (if t_repeat t then t\<lparr>t_next := now + t_periodInMs t\<rparr> else t\<lparr>t_func := None\<rparr>)"

definition due_timers :: "u64 \<Rightarrow> 'u TimerManager \<Rightarrow> nat list" where
  "due_timers now mgr = filter (\<lambda>p. t_next (tobj mgr p) \<le> now) (m_timers mgr)"

definition repeating :: "'u TimerManager \<Rightarrow> nat list \<Rightarrow> nat list" where
  "repeating mgr ps = filter (\<lambda>p. t_repeat (tobj mgr p)) ps"

lemma fired_simps [simp]:
  "t_manager (fired now t) = t_manager t"
  "t_repeat (fired now t) = t_repeat t"
  by (simp_all add: fired_def)

lemma repeating_Cons [simp]:
  "repeating mgr [] = []"
  "repeating mgr (p # ps) = (if t_repeat (tobj mgr p) then p # repeating mgr ps else repeating mgr ps)"
  by (simp_all add: repeating_def)

lemma repeating_cong:
  "(\<And>p. p \<in> set ps \<Longrightarrow> t_repeat (tobj m' p) = t_repeat (tobj m p)) \<Longrightarrow> repeating m' ps = repeating m ps"
  by (simp add: repeating_def cong: filter_cong)

lemma sorted_prefix_is_filter:
  assumes "sorted (map f ps)"
  shows "takeWhile (\<lambda>p. f p \<le> (c :: u64)) ps = filter (\<lambda>p. f p \<le> c) ps"
    and "dropWhile (\<lambda>p. f p \<le> c) ps = filter (\<lambda>p. c < f p) ps"
proof -
  have "takeWhile (\<lambda>p. f p \<le> c) ps = filter (\<lambda>p. f p \<le> c) ps
    \<and> dropWhile (\<lambda>p. f p \<le> c) ps = filter (\<lambda>p. c < f p) ps"
    using assms
  proof (induction ps)
    case (Cons a ps)
    show ?case
    proof (cases "f a \<le> c")
      case True
      with Cons show ?thesis by auto
    next
      case False
      with Cons.prems have later: "\<forall>b \<in> set ps. c < f b" by (auto simp: not_le)
      then have "filter (\<lambda>p. f p \<le> c) ps = []" "filter (\<lambda>p. c < f p) ps = ps"
        by (auto simp: filter_empty_conv filter_id_conv)
      with False show ?thesis by simp
    qed
  qed simp
  then show "takeWhile (\<lambda>p. f p \<le> c) ps = filter (\<lambda>p. f p \<le> c) ps"
    "dropWhile (\<lambda>p. f p \<le> c) ps = filter (\<lambda>p. c < f p) ps" by auto
qed

text \<open>
  The range the code erases: whatever address the search key has, the lower bound and the
  loop over equal deadlines meet at the first timer whose deadline is later than \<open>now\<close>.
\<close>

lemma lower_bound_then_equal:
  assumes "sorted (map f ts)"
  shows "length (takeWhile (\<lambda>p. f p < now \<or> f p = now \<and> p < q) ts)
      + length (takeWhile (\<lambda>p. f p = now) (drop (length (takeWhile (\<lambda>p. f p < now \<or> f p = now \<and> p < q) ts)) ts))
    = length (takeWhile (\<lambda>p. f p \<le> (now :: u64)) (ts :: nat list))"
  using assms
proof (induction ts)
  case (Cons a ts)
  show ?case
  proof (cases "f a < now \<or> f a = now \<and> a < q")
    case True
    with Cons show ?thesis by auto
  next
    case False
    with Cons.prems have ge: "\<forall>b \<in> set (a # ts). now \<le> f b"
      by (fastforce simp: not_less)
    have "takeWhile (\<lambda>p. f p = now) (a # ts) = takeWhile (\<lambda>p. f p \<le> now) (a # ts)"
      using ge by (intro takeWhile_cong) auto
    with False show ?thesis by auto
  qed
qed simp

lemma expired_end_due:
  assumes s: "sorted_wrt (timer_less (tobj mgr)) (m_timers mgr)" and q: "q \<notin> set (m_timers mgr)"
  shows "take (expired_end q now False mgr) (m_timers mgr) = due_timers now mgr"
    and "drop (expired_end q now False mgr) (m_timers mgr)
      = filter (\<lambda>p. now < t_next (tobj mgr p)) (m_timers mgr)"
proof -
  let ?ts = "m_timers mgr" and ?f = "\<lambda>p. t_next (tobj mgr p)"
  let ?h = "(tobj mgr)(q := Timer_at now)"
  have sd: "sorted (map ?f ?ts)" using s by (rule sorted_deadlines)
  have same: "?h p = tobj mgr p" "p \<noteq> q" if "p \<in> set ?ts" for p using that q by auto
  have "takeWhile (\<lambda>p. timer_less ?h p q) ?ts = takeWhile (\<lambda>p. ?f p < now \<or> ?f p = now \<and> p < q) ?ts"
    by (intro takeWhile_cong refl) (simp add: timer_less_iff same Timer_at_def)
  moreover have "takeWhile (\<lambda>p. t_next (?h p) = now) (drop i ?ts) = takeWhile (\<lambda>p. ?f p = now) (drop i ?ts)" for i
    by (intro takeWhile_cong refl) (use same in_set_dropD in metis)
  ultimately have "expired_end q now False mgr = length (takeWhile (\<lambda>p. ?f p \<le> now) ?ts)"
    using lower_bound_then_equal [OF sd, of now q]
    by (simp add: expired_end_def set_lower_bound_def Let_def del: fun_upd_apply)
  then have "take (expired_end q now False mgr) ?ts = takeWhile (\<lambda>p. ?f p \<le> now) ?ts"
    and "drop (expired_end q now False mgr) ?ts = dropWhile (\<lambda>p. ?f p \<le> now) ?ts"
    by (simp_all only: takeWhile_eq_take [symmetric] dropWhile_eq_drop [symmetric])
  with sorted_prefix_is_filter [OF sd, of now]
  show "take (expired_end q now False mgr) ?ts = due_timers now mgr"
    and "drop (expired_end q now False mgr) ?ts = filter (\<lambda>p. now < ?f p) ?ts"
    by (simp_all add: due_timers_def)
qed

lemma expired_end_rollover [simp]: "expired_end q now True mgr = length (m_timers mgr)"
  by (simp add: expired_end_def)

text \<open>One round of the loop, when its timer does not repeat or the lock is still owned.\<close>

lemma expire_step:
  assumes ok: "t_repeat (tobj mgr p) \<longrightarrow> owns" and p: "p \<notin> set (m_timers mgr)"
    and s: "sorted_wrt (timer_less (tobj mgr)) (m_timers mgr)"
  obtains m1 where
    "\<forall>ps fs n. expire_loop now (p # ps) owns fs n mgr = expire_loop now ps (owns \<and> \<not> t_repeat (tobj mgr p))
      (fs @ [t_func (tobj mgr p)]) (n + of_bool (m_isTickled m1 \<and> \<not> m_isTickled mgr)) m1"
    and "tobj m1 = (tobj mgr)(p := fired now (tobj mgr p))"
    and "set (m_timers m1) = (if t_repeat (tobj mgr p) then insert p (set (m_timers mgr)) else set (m_timers mgr))"
    and "sorted_wrt (timer_less (tobj m1)) (m_timers m1)"
    and "m_previouseTime m1 = m_previouseTime mgr"
    and "m_isTickled mgr \<longrightarrow> m_isTickled m1"
proof (cases "t_repeat (tobj mgr p)")
  case True
  let ?t = "tobj mgr p"
  let ?m1 = "mgr\<lparr>tobj := (tobj mgr)(p := ?t\<lparr>t_next := now + t_periodInMs ?t\<rparr>)\<rparr>"
  have "sorted_wrt (timer_less (tobj ?m1)) (m_timers ?m1)" using s p by simp
  then obtain b m2 where
    m2: "addTimer_lck p True ?m1 = Inr (b, False, m2)" "tobj m2 = tobj ?m1"
    "m_previouseTime m2 = m_previouseTime ?m1"
    "set (m_timers m2) = insert p (set (m_timers ?m1))"
    "sorted_wrt (timer_less (tobj m2)) (m_timers m2)"
    "m_isTickled m2 = (m_isTickled ?m1 \<or> b)" "b \<longrightarrow> \<not> m_isTickled ?m1"
    by (rule addTimer_lck_ok)
  show thesis
    by (rule that [of m2]) (use True ok m2 in \<open>auto simp: Let_def fired_def\<close>)
next
  case False
  then show thesis
    by (intro that [of "mgr\<lparr>tobj := (tobj mgr)(p := (tobj mgr p)\<lparr>t_func := None\<rparr>)\<rparr>"])
      (use s in \<open>auto simp: Let_def fired_def\<close>)
qed

lemma repeating_after_step:
  "tobj m1 = (tobj mgr)(p := fired now (tobj mgr p)) \<Longrightarrow> repeating m1 ps = repeating mgr ps"
  by (rule repeating_cong) auto

text \<open>
  The loop: with the lock still owned it survives one repeating timer, without it none.
\<close>

lemma expire_loop_faults:
  "of_bool owns < length (repeating mgr ps) \<Longrightarrow> distinct ps \<Longrightarrow>
    sorted_wrt (timer_less (tobj mgr)) (m_timers mgr) \<Longrightarrow> set ps \<inter> set (m_timers mgr) = {} \<Longrightarrow>
    expire_loop now ps owns fs n mgr = Inl SystemError"
proof (induction ps arbitrary: owns fs n mgr)
  case (Cons p ps)
  show ?case
  proof (cases "t_repeat (tobj mgr p) \<longrightarrow> owns")
    case False
    then show ?thesis by (simp add: Let_def)
  next
    case True
    have p: "p \<notin> set (m_timers mgr)" using Cons.prems by simp
    obtain m1 where m1:
      "\<forall>ps fs n. expire_loop now (p # ps) owns fs n mgr = expire_loop now ps (owns \<and> \<not> t_repeat (tobj mgr p))
        (fs @ [t_func (tobj mgr p)]) (n + of_bool (m_isTickled m1 \<and> \<not> m_isTickled mgr)) m1"
      "tobj m1 = (tobj mgr)(p := fired now (tobj mgr p))"
      "set (m_timers m1) = (if t_repeat (tobj mgr p) then insert p (set (m_timers mgr)) else set (m_timers mgr))"
      "sorted_wrt (timer_less (tobj m1)) (m_timers m1)"
      "m_previouseTime m1 = m_previouseTime mgr" "m_isTickled mgr \<longrightarrow> m_isTickled m1"
      by (rule expire_step [OF True p Cons.prems(3), where now = now])
    have "expire_loop now ps (owns \<and> \<not> t_repeat (tobj mgr p)) fs n m1 = Inl SystemError" for fs n
      using True Cons.prems m1(3) repeating_after_step [OF m1(2), of ps]
      by (intro Cons.IH m1(4)) (auto split: if_splits)
    with m1(1) show ?thesis by simp
  qed
qed simp

lemma expire_loop_ok:
  assumes "length (repeating mgr ps) \<le> of_bool owns" and "distinct ps"
    and "sorted_wrt (timer_less (tobj mgr)) (m_timers mgr)" and "set ps \<inter> set (m_timers mgr) = {}"
  shows "\<exists>n' mgr'.
    expire_loop now ps owns fs n mgr = Inr (fs @ map (\<lambda>p. t_func (tobj mgr p)) ps, n', mgr')
    \<and> tobj mgr' = (\<lambda>p. if p \<in> set ps then fired now (tobj mgr p) else tobj mgr p)
    \<and> set (m_timers mgr') = set (m_timers mgr) \<union> set (repeating mgr ps)
    \<and> sorted_wrt (timer_less (tobj mgr')) (m_timers mgr')
    \<and> m_previouseTime mgr' = m_previouseTime mgr
    \<and> (m_isTickled mgr \<longrightarrow> m_isTickled mgr')
    \<and> n' = n + of_bool (m_isTickled mgr' \<and> \<not> m_isTickled mgr)"
  using assms
proof (induction ps arbitrary: owns fs n mgr)
  case Nil
  then show ?case by simp
next
  case (Cons p ps)
  have ok: "t_repeat (tobj mgr p) \<longrightarrow> owns" using Cons.prems(1) by (cases owns) auto
  have p: "p \<notin> set (m_timers mgr)" using Cons.prems(4) by simp
  obtain m1 where m1:
    "\<forall>ps fs n. expire_loop now (p # ps) owns fs n mgr = expire_loop now ps (owns \<and> \<not> t_repeat (tobj mgr p))
      (fs @ [t_func (tobj mgr p)]) (n + of_bool (m_isTickled m1 \<and> \<not> m_isTickled mgr)) m1"
    "tobj m1 = (tobj mgr)(p := fired now (tobj mgr p))"
    "set (m_timers m1) = (if t_repeat (tobj mgr p) then insert p (set (m_timers mgr)) else set (m_timers mgr))"
    "sorted_wrt (timer_less (tobj m1)) (m_timers m1)"
    "m_previouseTime m1 = m_previouseTime mgr" "m_isTickled mgr \<longrightarrow> m_isTickled m1"
    by (rule expire_step [OF ok p Cons.prems(3), where now = now])
  have rep: "repeating m1 ps = repeating mgr ps" using m1(2) by (rule repeating_after_step)
  have "length (repeating m1 ps) \<le> of_bool (owns \<and> \<not> t_repeat (tobj mgr p))"
    using Cons.prems(1) rep by (cases owns) (auto split: if_splits)
  moreover have "distinct ps" "set ps \<inter> set (m_timers m1) = {}"
    using Cons.prems(2,4) m1(3) by auto
  ultimately obtain n' m' where
    m': "expire_loop now (p # ps) owns fs n mgr
        = Inr ((fs @ [t_func (tobj mgr p)]) @ map (\<lambda>r. t_func (tobj m1 r)) ps, n', m')"
    "tobj m' = (\<lambda>r. if r \<in> set ps then fired now (tobj m1 r) else tobj m1 r)"
    "set (m_timers m') = set (m_timers m1) \<union> set (repeating m1 ps)"
    "sorted_wrt (timer_less (tobj m')) (m_timers m')"
    "m_previouseTime m' = m_previouseTime m1" "m_isTickled m1 \<longrightarrow> m_isTickled m'"
    "n' = n + of_bool (m_isTickled m1 \<and> \<not> m_isTickled mgr) + of_bool (m_isTickled m' \<and> \<not> m_isTickled m1)"
    using Cons.IH [OF _ _ m1(4), of "owns \<and> \<not> t_repeat (tobj mgr p)" "fs @ [t_func (tobj mgr p)]"
      "n + of_bool (m_isTickled m1 \<and> \<not> m_isTickled mgr)"] m1(1) by (auto simp del: expire_loop.simps)
  have "map (\<lambda>r. t_func (tobj m1 r)) ps = map (\<lambda>r. t_func (tobj mgr r)) ps"
    and "tobj m' = (\<lambda>r. if r \<in> set (p # ps) then fired now (tobj mgr r) else tobj mgr r)"
    and "n' = n + of_bool (m_isTickled m' \<and> \<not> m_isTickled mgr)"
    using m1(2,6) m'(2,6,7) Cons.prems(2) by auto
  with m' m1(3,5,6) rep show ?case by auto
qed

subsection \<open>The whole expiry operation\<close>

text \<open>The timers one call expires: all of them after a rollover, else those that are due.\<close>

definition expired_timers :: "u64 \<Rightarrow> 'u TimerManager \<Rightarrow> nat list" where
  "expired_timers now mgr =
     (if fst (detectClockRollover now mgr) then m_timers mgr else due_timers now mgr)"

lemma expired_timers_subset: "set (expired_timers now mgr) \<subseteq> set (m_timers mgr)"
  by (auto simp: expired_timers_def due_timers_def)

text \<open>Away from the early returns the operation is the loop on the expired timers.\<close>

lemma listExpiredFunc_eq:
  assumes inv: "tm_inv mgr" and q: "q \<notin> set (m_timers mgr)" and ex: "expired_timers now mgr \<noteq> []"
  shows "listExpiredFunc q now mgr = expire_loop now (expired_timers now mgr) True [] 0
    (mgr\<lparr>m_previouseTime := now,
         m_timers := filter (\<lambda>p. p \<notin> set (expired_timers now mgr)) (m_timers mgr)\<rparr>)"
proof -
  from ex obtain p ps where ts: "m_timers mgr = p # ps"
    by (cases "m_timers mgr") (auto simp: expired_timers_def due_timers_def split: if_splits)
  have d: "distinct (m_timers mgr)" using inv by (rule tm_inv_distinct)
  obtain roll where roll: "detectClockRollover now mgr = (roll, mgr\<lparr>m_previouseTime := now\<rparr>)"
    by (simp add: detectClockRollover_def Let_def)
  show ?thesis
  proof (cases roll)
    case True
    with roll ts show ?thesis
      by (simp add: listExpiredFunc_def expired_timers_def expired_end_def Let_def)
  next
    case False
    let ?m = "mgr\<lparr>m_previouseTime := now\<rparr>"
    have s: "sorted_wrt (timer_less (tobj ?m)) (m_timers ?m)" "q \<notin> set (m_timers ?m)"
      using tm_inv_sorted [OF inv] q by simp_all
    have due: "expired_timers now mgr = due_timers now ?m"
      using roll False by (simp add: expired_timers_def due_timers_def)
    have "\<not> now < t_next (tobj mgr p)"
    proof
      assume "now < t_next (tobj mgr p)"
      then have "\<forall>r \<in> set (m_timers mgr). now < t_next (tobj mgr r)"
        using s(1) ts by (auto simp: timer_less_iff)
      with ex due show False by (auto simp: due_timers_def filter_empty_conv not_le)
    qed
    moreover have "filter (\<lambda>r. r \<notin> set (expired_timers now mgr)) (m_timers mgr)
        = filter (\<lambda>r. now < t_next (tobj mgr r)) (m_timers mgr)"
      unfolding due by (rule filter_cong) (auto simp: due_timers_def)
    ultimately show ?thesis
      using roll False ts due expired_end_due [OF s, of now]
      by (simp add: listExpiredFunc_def Let_def)
  qed
qed

lemma listExpiredFunc_none:
  assumes inv: "tm_inv mgr" and ex: "expired_timers now mgr = []"
  shows "\<exists>e. listExpiredFunc q now mgr = Inr ([], 0, mgr\<lparr>m_previouseTime := e\<rparr>)"
proof (cases "m_timers mgr")
  case Nil
  then show ?thesis
    by (intro exI [of _ "m_previouseTime mgr"]) (simp add: listExpiredFunc_def)
next
  case (Cons p ps)
  with ex have "\<not> fst (detectClockRollover now mgr)" and "now < t_next (tobj mgr p)"
    by (auto simp: expired_timers_def due_timers_def split: if_splits)
  with Cons show ?thesis
    by (intro exI [of _ now]) (simp add: listExpiredFunc_def detectClockRollover_def Let_def)
qed

lemma expire_loop_start:
  assumes inv: "tm_inv mgr"
  shows "distinct (expired_timers now mgr)"
    and "sorted_wrt (timer_less (tobj mgr)) (filter (\<lambda>p. p \<notin> set (expired_timers now mgr)) (m_timers mgr))"
    and "set (expired_timers now mgr) \<inter> set (filter (\<lambda>p. p \<notin> set (expired_timers now mgr)) (m_timers mgr)) = {}"
  using tm_inv_distinct [OF inv] tm_inv_sorted [OF inv]
  by (auto simp: expired_timers_def due_timers_def sorted_wrt_filter)

lemma listExpiredFunc_faults:
  assumes inv: "tm_inv mgr" and q: "q \<notin> set (m_timers mgr)"
    and two: "2 \<le> length (repeating mgr (expired_timers now mgr))"
  shows "listExpiredFunc q now mgr = Inl SystemError"
proof -
  from two have ex: "expired_timers now mgr \<noteq> []" by auto
  let ?m = "mgr\<lparr>m_previouseTime := now,
         m_timers := filter (\<lambda>p. p \<notin> set (expired_timers now mgr)) (m_timers mgr)\<rparr>"
  have "repeating ?m (expired_timers now mgr) = repeating mgr (expired_timers now mgr)"
    by (rule repeating_cong) simp
  with two expire_loop_start [OF inv, of now] show ?thesis
    unfolding listExpiredFunc_eq [OF inv q ex] by (intro expire_loop_faults) simp_all
qed

lemma listExpiredFunc_ok:
  assumes inv: "tm_inv mgr" and q: "q \<notin> set (m_timers mgr)"
    and one: "length (repeating mgr (expired_timers now mgr)) \<le> 1"
  shows "\<exists>n mgr'. listExpiredFunc q now mgr
      = Inr (map (\<lambda>p. t_func (tobj mgr p)) (expired_timers now mgr), n, mgr')
    \<and> tobj mgr' = (\<lambda>p. if p \<in> set (expired_timers now mgr) then fired now (tobj mgr p) else tobj mgr p)
    \<and> set (m_timers mgr') = set (m_timers mgr) - set (expired_timers now mgr)
        \<union> set (repeating mgr (expired_timers now mgr))
    \<and> tm_inv mgr' \<and> (m_isTickled mgr \<longrightarrow> m_isTickled mgr')
    \<and> n = of_bool (m_isTickled mgr' \<and> \<not> m_isTickled mgr)"
proof (cases "expired_timers now mgr = []")
  case True
  from listExpiredFunc_none [OF inv True, of q] obtain e where
    "listExpiredFunc q now mgr = Inr ([], 0, mgr\<lparr>m_previouseTime := e\<rparr>)" by blast
  moreover have "tm_inv (mgr\<lparr>m_previouseTime := e\<rparr>)" using inv by (simp add: tm_inv_def)
  ultimately show ?thesis using True
    by (intro exI [of _ 0] exI [of _ "mgr\<lparr>m_previouseTime := e\<rparr>"]) simp
next
  case False
  let ?ex = "expired_timers now mgr"
  let ?m = "mgr\<lparr>m_previouseTime := now, m_timers := filter (\<lambda>p. p \<notin> set ?ex) (m_timers mgr)\<rparr>"
  have rep: "repeating ?m ?ex = repeating mgr ?ex" by (rule repeating_cong) simp
  have "\<exists>n' mgr'. expire_loop now ?ex True [] 0 ?m
      = Inr ([] @ map (\<lambda>p. t_func (tobj ?m p)) ?ex, n', mgr')
    \<and> tobj mgr' = (\<lambda>p. if p \<in> set ?ex then fired now (tobj ?m p) else tobj ?m p)
    \<and> set (m_timers mgr') = set (m_timers ?m) \<union> set (repeating ?m ?ex)
    \<and> sorted_wrt (timer_less (tobj mgr')) (m_timers mgr')
    \<and> m_previouseTime mgr' = m_previouseTime ?m
    \<and> (m_isTickled ?m \<longrightarrow> m_isTickled mgr')
    \<and> n' = 0 + of_bool (m_isTickled mgr' \<and> \<not> m_isTickled ?m)"
    by (rule expire_loop_ok) (use one rep expire_loop_start [OF inv, of now] in simp_all)
  then obtain n' m' where L: "expire_loop now ?ex True [] 0 ?m
      = Inr ([] @ map (\<lambda>p. t_func (tobj ?m p)) ?ex, n', m')"
    and T: "tobj m' = (\<lambda>p. if p \<in> set ?ex then fired now (tobj ?m p) else tobj ?m p)"
    and S: "set (m_timers m') = set (m_timers ?m) \<union> set (repeating ?m ?ex)"
    and O: "sorted_wrt (timer_less (tobj m')) (m_timers m')"
    and K: "m_isTickled ?m \<longrightarrow> m_isTickled m'" "n' = 0 + of_bool (m_isTickled m' \<and> \<not> m_isTickled ?m)"
    by (elim exE conjE) (rule that)
  have m': "listExpiredFunc q now mgr = Inr (map (\<lambda>p. t_func (tobj mgr p)) ?ex, n', m')"
    "tobj m' = (\<lambda>p. if p \<in> set ?ex then fired now (tobj mgr p) else tobj mgr p)"
    "set (m_timers m') = set (m_timers mgr) - set ?ex \<union> set (repeating mgr ?ex)"
    using listExpiredFunc_eq [OF inv q False] L T S rep by auto
  have "tm_inv m'"
    unfolding tm_inv_def
  proof (intro conjI allI impI ballI)
    fix p
    show "t_func (tobj m' p) \<noteq> None \<Longrightarrow> p \<in> set (m_timers m')"
      using tm_inv_func [OF inv, of p] m'(2,3)
      by (auto simp: fired_def repeating_def split: if_splits)
    show "p \<in> set (m_timers m') \<Longrightarrow> t_manager (tobj m' p)"
      using tm_inv_manager [OF inv, of p] m'(2,3) expired_timers_subset [of now mgr]
      by (auto simp: repeating_def)
  qed (rule O)
  with m' K show ?thesis by (intro exI [of _ n'] exI [of _ m']) simp
qed

section \<open>Runs of the manager\<close>

text \<open>
  One public operation on the manager, with the number of \<open>onTimerInsertedAtFront\<close> calls so
  far as the second component. \<open>new\<close> returns an address that is not that of a live timer.
\<close>

inductive tm_step :: "'u TimerManager \<times> nat \<Rightarrow> 'u TimerManager \<times> nat \<Rightarrow> bool" where
  add: "p \<notin> set (m_timers mgr) \<Longrightarrow> addTimer p ms func rep now mgr = Inr (b, mgr') \<Longrightarrow>
    tm_step (mgr, k) (mgr', k + of_bool b)"
| cancel: "cancel p mgr = Inr (r, mgr') \<Longrightarrow> tm_step (mgr, k) (mgr', k)"
| refresh: "refresh p now mgr = Inr (r, b, mgr') \<Longrightarrow> tm_step (mgr, k) (mgr', k + of_bool b)"
| reset: "reset p ms fromNow now mgr = Inr (r, b, mgr') \<Longrightarrow> tm_step (mgr, k) (mgr', k + of_bool b)"
| expire: "q \<notin> set (m_timers mgr) \<Longrightarrow> listExpiredFunc q now mgr = Inr (fs, n, mgr') \<Longrightarrow>
    tm_step (mgr, k) (mgr', k + n)"

inductive_cases tm_stepE: "tm_step (mgr, k) t"

definition tm_start :: "'u TimerManager \<times> nat \<Rightarrow> bool" where
  "tm_start s \<longleftrightarrow> (\<exists>h e. (\<forall>p. t_func (h p) = None) \<and> s = (TimerManager_new h e, 0))"

text \<open>The invariant of runs: the manager's, and the flag counts the notifications.\<close>

definition tm_good :: "'u TimerManager \<times> nat \<Rightarrow> bool" where
  "tm_good s \<longleftrightarrow> tm_inv (fst s) \<and> snd s = of_bool (m_isTickled (fst s))"

lemma addTimer_lck_tickled:
  "addTimer_lck p w mgr = Inr (b, w', mgr') \<Longrightarrow>
    m_isTickled mgr' = (m_isTickled mgr \<or> b) \<and> (b \<longrightarrow> \<not> m_isTickled mgr)"
  by (auto simp: addTimer_lck_def Let_def split: prod.splits if_splits)

lemma refresh_tickled:
  "refresh p now mgr = Inr (r, b, mgr') \<Longrightarrow>
    m_isTickled mgr' = (m_isTickled mgr \<or> b) \<and> (b \<longrightarrow> \<not> m_isTickled mgr)"
  by (auto simp: refresh_def Let_def rbind_eq_Inr split: if_splits dest!: addTimer_lck_tickled)

lemma reset_tickled:
  "reset p ms fromNow now mgr = Inr (r, b, mgr') \<Longrightarrow>
    m_isTickled mgr' = (m_isTickled mgr \<or> b) \<and> (b \<longrightarrow> \<not> m_isTickled mgr)"
  by (auto simp: reset_def Let_def rbind_eq_Inr split: if_splits dest!: addTimer_lck_tickled)

lemma tm_inv_refresh:
  assumes "tm_inv mgr" and "refresh p now mgr = Inr (r, b, mgr')"
  shows "tm_inv mgr'"
proof (cases "t_func (tobj mgr p) = None")
  case False
  moreover from assms(2) have "t_manager (tobj mgr p)" by (auto simp: refresh_def split: if_splits)
  ultimately show ?thesis using refresh_ok [OF assms(1), of p now] assms(2) by auto
qed (use assms in \<open>auto simp: refresh_def split: if_splits\<close>)

lemma tm_inv_reset:
  assumes "tm_inv mgr" and "reset p ms fromNow now mgr = Inr (r, b, mgr')"
  shows "tm_inv mgr'"
proof (cases "t_func (tobj mgr p) = None \<or> ms = t_periodInMs (tobj mgr p) \<and> \<not> fromNow")
  case False
  moreover from False assms(2) have "t_manager (tobj mgr p)" by (auto simp: reset_def split: if_splits)
  ultimately show ?thesis using reset_ok [OF assms(1), of p ms fromNow now] assms(2) by auto
qed (use assms in \<open>auto simp: reset_def split: if_splits\<close>)

lemma cancel_tickled: "cancel p mgr = Inr (r, mgr') \<Longrightarrow> m_isTickled mgr' = m_isTickled mgr"
  by (auto simp: cancel_def Let_def rbind_eq_Inr split: if_splits)

lemma listExpiredFunc_inv:
  assumes inv: "tm_inv mgr" and q: "q \<notin> set (m_timers mgr)"
    and r: "listExpiredFunc q now mgr = Inr (fs, n, mgr')"
  shows "tm_inv mgr' \<and> (m_isTickled mgr \<longrightarrow> m_isTickled mgr')
    \<and> n = of_bool (m_isTickled mgr' \<and> \<not> m_isTickled mgr)"
proof -
  have "\<not> 2 \<le> length (repeating mgr (expired_timers now mgr))"
    using listExpiredFunc_faults [OF inv q] r by force
  then have "length (repeating mgr (expired_timers now mgr)) \<le> 1" by simp
  from listExpiredFunc_ok [OF inv q this] r show ?thesis by auto
qed

interpretation timer_runs: step_invariant tm_start tm_step tm_good
proof unfold_locales
  fix s :: "'u TimerManager \<times> nat"
  assume "tm_start s"
  then show "tm_good s"
    by (auto simp: tm_start_def tm_good_def tm_inv_new) (simp add: TimerManager_new_def)
next
  fix s t :: "'u TimerManager \<times> nat"
  assume good: "tm_good s" and "tm_step s t"
  from this(2) show "tm_good t"
  proof cases
    case (add p mgr ms func rep now b mgr' k)
    from good add have "tm_inv mgr" "k = of_bool (m_isTickled mgr)" by (auto simp: tm_good_def)
    from tm_inv_addTimer [OF this(1) add(3), of ms func rep now] this(2) add show ?thesis
      by (auto simp: tm_good_def)
  next
    case (cancel p mgr r mgr' k)
    with good tm_inv_cancel [OF _ cancel(3)] cancel_tickled [OF cancel(3)] show ?thesis
      by (auto simp: tm_good_def)
  next
    case (refresh p now mgr r b mgr' k)
    with good tm_inv_refresh [OF _ refresh(3)] refresh_tickled [OF refresh(3)] show ?thesis
      by (auto simp: tm_good_def)
  next
    case (reset p ms fromNow now mgr r b mgr' k)
    with good tm_inv_reset [OF _ reset(3)] reset_tickled [OF reset(3)] show ?thesis
      by (auto simp: tm_good_def)
  next
    case (expire q mgr now fs n mgr' k)
    with good listExpiredFunc_inv [OF _ expire(3,4)] show ?thesis
      by (auto simp: tm_good_def)
  qed
qed

section \<open>Properties\<close>

text \<open>
  A concrete manager for the witnesses: the timer at address 1 fires at 100 ms, the ones
  at addresses 2 and 3 at 200 ms; only the last repeats.
\<close>

definition sample_heap :: "nat \<Rightarrow> nat Timer" where
  "sample_heap = (\<lambda>_. Timer_at 0)(1 := Timer_new 100 (Some (Callback 7)) False 0,
     2 := Timer_new 150 (Some (Callback 8)) False 50, 3 := Timer_new 200 (Some (Callback 9)) True 0)"

definition sample_mgr :: "nat TimerManager" where
  "sample_mgr = \<lparr>tobj = sample_heap, m_timers = [1, 2, 3], m_isTickled = True, m_previouseTime = 50\<rparr>"

lemmas sample_defs = sample_mgr_def sample_heap_def Timer_new_def Timer_at_def

lemma sample_inv: "tm_inv sample_mgr"
  by (auto simp: tm_inv_def sample_defs timer_less_iff split: if_splits)

lemma sample_no_rollover: "\<not> fst (detectClockRollover 200 sample_mgr)"
  by (simp add: detectClockRollover_def sample_defs)

lemma sample_due: "due_timers 200 sample_mgr = [1, 2, 3]"
  by (simp add: due_timers_def sample_defs)

text \<open>
  (C15) Whatever sequence of \<open>addTimer\<close>, \<open>cancel\<close>, \<open>refresh\<close>, \<open>reset\<close> and \<open>listExpiredFunc\<close>
  calls a manager has served since its construction, its set is in comparator order, every
  timer that still has a callback is in the set, and \<open>onTimerInsertedAtFront\<close> has been
  called at most once: exactly once as soon as \<open>m_isTickled\<close> is set, since nothing resets it.
\<close>

theorem timer_manager_runs:
  assumes "\<forall>p. t_func (h p) = None"
    and "tm_step\<^sup>*\<^sup>* (TimerManager_new h e, 0) (mgr, k)"
  shows "tm_inv mgr \<and> k = of_bool (m_isTickled mgr) \<and> k \<le> 1"
proof -
  from assms(1) have "tm_start (TimerManager_new h e, 0)" by (auto simp: tm_start_def)
  from timer_runs.good_reachable [OF this assms(2)] show ?thesis by (auto simp: tm_good_def)
qed

theorem timer_manager_runs_witness:
  "\<exists>mgr. tm_step\<^sup>*\<^sup>* (TimerManager_new (\<lambda>_. Timer_at 0 :: nat Timer) 5, 0) (mgr, 1)
    \<and> m_timers mgr = [1, 2] \<and> tm_inv mgr \<and> m_isTickled mgr"
proof -
  let ?h = "\<lambda>_. Timer_at 0 :: nat Timer"
  let ?m0 = "TimerManager_new ?h 5"
  let ?m1 = "?m0\<lparr>tobj := ?h(1 := Timer_new 10 (Some (Callback 7)) False 5), m_timers := [1], m_isTickled := True\<rparr>"
  let ?m2 = "?m1\<lparr>tobj := ?h(1 := Timer_new 10 (Some (Callback 7)) False 5,
    2 := Timer_new 10 (Some (Callback 8)) True 5), m_timers := [1, 2]\<rparr>"
  have "addTimer 1 10 (Some (Callback 7)) False 5 ?m0 = Inr (True, ?m1)"
    by (simp add: addTimer_def addTimer_lck_def TimerManager_new_def set_insert_def set_lower_bound_def)
  then have s1: "tm_step (?m0, 0) (?m1, 0 + of_bool True)"
    by (intro tm_step.add) (simp_all add: TimerManager_new_def)
  have "addTimer 2 10 (Some (Callback 8)) True 5 ?m1 = Inr (False, ?m2)"
    by (simp add: addTimer_def addTimer_lck_def TimerManager_new_def set_insert_def
        set_lower_bound_def timer_less_iff Timer_new_def)
  then have s2: "tm_step (?m1, 1) (?m2, 1 + of_bool False)"
    by (intro tm_step.add) (simp_all add: TimerManager_new_def)
  from s1 s2 have run: "tm_step\<^sup>*\<^sup>* (?m0, 0) (?m2, 1)" by simp
  from timer_manager_runs [OF _ run] have "tm_inv ?m2" by (simp add: Timer_at_def)
  with run show ?thesis by (intro exI [of _ ?m2]) simp
qed

text \<open>
  (C10) When the clock did not roll over and at most one of the due timers repeats,
  \<open>listExpiredFunc\<close> returns the callbacks of exactly the timers whose deadline has been
  reached, in the order of their deadlines; afterwards the one-shot timers among them are
  gone and have no callback left, a repeating one is due one period from now, and every
  other timer is as before.
\<close>

theorem listExpiredFunc_exact:
  assumes "tm_inv mgr" and "q \<notin> set (m_timers mgr)"
    and "\<not> fst (detectClockRollover now mgr)"
    and "length (repeating mgr (due_timers now mgr)) \<le> 1"
  shows "\<exists>n mgr'. listExpiredFunc q now mgr
      = Inr (map (\<lambda>p. t_func (tobj mgr p)) (due_timers now mgr), n, mgr')
    \<and> sorted (map (\<lambda>p. t_next (tobj mgr p)) (due_timers now mgr))
    \<and> set (due_timers now mgr) = {p \<in> set (m_timers mgr). t_next (tobj mgr p) \<le> now}
    \<and> set (m_timers mgr') = {p \<in> set (m_timers mgr). now < t_next (tobj mgr p) \<or> t_repeat (tobj mgr p)}
    \<and> (\<forall>p. tobj mgr' p =
          (if p \<in> set (due_timers now mgr) then
             (if t_repeat (tobj mgr p)
              then (tobj mgr p)\<lparr>t_next := now + t_periodInMs (tobj mgr p)\<rparr>
              else (tobj mgr p)\<lparr>t_func := None\<rparr>)
           else tobj mgr p))
    \<and> tm_inv mgr'"
proof -
  have ex: "expired_timers now mgr = due_timers now mgr"
    using assms(3) by (simp add: expired_timers_def)
  from listExpiredFunc_ok [OF assms(1,2), of now] assms(4) obtain n mgr' where
    m': "listExpiredFunc q now mgr = Inr (map (\<lambda>p. t_func (tobj mgr p)) (due_timers now mgr), n, mgr')"
    "tobj mgr' = (\<lambda>p. if p \<in> set (due_timers now mgr) then fired now (tobj mgr p) else tobj mgr p)"
    "set (m_timers mgr') = set (m_timers mgr) - set (due_timers now mgr)
        \<union> set (repeating mgr (due_timers now mgr))" "tm_inv mgr'"
    unfolding ex by auto
  have "sorted (map (\<lambda>p. t_next (tobj mgr p)) (due_timers now mgr))"
    using tm_inv_sorted [OF assms(1)] unfolding due_timers_def
    by (intro sorted_deadlines sorted_wrt_filter)
  moreover have "set (due_timers now mgr) = {p \<in> set (m_timers mgr). t_next (tobj mgr p) \<le> now}"
    by (auto simp: due_timers_def)
  moreover have "set (m_timers mgr')
      = {p \<in> set (m_timers mgr). now < t_next (tobj mgr p) \<or> t_repeat (tobj mgr p)}"
    unfolding m'(3) by (auto simp: due_timers_def repeating_def not_le)
  moreover from m'(2) have "\<forall>p. tobj mgr' p =
      (if p \<in> set (due_timers now mgr) then
         (if t_repeat (tobj mgr p) then (tobj mgr p)\<lparr>t_next := now + t_periodInMs (tobj mgr p)\<rparr>
          else (tobj mgr p)\<lparr>t_func := None\<rparr>)
       else tobj mgr p)"
    by (simp add: fired_def)
  ultimately show ?thesis using m'(1,4) by blast
qed

theorem listExpiredFunc_exact_witness:
  "\<exists>n mgr'. listExpiredFunc 9 200 sample_mgr
      = Inr ([Some (Callback 7), Some (Callback 8), Some (Callback 9)], n, mgr')
    \<and> set (m_timers mgr') = {3} \<and> t_next (tobj mgr' 3) = 400"
proof -
  have "length (repeating sample_mgr (due_timers 200 sample_mgr)) \<le> 1" and "9 \<notin> set (m_timers sample_mgr)"
    by (simp_all add: sample_due) (simp_all add: sample_defs)
  from listExpiredFunc_exact [OF sample_inv this(2) sample_no_rollover this(1)]
  show ?thesis
    by (auto simp: sample_due) (auto simp: sample_defs)
qed

text \<open>
  (C33) \<open>listExpiredFunc\<close> throws \<open>std::system_error\<close> exactly when two or more of the timers it
  expires repeat: each repeating timer goes through \<open>addTimer(timer, lck)\<close>, which unlocks the
  one write lock of the call again. No other fault is possible.
\<close>

theorem listExpiredFunc_double_unlock:
  assumes "tm_inv mgr" and "q \<notin> set (m_timers mgr)"
  shows "(2 \<le> length (repeating mgr (expired_timers now mgr))
        \<longleftrightarrow> listExpiredFunc q now mgr = Inl SystemError)
    \<and> (\<forall>f. listExpiredFunc q now mgr = Inl f \<longrightarrow> f = SystemError)"
proof (cases "2 \<le> length (repeating mgr (expired_timers now mgr))")
  case True
  with listExpiredFunc_faults [OF assms] show ?thesis by simp
next
  case False
  then have "length (repeating mgr (expired_timers now mgr)) \<le> 1" by simp
  from listExpiredFunc_ok [OF assms this] False show ?thesis by auto
qed

theorem listExpiredFunc_double_unlock_witness:
  "listExpiredFunc 9 200
    (sample_mgr\<lparr>tobj := sample_heap(2 := Timer_new 150 (Some (Callback 8)) True 50)\<rparr>) = Inl SystemError"
proof -
  let ?m = "sample_mgr\<lparr>tobj := sample_heap(2 := Timer_new 150 (Some (Callback 8)) True 50)\<rparr>"
  have inv: "tm_inv ?m"
    by (auto simp: tm_inv_def sample_defs timer_less_iff split: if_splits)
  have "2 \<le> length (repeating ?m (expired_timers 200 ?m))" and "9 \<notin> set (m_timers ?m)"
    by (simp_all add: expired_timers_def due_timers_def detectClockRollover_def sample_defs)
  with listExpiredFunc_double_unlock [OF inv] show ?thesis by blast
qed

text \<open>
  (C34) Cancelling a timer that still has its callback finds it in the set (the iterator that
  is erased is never \<open>end()\<close>), removes it and nothing else, and is final: no later expiry
  reports it, and \<open>cancel\<close>, \<open>refresh\<close> and \<open>reset\<close> change nothing on it and return false, except
  that \<open>reset\<close> to the period the timer has already, not counting from now, returns true
  before it looks at the callback.
\<close>

theorem cancel_removes:
  assumes "tm_inv mgr" and "t_manager (tobj mgr p)" and "t_func (tobj mgr p) \<noteq> None"
  shows "\<exists>mgr'. cancel p mgr = Inr (True, mgr') \<and> tm_inv mgr'
    \<and> set (m_timers mgr') = set (m_timers mgr) - {p}
    \<and> (\<forall>r. r \<noteq> p \<longrightarrow> tobj mgr' r = tobj mgr r)
    \<and> (\<forall>now. p \<notin> set (expired_timers now mgr'))
    \<and> cancel p mgr' = Inr (False, mgr')
    \<and> (\<forall>now. refresh p now mgr' = Inr (False, False, mgr'))
    \<and> (\<forall>ms now. reset p ms True now mgr' = Inr (False, False, mgr'))
    \<and> (\<forall>ms fromNow now. reset p ms fromNow now mgr'
         = Inr (ms = t_periodInMs (tobj mgr p) \<and> \<not> fromNow, False, mgr'))"
proof -
  from cancel_ok [OF assms(1,2)] assms(3) have c: "cancel p mgr = Inr (True,
    mgr\<lparr>tobj := (tobj mgr)(p := (tobj mgr p)\<lparr>t_func := None\<rparr>),
        m_timers := removeAll p (m_timers mgr)\<rparr>)" (is "_ = Inr (True, ?m)") by simp
  have "p \<notin> set (expired_timers now ?m)" for now
    using expired_timers_subset [of now ?m] by auto
  moreover have "tm_inv ?m" using tm_inv_cancel [OF assms(1) c] .
  ultimately show ?thesis
    by (intro exI [of _ ?m]) (use c assms(2) in \<open>auto simp: cancel_def refresh_def reset_def\<close>)
qed

theorem cancel_removes_witness:
  "\<exists>mgr'. cancel 3 sample_mgr = Inr (True, mgr') \<and> set (m_timers mgr') = {1, 2}"
proof -
  have "t_manager (tobj sample_mgr 3)" and "t_func (tobj sample_mgr 3) \<noteq> None"
    by (simp_all add: sample_defs)
  from cancel_removes [OF sample_inv this] show ?thesis by (auto simp: sample_mgr_def)
qed

text \<open>
  With at least one timer, the delay \<open>getNextTimer\<close> returns is exact: after that many
  milliseconds some timer is due, and at no earlier reading of the clock is any.
\<close>

theorem getNextTimer_exact:
  assumes "tm_inv mgr" and "hasTimer mgr"
  shows "due_timers (now + getNextTimer now mgr) mgr \<noteq> []
    \<and> (\<forall>d < getNextTimer now mgr. due_timers (now + d) mgr = [])"
proof -
  from assms(2) obtain p ps where ts: "m_timers mgr = p # ps"
    by (cases "m_timers mgr") (auto simp: hasTimer_def)
  let ?next = "t_next (tobj mgr p)"
  have least: "?next \<le> t_next (tobj mgr r)" if "r \<in> set (m_timers mgr)" for r
    using sorted_deadlines [OF tm_inv_sorted [OF assms(1)]] that ts by auto
  have due: "due_timers t mgr = [] \<longleftrightarrow> t < ?next" for t
  proof -
    have "due_timers t mgr = [] \<longleftrightarrow> (\<forall>r \<in> set (m_timers mgr). t < t_next (tobj mgr r))"
      by (simp add: due_timers_def filter_empty_conv not_le)
    then show ?thesis using least ts by (auto intro: less_le_trans)
  qed
  show ?thesis
  proof (cases "now < ?next")
    case True
    have "now + d < ?next" if "d < ?next - now" for d
      using that True by unat_arith
    with True show ?thesis by (simp add: due getNextTimer_def ts)
  next
    case False
    then show ?thesis by (simp add: due getNextTimer_def ts)
  qed
qed

theorem getNextTimer_exact_witness:
  "getNextTimer 30 sample_mgr = 70 \<and> due_timers (30 + getNextTimer 30 sample_mgr) sample_mgr \<noteq> []
    \<and> due_timers (30 + 69) sample_mgr = []"
proof -
  have "hasTimer sample_mgr" by (simp add: hasTimer_def sample_mgr_def)
  moreover have "getNextTimer 30 sample_mgr = 70" by (simp add: getNextTimer_def sample_defs)
  moreover have "(69 :: u64) < 70" by simp
  ultimately show ?thesis using getNextTimer_exact [OF sample_inv, of 30] by metis
qed

text \<open>
  The rollover test in unbounded arithmetic: the clock went back, and either by more
  than an hour, or the previous reading was itself below one hour, since the 64-bit
  subtraction then wraps. In the second case going back by one millisecond is a rollover.
\<close>

theorem detectClockRollover_iff:
  "fst (detectClockRollover now mgr) \<longleftrightarrow>
     unat now < unat (m_previouseTime mgr)
     \<and> (unat (m_previouseTime mgr) < 3600000 \<or> unat now + 3600000 < unat (m_previouseTime mgr))"
proof -
  let ?p = "m_previouseTime mgr"
  have "now < ?p - 3600000 \<longleftrightarrow> unat ?p < 3600000 \<or> unat now + 3600000 < unat ?p" if "now < ?p"
    using that by (simp add: word_less_nat_alt unat_sub_if' linorder_not_le) (use unsigned_less [of ?p, where ?'a = nat] in linarith)
  then show ?thesis by (auto simp: detectClockRollover_def Let_def word_less_nat_alt)
qed

text \<open>
  \<open>reset(ms, false)\<close> on a pending timer keeps the moment its current period started:
  the deadline moves by exactly the change of the period, whatever the clock says; with
  \<open>fromNow\<close> the new period starts at the current reading. No other timer changes.
\<close>

theorem reset_moves_deadline:
  assumes "tm_inv mgr" and "t_manager (tobj mgr p)" and "t_func (tobj mgr p) \<noteq> None"
    and "ms \<noteq> t_periodInMs (tobj mgr p) \<or> fromNow"
  shows "\<exists>b mgr'. reset p ms fromNow now mgr = Inr (True, b, mgr')
    \<and> t_next (tobj mgr' p) - ms = (if fromNow then now else t_next (tobj mgr p) - t_periodInMs (tobj mgr p))
    \<and> t_periodInMs (tobj mgr' p) = ms \<and> t_func (tobj mgr' p) = t_func (tobj mgr p)
    \<and> (\<forall>r. r \<noteq> p \<longrightarrow> tobj mgr' r = tobj mgr r)
    \<and> set (m_timers mgr') = set (m_timers mgr) \<and> tm_inv mgr'"
  using reset_ok [OF assms, of now] by auto

theorem reset_moves_deadline_witness:
  "\<exists>b mgr'. reset 2 250 False 120 sample_mgr = Inr (True, b, mgr') \<and> t_next (tobj mgr' 2) = 300"
proof -
  have "t_manager (tobj sample_mgr 2)" "t_func (tobj sample_mgr 2) \<noteq> None"
    "(250 :: u64) \<noteq> t_periodInMs (tobj sample_mgr 2) \<or> False"
    by (simp_all add: sample_defs)
  from reset_moves_deadline [OF sample_inv this, of 120] obtain b mgr' where
    r: "reset 2 250 False 120 sample_mgr = Inr (True, b, mgr')" and "t_next (tobj mgr' 2) - 250 = 50"
    by (auto simp: sample_defs)
  then have "t_next (tobj mgr' 2) = 50 + 250" by (metis diff_add_cancel)
  with r show ?thesis by auto
qed

end
