(* ===== verification/Doroutine.thy ===== *)
theory Doroutine
  imports Prelude
begin

text \<open>
  Coroutines of one thread (\<open>include/doroutine.h\<close>, \<open>src/doroutine.cpp\<close>). The objects live
  in a store of addresses; the thread's record holds the thread-local pointers, the global
  counters and \<open>pc\<close>, the code the thread executes. \<open>ucontext_t\<close> is modelled by what a jump to
  it continues: the entry point set by \<open>makecontext\<close>, or the continuation saved by
  \<open>swapcontext\<close>. When the last \<open>shared_ptr\<close> to an object goes away, \<open>Doroutine_destroy\<close> runs;
  when that happens is the environment's choice.
\<close>

section \<open>Data\<close>

datatype State = READY | RUNNING | TERM'

text \<open>
  \<open>InFunc d\<close>: inside the function of coroutine \<open>d\<close> (for a thread's main coroutine, its
  ordinary code). \<open>AtEnd d\<close>: behind the last \<open>yield\<close> of \<open>WorkFunc\<close>; as \<open>uc_link\<close> is null,
  continuing there ends the thread.
\<close>

datatype cont = InFunc nat | AtEnd nat

datatype ctx = Captured | Entry | Saved cont

record 'f Doroutine =
  m_id :: u64
  m_state :: State
  m_stackSize :: u32
  m_stack :: "nat option"
  m_runInScheduler :: bool
  m_func :: "'f option"
  m_ctx :: ctx

record 'f thread_rt =
  obj :: "nat \<Rightarrow> 'f Doroutine option"
  st_threadCurdoroutine :: "nat option"
  st_threadMainDoroutine :: "nat option"
  st_schedulerDoroutine :: "nat option"
  s_doroutineId :: u64
  s_doroutineCount :: u64
  pc :: cont

section \<open>Operations\<close>

definition SetThis :: "nat option \<Rightarrow> 'f thread_rt \<Rightarrow> 'f thread_rt" where
  "SetThis p rt = rt\<lparr>st_threadCurdoroutine := p\<rparr>"

definition GetThis :: "'f thread_rt \<Rightarrow> nat option" where
  "GetThis rt = st_threadCurdoroutine rt"

definition GetMainThis :: "'f thread_rt \<Rightarrow> nat option" where
  "GetMainThis rt = st_threadMainDoroutine rt"

definition GetThisId :: "'f thread_rt \<Rightarrow> fault + u64" where
  "GetThisId rt = (case st_threadCurdoroutine rt of
     None \<Rightarrow> Inr 0
   | Some p \<Rightarrow> (case obj rt p of None \<Rightarrow> Inl Undefined | Some d \<Rightarrow> Inr (m_id d)))"

text \<open>The constructor of a thread's main coroutine, at address \<open>p\<close>.\<close>

definition Doroutine_main :: "nat \<Rightarrow> 'f thread_rt \<Rightarrow> 'f thread_rt" where
  "Doroutine_main p rt = rt\<lparr>
     obj := (obj rt)(p \<mapsto> \<lparr>m_id = s_doroutineId rt, m_state = RUNNING, m_stackSize = 0,
       m_stack = None, m_runInScheduler = False, m_func = None, m_ctx = Captured\<rparr>),
     s_doroutineCount := s_doroutineCount rt + 1,
     s_doroutineId := s_doroutineId rt + 1\<rparr>"

text \<open>The other constructor; \<open>alloc\<close> is what the stack allocator returns.\<close>

definition Doroutine_new ::
  "nat \<Rightarrow> 'f option \<Rightarrow> u64 \<Rightarrow> bool \<Rightarrow> (u32 \<Rightarrow> nat option) \<Rightarrow> 'f thread_rt \<Rightarrow> 'f thread_rt" where
  "Doroutine_new p func stackSize runInScheduler alloc rt =
     (let size = (if stackSize \<noteq> 0 then ucast stackSize else 1024 * 128)
      in rt\<lparr>
       obj := (obj rt)(p \<mapsto> \<lparr>m_id = s_doroutineId rt, m_state = READY, m_stackSize = size,
         m_stack = alloc size, m_runInScheduler = runInScheduler, m_func = func, m_ctx = Entry\<rparr>),
       s_doroutineId := s_doroutineId rt + 1,
       s_doroutineCount := s_doroutineCount rt + 1\<rparr>)"

definition Doroutine_destroy :: "nat \<Rightarrow> 'f thread_rt \<Rightarrow> fault + 'f thread_rt" where
  "Doroutine_destroy p rt =
     (case obj rt p of
        None \<Rightarrow> Inl Undefined
      | Some d \<Rightarrow>
          (let rt1 = rt\<lparr>s_doroutineCount := s_doroutineCount rt - 1\<rparr>;
               rt2 = (if m_stack d \<noteq> None then rt1 else SetThis None rt1)
           in Inr (rt2\<lparr>obj := (obj rt2)(p := None)\<rparr>)))"

text \<open>
  Entering \<open>WorkFunc\<close> on a fresh stack: the coroutine it works for is the thread's current
  one, whose function is called.
\<close>

definition WorkFunc_enter :: "'f thread_rt \<Rightarrow> fault + 'f thread_rt" where
  "WorkFunc_enter rt =
     (case GetThis rt of
        None \<Rightarrow> Inl NullDeref
      | Some c \<Rightarrow> (case obj rt c of
          None \<Rightarrow> Inl Undefined
        | Some d \<Rightarrow> if m_func d = None then Inl BadFunctionCall else Inr (rt\<lparr>pc := InFunc c\<rparr>)))"

text \<open>
  \<open>swapcontext(&from->m_ctx, &to->m_ctx)\<close>: the continuation \<open>k\<close> of the call is saved in
  \<open>from\<close>, then execution continues at what \<open>to\<close> holds.
\<close>

definition swapcontext :: "cont \<Rightarrow> nat \<Rightarrow> nat \<Rightarrow> 'f thread_rt \<Rightarrow> fault + 'f thread_rt" where
  "swapcontext k from to rt =
     (case obj rt from of
        None \<Rightarrow> Inl Undefined
      | Some d \<Rightarrow>
          (let rt1 = rt\<lparr>obj := (obj rt)(from \<mapsto> d\<lparr>m_ctx := Saved k\<rparr>)\<rparr>
           in case obj rt1 to of
                None \<Rightarrow> Inl Undefined
              | Some e \<Rightarrow> (case m_ctx e of
                  Captured \<Rightarrow> Inl Undefined
                | Entry \<Rightarrow> WorkFunc_enter rt1
                | Saved c \<Rightarrow> Inr (rt1\<lparr>pc := c\<rparr>))))"

text \<open>The coroutine that \<open>resume\<close> and \<open>yield\<close> of \<open>d\<close> switch from and to.\<close>

definition hub :: "'f Doroutine \<Rightarrow> 'f thread_rt \<Rightarrow> nat option" where
  "hub d rt = (if m_runInScheduler d then st_schedulerDoroutine rt else st_threadMainDoroutine rt)"

definition resume :: "nat \<Rightarrow> 'f thread_rt \<Rightarrow> fault + 'f thread_rt" where
  "resume p rt =
     (case obj rt p of
        None \<Rightarrow> Inl Undefined
      | Some d \<Rightarrow>
          (let rt1 = SetThis (Some p) rt;
               rt2 = rt1\<lparr>obj := (obj rt1)(p \<mapsto> d\<lparr>m_state := RUNNING\<rparr>)\<rparr>
           in case hub d rt2 of
                None \<Rightarrow> Inl NullDeref
              | Some h \<Rightarrow> swapcontext (pc rt) h p rt2))"

text \<open>\<open>yield\<close> of the coroutine at \<open>p\<close>, called with continuation \<open>k\<close>.\<close>

definition yield :: "cont \<Rightarrow> nat \<Rightarrow> 'f thread_rt \<Rightarrow> fault + 'f thread_rt" where
  "yield k p rt =
     (let rt1 = SetThis (st_threadMainDoroutine rt) rt
      in case obj rt1 p of
           None \<Rightarrow> Inl Undefined
         | Some d \<Rightarrow>
             (let rt2 = (if m_state d \<noteq> TERM'
                  then rt1\<lparr>obj := (obj rt1)(p \<mapsto> d\<lparr>m_state := READY\<rparr>)\<rparr> else rt1)
              in case hub d rt2 of
                   None \<Rightarrow> Inl NullDeref
                 | Some h \<Rightarrow> swapcontext k p h rt2))"

text \<open>
  \<open>reset\<close>: both checks only log a message; whatever the stack and the state are, the
  function is replaced and the context set up again.
\<close>

definition reset :: "nat \<Rightarrow> 'f option \<Rightarrow> 'f thread_rt \<Rightarrow> fault + 'f thread_rt" where
  "reset p func rt =
     (case obj rt p of
        None \<Rightarrow> Inl Undefined
      | Some d \<Rightarrow> Inr (rt\<lparr>obj := (obj rt)(p \<mapsto>
          d\<lparr>m_func := func, m_ctx := Entry, m_state := READY\<rparr>)\<rparr>))"

text \<open>
  The rest of \<open>WorkFunc\<close> of coroutine \<open>c\<close> once its function has returned.
\<close>

definition WorkFunc_return :: "nat \<Rightarrow> 'f thread_rt \<Rightarrow> fault + 'f thread_rt" where
  "WorkFunc_return c rt =
     (case obj rt c of
        None \<Rightarrow> Inl Undefined
      | Some d \<Rightarrow> yield (AtEnd c) c
          (rt\<lparr>obj := (obj rt)(c \<mapsto> d\<lparr>m_func := None, m_state := TERM'\<rparr>)\<rparr>))"

definition threadMainDoroutineInit :: "nat \<Rightarrow> 'f thread_rt \<Rightarrow> 'f thread_rt" where
  "threadMainDoroutineInit p rt =
     (SetThis (Some p) (Doroutine_main p rt))\<lparr>st_threadMainDoroutine := Some p\<rparr>"

text \<open>\<open>Doroutine::GetThis()->yield()\<close>, the call user code makes.\<close>

definition yield_this :: "'f thread_rt \<Rightarrow> fault + 'f thread_rt" where
  "yield_this rt = (case GetThis rt of None \<Rightarrow> Inl NullDeref | Some p \<Rightarrow> yield (pc rt) p rt)"

lemmas doroutine_defs = SetThis_def GetThis_def hub_def swapcontext_def WorkFunc_enter_def
  resume_def yield_def WorkFunc_return_def yield_this_def

section \<open>The use the library makes of coroutines\<close>

text \<open>
  \<open>M\<close> is the thread's main coroutine, \<open>S\<close> its scheduling coroutine: the same object on a
  worker thread, a coroutine of its own on a \<open>useCaller\<close> thread. What the running code may
  do: \<open>M\<close> starts \<open>S\<close> (\<open>Scheduler::stop\<close>); \<open>S\<close> resumes coroutines that are ready
  (\<open>Scheduler::run\<close>); a coroutine yields through \<open>GetThis()\<close> or returns from its function;
  anybody creates coroutines for the scheduler, resets finished ones and drops the last
  pointer to one that is not running.
\<close>

datatype 'f action =
    Start
  | Dispatch nat
  | Yield
  | Return
  | Create nat 'f u64 "u32 \<Rightarrow> nat option"
  | Reset nat 'f
  | Drop nat

definition state_of :: "'f thread_rt \<Rightarrow> nat \<Rightarrow> State option" where
  "state_of rt p = map_option m_state (obj rt p)"

fun allowed :: "nat \<Rightarrow> nat \<Rightarrow> 'f action \<Rightarrow> 'f thread_rt \<Rightarrow> bool" where
  "allowed M S Start rt = (pc rt = InFunc M \<and> S \<noteq> M \<and> state_of rt S = Some READY)"
| "allowed M S (Dispatch q) rt = (pc rt = InFunc S \<and> q \<notin> {M, S} \<and> state_of rt q = Some READY)"
| "allowed M S Yield rt = (pc rt \<notin> {InFunc M, InFunc S})"
| "allowed M S Return rt = (pc rt \<noteq> InFunc M)"
| "allowed M S (Create p f sz alloc) rt =
     (obj rt p = None \<and> s_doroutineId rt \<noteq> - 1 \<and> (\<forall>n. alloc n \<noteq> None))"
| "allowed M S (Reset q f) rt = (q \<notin> {M, S} \<and> state_of rt q = Some TERM')"
| "allowed M S (Drop q) rt = (q \<notin> {M, S} \<and> state_of rt q \<in> {Some READY, Some TERM'})"

fun perform :: "nat \<Rightarrow> 'f action \<Rightarrow> 'f thread_rt \<Rightarrow> fault + 'f thread_rt" where
  "perform S Start rt = resume S rt"
| "perform S (Dispatch q) rt = resume q rt"
| "perform S Yield rt = yield_this rt"
| "perform S Return rt = (case pc rt of InFunc c \<Rightarrow> WorkFunc_return c rt | AtEnd c \<Rightarrow> Inl Undefined)"
| "perform S (Create p f sz alloc) rt = Inr (Doroutine_new p (Some f) sz True alloc rt)"
| "perform S (Reset q f) rt = reset q (Some f) rt"
| "perform S (Drop q) rt = Doroutine_destroy q rt"

section \<open>The invariant\<close>

text \<open>
  Identifiers: live coroutines have different ids, all below the next one, and the counter
  of live coroutines is their number (modulo the width of the counter).
\<close>

definition id_of :: "'f thread_rt \<Rightarrow> nat \<Rightarrow> u64 option" where
  "id_of rt p = map_option m_id (obj rt p)"

definition ids_ok :: "'f thread_rt \<Rightarrow> bool" where
  "ids_ok rt \<longleftrightarrow> finite (dom (id_of rt))
     \<and> s_doroutineCount rt = of_nat (card (dom (id_of rt)))
     \<and> (\<forall>p i. id_of rt p = Some i \<longrightarrow> i < s_doroutineId rt)
     \<and> inj_on (id_of rt) (dom (id_of rt))"

text \<open>
  A coroutine that is neither \<open>M\<close> nor \<open>S\<close>: when ready it is fresh or was suspended inside its
  own function, when finished it is suspended behind its last \<open>yield\<close>, and only the one that
  executes is running.
\<close>

definition task_ok :: "'f thread_rt \<Rightarrow> nat \<Rightarrow> 'f Doroutine \<Rightarrow> bool" where
  "task_ok rt q d \<longleftrightarrow> m_stack d \<noteq> None \<and>
     (case m_state d of
        READY \<Rightarrow> m_ctx d = Entry \<and> m_func d \<noteq> None \<or> m_ctx d = Saved (InFunc q)
      | RUNNING \<Rightarrow> pc rt = InFunc q
      | TERM' \<Rightarrow> m_ctx d = Saved (AtEnd q))"

definition sched_ok :: "nat \<Rightarrow> nat \<Rightarrow> 'f thread_rt \<Rightarrow> bool" where
  "sched_ok M S rt \<longleftrightarrow> (\<exists>s. obj rt S = Some s \<and> (S \<noteq> M \<longrightarrow>
     \<not> m_runInScheduler s \<and> m_stack s \<noteq> None \<and>
     (if pc rt = InFunc M
      then m_state s = READY \<and> m_ctx s = Entry \<and> m_func s \<noteq> None \<or> m_state s = TERM'
      else m_state s = RUNNING)))"

definition co_inv :: "nat \<Rightarrow> nat \<Rightarrow> 'f thread_rt \<Rightarrow> bool" where
  "co_inv M S rt \<longleftrightarrow>
     st_threadMainDoroutine rt = Some M \<and> st_schedulerDoroutine rt = Some S
     \<and> (\<exists>m. obj rt M = Some m \<and> (pc rt = InFunc M \<or> m_ctx m = Saved (InFunc M)))
     \<and> sched_ok M S rt
     \<and> (\<forall>q d. q \<notin> {M, S} \<longrightarrow> obj rt q = Some d \<longrightarrow> task_ok rt q d \<and> m_runInScheduler d)
     \<and> (pc rt \<notin> {InFunc M, InFunc S} \<longrightarrow> (\<exists>q s. q \<notin> {M, S} \<and> pc rt = InFunc q
          \<and> state_of rt q = Some RUNNING \<and> GetThis rt = Some q
          \<and> obj rt S = Some s \<and> m_ctx s = Saved (InFunc S)))
     \<and> ids_ok rt"

subsection \<open>Identifiers\<close>

definition same_ids :: "'f thread_rt \<Rightarrow> 'f thread_rt \<Rightarrow> bool" where
  "same_ids rt rt' \<longleftrightarrow> id_of rt' = id_of rt \<and> s_doroutineId rt' = s_doroutineId rt
     \<and> s_doroutineCount rt' = s_doroutineCount rt"

lemma ids_ok_same: "same_ids rt rt' \<Longrightarrow> ids_ok rt' = ids_ok rt"
  by (simp add: same_ids_def ids_ok_def)

lemma same_ids_trans: "same_ids a b \<Longrightarrow> same_ids b c \<Longrightarrow> same_ids a c"
  by (simp add: same_ids_def)

lemma same_ids_upd:
  "obj rt p = Some d \<Longrightarrow> m_id d' = m_id d \<Longrightarrow> obj rt' = (obj rt)(p \<mapsto> d') \<Longrightarrow>
    s_doroutineId rt' = s_doroutineId rt \<Longrightarrow> s_doroutineCount rt' = s_doroutineCount rt \<Longrightarrow> same_ids rt rt'"
  by (auto simp: same_ids_def id_of_def fun_eq_iff)

lemma same_ids_enter: "WorkFunc_enter rt = Inr rt' \<Longrightarrow> same_ids rt rt'"
  by (auto simp: WorkFunc_enter_def same_ids_def id_of_def fun_eq_iff split: option.splits if_splits)

lemma same_ids_swap:
  assumes "swapcontext k from to rt = Inr rt'"
  shows "same_ids rt rt'"
proof -
  from assms obtain d where d: "obj rt from = Some d" by (auto simp: swapcontext_def split: option.splits)
  let ?rt1 = "rt\<lparr>obj := (obj rt)(from \<mapsto> d\<lparr>m_ctx := Saved k\<rparr>)\<rparr>"
  have "same_ids rt ?rt1" using d by (rule same_ids_upd) simp_all
  moreover have "same_ids ?rt1 rt'"
    using assms d by (auto simp: swapcontext_def Let_def same_ids_enter same_ids_def id_of_def
        split: option.splits ctx.splits if_splits dest: same_ids_enter)
  ultimately show ?thesis by (rule same_ids_trans)
qed

lemma same_ids_resume:
  assumes "resume p rt = Inr rt'"
  shows "same_ids rt rt'"
proof -
  from assms obtain d where d: "obj rt p = Some d" by (auto simp: resume_def split: option.splits)
  let ?rt2 = "rt\<lparr>st_threadCurdoroutine := Some p, obj := (obj rt)(p \<mapsto> d\<lparr>m_state := RUNNING\<rparr>)\<rparr>"
  have "same_ids rt ?rt2" using d by (rule same_ids_upd) simp_all
  moreover have "same_ids ?rt2 rt'"
    using assms d by (auto simp: resume_def SetThis_def Let_def split: option.splits intro: same_ids_swap)
  ultimately show ?thesis by (rule same_ids_trans)
qed

lemma same_ids_yield:
  assumes "yield k p rt = Inr rt'"
  shows "same_ids rt rt'"
proof -
  from assms obtain d where d: "obj rt p = Some d"
    by (auto simp: yield_def SetThis_def Let_def split: option.splits)
  let ?rt1 = "rt\<lparr>st_threadCurdoroutine := st_threadMainDoroutine rt\<rparr>"
  let ?rt2 = "if m_state d \<noteq> TERM' then ?rt1\<lparr>obj := (obj rt)(p \<mapsto> d\<lparr>m_state := READY\<rparr>)\<rparr> else ?rt1"
  have "same_ids rt ?rt2" using d by (auto simp: same_ids_def id_of_def fun_eq_iff)
  moreover have "same_ids ?rt2 rt'"
    using assms d by (auto simp: yield_def SetThis_def Let_def split: option.splits if_splits
        intro: same_ids_swap)
  ultimately show ?thesis by (rule same_ids_trans)
qed

lemma same_ids_return:
  assumes "WorkFunc_return c rt = Inr rt'"
  shows "same_ids rt rt'"
proof -
  from assms obtain d where d: "obj rt c = Some d" by (auto simp: WorkFunc_return_def split: option.splits)
  let ?rt1 = "rt\<lparr>obj := (obj rt)(c \<mapsto> d\<lparr>m_func := None, m_state := TERM'\<rparr>)\<rparr>"
  have "same_ids rt ?rt1" using d by (rule same_ids_upd) simp_all
  moreover have "same_ids ?rt1 rt'"
    using assms d by (auto simp: WorkFunc_return_def intro: same_ids_yield)
  ultimately show ?thesis by (rule same_ids_trans)
qed

lemma ids_ok_new:
  assumes ok: "ids_ok rt" and free: "obj rt p = None" and room: "s_doroutineId rt \<noteq> - 1"
  shows "ids_ok (Doroutine_new p f sz r alloc rt)" (is "ids_ok ?rt'")
proof -
  let ?n = "s_doroutineId rt"
  have ids: "id_of ?rt' = (id_of rt)(p \<mapsto> ?n)"
    by (auto simp: id_of_def Doroutine_new_def Let_def fun_eq_iff)
  have p: "p \<notin> dom (id_of rt)" using free by (simp add: id_of_def dom_def)
  have next': "?n < ?n + 1" using room by (rule word_less_succ)
  have fin: "finite (dom (id_of rt))" and cnt: "s_doroutineCount rt = of_nat (card (dom (id_of rt)))"
    and below: "\<And>q i. id_of rt q = Some i \<Longrightarrow> i < ?n" and inj: "inj_on (id_of rt) (dom (id_of rt))"
    using ok by (auto simp: ids_ok_def)
  have "inj_on ((id_of rt)(p \<mapsto> ?n)) (insert p (dom (id_of rt)))"
    using inj p below by (auto simp: inj_on_def dom_def) (metis less_irrefl)+
  moreover have "i < ?n + 1" if "((id_of rt)(p \<mapsto> ?n)) q = Some i" for q i
    using that next' below by (auto split: if_splits intro: less_trans)
  moreover have "s_doroutineCount ?rt' = of_nat (card (insert p (dom (id_of rt))))"
    "s_doroutineId ?rt' = ?n + 1"
    using fin cnt p by (simp_all add: Doroutine_new_def Let_def)
  moreover have "dom (id_of ?rt') = insert p (dom (id_of rt))" by (simp add: ids)
  ultimately show ?thesis using fin unfolding ids_ok_def ids by (metis finite_insert)
qed

lemma ids_ok_destroy:
  assumes ok: "ids_ok rt" and d: "Doroutine_destroy p rt = Inr rt'"
  shows "ids_ok rt'"
proof -
  from d have p: "p \<in> dom (id_of rt)" and ids: "id_of rt' = (id_of rt)(p := None)"
    and same: "s_doroutineId rt' = s_doroutineId rt"
    and cnt: "s_doroutineCount rt' = s_doroutineCount rt - 1"
    by (auto simp: Doroutine_destroy_def SetThis_def id_of_def Let_def fun_eq_iff
        split: option.splits if_splits)
  have "finite (dom (id_of rt))" and c: "s_doroutineCount rt = of_nat (card (dom (id_of rt)))"
    using ok by (simp_all add: ids_ok_def)
  from card.remove [OF this(1) p] c cnt
  have "s_doroutineCount rt' = of_nat (card (dom (id_of rt) - {p}))" by simp
  moreover have "dom (id_of rt') = dom (id_of rt) - {p}" by (auto simp: ids split: if_splits)
  moreover have "inj_on (id_of rt') (dom (id_of rt) - {p})"
    using ok by (auto simp: ids_ok_def ids inj_on_def)
  moreover have "i < s_doroutineId rt'" if "id_of rt' q = Some i" for q i
    using that ok by (auto simp: ids same ids_ok_def split: if_splits)
  moreover have "finite (dom (id_of rt) - {p})" using ok by (simp add: ids_ok_def)
  ultimately show ?thesis unfolding ids_ok_def by simp
qed

subsection \<open>What a switch does\<close>

lemma resume_result:
  assumes "obj rt p = Some d" and "hub d rt = Some h" and "h \<noteq> p" and "obj rt h = Some e"
    and "m_ctx d = Entry \<and> m_func d \<noteq> None \<and> c = InFunc p \<or> m_ctx d = Saved c"
  shows "resume p rt = Inr (rt\<lparr>st_threadCurdoroutine := Some p,
      obj := (obj rt)(p \<mapsto> d\<lparr>m_state := RUNNING\<rparr>, h \<mapsto> e\<lparr>m_ctx := Saved (pc rt)\<rparr>), pc := c\<rparr>)"
  using assms
  by (auto simp: resume_def swapcontext_def hub_def SetThis_def WorkFunc_enter_def GetThis_def Let_def)

lemma yield_result:
  assumes "obj rt p = Some d" and "hub d rt = Some h" and "h \<noteq> p" and "obj rt h = Some e"
    and "m_ctx e = Saved c"
  shows "yield k p rt = Inr (rt\<lparr>st_threadCurdoroutine := st_threadMainDoroutine rt,
      obj := (obj rt)(p \<mapsto> d\<lparr>m_state := (if m_state d = TERM' then TERM' else READY), m_ctx := Saved k\<rparr>),
      pc := c\<rparr>)"
  using assms
  by (cases d) (auto simp: yield_def swapcontext_def hub_def SetThis_def Let_def)

lemma return_result:
  assumes "obj rt p = Some d" and "hub d rt = Some h" and "h \<noteq> p" and "obj rt h = Some e"
    and "m_ctx e = Saved c"
  shows "WorkFunc_return p rt = Inr (rt\<lparr>st_threadCurdoroutine := st_threadMainDoroutine rt,
      obj := (obj rt)(p \<mapsto> d\<lparr>m_func := None, m_state := TERM', m_ctx := Saved (AtEnd p)\<rparr>),
      pc := c\<rparr>)"
proof -
  let ?rt = "rt\<lparr>obj := (obj rt)(p \<mapsto> d\<lparr>m_func := None, m_state := TERM'\<rparr>)\<rparr>"
  have "yield (AtEnd p) p ?rt = Inr (?rt\<lparr>st_threadCurdoroutine := st_threadMainDoroutine ?rt,
      obj := (obj ?rt)(p \<mapsto> (d\<lparr>m_func := None, m_state := TERM'\<rparr>)\<lparr>m_state := TERM', m_ctx := Saved (AtEnd p)\<rparr>),
      pc := c\<rparr>)"
    by (subst yield_result [of _ p "d\<lparr>m_func := None, m_state := TERM'\<rparr>" h e c])
      (use assms in \<open>auto simp: hub_def\<close>)
  then show ?thesis using assms(1) by (simp add: WorkFunc_return_def)
qed

subsection \<open>Every allowed action succeeds and keeps the invariant\<close>

lemma co_invD:
  assumes "co_inv M S rt"
  shows co_inv_main: "st_threadMainDoroutine rt = Some M"
    and co_inv_sched: "st_schedulerDoroutine rt = Some S"
    and co_inv_M: "\<exists>m. obj rt M = Some m \<and> (pc rt = InFunc M \<or> m_ctx m = Saved (InFunc M))"
    and co_inv_S: "sched_ok M S rt"
    and co_inv_task: "q \<notin> {M, S} \<Longrightarrow> obj rt q = Some d \<Longrightarrow> task_ok rt q d \<and> m_runInScheduler d"
    and co_inv_pc: "pc rt \<notin> {InFunc M, InFunc S} \<Longrightarrow> \<exists>q s. q \<notin> {M, S} \<and> pc rt = InFunc q
          \<and> state_of rt q = Some RUNNING \<and> GetThis rt = Some q
          \<and> obj rt S = Some s \<and> m_ctx s = Saved (InFunc S)"
    and co_inv_ids: "ids_ok rt"
  using assms by (auto simp: co_inv_def)

lemma co_dispatch:
  assumes inv: "co_inv M S rt" and al: "pc rt = InFunc S" "q \<notin> {M, S}" "state_of rt q = Some READY"
  shows "\<exists>rt'. resume q rt = Inr rt' \<and> co_inv M S rt'"
proof -
  from al(3) obtain d where d: "obj rt q = Some d" "m_state d = READY" by (auto simp: state_of_def)
  from co_inv_task [OF inv al(2) d(1)] d(2) have t: "m_stack d \<noteq> None" "m_runInScheduler d"
    "m_ctx d = Entry \<and> m_func d \<noteq> None \<or> m_ctx d = Saved (InFunc q)" by (auto simp: task_ok_def)
  from co_inv_S [OF inv] obtain e where e: "obj rt S = Some e" by (auto simp: sched_ok_def)
  have "resume q rt = Inr (rt\<lparr>st_threadCurdoroutine := Some q, obj := (obj rt)(q \<mapsto> d\<lparr>m_state := RUNNING\<rparr>,
      S \<mapsto> e\<lparr>m_ctx := Saved (InFunc S)\<rparr>), pc := InFunc q\<rparr>)" (is "_ = Inr ?rt'")
    by (subst resume_result [of rt q d S e "InFunc q"])
      (use d e t al co_inv_sched [OF inv] in \<open>auto simp: hub_def\<close>)
  moreover from this have "ids_ok ?rt'" using same_ids_resume ids_ok_same co_inv_ids [OF inv] by blast
  moreover have "sched_ok M S ?rt'"
    using co_inv_S [OF inv] al e by (auto simp: sched_ok_def)
  moreover have "task_ok ?rt' r x \<and> m_runInScheduler x" if "r \<notin> {M, S}" "obj ?rt' r = Some x" for r x
    using that co_inv_task [OF inv, of r x] t al(1) by (auto simp: task_ok_def split: State.splits if_splits)
  ultimately show ?thesis
    using co_inv_main [OF inv] co_inv_sched [OF inv] co_inv_M [OF inv] al e
    by (intro exI [of _ ?rt']) (auto simp: co_inv_def state_of_def GetThis_def)
qed

text \<open>Leaving a task for the scheduling coroutine, by yielding or by returning.\<close>

lemma co_leave:
  assumes inv: "co_inv M S rt" and al: "pc rt \<notin> {InFunc M, InFunc S}"
  obtains q d e where "pc rt = InFunc q" and "GetThis rt = Some q" and "obj rt q = Some d"
    and "obj rt S = Some e" and "hub d rt = Some S" and "S \<noteq> q" and "q \<noteq> M"
    and "m_ctx e = Saved (InFunc S)" and "m_state d = RUNNING" and "m_stack d \<noteq> None" and "m_runInScheduler d"
proof -
  from co_inv_pc [OF inv al] obtain q s where q: "q \<notin> {M, S}" "pc rt = InFunc q"
    "state_of rt q = Some RUNNING" "GetThis rt = Some q" "obj rt S = Some s" "m_ctx s = Saved (InFunc S)"
    by blast
  from q(3) obtain d where d: "obj rt q = Some d" "m_state d = RUNNING" by (auto simp: state_of_def)
  from co_inv_task [OF inv q(1) d(1)] have "m_runInScheduler d" "m_stack d \<noteq> None" by (auto simp: task_ok_def)
  with that q d co_inv_sched [OF inv] show thesis by (auto simp: hub_def)
qed

lemma co_back_in_scheduler:
  fixes rt :: "'f thread_rt"
  assumes inv: "co_inv M S rt" and al: "pc rt = InFunc q" "q \<notin> {M, S}"
    and d: "m_stack d' \<noteq> None" "m_runInScheduler d'"
      "m_state d' = READY \<and> m_ctx d' = Saved (InFunc q) \<or> m_state d' = TERM' \<and> m_ctx d' = Saved (AtEnd q)"
    and ids: "ids_ok (rt\<lparr>st_threadCurdoroutine := st_threadMainDoroutine rt,
        obj := (obj rt)(q \<mapsto> d'), pc := InFunc S\<rparr>)"
  shows "co_inv M S (rt\<lparr>st_threadCurdoroutine := st_threadMainDoroutine rt,
        obj := (obj rt)(q \<mapsto> d'), pc := InFunc S\<rparr>)"
proof -
  let ?rt' = "rt\<lparr>st_threadCurdoroutine := st_threadMainDoroutine rt,
        obj := (obj rt)(q \<mapsto> d'), pc := InFunc S\<rparr>"
  have "sched_ok M S ?rt'"
    using co_inv_S [OF inv] al by (auto simp: sched_ok_def)
  moreover have "task_ok ?rt' r x \<and> m_runInScheduler x" if "r \<notin> {M, S}" "obj ?rt' r = Some x" for r x
    using that co_inv_task [OF inv, of r x] d al(1) by (auto simp: task_ok_def split: State.splits if_splits)
  ultimately show ?thesis
    using co_inv_main [OF inv] co_inv_sched [OF inv] co_inv_M [OF inv] al ids
    by (auto simp: co_inv_def)
qed

lemma co_yield:
  assumes inv: "co_inv M S rt" and al: "pc rt \<notin> {InFunc M, InFunc S}"
  shows "\<exists>rt'. yield_this rt = Inr rt' \<and> co_inv M S rt'"
  using inv al
proof (rule co_leave)
  fix q d e
  assume q: "pc rt = InFunc q" "GetThis rt = Some q" "obj rt q = Some d" "obj rt S = Some e"
    "hub d rt = Some S" "S \<noteq> q" "q \<noteq> M" "m_ctx e = Saved (InFunc S)" "m_state d = RUNNING"
    "m_stack d \<noteq> None" "m_runInScheduler d"
  have y: "yield (InFunc q) q rt = Inr (rt\<lparr>st_threadCurdoroutine := st_threadMainDoroutine rt,
      obj := (obj rt)(q \<mapsto> d\<lparr>m_state := READY, m_ctx := Saved (InFunc q)\<rparr>), pc := InFunc S\<rparr>)" (is "_ = Inr ?rt'")
    using yield_result [OF q(3,5,6,4,8), of "InFunc q"] q(9) by simp
  then have "ids_ok ?rt'" using same_ids_yield ids_ok_same co_inv_ids [OF inv] by blast
  with inv q have "co_inv M S ?rt'" by (intro co_back_in_scheduler) auto
  with y q(1,2) show ?thesis by (auto simp: yield_this_def)
qed

lemma co_return_task:
  assumes inv: "co_inv M S rt" and al: "pc rt \<notin> {InFunc M, InFunc S}"
  shows "\<exists>rt'. perform S Return rt = Inr rt' \<and> co_inv M S rt'"
  using inv al
proof (rule co_leave)
  fix q d e
  assume q: "pc rt = InFunc q" "GetThis rt = Some q" "obj rt q = Some d" "obj rt S = Some e"
    "hub d rt = Some S" "S \<noteq> q" "q \<noteq> M" "m_ctx e = Saved (InFunc S)" "m_state d = RUNNING"
    "m_stack d \<noteq> None" "m_runInScheduler d"
  have y: "WorkFunc_return q rt = Inr (rt\<lparr>st_threadCurdoroutine := st_threadMainDoroutine rt,
      obj := (obj rt)(q \<mapsto> d\<lparr>m_func := None, m_state := TERM', m_ctx := Saved (AtEnd q)\<rparr>), pc := InFunc S\<rparr>)"
    (is "_ = Inr ?rt'")
    using return_result [OF q(3,5,6,4,8)] by simp
  then have "ids_ok ?rt'" using same_ids_return ids_ok_same co_inv_ids [OF inv] by blast
  with inv q have "co_inv M S ?rt'" by (intro co_back_in_scheduler) auto
  with y q(1) show ?thesis by auto
qed

lemma co_start:
  assumes inv: "co_inv M S rt" and al: "pc rt = InFunc M" "S \<noteq> M" "state_of rt S = Some READY"
  shows "\<exists>rt'. resume S rt = Inr rt' \<and> co_inv M S rt'"
proof -
  from co_inv_S [OF inv] al obtain s where s: "obj rt S = Some s" "\<not> m_runInScheduler s"
    "m_stack s \<noteq> None" "m_ctx s = Entry" "m_func s \<noteq> None"
    by (auto simp: sched_ok_def state_of_def)
  from co_inv_M [OF inv] obtain m where m: "obj rt M = Some m" by auto
  have "resume S rt = Inr (rt\<lparr>st_threadCurdoroutine := Some S, obj := (obj rt)(S \<mapsto> s\<lparr>m_state := RUNNING\<rparr>,
      M \<mapsto> m\<lparr>m_ctx := Saved (InFunc M)\<rparr>), pc := InFunc S\<rparr>)" (is "_ = Inr ?rt'")
    by (subst resume_result [of rt S s M m "InFunc S"])
      (use s m al co_inv_main [OF inv] in \<open>auto simp: hub_def\<close>)
  moreover from this have "ids_ok ?rt'" using same_ids_resume ids_ok_same co_inv_ids [OF inv] by blast
  moreover have "task_ok ?rt' r x \<and> m_runInScheduler x" if "r \<notin> {M, S}" "obj ?rt' r = Some x" for r x
    using that co_inv_task [OF inv, of r x] al(1) by (auto simp: task_ok_def split: State.splits if_splits)
  moreover have "sched_ok M S ?rt'" using s al(2) by (auto simp: sched_ok_def)
  ultimately show ?thesis
    using co_inv_main [OF inv] co_inv_sched [OF inv]
    by (intro exI [of _ ?rt']) (auto simp: co_inv_def)
qed

lemma co_return_scheduler:
  assumes inv: "co_inv M S rt" and al: "pc rt = InFunc S" "S \<noteq> M"
  shows "\<exists>rt'. perform S Return rt = Inr rt' \<and> co_inv M S rt'"
proof -
  from co_inv_S [OF inv] al obtain s where s: "obj rt S = Some s" "\<not> m_runInScheduler s" "m_stack s \<noteq> None"
    by (auto simp: sched_ok_def)
  from co_inv_M [OF inv] al obtain m where m: "obj rt M = Some m" "m_ctx m = Saved (InFunc M)" by auto
  have hub: "hub s rt = Some M" using s co_inv_main [OF inv] by (simp add: hub_def)
  have y: "WorkFunc_return S rt = Inr (rt\<lparr>st_threadCurdoroutine := st_threadMainDoroutine rt,
      obj := (obj rt)(S \<mapsto> s\<lparr>m_func := None, m_state := TERM', m_ctx := Saved (AtEnd S)\<rparr>), pc := InFunc M\<rparr>)"
    (is "_ = Inr ?rt'")
    using return_result [OF s(1) hub _ m] al(2) by simp
  moreover from y have "ids_ok ?rt'" using same_ids_return ids_ok_same co_inv_ids [OF inv] by blast
  moreover have "task_ok ?rt' r x \<and> m_runInScheduler x" if "r \<notin> {M, S}" "obj ?rt' r = Some x" for r x
    using that co_inv_task [OF inv, of r x] al by (auto simp: task_ok_def split: State.splits if_splits)
  moreover have "sched_ok M S ?rt'" using s al(2) by (auto simp: sched_ok_def)
  ultimately show ?thesis
    using co_inv_main [OF inv] co_inv_sched [OF inv] m al
    by (intro exI [of _ ?rt']) (auto simp: co_inv_def)
qed

text \<open>Replacing one coroutine that is not running, by a well-formed one or by nothing.\<close>

lemma co_inv_frame:
  assumes inv: "co_inv M S rt" and q: "q \<notin> {M, S}" "state_of rt q \<noteq> Some RUNNING"
    and same: "pc rt' = pc rt" "st_threadMainDoroutine rt' = st_threadMainDoroutine rt"
      "st_schedulerDoroutine rt' = st_schedulerDoroutine rt"
      "st_threadCurdoroutine rt' = st_threadCurdoroutine rt"
    and o: "obj rt' = (obj rt)(q := x)"
    and new: "\<And>d. x = Some d \<Longrightarrow> task_ok rt' q d \<and> m_runInScheduler d"
    and ids: "ids_ok rt'"
  shows "co_inv M S rt'"
proof -
  have "task_ok rt' r d \<and> m_runInScheduler d" if "r \<notin> {M, S}" "obj rt' r = Some d" for r d
    using that co_inv_task [OF inv, of r d] new
    by (auto simp: task_ok_def o same split: State.splits if_splits)
  moreover have "sched_ok M S rt'" using co_inv_S [OF inv] q by (auto simp: sched_ok_def o same)
  moreover have "\<exists>r s. r \<notin> {M, S} \<and> pc rt' = InFunc r \<and> state_of rt' r = Some RUNNING
      \<and> GetThis rt' = Some r \<and> obj rt' S = Some s \<and> m_ctx s = Saved (InFunc S)"
    if other: "pc rt' \<notin> {InFunc M, InFunc S}"
  proof -
    from co_inv_pc [OF inv] other obtain r s where r: "r \<notin> {M, S}" "pc rt = InFunc r"
      "state_of rt r = Some RUNNING" "GetThis rt = Some r" "obj rt S = Some s" "m_ctx s = Saved (InFunc S)"
      unfolding same by blast
    with q have "r \<noteq> q" by auto
    with r q show ?thesis
      by (intro exI [of _ r] exI [of _ s]) (simp add: o same state_of_def GetThis_def)
  qed
  ultimately show ?thesis
    using co_inv_main [OF inv] co_inv_sched [OF inv] co_inv_M [OF inv] q ids
    unfolding co_inv_def same by (auto simp: o)
qed

lemma co_create:
  assumes inv: "co_inv M S rt" and free: "obj rt p = None" "s_doroutineId rt \<noteq> - 1" "\<forall>n. alloc n \<noteq> None"
  shows "co_inv M S (Doroutine_new p (Some f) sz True alloc rt)"
proof -
  from co_inv_M [OF inv] co_inv_S [OF inv] free(1) have "p \<notin> {M, S}" by (auto simp: sched_ok_def)
  with free show ?thesis
    by (intro co_inv_frame [OF inv, of p _ "obj (Doroutine_new p (Some f) sz True alloc rt) p"]
        ids_ok_new co_inv_ids [OF inv])
      (auto simp: Doroutine_new_def Let_def task_ok_def state_of_def)
qed

lemma co_reset:
  assumes inv: "co_inv M S rt" and al: "q \<notin> {M, S}" "state_of rt q = Some TERM'"
  shows "\<exists>rt'. reset q (Some f) rt = Inr rt' \<and> co_inv M S rt'"
proof -
  from al(2) obtain d where d: "obj rt q = Some d" by (auto simp: state_of_def)
  let ?d = "d\<lparr>m_func := Some f, m_ctx := Entry, m_state := READY\<rparr>"
  let ?rt' = "rt\<lparr>obj := (obj rt)(q \<mapsto> ?d)\<rparr>"
  have "same_ids rt ?rt'" using d by (rule same_ids_upd) simp_all
  then have "ids_ok ?rt'" using ids_ok_same co_inv_ids [OF inv] by blast
  with co_inv_task [OF inv al(1) d] al have "co_inv M S ?rt'"
    by (intro co_inv_frame [OF inv, of q _ "Some ?d"]) (auto simp: task_ok_def)
  then show ?thesis by (auto simp: reset_def d)
qed

lemma co_drop:
  assumes inv: "co_inv M S rt" and al: "q \<notin> {M, S}" "state_of rt q \<in> {Some READY, Some TERM'}"
  shows "\<exists>rt'. Doroutine_destroy q rt = Inr rt' \<and> co_inv M S rt'"
proof -
  from al(2) obtain d where d: "obj rt q = Some d" by (auto simp: state_of_def)
  let ?rt' = "rt\<lparr>s_doroutineCount := s_doroutineCount rt - 1, obj := (obj rt)(q := None)\<rparr>"
  from co_inv_task [OF inv al(1) d] have r: "Doroutine_destroy q rt = Inr ?rt'"
    by (auto simp: Doroutine_destroy_def d task_ok_def)
  then have "ids_ok ?rt'" using ids_ok_destroy co_inv_ids [OF inv] by blast
  with al have "co_inv M S ?rt'"
    by (intro co_inv_frame [OF inv, of q _ None]) auto
  with r show ?thesis by auto
qed

lemma co_perform:
  assumes inv: "co_inv M S rt" and al: "allowed M S a rt"
  shows "\<exists>rt'. perform S a rt = Inr rt' \<and> co_inv M S rt'"
proof (cases a)
  case Start
  with inv al co_start show ?thesis by auto
next
  case (Dispatch q)
  with al co_dispatch [OF inv, of q] show ?thesis by auto
next
  case Yield
  with inv al co_yield show ?thesis by auto
next
  case Return
  then show ?thesis
    using inv al co_return_task [OF inv] co_return_scheduler [OF inv] by (cases "pc rt = InFunc S") auto
next
  case (Create p f sz alloc)
  with inv al co_create [OF inv] show ?thesis by auto
next
  case (Reset q f)
  with inv al co_reset [OF inv] show ?thesis by auto
next
  case (Drop q)
  with inv al co_drop [OF inv] show ?thesis by auto
qed

text \<open>Runs of allowed actions from a thread whose coroutines have just been set up.\<close>

inductive co_step :: "nat \<Rightarrow> nat \<Rightarrow> 'f thread_rt \<Rightarrow> 'f thread_rt \<Rightarrow> bool" for M S where
  act: "allowed M S a rt \<Longrightarrow> perform S a rt = Inr rt' \<Longrightarrow> co_step M S rt rt'"

inductive_cases co_stepE: "co_step M S rt rt'"

text \<open>A thread before its first coroutine, at the program's start.\<close>

definition rt_init :: "'f thread_rt" where
  "rt_init = \<lparr>obj = Map.empty, st_threadCurdoroutine = None, st_threadMainDoroutine = None,
     st_schedulerDoroutine = None, s_doroutineId = 0, s_doroutineCount = 0, pc = InFunc 0\<rparr>"

text \<open>
  A worker thread (\<open>Scheduler::run\<close> makes the main coroutine the scheduling one), and the
  thread of a \<open>useCaller\<close> scheduler (its constructor creates the root coroutine, which
  switches with the main one).
\<close>

definition worker_rt :: "nat \<Rightarrow> 'f thread_rt" where
  "worker_rt M = (let rt = threadMainDoroutineInit M rt_init
     in rt\<lparr>st_schedulerDoroutine := GetMainThis rt, pc := InFunc M\<rparr>)"

definition caller_rt :: "nat \<Rightarrow> nat \<Rightarrow> 'f \<Rightarrow> (u32 \<Rightarrow> nat option) \<Rightarrow> 'f thread_rt" where
  "caller_rt M S run alloc =
     (Doroutine_new S (Some run) 0 False alloc (threadMainDoroutineInit M rt_init))\<lparr>
       st_schedulerDoroutine := Some S, pc := InFunc M\<rparr>"

lemma ids_ok_init: "ids_ok (threadMainDoroutineInit M rt_init)"
  by (auto simp: ids_ok_def id_of_def threadMainDoroutineInit_def Doroutine_main_def SetThis_def rt_init_def
      dom_def inj_on_def)

lemma co_inv_worker: "co_inv M M (worker_rt M)"
proof -
  have "same_ids (threadMainDoroutineInit M rt_init) (worker_rt M)"
    by (simp add: same_ids_def worker_rt_def Let_def id_of_def fun_eq_iff)
  then have "ids_ok (worker_rt M)" using ids_ok_same ids_ok_init by blast
  then show ?thesis
    by (auto simp: co_inv_def worker_rt_def Let_def threadMainDoroutineInit_def Doroutine_main_def SetThis_def
        rt_init_def sched_ok_def GetMainThis_def)
qed

lemma co_inv_caller:
  assumes "S \<noteq> M" and "\<forall>n. alloc n \<noteq> None"
  shows "co_inv M S (caller_rt M S run alloc)"
proof -
  let ?rt = "Doroutine_new S (Some run) 0 False alloc (threadMainDoroutineInit M rt_init)"
  have "ids_ok ?rt"
    by (rule ids_ok_new [OF ids_ok_init])
      (use assms in \<open>auto simp: threadMainDoroutineInit_def Doroutine_main_def SetThis_def rt_init_def\<close>)
  moreover have "same_ids ?rt (caller_rt M S run alloc)"
    by (simp add: same_ids_def caller_rt_def id_of_def fun_eq_iff)
  ultimately have "ids_ok (caller_rt M S run alloc)" using ids_ok_same by blast
  with assms show ?thesis
    by (auto simp: co_inv_def caller_rt_def Doroutine_new_def Let_def threadMainDoroutineInit_def
        Doroutine_main_def SetThis_def rt_init_def sched_ok_def split: if_splits)
qed

definition co_start_state :: "nat \<Rightarrow> nat \<Rightarrow> 'f thread_rt \<Rightarrow> bool" where
  "co_start_state M S rt \<longleftrightarrow> S = M \<and> rt = worker_rt M
     \<or> S \<noteq> M \<and> (\<exists>run alloc. (\<forall>n. alloc n \<noteq> None) \<and> rt = caller_rt M S run alloc)"

interpretation coroutine_runs: step_invariant "co_start_state M S" "co_step M S" "co_inv M S" for M S
proof unfold_locales
  show "co_start_state M S s \<Longrightarrow> co_inv M S s" for s :: "'f thread_rt"
    by (auto simp: co_start_state_def co_inv_worker co_inv_caller)
  show "co_inv M S s \<Longrightarrow> co_step M S s t \<Longrightarrow> co_inv M S t" for s t :: "'f thread_rt"
    by (elim co_stepE) (use co_perform in fastforce)
qed

section \<open>Properties\<close>

text \<open>
  A worker thread with two fresh coroutines at addresses 1 and 2, for the witnesses.
\<close>

definition sample_alloc :: "u32 \<Rightarrow> nat option" where
  "sample_alloc n = Some 4096"

definition sample_rt :: "nat thread_rt" where
  "sample_rt = Doroutine_new 2 (Some 20) 0 True sample_alloc
     (Doroutine_new 1 (Some 10) 0 True sample_alloc (worker_rt 0))"

lemmas sample_rt_defs = sample_rt_def Doroutine_new_def worker_rt_def threadMainDoroutineInit_def
  Doroutine_main_def SetThis_def rt_init_def sample_alloc_def GetMainThis_def Let_def

lemma sample_rt_steps: "(co_step 0 0)\<^sup>*\<^sup>* (worker_rt 0) sample_rt"
proof -
  let ?rt1 = "Doroutine_new 1 (Some (10 :: nat)) 0 True sample_alloc (worker_rt 0)"
  have "co_step 0 0 (worker_rt 0) ?rt1"
    by (rule co_step.act [of _ _ "Create 1 10 0 sample_alloc"]) (simp_all add: sample_rt_defs)
  moreover have "co_step 0 0 ?rt1 sample_rt"
    by (rule co_step.act [of _ _ "Create 2 20 0 sample_alloc"]) (simp_all add: sample_rt_defs)
  ultimately show ?thesis by simp
qed

lemma sample_rt_inv: "co_inv 0 0 sample_rt"
  using coroutine_runs.good_steps [OF sample_rt_steps co_inv_worker] .

lemma sample_rt_state: "pc sample_rt = InFunc 0" "state_of sample_rt 1 = Some READY"
    "state_of sample_rt 2 = Some READY"
  by (simp_all add: sample_rt_defs state_of_def)

text \<open>Starting coroutine 1 of the sample.\<close>

lemma sample_rt_running:
  "\<exists>rt. resume 1 sample_rt = Inr rt \<and> co_inv 0 0 rt \<and> pc rt = InFunc 1 \<and> state_of rt 2 = Some READY"
  using co_dispatch [OF sample_rt_inv, of 1] sample_rt_state
  by (auto simp: sample_rt_defs doroutine_defs state_of_def)

text \<open>
  (C3) Whatever a thread has done under the library's discipline since its coroutines were
  set up, every further allowed action ends without a fault (no null or dangling pointer,
  no jump into a dead context, no call of an empty function); and of the coroutines that
  are neither the main nor the scheduling one at most one is running: the one that
  \<open>GetThis\<close> returns and whose code executes.
\<close>

theorem coroutine_discipline_safe:
  assumes "co_start_state M S rt0" and "(co_step M S)\<^sup>*\<^sup>* rt0 rt"
  shows "(allowed M S a rt \<longrightarrow> (\<exists>rt'. perform S a rt = Inr rt'))
    \<and> (\<forall>q. q \<notin> {M, S} \<longrightarrow> state_of rt q = Some RUNNING \<longrightarrow> pc rt = InFunc q \<and> GetThis rt = Some q)"
proof -
  have inv: "co_inv M S rt" using coroutine_runs.good_reachable [OF assms] .
  have "pc rt = InFunc q \<and> GetThis rt = Some q" if q: "q \<notin> {M, S}" "state_of rt q = Some RUNNING" for q
  proof -
    from q(2) obtain d where "obj rt q = Some d" "m_state d = RUNNING" by (auto simp: state_of_def)
    with co_inv_task [OF inv q(1)] have pc: "pc rt = InFunc q" by (auto simp: task_ok_def)
    with co_inv_pc [OF inv] q(1) show ?thesis by auto
  qed
  with co_perform [OF inv] show ?thesis by blast
qed

theorem coroutine_discipline_safe_witness:
  "\<exists>rt'. perform 0 (Dispatch 1) sample_rt = Inr rt'"
proof -
  have "co_start_state 0 0 (worker_rt 0 :: nat thread_rt)" by (simp add: co_start_state_def)
  from coroutine_discipline_safe [OF this sample_rt_steps, of "Dispatch 1"] sample_rt_state
  show ?thesis by simp
qed

text \<open>
  Resuming a ready coroutine and its yielding bring the scheduling coroutine back to
  where it was: the coroutine is ready again with its continuation saved, keeps its id,
  function and stack, no third coroutine has changed, and the thread's current coroutine is
  the main one.
\<close>

theorem resume_yield_roundtrip:
  assumes "co_inv M S rt" and "pc rt = InFunc S" and "q \<notin> {M, S}" and "obj rt q = Some d"
    and "m_state d = READY"
  shows "\<exists>rt1 rt2. resume q rt = Inr rt1 \<and> pc rt1 = InFunc q \<and> GetThis rt1 = Some q
    \<and> yield_this rt1 = Inr rt2 \<and> pc rt2 = pc rt \<and> GetThis rt2 = Some M
    \<and> obj rt2 q = Some (d\<lparr>m_state := READY, m_ctx := Saved (InFunc q)\<rparr>)
    \<and> (\<forall>r. r \<notin> {q, S} \<longrightarrow> obj rt2 r = obj rt r)"
proof -
  from co_inv_task [OF assms(1,3,4)] assms(5) have t: "m_runInScheduler d"
    "m_ctx d = Entry \<and> m_func d \<noteq> None \<or> m_ctx d = Saved (InFunc q)" by (auto simp: task_ok_def)
  from co_inv_S [OF assms(1)] obtain e where e: "obj rt S = Some e" by (auto simp: sched_ok_def)
  note sm = co_inv_sched [OF assms(1)] co_inv_main [OF assms(1)]
  let ?rt1 = "rt\<lparr>st_threadCurdoroutine := Some q, obj := (obj rt)(q \<mapsto> d\<lparr>m_state := RUNNING\<rparr>,
      S \<mapsto> e\<lparr>m_ctx := Saved (InFunc S)\<rparr>), pc := InFunc q\<rparr>"
  have r: "resume q rt = Inr ?rt1"
    by (subst resume_result [of rt q d S e "InFunc q"]) (use assms e t sm in \<open>auto simp: hub_def\<close>)
  have y: "yield_this ?rt1 = Inr (?rt1\<lparr>st_threadCurdoroutine := st_threadMainDoroutine ?rt1,
      obj := (obj ?rt1)(q \<mapsto> (d\<lparr>m_state := RUNNING\<rparr>)\<lparr>m_state := READY, m_ctx := Saved (InFunc q)\<rparr>),
      pc := InFunc S\<rparr>)"
    using yield_result [of ?rt1 q "d\<lparr>m_state := RUNNING\<rparr>" S "e\<lparr>m_ctx := Saved (InFunc S)\<rparr>" "InFunc S" "InFunc q"]
      assms t sm by (auto simp: yield_this_def GetThis_def hub_def)
  show ?thesis
    by (rule exI [of _ ?rt1]) (use r y assms(2,3) sm in \<open>auto simp: GetThis_def\<close>)
qed

theorem resume_yield_roundtrip_witness:
  "\<exists>rt1 rt2. resume 1 sample_rt = Inr rt1 \<and> yield_this rt1 = Inr rt2 \<and> pc rt2 = InFunc 0
    \<and> GetThis rt2 = Some 0 \<and> obj rt2 2 = obj sample_rt 2"
proof -
  from sample_rt_state obtain d where "obj sample_rt 1 = Some d" "m_state d = READY"
    by (auto simp: state_of_def)
  from resume_yield_roundtrip [OF sample_rt_inv sample_rt_state(1) _ this] sample_rt_state
  show ?thesis by fastforce
qed

text \<open>
  The scheduling coroutine resuming \<open>q\<close> until its function, which yields \<open>n\<close> times, returns.
\<close>

fun drive :: "nat \<Rightarrow> nat \<Rightarrow> nat \<Rightarrow> 'f thread_rt \<Rightarrow> fault + 'f thread_rt" where
  "drive S q 0 rt = rbind (resume q rt) (perform S Return)"
| "drive S q (Suc n) rt = rbind (resume q rt) (\<lambda>rt1. rbind (yield_this rt1) (drive S q n))"

lemma dispatch_then_return:
  assumes "co_inv M S rt" and "pc rt = InFunc S" and "q \<notin> {M, S}" and "obj rt q = Some d"
    and "m_state d = READY"
  shows "\<exists>rt1 rt2. resume q rt = Inr rt1 \<and> perform S Return rt1 = Inr rt2 \<and> pc rt2 = InFunc S
    \<and> obj rt2 q = Some (d\<lparr>m_func := None, m_state := TERM', m_ctx := Saved (AtEnd q)\<rparr>)
    \<and> (\<forall>r. r \<notin> {q, S} \<longrightarrow> obj rt2 r = obj rt r)"
proof -
  from co_inv_task [OF assms(1,3,4)] assms(5) have t: "m_runInScheduler d"
    "m_ctx d = Entry \<and> m_func d \<noteq> None \<or> m_ctx d = Saved (InFunc q)" by (auto simp: task_ok_def)
  from co_inv_S [OF assms(1)] obtain e where e: "obj rt S = Some e" by (auto simp: sched_ok_def)
  note sm = co_inv_sched [OF assms(1)]
  let ?rt1 = "rt\<lparr>st_threadCurdoroutine := Some q, obj := (obj rt)(q \<mapsto> d\<lparr>m_state := RUNNING\<rparr>,
      S \<mapsto> e\<lparr>m_ctx := Saved (InFunc S)\<rparr>), pc := InFunc q\<rparr>"
  have r: "resume q rt = Inr ?rt1"
    by (subst resume_result [of rt q d S e "InFunc q"]) (use assms e t sm in \<open>auto simp: hub_def\<close>)
  have w: "WorkFunc_return q ?rt1 = Inr (?rt1\<lparr>st_threadCurdoroutine := st_threadMainDoroutine ?rt1,
      obj := (obj ?rt1)(q \<mapsto> (d\<lparr>m_state := RUNNING\<rparr>)\<lparr>m_func := None, m_state := TERM', m_ctx := Saved (AtEnd q)\<rparr>),
      pc := InFunc S\<rparr>)"
    by (rule return_result [where h = S and e = "e\<lparr>m_ctx := Saved (InFunc S)\<rparr>"])
      (use assms t sm in \<open>auto simp: hub_def\<close>)
  show ?thesis by (rule exI [of _ ?rt1]) (use r w assms(3) in auto)
qed

lemma drive_ok:
  assumes "co_inv M S rt" and "pc rt = InFunc S" and "q \<notin> {M, S}" and "state_of rt q = Some READY"
  shows "\<exists>rt' d. drive S q n rt = Inr rt' \<and> co_inv M S rt' \<and> pc rt' = InFunc S
    \<and> obj rt' q = Some d \<and> m_state d = TERM' \<and> m_func d = None
    \<and> (\<forall>r. r \<notin> {q, S} \<longrightarrow> obj rt' r = obj rt r)"
  using assms
proof (induction n arbitrary: rt)
  case 0
  then obtain d where d: "obj rt q = Some d" "m_state d = READY" by (auto simp: state_of_def)
  from dispatch_then_return [OF 0(1-3) d] obtain rt1 rt2 where
    r: "resume q rt = Inr rt1" "perform S Return rt1 = Inr rt2" "pc rt2 = InFunc S"
    "obj rt2 q = Some (d\<lparr>m_func := None, m_state := TERM', m_ctx := Saved (AtEnd q)\<rparr>)"
    "\<forall>r. r \<notin> {q, S} \<longrightarrow> obj rt2 r = obj rt r" by auto
  have i1: "co_inv M S rt1" using co_dispatch [OF 0] r(1) by auto
  have "pc rt1 = InFunc q"
    using resume_yield_roundtrip [OF 0(1-3) d] r(1) by auto
  with 0(3) have "allowed M S Return rt1" by simp
  from co_perform [OF i1 this] r(2) have "co_inv M S rt2" by auto
  with r show ?case by auto
next
  case (Suc n)
  then obtain d where d: "obj rt q = Some d" "m_state d = READY" by (auto simp: state_of_def)
  from resume_yield_roundtrip [OF Suc.prems(1-3) d] Suc.prems(2) obtain rt1 rt2 where
    r: "resume q rt = Inr rt1" "yield_this rt1 = Inr rt2" "pc rt1 = InFunc q" "pc rt2 = InFunc S"
    "obj rt2 q = Some (d\<lparr>m_state := READY, m_ctx := Saved (InFunc q)\<rparr>)"
    "\<forall>r. r \<notin> {q, S} \<longrightarrow> obj rt2 r = obj rt r" by auto
  have i1: "co_inv M S rt1" using co_dispatch [OF Suc.prems] r(1) by auto
  with r Suc.prems(3) have i2: "co_inv M S rt2" using co_yield [OF i1] by auto
  have "state_of rt2 q = Some READY" using r(5) by (simp add: state_of_def)
  from Suc.IH [OF i2 r(4) Suc.prems(3) this] r show ?case by auto
qed

text \<open>
  (C32) A coroutine whose function yields \<open>n\<close> times is finished after \<open>n + 1\<close> resumptions:
  driven by the scheduling coroutine it reaches \<open>TERM\<close> with its function released, control is
  back in the scheduling coroutine and no other coroutine has changed.
\<close>

theorem coroutine_finishes:
  assumes "co_inv M S rt" and "pc rt = InFunc S" and "q \<notin> {M, S}" and "state_of rt q = Some READY"
  shows "\<exists>rt' d. drive S q n rt = Inr rt' \<and> co_inv M S rt' \<and> pc rt' = InFunc S
    \<and> obj rt' q = Some d \<and> m_state d = TERM' \<and> m_func d = None
    \<and> (\<forall>r. r \<notin> {q, S} \<longrightarrow> obj rt' r = obj rt r)"
  using drive_ok [OF assms] .

theorem coroutine_finishes_witness:
  "\<exists>rt' d. drive 0 1 3 sample_rt = Inr rt' \<and> obj rt' 1 = Some d \<and> m_state d = TERM'"
  using coroutine_finishes [OF sample_rt_inv sample_rt_state(1) _ sample_rt_state(2), of 3] by auto

text \<open>
  \<open>resume\<close> does not look at the state: resuming a finished coroutine from the scheduling
  coroutine continues behind the last \<open>yield\<close> of \<open>WorkFunc\<close>, where the thread ends because
  \<open>uc_link\<close> is null, instead of returning to the scheduler.
\<close>

theorem resume_finished_ends_thread:
  assumes "co_inv M S rt" and "pc rt = InFunc S" and "q \<notin> {M, S}" and "state_of rt q = Some TERM'"
  shows "\<exists>rt'. resume q rt = Inr rt' \<and> pc rt' = AtEnd q \<and> state_of rt' q = Some RUNNING"
proof -
  from assms(4) obtain d where d: "obj rt q = Some d" "m_state d = TERM'" by (auto simp: state_of_def)
  from co_inv_task [OF assms(1,3) d(1)] d(2) have t: "m_runInScheduler d" "m_ctx d = Saved (AtEnd q)"
    by (auto simp: task_ok_def)
  from co_inv_S [OF assms(1)] obtain e where e: "obj rt S = Some e" by (auto simp: sched_ok_def)
  have "resume q rt = Inr (rt\<lparr>st_threadCurdoroutine := Some q, obj := (obj rt)(q \<mapsto> d\<lparr>m_state := RUNNING\<rparr>,
      S \<mapsto> e\<lparr>m_ctx := Saved (pc rt)\<rparr>), pc := AtEnd q\<rparr>)"
    by (rule resume_result [OF d(1) _ _ e])
      (use t assms(3) co_inv_sched [OF assms(1)] in \<open>auto simp: hub_def\<close>)
  then show ?thesis using assms(3) by (simp add: state_of_def)
qed

theorem resume_finished_ends_thread_witness:
  "\<exists>rt rt'. drive 0 1 0 sample_rt = Inr rt \<and> resume 1 rt = Inr rt' \<and> pc rt' = AtEnd 1"
proof -
  from drive_ok [OF sample_rt_inv sample_rt_state(1) _ sample_rt_state(2), of 0] obtain rt where
    rt: "drive 0 1 0 sample_rt = Inr rt" "co_inv 0 0 rt" "pc rt = InFunc 0" "state_of rt 1 = Some TERM'"
    by (auto simp: state_of_def)
  from resume_finished_ends_thread [OF rt(2,3) _ rt(4)] rt(1) show ?thesis by auto
qed

text \<open>
  \<open>reset\<close> never refuses: whatever state and stack a coroutine has, it gets the new
  function, a fresh context and the state \<open>READY\<close>; the continuation of a suspended one is
  lost and its next resumption enters the new function from the beginning.
\<close>

theorem reset_never_refuses:
  assumes "obj rt q = Some d"
  shows "\<exists>rt'. reset q func rt = Inr rt'
    \<and> obj rt' q = Some (d\<lparr>m_func := func, m_ctx := Entry, m_state := READY\<rparr>)
    \<and> (\<forall>r. r \<noteq> q \<longrightarrow> obj rt' r = obj rt r)"
  using assms by (auto simp: reset_def)

theorem reset_never_refuses_witness:
  "\<exists>rt rt' d d'. resume 1 sample_rt = Inr rt \<and> obj rt 1 = Some d \<and> m_state d = RUNNING
    \<and> reset 1 (Some 11) rt = Inr rt' \<and> obj rt' 1 = Some d' \<and> m_state d' = READY \<and> m_func d' = Some 11"
proof -
  obtain rt d where r: "resume 1 sample_rt = Inr rt" "obj rt 1 = Some d" "m_state d = RUNNING"
    by (auto simp: sample_rt_defs doroutine_defs)
  from reset_never_refuses [OF r(2), of "Some 11"] r show ?thesis by auto
qed

text \<open>
  Resuming a coroutine from inside another one is not supported by the switching
  scheme: when the inner one yields, control is back in the outer one, but \<open>GetThis\<close> is the
  main coroutine, and the scheduling coroutine's saved continuation has been replaced by the
  outer one's, so no context leads back to the scheduler.
\<close>

theorem nested_resume_loses_scheduler:
  assumes "co_inv M S rt" and "pc rt = InFunc q" and "q \<notin> {M, S}" and "r \<notin> {M, S}"
    and "state_of rt r = Some READY"
  shows "\<exists>rt1 rt2 s. resume r rt = Inr rt1 \<and> yield_this rt1 = Inr rt2
    \<and> pc rt2 = InFunc q \<and> GetThis rt2 = Some M
    \<and> obj rt2 S = Some s \<and> m_ctx s = Saved (InFunc q)"
proof -
  from assms(5) obtain d where d: "obj rt r = Some d" "m_state d = READY" by (auto simp: state_of_def)
  from co_inv_task [OF assms(1,4) d(1)] d(2) have t: "m_runInScheduler d"
    "m_ctx d = Entry \<and> m_func d \<noteq> None \<or> m_ctx d = Saved (InFunc r)" by (auto simp: task_ok_def)
  from co_inv_S [OF assms(1)] obtain e where e: "obj rt S = Some e" by (auto simp: sched_ok_def)
  note sm = co_inv_sched [OF assms(1)] co_inv_main [OF assms(1)]
  let ?rt1 = "rt\<lparr>st_threadCurdoroutine := Some r, obj := (obj rt)(r \<mapsto> d\<lparr>m_state := RUNNING\<rparr>,
      S \<mapsto> e\<lparr>m_ctx := Saved (InFunc q)\<rparr>), pc := InFunc r\<rparr>"
  have u: "resume r rt = Inr ?rt1"
    by (subst resume_result [of rt r d S e "InFunc r"]) (use assms d e t sm in \<open>auto simp: hub_def\<close>)
  have "yield (InFunc r) r ?rt1 = Inr (?rt1\<lparr>st_threadCurdoroutine := st_threadMainDoroutine ?rt1,
      obj := (obj ?rt1)(r \<mapsto> (d\<lparr>m_state := RUNNING\<rparr>)\<lparr>m_state := READY, m_ctx := Saved (InFunc r)\<rparr>),
      pc := InFunc q\<rparr>)" (is "_ = Inr ?rt2")
    using yield_result [of ?rt1 r "d\<lparr>m_state := RUNNING\<rparr>" S "e\<lparr>m_ctx := Saved (InFunc q)\<rparr>" "InFunc q" "InFunc r"]
      assms t sm by (auto simp: hub_def)
  then have "yield_this ?rt1 = Inr ?rt2" by (simp add: yield_this_def GetThis_def)
  moreover have "obj ?rt2 S = Some (e\<lparr>m_ctx := Saved (InFunc q)\<rparr>)" "GetThis ?rt2 = Some M"
    using assms(4) sm by (auto simp: GetThis_def)
  ultimately show ?thesis using u
    by (intro exI [of _ ?rt1] exI [of _ ?rt2] exI [of _ "e\<lparr>m_ctx := Saved (InFunc q)\<rparr>"]) simp
qed

theorem nested_resume_loses_scheduler_witness:
  "\<exists>rt rt1 rt2. resume 1 sample_rt = Inr rt \<and> resume 2 rt = Inr rt1 \<and> yield_this rt1 = Inr rt2
    \<and> pc rt2 = InFunc 1 \<and> GetThis rt2 = Some 0"
proof -
  from sample_rt_running obtain rt where rt: "resume 1 sample_rt = Inr rt" "co_inv 0 0 rt"
    "pc rt = InFunc 1" "state_of rt 2 = Some READY" by blast
  from nested_resume_loses_scheduler [OF rt(2,3) _ _ rt(4)] rt(1) show ?thesis by auto
qed

end
