(* ===== verification/Scheduler.thy ===== *)
theory Scheduler
  imports Doroutine "HOL-Library.Multiset"
begin

text \<open>
  The scheduler (\<open>include/scheduler.h\<close>, \<open>src/scheduler.cpp\<close>): the task queue, the scan a
  thread makes under the mutex, and the loop of \<open>Scheduler::run\<close> on one thread. Kernel thread ids and the addresses of new objects
  are arguments. \<open>tickle\<close> of the base class only logs; the operations say whether they call it,
  since the IO manager overrides it.
\<close>

section \<open>Data\<close>

record 'f SchedulerTask =
  task_doroutine :: "nat option"
  task_func :: "'f option"
  task_thread :: int

definition empty_task :: "'f SchedulerTask" where
  "empty_task = \<lparr>task_doroutine = None, task_func = None, task_thread = - 1\<rparr>"

text \<open>What \<open>schedule\<close> takes: a pointer to a coroutine or a \<open>std::function\<close>.\<close>

datatype 'f DoroutineOrCb = Dor "nat option" | Cb "'f option"

fun task_of :: "'f DoroutineOrCb \<Rightarrow> int \<Rightarrow> 'f SchedulerTask" where
  "task_of (Dor d) t = \<lparr>task_doroutine = d, task_func = None, task_thread = t\<rparr>"
| "task_of (Cb f) t = \<lparr>task_doroutine = None, task_func = f, task_thread = t\<rparr>"

record 'f Scheduler =
  m_name :: string
  m_threadPool :: "nat list"
  m_tasks :: "'f SchedulerTask list"
  m_threadIds :: "int list"
  m_threadCount :: u64
  m_activeThreadCount :: u64
  m_idleThreadCount :: u64
  m_useCaller :: bool
  m_rootDoroutine :: "nat option"
  m_rootThreadId :: int
  m_stopping :: bool

section \<open>Operations\<close>

text \<open>
  The constructor, on thread \<open>tid\<close>: with \<open>useCaller\<close> it sets up the thread's main coroutine
  (at \<open>M\<close>) and the root coroutine (at \<open>S\<close>, running \<open>Scheduler::run\<close>), and makes this
  scheduler the thread's. The result holds the thread-local \<open>st_scheduler\<close>.
\<close>

definition Scheduler_new ::
  "nat \<Rightarrow> u64 \<Rightarrow> bool \<Rightarrow> string \<Rightarrow> int \<Rightarrow> nat \<Rightarrow> nat \<Rightarrow> 'f \<Rightarrow> (u32 \<Rightarrow> nat option)
    \<Rightarrow> nat option \<times> 'f thread_rt \<Rightarrow> 'f Scheduler \<times> nat option \<times> 'f thread_rt" where
  "Scheduler_new self threads useCaller name tid M S run alloc env =
     (let base = \<lparr>m_name = name, m_threadPool = [], m_tasks = [], m_threadIds = [],
            m_threadCount = threads, m_activeThreadCount = 0, m_idleThreadCount = 0,
            m_useCaller = useCaller, m_rootDoroutine = None, m_rootThreadId = - 1,
            m_stopping = False\<rparr>
      in if useCaller
         then (base\<lparr>m_threadCount := threads - 1, m_rootDoroutine := Some S,
                 m_rootThreadId := tid, m_threadIds := [tid]\<rparr>,
               Some self,
               (Doroutine_new S (Some run) 0 False alloc (threadMainDoroutineInit M (snd env)))\<lparr>
                 st_schedulerDoroutine := Some S\<rparr>)
         else (base, env))"

text \<open>The destructor, on a thread with these thread-locals.\<close>

definition Scheduler_destroy :: "nat \<Rightarrow> nat option \<times> 'f thread_rt \<Rightarrow> nat option \<times> 'f thread_rt" where
  "Scheduler_destroy self env =
     (if fst env = Some self then (None, (snd env)\<lparr>st_schedulerDoroutine := None\<rparr>) else env)"

text \<open>
  \<open>std::vector<std::thread*>::max_size()\<close>; \<open>spawn i\<close> is the handle of the \<open>i\<close>-th thread that
  is created to execute \<open>run\<close>.
\<close>

definition pool_max_size :: nat where
  "pool_max_size = 2 ^ 60 - 1"

definition start :: "(nat \<Rightarrow> nat) \<Rightarrow> 'f Scheduler \<Rightarrow> fault + 'f Scheduler" where
  "start spawn sch =
     (if m_stopping sch then Inr sch
      else if pool_max_size < unat (m_threadCount sch) then Inl LengthError
      else Inr (sch\<lparr>m_threadPool := map spawn [0..<unat (m_threadCount sch)]\<rparr>))"

definition scheduleNoLock :: "'f DoroutineOrCb \<Rightarrow> int \<Rightarrow> 'f Scheduler \<Rightarrow> bool \<times> 'f Scheduler" where
  "scheduleNoLock fc thr sch =
     (let need_tickle = (m_tasks sch = []); task = task_of fc thr
      in (need_tickle,
          if task_doroutine task \<noteq> None \<or> task_func task \<noteq> None
          then sch\<lparr>m_tasks := m_tasks sch @ [task]\<rparr> else sch))"

text \<open>\<open>schedule\<close>, with whether it calls \<open>tickle\<close>.\<close>

definition schedule :: "'f DoroutineOrCb \<Rightarrow> int \<Rightarrow> 'f Scheduler \<Rightarrow> bool \<times> 'f Scheduler" where
  "schedule fc thr sch = scheduleNoLock fc thr sch"

definition hasIdleThreads :: "'f Scheduler \<Rightarrow> bool" where
  "hasIdleThreads sch = (0 < m_idleThreadCount sch)"

definition stopping :: "'f Scheduler \<Rightarrow> bool" where
  "stopping sch = (m_stopping sch \<and> m_tasks sch = [] \<and> m_activeThreadCount sch = 0)"

text \<open>
  The scan of the queue by thread \<open>tid\<close>: the task taken, the queue that is left and \<open>tickleMe\<close>.
  \<open>st\<close> is the state of the coroutine objects.
\<close>

fun scan_tasks ::
  "int \<Rightarrow> (nat \<Rightarrow> State) \<Rightarrow> 'f SchedulerTask list \<Rightarrow> 'f SchedulerTask option \<times> 'f SchedulerTask list \<times> bool" where
  "scan_tasks tid st [] = (None, [], False)"
| "scan_tasks tid st (t # ts) =
     (if task_thread t \<noteq> - 1 \<and> task_thread t \<noteq> tid then
        (case scan_tasks tid st ts of (r, rest, _) \<Rightarrow> (r, t # rest, True))
      else if \<exists>d. task_doroutine t = Some d \<and> st d = RUNNING then
        (case scan_tasks tid st ts of (r, rest, tickleMe) \<Rightarrow> (r, t # rest, tickleMe))
      else (Some t, ts, ts \<noteq> []))"

text \<open>The critical section of \<open>run\<close>: scan, take the task and count the thread as active.\<close>

definition take_task ::
  "int \<Rightarrow> (nat \<Rightarrow> State) \<Rightarrow> 'f Scheduler \<Rightarrow> 'f SchedulerTask option \<times> bool \<times> 'f Scheduler" where
  "take_task tid st sch =
     (case scan_tasks tid st (m_tasks sch) of
        (None, rest, tickleMe) \<Rightarrow> (None, tickleMe, sch)
      | (Some t, rest, tickleMe) \<Rightarrow> (Some t, tickleMe,
          sch\<lparr>m_tasks := rest, m_activeThreadCount := m_activeThreadCount sch + 1\<rparr>))"

text \<open>
  \<open>stop\<close> up to the point where the root coroutine is resumed: \<open>None\<close> when it returns at once,
  else the number of \<open>tickle\<close> calls and whether the root coroutine is resumed; and the end of
  \<open>stop\<close>, which takes the threads to join out of the pool.
\<close>

definition stop_begin :: "'f Scheduler \<Rightarrow> (nat \<times> bool \<times> 'f Scheduler) option" where
  "stop_begin sch =
     (if stopping sch then None
      else let root = (m_rootDoroutine sch \<noteq> None)
           in Some (unat (m_threadCount sch) + (if root then 1 else 0), root, sch\<lparr>m_stopping := True\<rparr>))"

definition stop_end :: "'f Scheduler \<Rightarrow> nat list \<times> 'f Scheduler" where
  "stop_end sch = (m_threadPool sch, sch\<lparr>m_threadPool := []\<rparr>)"

text \<open>
  The part of \<open>run\<close> before its loop, on thread \<open>tid\<close>: hooks are enabled, the scheduler becomes
  the thread's, a thread other than the root thread gets a main coroutine (at \<open>M\<close>) that is
  also its scheduling coroutine, and the idle coroutine is created (at \<open>I\<close>). The state is the
  thread's hook flag, \<open>st_scheduler\<close> and its coroutines.
\<close>

definition run_init ::
  "nat \<Rightarrow> int \<Rightarrow> nat \<Rightarrow> nat \<Rightarrow> 'f \<Rightarrow> (u32 \<Rightarrow> nat option) \<Rightarrow> 'f Scheduler
    \<Rightarrow> bool \<times> nat option \<times> 'f thread_rt \<Rightarrow> bool \<times> nat option \<times> 'f thread_rt" where
  "run_init self tid M I idle alloc sch env =
     (let rt = snd (snd env);
          rt1 = (if tid \<noteq> m_rootThreadId sch
                 then let rt0 = threadMainDoroutineInit M rt
                      in rt0\<lparr>st_schedulerDoroutine := GetMainThis rt0\<rparr>
                 else rt)
      in (True, Some self, Doroutine_new I (Some idle) 0 True alloc rt1))"

section \<open>The loop of one thread\<close>

text \<open>
  \<open>Scheduler::run\<close> on a thread that schedules alone. The state is the scheduler, the states of
  the coroutines, whether the idle coroutine is finished, and the tasks executed so far.
  \<open>body\<close> is what happens from the resumption of the task's coroutine until control is back;
  one iteration of \<open>while(true)\<close> is \<open>run_iter\<close>, whose result \<open>None\<close> is the \<open>break\<close>. The idle
  coroutine of the base class finishes when \<open>stopping()\<close> holds and yields otherwise.
\<close>

record 'f run_state =
  rs_sch :: "'f Scheduler"
  rs_states :: "nat \<Rightarrow> State"
  rs_idle_done :: bool
  rs_ran :: "'f SchedulerTask list"

definition run_iter ::
  "int \<Rightarrow> ('f SchedulerTask \<Rightarrow> 'f Scheduler \<times> (nat \<Rightarrow> State) \<Rightarrow> 'f Scheduler \<times> (nat \<Rightarrow> State))
    \<Rightarrow> 'f run_state \<Rightarrow> 'f run_state option" where
  "run_iter tid body rs =
     (case take_task tid (rs_states rs) (rs_sch rs) of
        (Some t, _, sch1) \<Rightarrow>
          (let (sch2, st2) = body t (sch1, rs_states rs)
           in Some (rs\<lparr>rs_sch := sch2\<lparr>m_activeThreadCount := m_activeThreadCount sch2 - 1\<rparr>,
                       rs_states := st2, rs_ran := rs_ran rs @ [t]\<rparr>))
      | (None, _, sch1) \<Rightarrow>
          if rs_idle_done rs then None
          else let sch2 = sch1\<lparr>m_idleThreadCount := m_idleThreadCount sch1 + 1\<rparr>
               in Some (rs\<lparr>rs_idle_done := stopping sch2,
                           rs_sch := sch2\<lparr>m_idleThreadCount := m_idleThreadCount sch2 - 1\<rparr>\<rparr>))"

partial_function (option) run_loop ::
  "int \<Rightarrow> ('f SchedulerTask \<Rightarrow> 'f Scheduler \<times> (nat \<Rightarrow> State) \<Rightarrow> 'f Scheduler \<times> (nat \<Rightarrow> State))
    \<Rightarrow> 'f run_state \<Rightarrow> 'f run_state option" where
  "run_loop tid body rs =
     (case run_iter tid body rs of None \<Rightarrow> Some rs | Some rs1 \<Rightarrow> run_loop tid body rs1)"

section \<open>The scan\<close>

text \<open>A task this thread may take now.\<close>

definition eligible :: "int \<Rightarrow> (nat \<Rightarrow> State) \<Rightarrow> 'f SchedulerTask \<Rightarrow> bool" where
  "eligible tid st t \<longleftrightarrow> (task_thread t = - 1 \<or> task_thread t = tid)
     \<and> (\<forall>d. task_doroutine t = Some d \<longrightarrow> st d \<noteq> RUNNING)"

lemma scan_Cons:
  "scan_tasks tid st (t # ts) =
    (if eligible tid st t then (Some t, ts, ts \<noteq> [])
     else case scan_tasks tid st ts of (r, rest, tick) \<Rightarrow>
       (r, t # rest, tick \<or> (task_thread t \<noteq> - 1 \<and> task_thread t \<noteq> tid)))"
  by (auto simp: eligible_def split: prod.splits)

declare scan_tasks.simps(2) [simp del]

lemma scan_None: "fst (scan_tasks tid st ts) = None \<longleftrightarrow> (\<forall>t \<in> set ts. \<not> eligible tid st t)"
  by (induction ts) (auto simp: scan_Cons split: prod.splits)

lemma scan_None_rest: "scan_tasks tid st ts = (None, rest, tick) \<Longrightarrow> rest = ts"
  by (induction ts arbitrary: rest tick) (auto simp: scan_Cons split: prod.splits if_splits)

lemma scan_Some:
  "scan_tasks tid st ts = (Some t, rest, tick) \<Longrightarrow>
    \<exists>pre post. ts = pre @ t # post \<and> rest = pre @ post \<and> eligible tid st t
      \<and> (\<forall>u \<in> set pre. \<not> eligible tid st u)
      \<and> (tick \<longleftrightarrow> post \<noteq> [] \<or> (\<exists>u \<in> set pre. task_thread u \<noteq> - 1 \<and> task_thread u \<noteq> tid))"
proof (induction ts arbitrary: rest tick)
  case (Cons u us)
  show ?case
  proof (cases "eligible tid st u")
    case True
    with Cons.prems show ?thesis by (intro exI [of _ "[]"] exI [of _ us]) (auto simp: scan_Cons)
  next
    case False
    with Cons.prems obtain rest' tick' where
      r: "scan_tasks tid st us = (Some t, rest', tick')" "rest = u # rest'"
      "tick = (tick' \<or> task_thread u \<noteq> - 1 \<and> task_thread u \<noteq> tid)"
      by (auto simp: scan_Cons split: prod.splits)
    from Cons.IH [OF r(1)] obtain pre post where
      p: "us = pre @ t # post" "rest' = pre @ post" "eligible tid st t" "\<forall>u \<in> set pre. \<not> eligible tid st u"
      "tick' \<longleftrightarrow> post \<noteq> [] \<or> (\<exists>u \<in> set pre. task_thread u \<noteq> - 1 \<and> task_thread u \<noteq> tid)" by blast
    with r False show ?thesis by (intro exI [of _ "u # pre"] exI [of _ post]) auto
  qed
qed simp

lemma scan_mset:
  "scan_tasks tid st ts = (Some t, rest, tick) \<Longrightarrow> mset ts = add_mset t (mset rest)"
  by (drule scan_Some) auto

lemma take_task_tasks:
  "take_task tid st sch = (Some t, tick, sch') \<Longrightarrow>
    mset (m_tasks sch) = add_mset t (mset (m_tasks sch')) \<and> eligible tid st t
    \<and> m_stopping sch' = m_stopping sch \<and> m_activeThreadCount sch' = m_activeThreadCount sch + 1
    \<and> m_idleThreadCount sch' = m_idleThreadCount sch"
  by (auto simp: take_task_def split: prod.splits option.splits dest: scan_mset scan_Some)

lemma take_task_None:
  "take_task tid st sch = (None, tick, sch') \<Longrightarrow> sch' = sch \<and> (\<forall>t \<in> set (m_tasks sch). \<not> eligible tid st t)"
  using scan_None [of tid st "m_tasks sch"]
  by (auto simp: take_task_def split: prod.splits option.splits)

section \<open>Draining the queue\<close>

text \<open>
  What the executed tasks do, for the termination of \<open>run\<close>: executing \<open>t\<close> appends \<open>children t\<close>
  to the queue, changes no other part of the scheduler the loop reads, and leaves no
  coroutine running.
\<close>

definition body_schedules ::
  "('f SchedulerTask \<Rightarrow> 'f Scheduler \<times> (nat \<Rightarrow> State) \<Rightarrow> 'f Scheduler \<times> (nat \<Rightarrow> State))
    \<Rightarrow> ('f SchedulerTask \<Rightarrow> 'f SchedulerTask list) \<Rightarrow> bool" where
  "body_schedules body children \<longleftrightarrow>
     (\<forall>t sch st. (\<forall>d. st d \<noteq> RUNNING) \<longrightarrow> (case body t (sch, st) of (sch', st') \<Rightarrow>
        m_tasks sch' = m_tasks sch @ children t \<and> m_stopping sch' = m_stopping sch
        \<and> m_activeThreadCount sch' = m_activeThreadCount sch \<and> (\<forall>d. st' d \<noteq> RUNNING)))"

definition ready_to_drain :: "int \<Rightarrow> 'f run_state \<Rightarrow> bool" where
  "ready_to_drain tid rs \<longleftrightarrow>
     (\<forall>t \<in> set (m_tasks (rs_sch rs)). task_thread t = - 1 \<or> task_thread t = tid)
     \<and> (\<forall>d. rs_states rs d \<noteq> RUNNING)
     \<and> m_stopping (rs_sch rs) \<and> m_activeThreadCount (rs_sch rs) = 0"

lemma body_schedulesD:
  assumes "body_schedules body children" and "\<forall>d. st d \<noteq> RUNNING"
    and "body t (sch, st) = (sch', st')"
  shows "m_tasks sch' = m_tasks sch @ children t \<and> m_stopping sch' = m_stopping sch
    \<and> m_activeThreadCount sch' = m_activeThreadCount sch \<and> (\<forall>d. st' d \<noteq> RUNNING)"
proof -
  have "case body t (sch, st) of (sch', st') \<Rightarrow>
      m_tasks sch' = m_tasks sch @ children t \<and> m_stopping sch' = m_stopping sch
      \<and> m_activeThreadCount sch' = m_activeThreadCount sch \<and> (\<forall>d. st' d \<noteq> RUNNING)"
    by (rule assms(1) [unfolded body_schedules_def, rule_format]) (rule assms(2) [rule_format])
  with assms(3) show ?thesis by simp
qed

lemma run_iter_task:
  assumes rd: "ready_to_drain tid rs" and ts: "m_tasks (rs_sch rs) = t # ts"
    and body: "body_schedules body children"
    and pins: "\<forall>u \<in> set (children t). task_thread u = - 1 \<or> task_thread u = tid"
  obtains rs1 where "run_iter tid body rs = Some rs1" and "m_tasks (rs_sch rs1) = ts @ children t"
    and "rs_ran rs1 = rs_ran rs @ [t]" and "ready_to_drain tid rs1"
proof -
  let ?sch1 = "(rs_sch rs)\<lparr>m_tasks := ts, m_activeThreadCount := m_activeThreadCount (rs_sch rs) + 1\<rparr>"
  have "eligible tid (rs_states rs) t" using rd ts by (auto simp: ready_to_drain_def eligible_def)
  then have tk: "\<exists>tick. take_task tid (rs_states rs) (rs_sch rs) = (Some t, tick, ?sch1)"
    by (simp add: take_task_def ts scan_Cons)
  obtain sch2 st2 where b: "body t (?sch1, rs_states rs) = (sch2, st2)" by fastforce
  have "m_tasks sch2 = m_tasks ?sch1 @ children t \<and> m_stopping sch2 = m_stopping ?sch1
      \<and> m_activeThreadCount sch2 = m_activeThreadCount ?sch1 \<and> (\<forall>d. st2 d \<noteq> RUNNING)"
    using body_schedulesD [OF body _ b] rd by (auto simp: ready_to_drain_def)
  note eff = this
  let ?rs1 = "rs\<lparr>rs_sch := sch2\<lparr>m_activeThreadCount := m_activeThreadCount sch2 - 1\<rparr>,
        rs_states := st2, rs_ran := rs_ran rs @ [t]\<rparr>"
  obtain tick where tk': "take_task tid (rs_states rs) (rs_sch rs) = (Some t, tick, ?sch1)"
    using tk by blast
  show thesis
  proof (rule that [of ?rs1])
    show "run_iter tid body rs = Some ?rs1" by (simp add: run_iter_def tk' b)
    show "m_tasks (rs_sch ?rs1) = ts @ children t" using eff by simp
    show "rs_ran ?rs1 = rs_ran rs @ [t]" by simp
    have "task_thread u = - 1 \<or> task_thread u = tid" if "u \<in> set (ts @ children t)" for u
      using that rd ts pins by (auto simp: ready_to_drain_def)
    then show "ready_to_drain tid ?rs1" using eff rd by (simp add: ready_to_drain_def)
  qed
qed

lemma run_loop_empty:
  fixes rs :: "'f run_state"
  assumes rd: "ready_to_drain tid rs" and "m_tasks (rs_sch rs) = []"
  shows "\<exists>rs'. run_loop tid body rs = Some rs' \<and> m_tasks (rs_sch rs') = []
    \<and> rs_ran rs' = rs_ran rs \<and> ready_to_drain tid rs'"
proof -
  have none: "run_iter tid body r = None"
    if "m_tasks (rs_sch r) = []" "rs_idle_done r" for r :: "'f run_state"
    using that by (simp add: run_iter_def take_task_def)
  show ?thesis
  proof (cases "rs_idle_done rs")
    case True
    with assms none show ?thesis by (subst run_loop.simps) simp
  next
    case False
    let ?rs1 = "rs\<lparr>rs_idle_done := True,
      rs_sch := (rs_sch rs)\<lparr>m_idleThreadCount := m_idleThreadCount (rs_sch rs) + 1 - 1\<rparr>\<rparr>"
    have "run_iter tid body rs = Some ?rs1"
      using False assms by (simp add: run_iter_def take_task_def stopping_def ready_to_drain_def)
    moreover have "run_loop tid body ?rs1 = Some ?rs1"
      using assms(2) by (subst run_loop.simps) (simp add: none)
    ultimately show ?thesis using assms by (subst run_loop.simps) (simp add: ready_to_drain_def)
  qed
qed

lemma run_loop_drains:
  assumes body: "body_schedules body children"
    and pins: "\<And>t u. u \<in> set (children t) \<Longrightarrow> task_thread u = - 1 \<or> task_thread u = tid"
    and weight: "\<And>t. sum_list (map weight (children t)) < (weight t :: nat)"
    and rd: "ready_to_drain tid rs"
  shows "\<exists>rs' new. run_loop tid body rs = Some rs' \<and> m_tasks (rs_sch rs') = []
    \<and> rs_ran rs' = rs_ran rs @ new \<and> ready_to_drain tid rs'
    \<and> new = m_tasks (rs_sch rs) @ concat (map children new)"
  using rd
proof (induction "sum_list (map weight (m_tasks (rs_sch rs)))" arbitrary: rs rule: less_induct)
  case less
  show ?case
  proof (cases "m_tasks (rs_sch rs)")
    case Nil
    with run_loop_empty [OF less.prems Nil, of body] show ?thesis by force
  next
    case (Cons t ts)
    have "\<forall>u \<in> set (children t). task_thread u = - 1 \<or> task_thread u = tid" using pins by blast
    from less.prems Cons body this obtain rs1 where
      rs1: "run_iter tid body rs = Some rs1" "m_tasks (rs_sch rs1) = ts @ children t"
      "rs_ran rs1 = rs_ran rs @ [t]" "ready_to_drain tid rs1" by (rule run_iter_task)
    have "sum_list (map weight (m_tasks (rs_sch rs1))) < sum_list (map weight (m_tasks (rs_sch rs)))"
      using weight [of t] Cons rs1(2) by simp
    from less.hyps [OF this rs1(4)] obtain rs' new where
      r: "run_loop tid body rs1 = Some rs'" "m_tasks (rs_sch rs') = []" "rs_ran rs' = rs_ran rs1 @ new"
      "ready_to_drain tid rs'" and new: "new = m_tasks (rs_sch rs1) @ concat (map children new)" by blast
    have "t # new = m_tasks (rs_sch rs) @ concat (map children (t # new))"
      using Cons rs1(2) arg_cong [OF new, of "(#) t"] by simp
    moreover have "run_loop tid body rs = Some rs'" using rs1(1) r(1) by (subst run_loop.simps) simp
    moreover have "rs_ran rs' = rs_ran rs @ t # new" using r(3) rs1(3) by simp
    ultimately show ?thesis using r(2,4) by blast
  qed
qed

text \<open>
  (C16) \<open>Scheduler::stop\<close> on a \<open>useCaller\<close> scheduler without worker threads runs everything:
  \<open>run\<close> on the root coroutine returns, the queue is empty and \<open>stopping()\<close> holds, and the
  tasks executed are the queued ones in FIFO order, each followed in its turn by the tasks it
  schedules, each exactly once. The hypotheses say that each task schedules only tasks this
  thread may run and that this does not go on forever (\<open>weight\<close>).
\<close>

theorem stop_drains_queue:
  assumes "stop_begin sch = Some (n, True, sch1)"
    and "m_activeThreadCount sch = 0" and "\<forall>d. st d \<noteq> RUNNING"
    and "\<forall>t \<in> set (m_tasks sch). task_thread t = - 1 \<or> task_thread t = tid"
    and "body_schedules body children"
    and "\<forall>t. \<forall>u \<in> set (children t). task_thread u = - 1 \<or> task_thread u = tid"
    and "\<forall>t. sum_list (map weight (children t)) < (weight t :: nat)"
  shows "\<exists>rs'. run_loop tid body \<lparr>rs_sch = sch1, rs_states = st, rs_idle_done = False, rs_ran = []\<rparr>
      = Some rs'
    \<and> stopping (rs_sch rs') \<and> m_tasks (rs_sch rs') = []
    \<and> rs_ran rs' = m_tasks sch @ concat (map children (rs_ran rs'))"
proof -
  have sch1: "sch1 = sch\<lparr>m_stopping := True\<rparr>"
    using assms(1) by (auto simp: stop_begin_def Let_def split: if_splits)
  let ?rs = "\<lparr>rs_sch = sch1, rs_states = st, rs_idle_done = False, rs_ran = []\<rparr>"
  have "ready_to_drain tid ?rs" using assms(2-4) sch1 by (simp add: ready_to_drain_def)
  from run_loop_drains [OF assms(5) _ _ this, of weight] assms(6,7) sch1 show ?thesis
    by (force simp: ready_to_drain_def stopping_def)
qed

text \<open>Two tasks, of which the first schedules a third.\<close>

definition wit_children :: "nat SchedulerTask \<Rightarrow> nat SchedulerTask list" where
  "wit_children t = (if task_func t = Some 7 then [\<lparr>task_doroutine = None, task_func = Some 5, task_thread = - 1\<rparr>] else [])"

definition wit_body :: "nat SchedulerTask \<Rightarrow> nat Scheduler \<times> (nat \<Rightarrow> State) \<Rightarrow> nat Scheduler \<times> (nat \<Rightarrow> State)" where
  "wit_body t env = ((fst env)\<lparr>m_tasks := m_tasks (fst env) @ wit_children t\<rparr>, snd env)"

definition wit_sched :: "nat Scheduler" where
  "wit_sched = \<lparr>m_name = ''s'', m_threadPool = [], m_tasks =
      [\<lparr>task_doroutine = None, task_func = Some 7, task_thread = 42\<rparr>,
       \<lparr>task_doroutine = Some 3, task_func = None, task_thread = - 1\<rparr>],
     m_threadIds = [42], m_threadCount = 0, m_activeThreadCount = 0, m_idleThreadCount = 0,
     m_useCaller = True, m_rootDoroutine = Some 1, m_rootThreadId = 42, m_stopping = False\<rparr>"

lemma stop_drains_queue_witness:
  "\<exists>rs'. run_loop 42 wit_body \<lparr>rs_sch = wit_sched\<lparr>m_stopping := True\<rparr>, rs_states = (\<lambda>d. READY),
      rs_idle_done = False, rs_ran = []\<rparr> = Some rs'
    \<and> stopping (rs_sch rs') \<and> m_tasks (rs_sch rs') = []
    \<and> rs_ran rs' = m_tasks wit_sched @ concat (map wit_children (rs_ran rs'))"
  by (rule stop_drains_queue [where n = 1 and weight = "\<lambda>t. if task_func t = Some 7 then 2 else 1"])
    (auto simp: stop_begin_def stopping_def wit_sched_def wit_body_def wit_children_def body_schedules_def)

text \<open>
  What the scan under the mutex takes: the first queued task that is not pinned to another
  thread and whose coroutine is not running, leaving the order of the others; it reports a
  tickle exactly when a task for another thread was skipped or something is queued behind the
  task taken. It takes nothing exactly when no queued task qualifies, and then the queue,
  which need not be empty, is unchanged.
\<close>

theorem take_task_spec:
  "case take_task tid st sch of
     (None, tick, sch') \<Rightarrow> sch' = sch \<and> (\<forall>t \<in> set (m_tasks sch). \<not> eligible tid st t)
   | (Some t, tick, sch') \<Rightarrow> \<exists>pre post. m_tasks sch = pre @ t # post
       \<and> sch' = sch\<lparr>m_tasks := pre @ post, m_activeThreadCount := m_activeThreadCount sch + 1\<rparr>
       \<and> eligible tid st t \<and> (\<forall>u \<in> set pre. \<not> eligible tid st u)
       \<and> (tick \<longleftrightarrow> post \<noteq> [] \<or> (\<exists>u \<in> set pre. task_thread u \<noteq> - 1 \<and> task_thread u \<noteq> tid))"
proof (cases "scan_tasks tid st (m_tasks sch)")
  case (fields r rest tick)
  show ?thesis
  proof (cases r)
    case None
    with fields scan_None [of tid st "m_tasks sch"] show ?thesis by (simp add: take_task_def)
  next
    case (Some t)
    then have "scan_tasks tid st (m_tasks sch) = (Some t, rest, tick)" using fields by simp
    from scan_Some [OF this] obtain pre post where
      p: "m_tasks sch = pre @ t # post" "rest = pre @ post" "eligible tid st t"
      "\<forall>u \<in> set pre. \<not> eligible tid st u"
      "tick \<longleftrightarrow> post \<noteq> [] \<or> (\<exists>u \<in> set pre. task_thread u \<noteq> - 1 \<and> task_thread u \<noteq> tid)" by blast
    have "take_task tid st sch = (Some t, tick, sch\<lparr>m_tasks := pre @ post,
        m_activeThreadCount := m_activeThreadCount sch + 1\<rparr>)"
      using fields Some p(2) by (simp add: take_task_def)
    then show ?thesis using p(1,3-5) by (intro case_prodI2) auto
  qed
qed

lemma take_task_spec_witness:
  "take_task 41 (\<lambda>d. RUNNING) wit_sched = (None, True, wit_sched)
   \<and> filter (eligible 41 (\<lambda>d. RUNNING)) (m_tasks wit_sched) = [] \<and> m_tasks wit_sched \<noteq> []"
proof -
  have none: "take_task 41 (\<lambda>d. RUNNING) wit_sched = (None, True, wit_sched)"
    by (simp add: wit_sched_def take_task_def scan_Cons eligible_def)
  have "m_tasks wit_sched \<noteq> []" by (simp add: wit_sched_def)
  with none take_task_spec [where tid = 41 and st = "\<lambda>d. RUNNING" and sch = wit_sched]
  show ?thesis by (simp add: filter_empty_conv)
qed

section \<open>A stop that never returns\<close>

text \<open>The queue holds a task, and nothing in it is for this thread.\<close>

definition only_foreign :: "int \<Rightarrow> 'f run_state \<Rightarrow> bool" where
  "only_foreign tid rs \<longleftrightarrow> m_tasks (rs_sch rs) \<noteq> [] \<and> \<not> rs_idle_done rs
     \<and> (\<forall>t \<in> set (m_tasks (rs_sch rs)). task_thread t \<noteq> - 1 \<and> task_thread t \<noteq> tid)"

lemma run_iter_foreign:
  assumes "only_foreign tid rs"
  shows "\<exists>rs1. run_iter tid body rs = Some rs1 \<and> only_foreign tid rs1"
proof -
  have "\<forall>t \<in> set (m_tasks (rs_sch rs)). \<not> eligible tid (rs_states rs) t"
    using assms by (auto simp: only_foreign_def eligible_def)
  then have "fst (scan_tasks tid (rs_states rs) (m_tasks (rs_sch rs))) = None" using scan_None by blast
  then obtain tick rest where "scan_tasks tid (rs_states rs) (m_tasks (rs_sch rs)) = (None, rest, tick)"
    by (metis prod.collapse)
  then show ?thesis using assms by (simp add: run_iter_def take_task_def only_foreign_def stopping_def)
qed

text \<open>
  A task pinned to a thread that does not run this scheduler keeps \<open>stop\<close> from returning:
  \<open>run\<close> on the root coroutine does not terminate (its value is \<open>None\<close>), whatever the task
  bodies do, since \<open>stopping()\<close> never holds and the scan never takes anything.
\<close>

theorem run_hangs_on_foreign_task:
  assumes "only_foreign tid rs"
  shows "run_loop tid body rs = None"
proof -
  have "only_foreign tid rs \<longrightarrow> False" if r: "run_loop tid body rs = Some r" for r
  proof (rule run_loop.raw_induct [where P = "\<lambda>tid body rs r. only_foreign tid rs \<longrightarrow> False", OF _ r])
    fix loop and tid :: int and body and rs :: "'a run_state" and r
    assume IH: "\<And>tid body rs r. loop tid body rs = Some r \<Longrightarrow> only_foreign tid rs \<longrightarrow> False"
      and step: "(case run_iter tid body rs of None \<Rightarrow> Some rs | Some rs1 \<Rightarrow> loop tid body rs1) = Some r"
    show "only_foreign tid rs \<longrightarrow> False"
    proof
      assume "only_foreign tid rs"
      then obtain rs1 where "run_iter tid body rs = Some rs1" "only_foreign tid rs1"
        using run_iter_foreign by blast
      with IH [of tid body rs1 r] step show False by simp
    qed
  qed
  then show ?thesis using assms by (cases "run_loop tid body rs") auto
qed

lemma run_hangs_on_foreign_task_witness:
  "run_loop 41 wit_body \<lparr>rs_sch = wit_sched\<lparr>m_tasks := [hd (m_tasks wit_sched)]\<rparr>,
     rs_states = (\<lambda>d. READY), rs_idle_done = False, rs_ran = []\<rparr> = None"
  by (rule run_hangs_on_foreign_task) (simp add: only_foreign_def wit_sched_def)

section \<open>Starting\<close>

text \<open>
  A \<open>useCaller\<close> scheduler has one thread less in its pool than \<open>threads\<close> asks for, computed
  in \<open>size_t\<close>: with \<open>threads = 0\<close> the count wraps and \<open>start\<close> throws \<open>length_error\<close>. For every
  other count that the vector can hold, \<open>start\<close> creates exactly \<open>threads - 1\<close> threads.
\<close>

theorem start_caller_threads:
  "start spawn (fst (Scheduler_new self threads True name tid M S f alloc env)) =
     (if threads = 0 \<or> pool_max_size < unat threads - 1 then Inl LengthError
      else Inr ((fst (Scheduler_new self threads True name tid M S f alloc env))
        \<lparr>m_threadPool := map spawn [0..<unat threads - 1]\<rparr>))"
proof (cases "threads = 0")
  case True
  then show ?thesis by (simp add: start_def Scheduler_new_def pool_max_size_def Let_def
        unsigned_minus_1_eq_mask mask_eq_exp_minus_1)
next
  case False
  then have "unat (threads - 1) = unat threads - 1" by (metis unat_minus_one)
  with False show ?thesis by (simp add: start_def Scheduler_new_def Let_def)
qed

section \<open>The queue as other components use it\<close>

text \<open>
  What a client of \<open>schedule\<close> relies on: submitting a request appends its task when it has
  something to run, drops it otherwise, and touches nothing else of the queue.
\<close>

locale task_queue =
  fixes submit :: "'r \<Rightarrow> 'q \<Rightarrow> 'q" and contents :: "'q \<Rightarrow> 't list" and as_task :: "'r \<Rightarrow> 't option"
  assumes contents_submit: "contents (submit r q) = contents q @ (case as_task r of None \<Rightarrow> [] | Some t \<Rightarrow> [t])"
begin

lemma contents_submit_all: "contents (fold submit rs q) = contents q @ List.map_filter as_task rs"
  by (induction rs arbitrary: q) (simp_all add: contents_submit List.map_filter_simps split: option.splits)

lemma submitted: "as_task r = Some t \<Longrightarrow> r \<in> set rs \<Longrightarrow> t \<in> set (contents (fold submit rs q))"
  by (auto simp: contents_submit_all List.map_filter_def image_iff)

lemma queue_kept: "t \<in> set (contents q) \<Longrightarrow> t \<in> set (contents (fold submit rs q))"
  by (simp add: contents_submit_all)

end

definition has_work :: "'f SchedulerTask \<Rightarrow> bool" where
  "has_work t \<longleftrightarrow> task_doroutine t \<noteq> None \<or> task_func t \<noteq> None"

definition submit_on :: "'f DoroutineOrCb \<times> int \<Rightarrow> 'f Scheduler \<Rightarrow> 'f Scheduler" where
  "submit_on req sch = snd (schedule (fst req) (snd req) sch)"

definition task_of_request :: "'f DoroutineOrCb \<times> int \<Rightarrow> 'f SchedulerTask option" where
  "task_of_request req =
     (let t = task_of (fst req) (snd req) in if has_work t then Some t else None)"

lemma m_tasks_schedule:
  "m_tasks (snd (schedule fc thr sch)) =
    (if has_work (task_of fc thr) then m_tasks sch @ [task_of fc thr] else m_tasks sch)"
  by (simp add: schedule_def scheduleNoLock_def has_work_def Let_def)

lemma schedule_frame:
  "m_stopping (snd (schedule fc thr sch)) = m_stopping sch"
  "m_activeThreadCount (snd (schedule fc thr sch)) = m_activeThreadCount sch"
  "m_idleThreadCount (snd (schedule fc thr sch)) = m_idleThreadCount sch"
  "m_rootThreadId (snd (schedule fc thr sch)) = m_rootThreadId sch"
  by (simp_all add: schedule_def scheduleNoLock_def Let_def)

interpretation scheduler_queue: task_queue submit_on m_tasks task_of_request
  by unfold_locales (simp add: submit_on_def m_tasks_schedule task_of_request_def Let_def)

end
