(* ===== verification/Workers.thy ===== *)
theory Workers
  imports Scheduler
begin

text \<open>
  Several threads in \<open>Scheduler::run\<close> at once (\<open>src/scheduler.cpp\<close>). A step is one critical
  section or one atomic access; between two steps any other thread may run. The coroutine
  operations are cut where another thread can see the difference: \<open>Doroutine::yield\<close> sets the
  state before \<open>swapcontext\<close> saves the context. \<open>s_submitted\<close> and \<open>s_taken\<close> record what was
  queued and who took it; nothing reads them.
\<close>

section \<open>State and steps\<close>

text \<open>
  Where a thread stands: not yet in \<open>run\<close>; at the top of the loop; with a task taken; inside a
  coroutine; in \<open>yield\<close> of a coroutine whose context is not yet saved; back from \<open>resume\<close>; with
  nothing taken; in the idle coroutine before and after its test of \<open>stopping()\<close>; out of the
  loop; and ended because it resumed a finished coroutine.
\<close>

datatype 'f worker_pc =
    NotStarted
  | AtLoop
  | Taken "'f SchedulerTask"
  | InDor nat
  | Leaving nat
  | Back
  | NoTask
  | InIdle
  | IdleBack
  | Exited
  | Ended nat

record 'f workers =
  s_sch :: "'f Scheduler"
  s_state :: "nat \<Rightarrow> State"
  s_live :: "nat set"
  s_pc :: "int \<Rightarrow> 'f worker_pc"
  s_idle_done :: "int \<Rightarrow> bool"
  s_submitted :: "'f SchedulerTask multiset"
  s_taken :: "(int \<times> 'f SchedulerTask) list"

text \<open>
  \<open>T\<close> are the threads, \<open>may s t\<close> says which submissions are made. Only existing coroutines are
  submitted, and new ones get an unused address.
\<close>

inductive worker_step ::
  "int set \<Rightarrow> ('f workers \<Rightarrow> 'f SchedulerTask \<Rightarrow> bool) \<Rightarrow> 'f workers \<Rightarrow> 'f workers \<Rightarrow> bool"
  for T :: "int set" and may :: "'f workers \<Rightarrow> 'f SchedulerTask \<Rightarrow> bool"
where
  create: "d \<notin> s_live s \<Longrightarrow>
     worker_step T may s (s\<lparr>s_live := insert d (s_live s), s_state := (s_state s)(d := READY)\<rparr>)"
| submit: "may s (task_of fc thr) \<Longrightarrow> \<forall>d. fc = Dor (Some d) \<longrightarrow> d \<in> s_live s \<Longrightarrow>
     worker_step T may s (s\<lparr>s_sch := snd (schedule fc thr (s_sch s)),
       s_submitted := s_submitted s + (if has_work (task_of fc thr) then {#task_of fc thr#} else {#})\<rparr>)"
| request_stop: "stop_begin (s_sch s) = Some (n, root, sch') \<Longrightarrow>
     worker_step T may s (s\<lparr>s_sch := sch'\<rparr>)"
| enter: "tid \<in> T \<Longrightarrow> s_pc s tid = NotStarted \<Longrightarrow>
     (tid = m_rootThreadId (s_sch s) \<longrightarrow> m_stopping (s_sch s)) \<Longrightarrow>
     worker_step T may s (s\<lparr>s_pc := (s_pc s)(tid := AtLoop)\<rparr>)"
| take: "tid \<in> T \<Longrightarrow> s_pc s tid = AtLoop \<Longrightarrow>
     take_task tid (s_state s) (s_sch s) = (Some t, tick, sch') \<Longrightarrow>
     worker_step T may s (s\<lparr>s_sch := sch', s_pc := (s_pc s)(tid := Taken t),
       s_taken := s_taken s @ [(tid, t)]\<rparr>)"
| take_none: "tid \<in> T \<Longrightarrow> s_pc s tid = AtLoop \<Longrightarrow>
     take_task tid (s_state s) (s_sch s) = (None, tick, sch') \<Longrightarrow>
     worker_step T may s (s\<lparr>s_sch := sch', s_pc := (s_pc s)(tid := NoTask)\<rparr>)"
| resume_dor: "tid \<in> T \<Longrightarrow> s_pc s tid = Taken t \<Longrightarrow> task_doroutine t = Some d \<Longrightarrow>
     worker_step T may s (s\<lparr>s_state := (s_state s)(d := RUNNING),
       s_pc := (s_pc s)(tid := if s_state s d = TERM' then Ended d else InDor d)\<rparr>)"
| resume_func: "tid \<in> T \<Longrightarrow> s_pc s tid = Taken t \<Longrightarrow> task_doroutine t = None \<Longrightarrow>
     task_func t = Some f \<Longrightarrow> d \<notin> s_live s \<Longrightarrow>
     worker_step T may s (s\<lparr>s_live := insert d (s_live s), s_state := (s_state s)(d := RUNNING),
       s_pc := (s_pc s)(tid := InDor d)\<rparr>)"
| yield_mark: "tid \<in> T \<Longrightarrow> s_pc s tid = InDor d \<Longrightarrow>
     worker_step T may s (s\<lparr>s_state := (s_state s)(d := READY), s_pc := (s_pc s)(tid := Leaving d)\<rparr>)"
| finish: "tid \<in> T \<Longrightarrow> s_pc s tid = InDor d \<Longrightarrow>
     worker_step T may s (s\<lparr>s_state := (s_state s)(d := TERM'), s_pc := (s_pc s)(tid := Leaving d)\<rparr>)"
| swap: "tid \<in> T \<Longrightarrow> s_pc s tid = Leaving d \<Longrightarrow>
     worker_step T may s (s\<lparr>s_pc := (s_pc s)(tid := Back)\<rparr>)"
| task_done: "tid \<in> T \<Longrightarrow> s_pc s tid = Back \<Longrightarrow>
     worker_step T may s (s\<lparr>s_pc := (s_pc s)(tid := AtLoop),
       s_sch := (s_sch s)\<lparr>m_activeThreadCount := m_activeThreadCount (s_sch s) - 1\<rparr>\<rparr>)"
| idle_in: "tid \<in> T \<Longrightarrow> s_pc s tid = NoTask \<Longrightarrow> \<not> s_idle_done s tid \<Longrightarrow>
     worker_step T may s (s\<lparr>s_pc := (s_pc s)(tid := InIdle),
       s_sch := (s_sch s)\<lparr>m_idleThreadCount := m_idleThreadCount (s_sch s) + 1\<rparr>\<rparr>)"
| idle_test: "tid \<in> T \<Longrightarrow> s_pc s tid = InIdle \<Longrightarrow>
     worker_step T may s (s\<lparr>s_pc := (s_pc s)(tid := IdleBack),
       s_idle_done := (s_idle_done s)(tid := stopping (s_sch s))\<rparr>)"
| idle_out: "tid \<in> T \<Longrightarrow> s_pc s tid = IdleBack \<Longrightarrow>
     worker_step T may s (s\<lparr>s_pc := (s_pc s)(tid := AtLoop),
       s_sch := (s_sch s)\<lparr>m_idleThreadCount := m_idleThreadCount (s_sch s) - 1\<rparr>\<rparr>)"
| leave: "tid \<in> T \<Longrightarrow> s_pc s tid = NoTask \<Longrightarrow> s_idle_done s tid \<Longrightarrow>
     worker_step T may s (s\<lparr>s_pc := (s_pc s)(tid := Exited)\<rparr>)"

definition workers_start :: "'f workers \<Rightarrow> bool" where
  "workers_start s \<longleftrightarrow> m_tasks (s_sch s) = [] \<and> m_activeThreadCount (s_sch s) = 0
     \<and> m_idleThreadCount (s_sch s) = 0 \<and> \<not> m_stopping (s_sch s)
     \<and> (\<forall>tid. s_pc s tid = NotStarted \<and> \<not> s_idle_done s tid)
     \<and> s_submitted s = {#} \<and> s_taken s = []"

section \<open>The accounting of the scheduler\<close>

fun busy :: "'f worker_pc \<Rightarrow> bool" where
  "busy (Taken t) = True"
| "busy (InDor d) = True"
| "busy (Leaving d) = True"
| "busy (Ended d) = True"
| "busy Back = True"
| "busy _ = False"

fun idling :: "'f worker_pc \<Rightarrow> bool" where
  "idling InIdle = True"
| "idling IdleBack = True"
| "idling _ = False"

definition tally :: "int set \<Rightarrow> ('f worker_pc \<Rightarrow> bool) \<Rightarrow> 'f workers \<Rightarrow> u64" where
  "tally T P s = threads_at T P (s_pc s)"

lemma tally_upd:
  assumes "finite T" and "tid \<in> T" and "s_pc s' = (s_pc s)(tid := p)"
  shows "tally T P s' = tally T P s + (if P p then 1 else 0) - (if P (s_pc s tid) then 1 else 0)"
  by (simp only: tally_def assms(3) threads_at_upd [OF assms(1,2)])

lemma tally_same: "s_pc s' = s_pc s \<Longrightarrow> tally T P s' = tally T P s"
  by (simp add: tally_def)

definition accounted :: "int set \<Rightarrow> 'f workers \<Rightarrow> bool" where
  "accounted T s \<longleftrightarrow>
     m_activeThreadCount (s_sch s) = tally T busy s
     \<and> m_idleThreadCount (s_sch s) = tally T idling s
     \<and> s_submitted s = mset (m_tasks (s_sch s)) + mset (map snd (s_taken s))
     \<and> (\<forall>(tid, t) \<in> set (s_taken s). task_thread t = - 1 \<or> task_thread t = tid)
     \<and> (\<forall>tid. s_idle_done s tid \<longrightarrow> m_stopping (s_sch s))
     \<and> (\<forall>tid. s_pc s tid = Exited \<longrightarrow> s_idle_done s tid)"

lemma accounted_start: "workers_start s \<Longrightarrow> accounted T s"
  by (simp add: workers_start_def accounted_def tally_def threads_at_def)

lemma stop_begin_Some:
  "stop_begin sch = Some (n, root, sch') \<Longrightarrow> sch' = sch\<lparr>m_stopping := True\<rparr> \<and> \<not> stopping sch"
  by (auto simp: stop_begin_def Let_def split: if_splits)

lemma accounted_step:
  assumes "finite T" and "worker_step T may s s'" and "accounted T s"
  shows "accounted T s'"
  using assms(2,3)
proof (induction rule: worker_step.induct)
  case (create d s)
  then show ?case by (simp add: accounted_def tally_def)
next
  case (submit s fc thr)
  then show ?case by (simp add: accounted_def tally_def schedule_frame m_tasks_schedule)
next
  case (request_stop s n root sch')
  then show ?case by (auto simp: accounted_def tally_def dest!: stop_begin_Some)
next
  case (take tid s t tick sch')
  then have tk: "mset (m_tasks (s_sch s)) = add_mset t (mset (m_tasks sch'))" "eligible tid (s_state s) t"
    "m_stopping sch' = m_stopping (s_sch s)" "m_activeThreadCount sch' = m_activeThreadCount (s_sch s) + 1"
    "m_idleThreadCount sch' = m_idleThreadCount (s_sch s)"
    using take_task_tasks by blast+
  then have "task_thread t = - 1 \<or> task_thread t = tid" by (simp add: eligible_def)
  with take tk show ?case
    by (simp add: accounted_def tally_upd [OF assms(1) take(1), where s = s])
next
  case (take_none tid s tick sch')
  then have "sch' = s_sch s" using take_task_None by blast
  with take_none show ?case
    by (simp add: accounted_def tally_upd [OF assms(1) take_none(1), where s = s])
next
  case (idle_test tid s)
  have "m_stopping (s_sch s)"
    if "((s_idle_done s)(tid := stopping (s_sch s))) u" for u
    using that idle_test by (auto simp: accounted_def stopping_def split: if_splits)
  with idle_test show ?case
    by (simp add: accounted_def tally_upd [OF assms(1) idle_test(1), where s = s])
qed (simp_all add: accounted_def tally_upd [OF assms(1), where s = s for s])

interpretation worker_accounts: step_invariant
  "\<lambda>s. finite T \<and> workers_start s" "worker_step T may" "\<lambda>s. finite T \<and> accounted T s" for T may
  by unfold_locales (auto intro: accounted_start accounted_step)

text \<open>
  (C5) In every state the worker threads reach, however they interleave and whatever is
  submitted: the active and idle counters count the threads between taking a task and giving
  it back, and inside the idle coroutine, modulo \<open>2 ^ 64\<close>; every submitted task is either
  queued or was taken, exactly once each; a pinned task was taken by its thread only; and a
  thread leaves \<open>run\<close> only after \<open>stop\<close> was requested.
\<close>

theorem workers_account:
  assumes "finite T" and "workers_start s" and "(worker_step T may)\<^sup>*\<^sup>* s s'"
  shows "m_activeThreadCount (s_sch s') = of_nat (card {tid \<in> T. busy (s_pc s' tid)})
    \<and> m_idleThreadCount (s_sch s') = of_nat (card {tid \<in> T. idling (s_pc s' tid)})
    \<and> s_submitted s' = mset (m_tasks (s_sch s')) + mset (map snd (s_taken s'))
    \<and> (\<forall>(tid, t) \<in> set (s_taken s'). task_thread t = - 1 \<or> task_thread t = tid)
    \<and> (\<forall>tid. s_pc s' tid = Exited \<longrightarrow> m_stopping (s_sch s'))"
proof -
  have "accounted T s'" using worker_accounts.good_reachable [of T s may s'] assms by simp
  then show ?thesis by (auto simp: accounted_def tally_def threads_at_def)
qed

section \<open>What is left when a thread leaves\<close>

text \<open>
  Tasks submit while they run; anybody submits before \<open>stop\<close> is requested.
\<close>

definition live_submit :: "int set \<Rightarrow> 'f workers \<Rightarrow> 'f SchedulerTask \<Rightarrow> bool" where
  "live_submit T s t \<longleftrightarrow> \<not> m_stopping (s_sch s) \<or> (\<exists>tid \<in> T. \<exists>d. s_pc s tid = InDor d)"

definition drained :: "int set \<Rightarrow> 'f workers \<Rightarrow> bool" where
  "drained T s \<longleftrightarrow> m_stopping (s_sch s) \<and> m_tasks (s_sch s) = [] \<and> (\<forall>tid \<in> T. \<not> busy (s_pc s tid))"

definition drain_inv :: "int set \<Rightarrow> 'f workers \<Rightarrow> bool" where
  "drain_inv T s \<longleftrightarrow> accounted T s \<and> ((\<exists>tid. s_idle_done s tid) \<longrightarrow> drained T s)"

lemma stopping_drained:
  assumes "finite T" and "card T < 2 ^ 64" and "accounted T s" and "stopping (s_sch s)"
  shows "drained T s"
proof -
  have "threads_at T busy (s_pc s) = 0"
    using assms(3,4) by (simp add: accounted_def tally_def stopping_def)
  then show ?thesis using threads_at_zero [OF assms(1,2)] assms(4) by (auto simp: drained_def stopping_def)
qed

lemma drained_step:
  assumes "worker_step T (live_submit T) s s'" and "drained T s"
  shows "drained T s'"
  using assms
proof (induction rule: worker_step.induct)
  case (submit s fc thr)
  then have False by (force simp: live_submit_def drained_def)
  then show ?case ..
next
  case (take tid s t tick sch')
  then have "mset (m_tasks (s_sch s)) = add_mset t (mset (m_tasks sch'))" using take_task_tasks by blast
  with take show ?case by (simp add: drained_def)
next
  case (take_none tid s tick sch')
  then have "sch' = s_sch s" using take_task_None by blast
  with take_none show ?case by (auto simp: drained_def)
qed (force simp: drained_def dest!: stop_begin_Some)+

lemma idle_becomes_done:
  "worker_step T may s s' \<Longrightarrow> s_idle_done s' tid \<Longrightarrow> \<not> s_idle_done s tid
    \<Longrightarrow> s_sch s' = s_sch s \<and> stopping (s_sch s)"
  by (induction rule: worker_step.induct) (auto split: if_splits)

lemma drain_inv_step:
  assumes "finite T" and "card T < 2 ^ 64" and "worker_step T (live_submit T) s s'" and "drain_inv T s"
  shows "drain_inv T s'"
proof -
  have acc: "accounted T s'" using accounted_step [OF assms(1,3)] assms(4) by (simp add: drain_inv_def)
  have "drained T s'" if fin: "\<exists>tid. s_idle_done s' tid"
  proof (cases "\<exists>tid. s_idle_done s tid")
    case True
    then show ?thesis using assms(3,4) drained_step by (auto simp: drain_inv_def)
  next
    case False
    then have "s_sch s' = s_sch s \<and> stopping (s_sch s)"
      using fin idle_becomes_done [OF assms(3)] by blast
    then show ?thesis using stopping_drained [OF assms(1,2) acc] by simp
  qed
  with acc show ?thesis by (simp add: drain_inv_def)
qed

interpretation worker_drain: step_invariant
  "\<lambda>s. finite T \<and> card T < 2 ^ 64 \<and> workers_start s" "worker_step T (live_submit T)"
  "\<lambda>s. finite T \<and> card T < 2 ^ 64 \<and> drain_inv T s" for T
  by unfold_locales (auto simp: drain_inv_def workers_start_def intro: accounted_start
      dest: drain_inv_step [unfolded drain_inv_def])

text \<open>
  (C14) A thread leaves \<open>run\<close> only when everything is done: if after the request to stop only
  running tasks submit, then as soon as one of fewer than \<open>2 ^ 64\<close> threads has left the loop,
  the queue is empty, every task submitted was taken, and no thread holds a task.
\<close>

theorem exit_means_drained:
  assumes "finite T" and "card T < 2 ^ 64" and "workers_start s"
    and "(worker_step T (live_submit T))\<^sup>*\<^sup>* s s'" and "s_pc s' tid = Exited"
  shows "m_tasks (s_sch s') = [] \<and> s_submitted s' = mset (map snd (s_taken s'))
    \<and> (\<forall>u \<in> T. \<not> busy (s_pc s' u))"
proof -
  have "drain_inv T s'" using worker_drain.good_reachable [of T s s'] assms by simp
  then show ?thesis using assms(5) by (auto simp: drain_inv_def accounted_def drained_def)
qed

section \<open>Who runs a coroutine\<close>

fun holds :: "'f worker_pc \<Rightarrow> nat \<Rightarrow> bool" where
  "holds (Taken t) d = (task_doroutine t = Some d)"
| "holds (InDor e) d = (e = d)"
| "holds (Leaving e) d = (e = d)"
| "holds (Ended e) d = (e = d)"
| "holds _ d = False"

definition queued :: "'f Scheduler \<Rightarrow> nat list" where
  "queued sch = List.map_filter task_doroutine (m_tasks sch)"

text \<open>
  The discipline: a coroutine is submitted only when it is ready, not queued, and no thread
  holds it (which includes a thread that is still switching away from it).
\<close>

definition disciplined :: "int set \<Rightarrow> 'f workers \<Rightarrow> 'f SchedulerTask \<Rightarrow> bool" where
  "disciplined T s t \<longleftrightarrow> (\<forall>d. task_doroutine t = Some d \<longrightarrow>
     s_state s d = READY \<and> d \<notin> set (queued (s_sch s)) \<and> (\<forall>tid \<in> T. \<not> holds (s_pc s tid) d))"

fun state_fits :: "(nat \<Rightarrow> State) \<Rightarrow> 'f worker_pc \<Rightarrow> bool" where
  "state_fits st (Taken t) = (\<forall>d. task_doroutine t = Some d \<longrightarrow> st d = READY)"
| "state_fits st (InDor d) = (st d = RUNNING)"
| "state_fits st (Ended d) = False"
| "state_fits st _ = True"

lemma state_fits_upd: "state_fits st p \<Longrightarrow> \<not> holds p d \<Longrightarrow> state_fits (st(d := x)) p"
  by (cases p) auto

definition exclusive :: "int set \<Rightarrow> 'f workers \<Rightarrow> bool" where
  "exclusive T s \<longleftrightarrow> distinct (queued (s_sch s))
     \<and> (\<forall>d \<in> set (queued (s_sch s)). d \<in> s_live s \<and> s_state s d = READY \<and> (\<forall>tid \<in> T. \<not> holds (s_pc s tid) d))
     \<and> (\<forall>tid \<in> T. \<forall>d. holds (s_pc s tid) d \<longrightarrow> d \<in> s_live s \<and> (\<forall>u \<in> T. holds (s_pc s u) d \<longrightarrow> u = tid))
     \<and> (\<forall>tid \<in> T. state_fits (s_state s) (s_pc s tid))"

lemma exclusiveD:
  assumes "exclusive T s"
  shows "distinct (queued (s_sch s))"
    and "d \<in> set (queued (s_sch s)) \<Longrightarrow> d \<in> s_live s \<and> s_state s d = READY"
    and "d \<in> set (queued (s_sch s)) \<Longrightarrow> tid \<in> T \<Longrightarrow> \<not> holds (s_pc s tid) d"
    and "tid \<in> T \<Longrightarrow> holds (s_pc s tid) d \<Longrightarrow> d \<in> s_live s"
    and "tid \<in> T \<Longrightarrow> holds (s_pc s tid) d \<Longrightarrow> u \<in> T \<Longrightarrow> holds (s_pc s u) d \<Longrightarrow> u = tid"
    and "tid \<in> T \<Longrightarrow> state_fits (s_state s) (s_pc s tid)"
  using assms unfolding exclusive_def by blast+

lemma exclusiveI:
  assumes "distinct (queued (s_sch s))"
    and "\<And>d. d \<in> set (queued (s_sch s)) \<Longrightarrow> d \<in> s_live s \<and> s_state s d = READY"
    and "\<And>d tid. d \<in> set (queued (s_sch s)) \<Longrightarrow> tid \<in> T \<Longrightarrow> \<not> holds (s_pc s tid) d"
    and "\<And>d tid. tid \<in> T \<Longrightarrow> holds (s_pc s tid) d \<Longrightarrow> d \<in> s_live s"
    and "\<And>d tid u. tid \<in> T \<Longrightarrow> holds (s_pc s tid) d \<Longrightarrow> u \<in> T \<Longrightarrow> holds (s_pc s u) d \<Longrightarrow> u = tid"
    and "\<And>tid. tid \<in> T \<Longrightarrow> state_fits (s_state s) (s_pc s tid)"
  shows "exclusive T s"
  using assms unfolding exclusive_def by blast

text \<open>
  A thread that changes the state of the one coroutine it holds, or that takes hold of a new
  one, and the queue stays as it is.
\<close>

lemma exclusive_move:
  assumes ex: "exclusive T s" and tid: "tid \<in> T"
    and s': "s_pc s' = (s_pc s)(tid := p)" "queued (s_sch s') = queued (s_sch s)"
      "s_live s \<subseteq> s_live s'" "s_state s' = (s_state s)(d := x)" "d \<in> s_live s'"
    and p: "\<forall>e. holds p e \<longrightarrow> e = d" "state_fits (s_state s') p"
    and d: "holds (s_pc s tid) d \<or> d \<notin> s_live s"
  shows "exclusive T s'"
proof -
  note E = exclusiveD [OF ex]
  have other: "\<not> holds (s_pc s u) d" if "u \<in> T" "u \<noteq> tid" for u
    using d E(4) [of u d] E(5) [of tid d u] tid that by blast
  have nq: "d \<notin> set (queued (s_sch s))" using d E(2,3) tid by blast
  show ?thesis
  proof (rule exclusiveI, goal_cases)
    case 1 then show ?case using E(1) s'(2) by simp
  next
    case (2 e) then show ?case using E(2) [of e] nq s' by auto
  next
    case (3 e u) then show ?case using E(3) [of e u] nq p(1) s' by (cases "u = tid") auto
  next
    case (4 e u) then show ?case using E(4) [of u e] p(1) s' by (cases "u = tid") auto
  next
    case (5 e u v)
    then show ?case using E(5) [of u e v] other p(1) s' by (cases "u = tid"; cases "v = tid") auto
  next
    case (6 u) then show ?case using E(6) [of u] other p(2) s' by (cases "u = tid") (auto intro: state_fits_upd)
  qed
qed

text \<open>A thread that lets go, or moves without holding anything.\<close>

lemma exclusive_release:
  assumes ex: "exclusive T s" and s': "s_pc s' = (s_pc s)(tid := p)" "queued (s_sch s') = queued (s_sch s)"
      "s_live s' = s_live s" "s_state s' = s_state s" and p: "\<forall>e. \<not> holds p e" "state_fits (s_state s) p"
  shows "exclusive T s'"
  using ex s' p unfolding exclusive_def by simp

lemma queued_schedule:
  "queued (snd (schedule fc thr sch)) =
    queued sch @ (case task_doroutine (task_of fc thr) of None \<Rightarrow> [] | Some d \<Rightarrow> [d])"
  by (auto simp: queued_def m_tasks_schedule has_work_def List.map_filter_def split: option.splits)

lemma take_task_split:
  assumes "take_task tid st sch = (Some t, tick, sch')"
  obtains pre post where "m_tasks sch = pre @ t # post" and "m_tasks sch' = pre @ post"
proof -
  obtain rest where r: "scan_tasks tid st (m_tasks sch) = (Some t, rest, tick)" "m_tasks sch' = rest"
    using assms by (auto simp: take_task_def split: prod.splits option.splits)
  from scan_Some [OF r(1)] show thesis using that r(2) by blast
qed

lemma queued_take:
  assumes "take_task tid st sch = (Some t, tick, sch')"
  obtains pre post where
    "queued sch = pre @ (case task_doroutine t of None \<Rightarrow> [] | Some d \<Rightarrow> [d]) @ post"
    and "queued sch' = pre @ post"
proof -
  from assms obtain pre post where "m_tasks sch = pre @ t # post" "m_tasks sch' = pre @ post"
    by (rule take_task_split)
  then show thesis
    by (intro that [of "List.map_filter task_doroutine pre" "List.map_filter task_doroutine post"])
      (auto simp: queued_def List.map_filter_def split: option.splits)
qed

lemma exclusive_step:
  assumes "worker_step T (disciplined T) s s'" and "exclusive T s"
  shows "exclusive T s'"
  using assms
proof (induction rule: worker_step.induct)
  case (create d s)
  have "\<not> holds (s_pc s u) d" if "u \<in> T" for u using exclusiveD(4) [OF create(2) that] create(1) by blast
  moreover have "d \<notin> set (queued (s_sch s))" using exclusiveD(2) [OF create(2)] create(1) by blast
  ultimately show ?case using create(2)
    by (intro exclusiveI) (auto dest: exclusiveD intro: state_fits_upd)
next
  case (submit s fc thr)
  show ?case
  proof (cases "task_doroutine (task_of fc thr)")
    case None
    with submit show ?thesis by (simp add: exclusive_def queued_schedule)
  next
    case (Some d)
    then have "d \<in> s_live s" using submit(2) by (cases fc) auto
    moreover have "s_state s d = READY" "d \<notin> set (queued (s_sch s))"
      "\<forall>tid \<in> T. \<not> holds (s_pc s tid) d"
      using submit(1) Some by (simp_all add: disciplined_def)
    ultimately show ?thesis using submit(3) Some by (auto simp: exclusive_def queued_schedule)
  qed
next
  case (request_stop s n root sch')
  then show ?case by (auto simp: exclusive_def queued_def dest!: stop_begin_Some)
next
  case (take tid s t tick sch')
  from take(3) obtain pre post where
    q: "queued (s_sch s) = pre @ (case task_doroutine t of None \<Rightarrow> [] | Some d \<Rightarrow> [d]) @ post"
    "queued sch' = pre @ post" by (rule queued_take)
  note E = exclusiveD [OF take(4)]
  have sub: "e \<in> set (queued (s_sch s))" if "e \<in> set (queued sch')" for e using that q by auto
  have new: "d \<in> set (queued (s_sch s)) \<and> d \<notin> set (queued sch')" if "task_doroutine t = Some d" for d
    using that q E(1) by auto
  show ?case
  proof (rule exclusiveI, goal_cases)
    case 1 then show ?case using E(1) q by (auto split: option.splits)
  next
    case (2 e) then show ?case using E(2) [of e] sub by auto
  next
    case (3 e u) then show ?case using E(3) [of e u] sub new by (cases "u = tid") auto
  next
    case (4 e u) then show ?case using E(2) [of e] E(4) [of u e] new by (cases "u = tid") auto
  next
    case (5 e u v)
    then show ?case using E(5) [of u e v] E(3) [of e u] E(3) [of e v] new
      by (cases "u = tid"; cases "v = tid") auto
  next
    case (6 u) then show ?case using E(6) [of u] E(2) new by (cases "u = tid") auto
  qed
next
  case (take_none tid s tick sch')
  then have "sch' = s_sch s" using take_task_None by blast
  with take_none show ?case by (intro exclusive_release [OF take_none(4)]) auto
next
  case (resume_dor tid s t d)
  then have h: "holds (s_pc s tid) d" by simp
  have "state_fits (s_state s) (Taken t)" using exclusiveD(6) [OF resume_dor(4,1)] resume_dor(2) by simp
  then have "s_state s d = READY" using resume_dor(3) by simp
  with h resume_dor exclusiveD(4) [OF resume_dor(4,1) h] show ?case
    by (intro exclusive_move [OF resume_dor(4,1), where d = d and x = RUNNING]) auto
next
  case (resume_func tid s t f d)
  then show ?case
    by (intro exclusive_move [OF resume_func(6,1), where d = d and x = RUNNING]) auto
next
  case (yield_mark tid s d)
  then have h: "holds (s_pc s tid) d" by simp
  with yield_mark exclusiveD(4) [OF yield_mark(3,1) h] show ?case
    by (intro exclusive_move [OF yield_mark(3,1), where d = d and x = READY]) auto
next
  case (finish tid s d)
  then have h: "holds (s_pc s tid) d" by simp
  with finish exclusiveD(4) [OF finish(3,1) h] show ?case
    by (intro exclusive_move [OF finish(3,1), where d = d and x = TERM']) auto
qed (simp_all add: exclusive_def queued_def)

lemma exclusive_start: "workers_start s \<Longrightarrow> exclusive T s"
  by (simp add: workers_start_def exclusive_def queued_def List.map_filter_simps)

interpretation worker_exclusive: step_invariant
  "workers_start" "worker_step T (disciplined T)" "exclusive T" for T
  by unfold_locales (auto intro: exclusive_start exclusive_step)

text \<open>
  (C22) When coroutines are submitted with that discipline, then however the threads interleave
  no coroutine is ever held by two threads, a coroutine that is executed is in state
  \<open>RUNNING\<close>, none is queued twice, and no thread ends by resuming a finished coroutine.
\<close>

theorem disciplined_exclusive:
  assumes "workers_start s" and "(worker_step T (disciplined T))\<^sup>*\<^sup>* s s'"
    and "tid \<in> T" and "u \<in> T"
  shows "(holds (s_pc s' tid) d \<and> holds (s_pc s' u) d \<longrightarrow> u = tid)
    \<and> (s_pc s' tid = InDor d \<longrightarrow> s_state s' d = RUNNING)
    \<and> distinct (queued (s_sch s')) \<and> s_pc s' tid \<noteq> Ended d"
proof -
  note E = exclusiveD [OF worker_exclusive.good_reachable [OF assms(1,2)]]
  show ?thesis using E(1) E(5) [OF assms(3) _ assms(4)] E(6) [OF assms(3)] by auto
qed

section \<open>Races\<close>

text \<open>Any task is submitted at any time.\<close>

definition any_submit :: "'f workers \<Rightarrow> 'f SchedulerTask \<Rightarrow> bool" where
  "any_submit s t = True"

definition dor_task :: "nat \<Rightarrow> 'f SchedulerTask" where
  "dor_task d = task_of (Dor (Some d)) (- 1)"

lemma submit_dor:
  "d \<in> s_live s \<Longrightarrow> worker_step T any_submit s (s\<lparr>s_sch := (s_sch s)\<lparr>m_tasks := m_tasks (s_sch s) @ [dor_task d]\<rparr>,
     s_submitted := add_mset (dor_task d) (s_submitted s)\<rparr>)"
  using submit [of any_submit s "Dor (Some d)" "- 1" T]
  by (simp add: any_submit_def dor_task_def schedule_def scheduleNoLock_def Let_def has_work_def)

lemma take_dor:
  assumes "tid \<in> T" and "s_pc s tid = AtLoop" and "m_tasks (s_sch s) = dor_task d # ts" and "s_state s d \<noteq> RUNNING"
  shows "worker_step T may s (s\<lparr>s_sch := (s_sch s)\<lparr>m_tasks := ts,
       m_activeThreadCount := m_activeThreadCount (s_sch s) + 1\<rparr>,
     s_pc := (s_pc s)(tid := Taken (dor_task d)), s_taken := s_taken s @ [(tid, dor_task d)]\<rparr>)"
  using assms
  by (intro take) (simp_all add: take_task_def scan_Cons eligible_def dor_task_def)

lemma resume_taken:
  assumes "tid \<in> T" and "s_pc s tid = Taken (dor_task d)" and "s_state s d = READY"
  shows "worker_step T may s (s\<lparr>s_state := (s_state s)(d := RUNNING), s_pc := (s_pc s)(tid := InDor d)\<rparr>)"
  using resume_dor [of tid T s "dor_task d" d may] assms by (simp add: dor_task_def)

text \<open>Both threads are in the loop, and a new coroutine is queued and running on the first.\<close>

lemma reach_running:
  assumes start: "workers_start s" and T: "tid \<in> T" "u \<in> T" "tid \<noteq> u"
    and root: "tid \<noteq> m_rootThreadId (s_sch s)" "u \<noteq> m_rootThreadId (s_sch s)" and d: "d \<notin> s_live s"
  shows "\<exists>s1. (worker_step T any_submit)\<^sup>*\<^sup>* s s1 \<and> d \<in> s_live s1 \<and> s_pc s1 tid = InDor d
    \<and> s_pc s1 u = AtLoop \<and> m_tasks (s_sch s1) = [] \<and> s_state s1 d = RUNNING"
proof -
  let ?R = "worker_step T any_submit"
  note S = start [unfolded workers_start_def]
  define a where "a = s\<lparr>s_live := insert d (s_live s), s_state := (s_state s)(d := READY)\<rparr>"
  define b where "b = a\<lparr>s_sch := (s_sch a)\<lparr>m_tasks := m_tasks (s_sch a) @ [dor_task d]\<rparr>,
     s_submitted := add_mset (dor_task d) (s_submitted a)\<rparr>"
  define c where "c = b\<lparr>s_pc := (s_pc b)(tid := AtLoop)\<rparr>"
  define e where "e = c\<lparr>s_pc := (s_pc c)(u := AtLoop)\<rparr>"
  define f where "f = e\<lparr>s_sch := (s_sch e)\<lparr>m_tasks := [],
       m_activeThreadCount := m_activeThreadCount (s_sch e) + 1\<rparr>,
     s_pc := (s_pc e)(tid := Taken (dor_task d)), s_taken := s_taken e @ [(tid, dor_task d)]\<rparr>"
  define g where "g = f\<lparr>s_state := (s_state f)(d := RUNNING), s_pc := (s_pc f)(tid := InDor d)\<rparr>"
  note defs = a_def b_def c_def e_def f_def g_def
  have "?R s a" unfolding a_def using d by (rule create)
  moreover have "?R a b" unfolding b_def by (rule submit_dor) (simp add: a_def)
  moreover have "?R b c" unfolding c_def using T root S by (intro enter) (simp_all add: a_def b_def)
  moreover have "?R c e" unfolding e_def using T root S by (intro enter) (simp_all add: a_def b_def c_def)
  moreover have "?R e f" unfolding f_def using T S by (intro take_dor) (simp_all add: a_def b_def c_def e_def)
  moreover have "?R f g" unfolding g_def using T
    by (intro resume_taken) (simp_all add: a_def b_def c_def e_def f_def)
  ultimately have "?R\<^sup>*\<^sup>* s g" by (meson rtranclp.rtrancl_into_rtrancl rtranclp.rtrancl_refl)
  then show ?thesis using T by (intro exI [of _ g]) (simp add: defs)
qed

text \<open>
  (C35) \<open>Doroutine::yield\<close> sets \<open>READY\<close> before its \<open>swapcontext\<close> saves the context. A coroutine
  that was queued again while it ran (as a descriptor event or a timer does) can therefore be
  taken by a second thread in between: that thread executes it while the first one is still on
  its stack. This is reachable from every start with two worker threads.
\<close>

theorem yield_race:
  assumes "workers_start s" and "tid \<in> T" "u \<in> T" "tid \<noteq> u"
    and "tid \<noteq> m_rootThreadId (s_sch s)" "u \<noteq> m_rootThreadId (s_sch s)" and "d \<notin> s_live s"
  shows "\<exists>s'. (worker_step T any_submit)\<^sup>*\<^sup>* s s' \<and> s_pc s' tid = Leaving d \<and> s_pc s' u = InDor d"
proof -
  let ?R = "worker_step T any_submit"
  from reach_running [OF assms] obtain g where g: "?R\<^sup>*\<^sup>* s g" "d \<in> s_live g" "s_pc g tid = InDor d"
    "s_pc g u = AtLoop" "m_tasks (s_sch g) = []" "s_state g d = RUNNING" by blast
  define h where "h = g\<lparr>s_sch := (s_sch g)\<lparr>m_tasks := m_tasks (s_sch g) @ [dor_task d]\<rparr>,
     s_submitted := add_mset (dor_task d) (s_submitted g)\<rparr>"
  define i where "i = h\<lparr>s_state := (s_state h)(d := READY), s_pc := (s_pc h)(tid := Leaving d)\<rparr>"
  define j where "j = i\<lparr>s_sch := (s_sch i)\<lparr>m_tasks := [],
       m_activeThreadCount := m_activeThreadCount (s_sch i) + 1\<rparr>,
     s_pc := (s_pc i)(u := Taken (dor_task d)), s_taken := s_taken i @ [(u, dor_task d)]\<rparr>"
  define k where "k = j\<lparr>s_state := (s_state j)(d := RUNNING), s_pc := (s_pc j)(u := InDor d)\<rparr>"
  have "?R g h" unfolding h_def using g(2) by (rule submit_dor)
  moreover have "?R h i" unfolding i_def using assms(2) g by (intro yield_mark) (simp_all add: h_def)
  moreover have "?R i j" unfolding j_def using assms(3,4) g by (intro take_dor) (simp_all add: h_def i_def)
  moreover have "?R j k" unfolding k_def using assms(3) by (intro resume_taken) (simp_all add: h_def i_def j_def)
  ultimately have "?R\<^sup>*\<^sup>* s k" using g(1) by (meson rtranclp.rtrancl_into_rtrancl)
  then show ?thesis using assms(4) by (intro exI [of _ k]) (simp add: h_def i_def j_def k_def)
qed

definition wit_workers :: "nat workers" where
  "wit_workers = \<lparr>s_sch = \<lparr>m_name = ''s'', m_threadPool = [0, 1], m_tasks = [], m_threadIds = [],
     m_threadCount = 2, m_activeThreadCount = 0, m_idleThreadCount = 0,
     m_useCaller = False, m_rootDoroutine = None, m_rootThreadId = - 1, m_stopping = False\<rparr>,
   s_state = (\<lambda>d. READY), s_live = {}, s_pc = (\<lambda>tid. NotStarted), s_idle_done = (\<lambda>tid. False),
   s_submitted = {#}, s_taken = []\<rparr>"

lemma wit_workers_start: "workers_start wit_workers"
  by (simp add: workers_start_def wit_workers_def)

lemma yield_race_witness:
  "\<exists>s'. (worker_step {1, 2} any_submit)\<^sup>*\<^sup>* wit_workers s' \<and> s_pc s' 1 = Leaving 7 \<and> s_pc s' 2 = InDor 7"
  by (rule yield_race [OF wit_workers_start]) (simp_all add: wit_workers_def)

text \<open>A run of one step for the witnesses of the invariants: the first worker enters \<open>run\<close>.\<close>

definition wit_entered :: "nat workers" where
  "wit_entered = wit_workers\<lparr>s_pc := (s_pc wit_workers)(1 := AtLoop)\<rparr>"

lemma wit_entered_reach: "(worker_step {1, 2} may)\<^sup>*\<^sup>* wit_workers wit_entered"
proof -
  have "worker_step {1, 2} may wit_workers wit_entered"
    unfolding wit_entered_def by (rule enter) (simp_all add: wit_workers_def)
  then show ?thesis by blast
qed

lemma workers_account_witness:
  "m_activeThreadCount (s_sch wit_entered) = of_nat (card {tid \<in> {1, 2}. busy (s_pc wit_entered tid)})
   \<and> s_pc wit_entered 1 = AtLoop"
  using workers_account [OF _ wit_workers_start wit_entered_reach]
  by (simp add: wit_entered_def)

lemma disciplined_exclusive_witness:
  "(worker_step {1, 2} (disciplined {1, 2}))\<^sup>*\<^sup>* wit_workers wit_entered
    \<and> distinct (queued (s_sch wit_entered)) \<and> s_pc wit_entered 1 \<noteq> Ended 7"
  using disciplined_exclusive [OF wit_workers_start wit_entered_reach, of 1 2 7] wit_entered_reach by simp

text \<open>A worker that finds nothing to do after \<open>stop\<close> was requested, and leaves.\<close>

lemma take_nothing:
  "tid \<in> T \<Longrightarrow> s_pc s tid = AtLoop \<Longrightarrow> m_tasks (s_sch s) = [] \<Longrightarrow>
    worker_step T may s (s\<lparr>s_pc := (s_pc s)(tid := NoTask)\<rparr>)"
  using take_none [of tid T s False "s_sch s" may] by (simp add: take_task_def)

lemma reach_exit:
  "\<exists>s'. (worker_step {1} may)\<^sup>*\<^sup>* wit_workers s' \<and> s_pc s' 1 = Exited"
proof -
  let ?R = "worker_step {1} may"
  define a where "a = wit_workers\<lparr>s_sch := (s_sch wit_workers)\<lparr>m_stopping := True\<rparr>\<rparr>"
  define b where "b = a\<lparr>s_pc := (s_pc a)(1 := AtLoop)\<rparr>"
  define c where "c = b\<lparr>s_pc := (s_pc b)(1 := NoTask)\<rparr>"
  define e where "e = c\<lparr>s_pc := (s_pc c)(1 := InIdle),
       s_sch := (s_sch c)\<lparr>m_idleThreadCount := m_idleThreadCount (s_sch c) + 1\<rparr>\<rparr>"
  define f where "f = e\<lparr>s_pc := (s_pc e)(1 := IdleBack),
       s_idle_done := (s_idle_done e)(1 := stopping (s_sch e))\<rparr>"
  define g where "g = f\<lparr>s_pc := (s_pc f)(1 := AtLoop),
       s_sch := (s_sch f)\<lparr>m_idleThreadCount := m_idleThreadCount (s_sch f) - 1\<rparr>\<rparr>"
  define h where "h = g\<lparr>s_pc := (s_pc g)(1 := NoTask)\<rparr>"
  define i where "i = h\<lparr>s_pc := (s_pc h)(1 := Exited)\<rparr>"
  note defs = wit_workers_def a_def b_def c_def e_def f_def g_def h_def
  have "?R wit_workers a" unfolding a_def
    by (rule request_stop [where n = 2 and root = False])
      (simp add: stop_begin_def stopping_def wit_workers_def)
  moreover have "?R a b" unfolding b_def by (rule enter) (simp_all add: defs)
  moreover have "?R b c" unfolding c_def by (rule take_nothing) (simp_all add: defs)
  moreover have "?R c e" unfolding e_def by (rule idle_in) (simp_all add: defs)
  moreover have "?R e f" unfolding f_def by (rule idle_test) (simp_all add: defs)
  moreover have "?R f g" unfolding g_def by (rule idle_out) (simp_all add: defs)
  moreover have "?R g h" unfolding h_def by (rule take_nothing) (simp_all add: defs)
  moreover have "?R h i" unfolding i_def by (rule leave) (simp_all add: defs stopping_def)
  ultimately have "?R\<^sup>*\<^sup>* wit_workers i" by (meson rtranclp.rtrancl_into_rtrancl rtranclp.rtrancl_refl)
  then show ?thesis by (intro exI [of _ i]) (simp add: i_def)
qed

lemma exit_means_drained_witness:
  "\<exists>s'. (worker_step {1} (live_submit {1}))\<^sup>*\<^sup>* wit_workers s' \<and> s_pc s' 1 = Exited
    \<and> m_tasks (s_sch s') = []"
proof -
  obtain s' where s': "(worker_step {1} (live_submit {1}))\<^sup>*\<^sup>* wit_workers s'" "s_pc s' 1 = Exited"
    using reach_exit by blast
  with exit_means_drained [OF _ _ wit_workers_start s'] show ?thesis by auto
qed

end
