(* ===== verification/FdManager.thy ===== *)
theory FdManager
  imports Prelude
begin

text \<open>
  The table of descriptor contexts (\<open>include/fdManager.h\<close>, \<open>src/fdManager.cpp\<close>). Contexts are
  objects at addresses, and the table holds shared pointers to them; the kernel state is
  abstract, and the three system calls \<open>FdCtx::init\<close> makes are a record of functions on it.
\<close>

section \<open>Data\<close>

type_synonym fd_flags = "32 word"

definition O_NONBLOCK :: fd_flags where "O_NONBLOCK = 0x800"

definition S_IFMT :: u32 where "S_IFMT = 0xF000"
definition S_IFSOCK :: u32 where "S_IFSOCK = 0xC000"

definition S_ISSOCK :: "u32 \<Rightarrow> bool" where
  "S_ISSOCK mode = ((mode AND S_IFMT) = S_IFSOCK)"

text \<open>
  \<open>sys_fstat\<close> gives the mode, or \<open>None\<close> when the call fails; \<open>sys_getfl\<close> is
  \<open>fcntl(fd, F_GETFL)\<close>, all ones on failure; \<open>sys_setfl\<close> is \<open>fcntl(fd, F_SETFL, v)\<close>.
\<close>

record 'k fd_calls =
  sys_fstat :: "int \<Rightarrow> 'k \<Rightarrow> u32 option"
  sys_getfl :: "int \<Rightarrow> 'k \<Rightarrow> fd_flags"
  sys_setfl :: "int \<Rightarrow> fd_flags \<Rightarrow> 'k \<Rightarrow> 'k"

record FdCtx =
  m_isInit :: bool
  m_isSocket :: bool
  m_sysNoBlock :: bool
  m_userNoBlock :: bool
  m_isClosed :: bool
  m_fd :: int
  m_recvTimeout :: u64
  m_sendTimeout :: u64

definition SO_RCVTIMEO :: int where "SO_RCVTIMEO = 20"
definition SO_SNDTIMEO :: int where "SO_SNDTIMEO = 21"

section \<open>One context\<close>

definition FdCtx_init :: "'k fd_calls \<Rightarrow> FdCtx \<times> 'k \<Rightarrow> bool \<times> FdCtx \<times> 'k" where
  "FdCtx_init sys cw =
     (let (c, k) = cw
      in if m_isInit c then (True, c, k)
         else
           let c1 = (case sys_fstat sys (m_fd c) k of
                 None \<Rightarrow> c\<lparr>m_isInit := False, m_isSocket := False\<rparr>
               | Some mode \<Rightarrow> c\<lparr>m_isInit := True, m_isSocket := S_ISSOCK mode\<rparr>)
           in if m_isSocket c1 then
                let flags = sys_getfl sys (m_fd c1) k;
                    k1 = (if (flags AND O_NONBLOCK) = 0
                          then sys_setfl sys (m_fd c1) (flags OR O_NONBLOCK) k else k)
                in (m_isInit c1, c1\<lparr>m_sysNoBlock := True\<rparr>, k1)
              else (m_isInit c1, c1\<lparr>m_sysNoBlock := False\<rparr>, k))"

definition FdCtx_new :: "'k fd_calls \<Rightarrow> int \<Rightarrow> 'k \<Rightarrow> FdCtx \<times> 'k" where
  "FdCtx_new sys fd k = snd (FdCtx_init sys
     (\<lparr>m_isInit = False, m_isSocket = False, m_sysNoBlock = False, m_userNoBlock = False,
       m_isClosed = False, m_fd = fd, m_recvTimeout = - 1, m_sendTimeout = - 1\<rparr>, k))"

definition setTimeout :: "int \<Rightarrow> u64 \<Rightarrow> FdCtx \<Rightarrow> FdCtx" where
  "setTimeout type v c =
     (if type = SO_RCVTIMEO then c\<lparr>m_recvTimeout := v\<rparr> else c\<lparr>m_sendTimeout := v\<rparr>)"

definition getTimeout :: "int \<Rightarrow> FdCtx \<Rightarrow> u64" where
  "getTimeout type c = (if type = SO_RCVTIMEO then m_recvTimeout c else m_sendTimeout c)"

definition isInit :: "FdCtx \<Rightarrow> bool" where "isInit c = m_isInit c"
definition isSocket :: "FdCtx \<Rightarrow> bool" where "isSocket c = m_isSocket c"
definition isClose :: "FdCtx \<Rightarrow> bool" where "isClose c = m_isClosed c"
definition setUserNonblock :: "bool \<Rightarrow> FdCtx \<Rightarrow> FdCtx" where
  "setUserNonblock v c = c\<lparr>m_userNoBlock := v\<rparr>"
definition getUserNonblock :: "FdCtx \<Rightarrow> bool" where "getUserNonblock c = m_userNoBlock c"
definition setSysNonblock :: "bool \<Rightarrow> FdCtx \<Rightarrow> FdCtx" where
  "setSysNonblock v c = c\<lparr>m_sysNoBlock := v\<rparr>"
definition getSysNonblock :: "FdCtx \<Rightarrow> bool" where "getSysNonblock c = m_sysNoBlock c"

section \<open>The table\<close>

record FdManager =
  fobj :: "nat \<Rightarrow> FdCtx"
  m_fds :: "nat option list"

definition FdManager_new :: "(nat \<Rightarrow> FdCtx) \<Rightarrow> FdManager" where
  "FdManager_new h = \<lparr>fobj = h, m_fds = replicate 64 None\<rparr>"

text \<open>
  \<open>get\<close> in its two critical sections: the one under the read lock, \<open>None\<close> when it falls
  through, and the one under the write lock, which creates the context at address \<open>p\<close>.
\<close>

definition get_read :: "int \<Rightarrow> bool \<Rightarrow> FdManager \<Rightarrow> fault + nat option option" where
  "get_read fd autoCreate mgr =
     (if fd = - 1 then Inr (Some None)
      else if int_of_size (length (m_fds mgr)) \<le> fd \<and> \<not> autoCreate then Inr (Some None)
      else if int_of_size (length (m_fds mgr)) > fd then
        rbind (vec_get (m_fds mgr) fd) (\<lambda>c.
          if c \<noteq> None \<or> \<not> autoCreate then Inr (Some c) else Inr None)
      else Inr None)"

definition get_create ::
  "nat \<Rightarrow> 'k fd_calls \<Rightarrow> int \<Rightarrow> FdManager \<times> 'k \<Rightarrow> fault + (nat option \<times> FdManager \<times> 'k)" where
  "get_create p sys fd mk =
     (let (mgr, k) = mk;
          (c, k1) = FdCtx_new sys fd k;
          fds = (if size_of_int fd \<ge> length (m_fds mgr) then vec_resize (grow_size fd) None (m_fds mgr)
                 else m_fds mgr)
      in rbind (vec_put fds fd (Some p)) (\<lambda>fds'.
           Inr (Some p, mgr\<lparr>fobj := (fobj mgr)(p := c), m_fds := fds'\<rparr>, k1)))"

definition get ::
  "nat \<Rightarrow> 'k fd_calls \<Rightarrow> int \<Rightarrow> bool \<Rightarrow> FdManager \<times> 'k \<Rightarrow> fault + (nat option \<times> FdManager \<times> 'k)" where
  "get p sys fd autoCreate mk =
     rbind (get_read fd autoCreate (fst mk)) (\<lambda>r.
       case r of Some c \<Rightarrow> Inr (c, mk) | None \<Rightarrow> get_create p sys fd mk)"

definition delFd :: "int \<Rightarrow> FdManager \<Rightarrow> fault + FdManager" where
  "delFd fd mgr =
     (if size_of_int fd \<ge> length (m_fds mgr) then Inr mgr
      else rbind (vec_put (m_fds mgr) fd None) (\<lambda>fds. Inr (mgr\<lparr>m_fds := fds\<rparr>)))"

section \<open>One context: facts\<close>

lemma bit_O_NONBLOCK: "bit O_NONBLOCK n \<longleftrightarrow> n = 11"
proof -
  have "O_NONBLOCK = push_bit 11 1" by (simp add: O_NONBLOCK_def)
  from this [THEN arg_cong [where f = "\<lambda>w. bit w n"]] show ?thesis
    by (simp only: bit_push_bit_iff bit_1_iff) (auto simp: possible_bit_def)
qed

lemma getTimeout_setTimeout:
  "getTimeout t (setTimeout s v c) = (if (t = SO_RCVTIMEO) = (s = SO_RCVTIMEO) then v else getTimeout t c)"
  by (simp add: getTimeout_def setTimeout_def)

lemma FdCtx_new_fields:
  "m_fd (fst (FdCtx_new sys fd k)) = fd \<and> \<not> m_isClosed (fst (FdCtx_new sys fd k))
   \<and> \<not> m_userNoBlock (fst (FdCtx_new sys fd k))
   \<and> m_recvTimeout (fst (FdCtx_new sys fd k)) = - 1 \<and> m_sendTimeout (fst (FdCtx_new sys fd k)) = - 1
   \<and> m_sysNoBlock (fst (FdCtx_new sys fd k)) = m_isSocket (fst (FdCtx_new sys fd k))"
  by (auto simp: FdCtx_new_def FdCtx_init_def Let_def split: option.split)

text \<open>
  A new context knows its descriptor: it is initialised exactly when \<open>fstat\<close> succeeds and
  a socket exactly when the mode says so; both timeouts are unset. For a socket whose flags can
  be read and set, the descriptor is non-blocking in the kernel afterwards and every other flag
  is as it was; a second \<open>init\<close> changes nothing.
\<close>

theorem FdCtx_new_spec:
  assumes "FdCtx_new sys fd k = (c, k')"
    and "\<forall>v. sys_getfl sys fd (sys_setfl sys fd v k) = v"
  shows "m_isInit c = (sys_fstat sys fd k \<noteq> None)
    \<and> m_isSocket c = (\<exists>mode. sys_fstat sys fd k = Some mode \<and> S_ISSOCK mode)
    \<and> getTimeout t c = - 1 \<and> m_sysNoBlock c = m_isSocket c
    \<and> (m_isSocket c \<longrightarrow> sys_getfl sys fd k' = (sys_getfl sys fd k OR O_NONBLOCK))
    \<and> (\<not> m_isSocket c \<longrightarrow> k' = k)
    \<and> (m_isInit c \<longrightarrow> FdCtx_init sys (c, k') = (True, c, k'))"
proof -
  have set: "flags OR O_NONBLOCK = flags" if "flags AND O_NONBLOCK \<noteq> 0" for flags :: fd_flags
  proof (rule bit_eqI)
    fix n
    have "bit flags 11"
    proof (rule ccontr)
      assume "\<not> bit flags 11"
      then have "flags AND O_NONBLOCK = 0"
        by (intro bit_eqI) (auto simp: bit_O_NONBLOCK bit_simps)
      with that show False ..
    qed
    then show "bit (flags OR O_NONBLOCK) n = bit flags n"
      by (auto simp: bit_O_NONBLOCK bit_simps)
  qed
  show ?thesis
  proof (cases "sys_fstat sys fd k")
    case None
    with assms(1) show ?thesis
      by (auto simp: FdCtx_new_def FdCtx_init_def getTimeout_def)
  next
    case (Some mode)
    with assms set show ?thesis
      by (auto simp: FdCtx_new_def FdCtx_init_def getTimeout_def Let_def split: if_splits)
  qed
qed

section \<open>The table: invariant\<close>

interpretation fd_table: growing_table 64 grow_size
  by unfold_locales (simp add: grow_size_fits)

text \<open>
  The table never has fewer than its first 64 slots, is small enough for \<open>int\<close> sizes, and the
  context in a slot is the slot's; no context is ever marked closed.
\<close>

definition fdm_inv :: "FdManager \<Rightarrow> bool" where
  "fdm_inv mgr \<longleftrightarrow> 64 \<le> length (m_fds mgr) \<and> length (m_fds mgr) < 2 ^ 31
     \<and> (\<forall>i < length (m_fds mgr). \<forall>p. m_fds mgr ! i = Some p \<longrightarrow>
          m_fd (fobj mgr p) = int i \<and> \<not> m_isClosed (fobj mgr p))"

definition valid_fd :: "int \<Rightarrow> bool" where
  "valid_fd fd \<longleftrightarrow> 0 \<le> fd \<and> fd < 2 ^ 30"

text \<open>An address that no slot of the table holds.\<close>

definition fresh_ptr :: "nat \<Rightarrow> FdManager \<Rightarrow> bool" where
  "fresh_ptr p mgr \<longleftrightarrow> Some p \<notin> set (m_fds mgr)"

definition grown :: "int \<Rightarrow> 'a option list \<Rightarrow> 'a option list" where
  "grown fd fds = (if length fds \<le> nat fd then vec_resize (grow_size fd) None fds else fds)"

lemma grown_props:
  assumes "valid_fd fd" and "64 \<le> length fds" and "length fds < 2 ^ 31"
  shows "nat fd < length (grown fd fds)" and "64 \<le> length (grown fd fds)"
    and "length (grown fd fds) < 2 ^ 31" and "length fds \<le> length (grown fd fds)"
    and "i < length fds \<Longrightarrow> grown fd fds ! i = fds ! i"
    and "length fds \<le> i \<Longrightarrow> i < length (grown fd fds) \<Longrightarrow> grown fd fds ! i = None"
proof -
  have fd: "0 \<le> fd" "fd < 2 ^ 30" using assms(1) by (simp_all add: valid_fd_def)
  have big: "nat fd < grow_size fd \<and> length fds \<le> grow_size fd" if "length fds \<le> nat fd"
  proof -
    have n: "int (length fds) \<le> fd" using that fd by linarith
    show ?thesis using fd_table.grown_slot [OF assms(2) n] fd_table.grown_length [OF assms(2) n] fd
      by linarith
  qed
  show "nat fd < length (grown fd fds)" "64 \<le> length (grown fd fds)"
    "length (grown fd fds) < 2 ^ 31" "length fds \<le> length (grown fd fds)"
    using big assms(2,3) grow_size_bound [OF fd] by (auto simp: grown_def)
  show "i < length fds \<Longrightarrow> grown fd fds ! i = fds ! i"
    using big by (auto simp: grown_def nth_vec_resize)
  show "length fds \<le> i \<Longrightarrow> i < length (grown fd fds) \<Longrightarrow> grown fd fds ! i = None"
    by (auto simp: grown_def nth_vec_resize split: if_splits)
qed

lemma get_create_eq:
  assumes "valid_fd fd" and "fdm_inv mgr"
  shows "get_create p sys fd (mgr, k) = Inr (Some p,
    mgr\<lparr>fobj := (fobj mgr)(p := fst (FdCtx_new sys fd k)),
      m_fds := (grown fd (m_fds mgr))[nat fd := Some p]\<rparr>, snd (FdCtx_new sys fd k))"
proof -
  have fd: "0 \<le> fd" "fd < 2 ^ 63" using assms(1) by (simp_all add: valid_fd_def)
  have "nat fd < length (grown fd (m_fds mgr))"
    using grown_props(1) [OF assms(1), of "m_fds mgr"] assms(2) by (simp add: fdm_inv_def)
  then have "fd < int (length (grown fd (m_fds mgr)))" using fd by linarith
  then have put: "vec_put (grown fd (m_fds mgr)) fd (Some p) = Inr ((grown fd (m_fds mgr))[nat fd := Some p])"
    using fd(1) by simp
  show ?thesis
    using put fd unfolding get_create_def grown_def
    by (simp add: size_of_int_nonneg Let_def split: prod.split)
qed

lemma get_create_ok:
  assumes "valid_fd fd" and "fdm_inv mgr"
  obtains mgr' k' where "get_create p sys fd (mgr, k) = Inr (Some p, mgr', k')"
  by (rule that, rule get_create_eq [OF assms])

lemma get_create_inv:
  assumes fd: "valid_fd fd" and inv: "fdm_inv mgr" and fresh: "fresh_ptr p mgr"
    and get: "get_create p sys fd (mgr, k) = Inr (r, mgr', k')"
  shows "fdm_inv mgr'"
proof -
  have len: "64 \<le> length (m_fds mgr)" "length (m_fds mgr) < 2 ^ 31" using inv by (simp_all add: fdm_inv_def)
  note G = grown_props [OF fd len]
  have mgr': "mgr' = mgr\<lparr>fobj := (fobj mgr)(p := fst (FdCtx_new sys fd k)),
      m_fds := (grown fd (m_fds mgr))[nat fd := Some p]\<rparr>"
    using get get_create_eq [OF fd inv, of p sys k] by (metis Inr_inject prod.inject)
  have "m_fd (fobj mgr' q) = int i \<and> \<not> m_isClosed (fobj mgr' q)"
    if i: "i < length (m_fds mgr')" and q: "m_fds mgr' ! i = Some q" for i q
  proof (cases "i = nat fd")
    case True
    then have "q = p" using q mgr' G(1) by simp
    then show ?thesis using True mgr' FdCtx_new_fields [of sys fd k] fd by (simp add: valid_fd_def)
  next
    case False
    then have "grown fd (m_fds mgr) ! i = Some q" using q mgr' by simp
    then have iq: "i < length (m_fds mgr)" "m_fds mgr ! i = Some q"
      using G(5,6) [of i] i mgr' by (cases "i < length (m_fds mgr)"; simp)+
    then have "q \<noteq> p" using fresh by (metis fresh_ptr_def nth_mem)
    with iq inv mgr' show ?thesis by (simp add: fdm_inv_def)
  qed
  then show ?thesis using G(2,3) mgr' by (simp add: fdm_inv_def)
qed

text \<open>The pointer in slot \<open>fd\<close>, if there is one.\<close>

definition slot :: "int \<Rightarrow> FdManager \<Rightarrow> nat option" where
  "slot fd mgr = (if nat fd < length (m_fds mgr) then m_fds mgr ! nat fd else None)"

lemma get_read_eq:
  assumes "valid_fd fd" and "fdm_inv mgr"
  shows "get_read fd auto mgr = Inr (if slot fd mgr \<noteq> None \<or> \<not> auto then Some (slot fd mgr) else None)"
proof -
  have len: "int_of_size (length (m_fds mgr)) = int (length (m_fds mgr))"
    using assms(2) by (intro int_of_size_small) (simp add: fdm_inv_def)
  have fd: "0 \<le> fd" using assms(1) by (simp add: valid_fd_def)
  then have "fd < int (length (m_fds mgr)) \<longleftrightarrow> nat fd < length (m_fds mgr)" by linarith
  with fd len show ?thesis by (auto simp: get_read_def slot_def vec_get_def)
qed

lemma get_eq:
  assumes "valid_fd fd" and "fdm_inv mgr"
  shows "get p sys fd auto (mgr, k) =
    (if slot fd mgr \<noteq> None \<or> \<not> auto then Inr (slot fd mgr, mgr, k) else get_create p sys fd (mgr, k))"
  using get_read_eq [OF assms, of auto] by (simp add: get_def)

lemma slot_get_create:
  assumes fd: "valid_fd fd" and inv: "fdm_inv mgr"
    and get: "get_create p sys fd (mgr, k) = Inr (r, mgr', k')" and e: "valid_fd e"
  shows "slot e mgr' = (if e = fd then Some p else slot e mgr)"
proof -
  have len: "64 \<le> length (m_fds mgr)" "length (m_fds mgr) < 2 ^ 31" using inv by (simp_all add: fdm_inv_def)
  note G = grown_props [OF fd len]
  have fds: "m_fds mgr' = (grown fd (m_fds mgr))[nat fd := Some p]"
    using get get_create_eq [OF fd inv, of p sys k] by auto
  show ?thesis
  proof (cases "e = fd")
    case True
    then show ?thesis using G(1) fds by (simp add: slot_def)
  next
    case False
    then have "nat e \<noteq> nat fd" using fd e by (auto simp: valid_fd_def)
    with False show ?thesis using G(4) G(5,6) [of "nat e"] fds by (auto simp: slot_def)
  qed
qed

lemma set_grown: "set (grown fd fds) \<subseteq> insert None (set fds)"
  by (auto simp: grown_def vec_resize_def dest: in_set_takeD)

lemma fresh_after_create:
  assumes "valid_fd fd" and "fdm_inv mgr" and "get_create p sys fd (mgr, k) = Inr (r, mgr', k')"
    and "Some q \<notin> set (m_fds mgr)" and "q \<noteq> p"
  shows "Some q \<notin> set (m_fds mgr')"
proof -
  have "m_fds mgr' = (grown fd (m_fds mgr))[nat fd := Some p]"
    using assms(3) get_create_eq [OF assms(1,2), of p sys k] by auto
  then show ?thesis
    using assms(4,5) set_grown [of fd "m_fds mgr"]
      set_update_subset_insert [of "grown fd (m_fds mgr)" "nat fd" "Some p"] by auto
qed

lemma delFd_eq:
  assumes "valid_fd fd" and "fdm_inv mgr"
  shows "delFd fd mgr = Inr (if nat fd < length (m_fds mgr)
    then mgr\<lparr>m_fds := (m_fds mgr)[nat fd := None]\<rparr> else mgr)"
proof -
  have "0 \<le> fd" "size_of_int fd = nat fd" using assms(1) by (simp_all add: valid_fd_def size_of_int_nonneg)
  then show ?thesis by (auto simp: delFd_def vec_put_def)
qed

lemma delFd_negative:
  assumes "- (2 ^ 31) \<le> fd" and "fd < 0" and "fdm_inv mgr"
  shows "delFd fd mgr = Inr mgr"
proof -
  have "(2 :: nat) ^ 31 \<le> 2 ^ 63" by simp
  then have "length (m_fds mgr) \<le> size_of_int fd"
    using size_of_int_neg [OF assms(1,2)] assms(3) by (simp add: fdm_inv_def)
  then show ?thesis by (simp add: delFd_def)
qed

lemma delFd_inv: "valid_fd fd \<Longrightarrow> fdm_inv mgr \<Longrightarrow> delFd fd mgr = Inr mgr' \<Longrightarrow> fdm_inv mgr'"
  using delFd_eq [of fd mgr] by (auto simp: fdm_inv_def nth_list_update split: if_splits)

section \<open>Runs of the table\<close>

text \<open>
  What callers do with the table, in any order: the two halves of \<open>get\<close> are separate steps, so
  calls of several threads interleave.
\<close>

inductive fdm_step :: "'k fd_calls \<Rightarrow> FdManager \<times> 'k \<Rightarrow> FdManager \<times> 'k \<Rightarrow> bool"
  for sys :: "'k fd_calls"
where
  create: "valid_fd fd \<Longrightarrow> fresh_ptr p mgr \<Longrightarrow> get_create p sys fd (mgr, k) = Inr (r, mgr', k') \<Longrightarrow>
     fdm_step sys (mgr, k) (mgr', k')"
| del: "valid_fd fd \<Longrightarrow> delFd fd mgr = Inr mgr' \<Longrightarrow> fdm_step sys (mgr, k) (mgr', k)"
| set_timeout: "fdm_step sys (mgr, k) (mgr\<lparr>fobj := (fobj mgr)(q := setTimeout type v (fobj mgr q))\<rparr>, k)"
| set_user: "fdm_step sys (mgr, k) (mgr\<lparr>fobj := (fobj mgr)(q := setUserNonblock b (fobj mgr q))\<rparr>, k)"
| set_sys: "fdm_step sys (mgr, k) (mgr\<lparr>fobj := (fobj mgr)(q := setSysNonblock b (fobj mgr q))\<rparr>, k)"
| world: "fdm_step sys (mgr, k) (mgr, k')"

definition fdm_start :: "FdManager \<times> 'k \<Rightarrow> bool" where
  "fdm_start s \<longleftrightarrow> (\<exists>h. fst s = FdManager_new h)"

lemma fdm_inv_new: "fdm_inv (FdManager_new h)"
  by (simp add: fdm_inv_def FdManager_new_def)

lemma fdm_inv_frame:
  "fdm_inv mgr \<Longrightarrow> m_fd c = m_fd (fobj mgr q) \<Longrightarrow> m_isClosed c = m_isClosed (fobj mgr q) \<Longrightarrow>
    fdm_inv (mgr\<lparr>fobj := (fobj mgr)(q := c)\<rparr>)"
  by (auto simp: fdm_inv_def)

lemma fdm_inv_step:
  assumes "fdm_step sys s s'" and "fdm_inv (fst s)"
  shows "fdm_inv (fst s')"
  using assms
proof (induction rule: fdm_step.induct)
  case (create fd p mgr k r mgr' k')
  then show ?case using get_create_inv by simp
next
  case (del fd mgr mgr' k)
  then show ?case using delFd_inv by simp
qed (auto intro!: fdm_inv_frame simp: setTimeout_def setUserNonblock_def setSysNonblock_def)

interpretation fd_runs: step_invariant fdm_start "fdm_step sys" "\<lambda>s. fdm_inv (fst s)" for sys
  by unfold_locales (auto simp: fdm_start_def fdm_inv_new intro: fdm_inv_step)

text \<open>
  (C29) In every state the table reaches, whatever threads do with it and the kernel does in
  between: no call of \<open>get\<close> or \<open>delFd\<close> for a descriptor below \<open>2 ^ 30\<close> indexes out of range;
  the context \<open>get\<close> finds describes the descriptor asked for; and it is never marked closed, so
  the \<open>isClose()\<close> tests of the hooks never succeed.
\<close>

theorem fd_table_runs:
  assumes "(fdm_step sys)\<^sup>*\<^sup>* (FdManager_new h, k0) (mgr, k)" and "valid_fd fd"
  shows "\<exists>c mgr' k'. get p sys fd auto (mgr, k) = Inr (c, mgr', k')
    \<and> (\<forall>q. get_read fd False mgr = Inr (Some (Some q)) \<longrightarrow>
         m_fd (fobj mgr q) = fd \<and> \<not> isClose (fobj mgr q))
    \<and> (\<exists>mgr''. delFd fd mgr = Inr mgr'')"
proof -
  have "fdm_start (FdManager_new h, k0)" by (auto simp: fdm_start_def)
  from fd_runs.good_reachable [OF this assms(1)] have inv: "fdm_inv mgr" by simp
  have "m_fd (fobj mgr q) = fd \<and> \<not> isClose (fobj mgr q)" if "slot fd mgr = Some q" for q
    using that inv assms(2)
    by (auto simp: slot_def fdm_inv_def isClose_def valid_fd_def split: if_splits)
  then show ?thesis
    using get_eq [OF assms(2) inv, of p sys auto k] get_read_eq [OF assms(2) inv, of False]
      get_create_eq [OF assms(2) inv, of p sys k] delFd_eq [OF assms(2) inv]
    by auto
qed

text \<open>A kernel that only remembers descriptor flags: descriptor 5 is a socket, 6 a file.\<close>

definition wit_calls :: "(int \<Rightarrow> fd_flags) fd_calls" where
  "wit_calls = \<lparr>sys_fstat = (\<lambda>fd k. if fd = 5 then Some 0xC1FF else if fd = 6 then Some 0x81A4 else None),
     sys_getfl = (\<lambda>fd k. k fd), sys_setfl = (\<lambda>fd v k. k(fd := v))\<rparr>"

definition wit_ctx :: FdCtx where
  "wit_ctx = \<lparr>m_isInit = False, m_isSocket = False, m_sysNoBlock = False, m_userNoBlock = False,
     m_isClosed = False, m_fd = 0, m_recvTimeout = 0, m_sendTimeout = 0\<rparr>"

lemma wit_calls_socket:
  "FdCtx_new wit_calls 5 (\<lambda>fd. 2) = (\<lparr>m_isInit = True, m_isSocket = True, m_sysNoBlock = True,
     m_userNoBlock = False, m_isClosed = False, m_fd = 5, m_recvTimeout = - 1, m_sendTimeout = - 1\<rparr>,
     (\<lambda>fd. 2)(5 := 0x802))"
  by (simp add: FdCtx_new_def FdCtx_init_def wit_calls_def S_ISSOCK_def S_IFMT_def S_IFSOCK_def O_NONBLOCK_def)

lemma FdCtx_new_spec_witness:
  "sys_getfl wit_calls 5 ((\<lambda>fd. 2)(5 := 0x802)) = (2 OR O_NONBLOCK)
   \<and> sys_fstat wit_calls 5 (\<lambda>fd. 2) \<noteq> None"
  using FdCtx_new_spec [OF wit_calls_socket, of SO_RCVTIMEO] by (simp add: wit_calls_def)

lemma fd_table_runs_witness:
  "\<exists>c mgr' k'. get 9 wit_calls 100 True (FdManager_new (\<lambda>p. wit_ctx), \<lambda>fd. 2) = Inr (c, mgr', k')"
  using fd_table_runs [of wit_calls "\<lambda>p. wit_ctx" "\<lambda>fd. 2" "FdManager_new (\<lambda>p. wit_ctx)" "\<lambda>fd. 2" 100 9 True]
  by (auto simp: valid_fd_def)

text \<open>
  (C19) \<open>get(fd, true)\<close> after growing or not, \<open>get(fd)\<close> and \<open>delFd\<close> together behave like a map from
  descriptors to contexts: the context created is the one found afterwards, by every later
  \<open>get\<close>, until it is deleted; deleting it makes \<open>get(fd)\<close> return null; and no other descriptor's
  entry is affected by either.
\<close>

theorem fd_table_is_map:
  assumes "fdm_inv mgr" and "valid_fd fd" and "fresh_ptr p mgr" and "slot fd mgr = None"
  shows "\<exists>mgr1 k1 mgr2. get p sys fd True (mgr, k) = Inr (Some p, mgr1, k1)
    \<and> fdm_inv mgr1 \<and> (\<forall>q. get q sys fd True (mgr1, k1) = Inr (Some p, mgr1, k1))
    \<and> (\<forall>e. valid_fd e \<and> e \<noteq> fd \<longrightarrow> get_read e False mgr1 = get_read e False mgr)
    \<and> delFd fd mgr1 = Inr mgr2 \<and> get_read fd False mgr2 = Inr (Some None)
    \<and> (\<forall>e. valid_fd e \<and> e \<noteq> fd \<longrightarrow> get_read e False mgr2 = get_read e False mgr)"
proof -
  obtain mgr1 k1 where c: "get_create p sys fd (mgr, k) = Inr (Some p, mgr1, k1)"
    by (rule get_create_ok [OF assms(2,1)])
  have inv1: "fdm_inv mgr1" using get_create_inv [OF assms(2,1,3) c] .
  have s1: "slot e mgr1 = (if e = fd then Some p else slot e mgr)" if "valid_fd e" for e
    using slot_get_create [OF assms(2,1) c that] .
  obtain mgr2 where d: "delFd fd mgr1 = Inr mgr2" by (rule that, rule delFd_eq [OF assms(2) inv1])
  have inv2: "fdm_inv mgr2" using delFd_inv [OF assms(2) inv1 d] .
  have s2: "slot e mgr2 = (if e = fd then None else slot e mgr1)" if "valid_fd e" for e
  proof -
    have "nat e = nat fd \<longleftrightarrow> e = fd" using that assms(2) by (auto simp: valid_fd_def)
    moreover have "mgr2 = (if nat fd < length (m_fds mgr1)
        then mgr1\<lparr>m_fds := (m_fds mgr1)[nat fd := None]\<rparr> else mgr1)"
      using d delFd_eq [OF assms(2) inv1] by simp
    ultimately show ?thesis by (auto simp: slot_def)
  qed
  have g: "get p sys fd True (mgr, k) = Inr (Some p, mgr1, k1)"
    using get_eq [OF assms(2,1), of p sys True k] assms(4) c by simp
  have again: "\<forall>q. get q sys fd True (mgr1, k1) = Inr (Some p, mgr1, k1)"
    using get_eq [OF assms(2) inv1, of _ sys True k1] s1 [OF assms(2)] by simp
  have others1: "\<forall>e. valid_fd e \<and> e \<noteq> fd \<longrightarrow> get_read e False mgr1 = get_read e False mgr"
    using get_read_eq [OF _ inv1] get_read_eq [OF _ assms(1)] s1 by simp
  have others2: "\<forall>e. valid_fd e \<and> e \<noteq> fd \<longrightarrow> get_read e False mgr2 = get_read e False mgr"
    using get_read_eq [OF _ inv2] get_read_eq [OF _ assms(1)] s1 s2 by simp
  have gone: "get_read fd False mgr2 = Inr (Some None)"
    using get_read_eq [OF assms(2) inv2] s2 [OF assms(2)] by simp
  show ?thesis
    by (intro exI [of _ mgr1] exI [of _ k1] exI [of _ mgr2] conjI)
      (fact g inv1 again others1 d gone others2)+
qed

lemma wit_table:
  "fdm_inv (FdManager_new (\<lambda>p. wit_ctx))" "valid_fd 100" "fresh_ptr p (FdManager_new (\<lambda>p. wit_ctx))"
  "slot 100 (FdManager_new (\<lambda>p. wit_ctx)) = None"
  using fdm_inv_new by (simp_all add: valid_fd_def fresh_ptr_def slot_def FdManager_new_def)

lemma fd_table_is_map_witness:
  "\<exists>mgr1 k1. get 9 wit_calls 100 True (FdManager_new (\<lambda>p. wit_ctx), \<lambda>fd. 2) = Inr (Some 9, mgr1, k1)
    \<and> get 8 wit_calls 100 True (mgr1, k1) = Inr (Some 9, mgr1, k1)"
  using fd_table_is_map [OF wit_table(1,2,3,4), of 9 wit_calls "\<lambda>fd. 2"] by blast

text \<open>
  For a negative descriptor other than -1, \<open>get\<close> indexes the table out of range, with or
  without \<open>autoCreate\<close>, while \<open>delFd\<close> of any negative descriptor does nothing.
\<close>

theorem get_negative_out_of_range:
  assumes "fdm_inv mgr" and "- (2 ^ 31) \<le> fd" and "fd < - 1"
  shows "get p sys fd auto (mgr, k) = Inl OutOfRange \<and> delFd fd mgr = Inr mgr"
proof -
  have "int_of_size (length (m_fds mgr)) = int (length (m_fds mgr))"
    using assms(1) by (intro int_of_size_small) (simp add: fdm_inv_def)
  then show ?thesis using assms delFd_negative [of fd mgr] by (simp add: get_def get_read_def)
qed

lemma get_negative_out_of_range_witness:
  "get 9 wit_calls (- 7) True (FdManager_new (\<lambda>p. wit_ctx), \<lambda>fd. 2) = Inl OutOfRange"
  using get_negative_out_of_range [OF fdm_inv_new [of "\<lambda>p. wit_ctx"], of "- 7" 9 wit_calls True "\<lambda>fd. 2"]
  by simp

text \<open>
  \<open>get\<close> does not look again under the write lock: when two threads both found no context
  under the read lock, each creates one, both calls return their own, and only the second is in
  the table; what the first thread sets on its context afterwards is seen by nobody else.
\<close>

theorem get_create_race:
  assumes "fdm_inv mgr" and "valid_fd fd" and "fresh_ptr p mgr" and "fresh_ptr q mgr" and "p \<noteq> q"
    and "get_read fd True mgr = Inr None"
  shows "\<exists>mgr1 k1 mgr2 k2. get_create p sys fd (mgr, k) = Inr (Some p, mgr1, k1)
    \<and> get_create q sys fd (mgr1, k1) = Inr (Some q, mgr2, k2)
    \<and> get_read fd False mgr2 = Inr (Some (Some q)) \<and> Some p \<notin> set (m_fds mgr2)"
proof -
  obtain mgr1 k1 where c1: "get_create p sys fd (mgr, k) = Inr (Some p, mgr1, k1)"
    by (rule get_create_ok [OF assms(2,1)])
  have inv1: "fdm_inv mgr1" using get_create_inv [OF assms(2,1,3) c1] .
  obtain mgr2 k2 where c2: "get_create q sys fd (mgr1, k1) = Inr (Some q, mgr2, k2)"
    by (rule get_create_ok [OF assms(2) inv1])
  have len: "64 \<le> length (m_fds mgr)" "length (m_fds mgr) < 2 ^ 31" using assms(1) by (simp_all add: fdm_inv_def)
  note G = grown_props [OF assms(2) len]
  have f1: "m_fds mgr1 = (grown fd (m_fds mgr))[nat fd := Some p]"
    using c1 get_create_eq [OF assms(2,1), of p sys k] by auto
  have "fresh_ptr q mgr1"
    using fresh_after_create [OF assms(2,1) c1, of q] assms(4,5) by (simp add: fresh_ptr_def)
  then have inv2: "fdm_inv mgr2" by (rule get_create_inv [OF assms(2) inv1 _ c2])
  have "grown fd (m_fds mgr1) = m_fds mgr1" using G(1) f1 by (simp add: grown_def)
  then have f2: "m_fds mgr2 = (grown fd (m_fds mgr))[nat fd := Some q]"
    using c2 f1 get_create_eq [OF assms(2) inv1, of q sys k1] by auto
  have "Some p \<notin> set (m_fds mgr2)"
  proof
    assume "Some p \<in> set (m_fds mgr2)"
    then have "Some p \<in> set (grown fd (m_fds mgr))"
      using f2 assms(5) set_update_subset_insert [of "grown fd (m_fds mgr)" "nat fd" "Some q"] by auto
    then show False using set_grown [of fd "m_fds mgr"] assms(3) by (auto simp: fresh_ptr_def)
  qed
  moreover have "get_read fd False mgr2 = Inr (Some (Some q))"
    using get_read_eq [OF assms(2) inv2] slot_get_create [OF assms(2) inv1 c2 assms(2)] by simp
  ultimately show ?thesis
    by (intro exI [of _ mgr1] exI [of _ k1] exI [of _ mgr2] exI [of _ k2] conjI c1 c2)
qed

lemma get_create_race_witness:
  "\<exists>mgr1 k1 mgr2 k2. get_create 8 wit_calls 100 (FdManager_new (\<lambda>p. wit_ctx), \<lambda>fd. 2) = Inr (Some 8, mgr1, k1)
    \<and> get_create 9 wit_calls 100 (mgr1, k1) = Inr (Some 9, mgr2, k2) \<and> Some 8 \<notin> set (m_fds mgr2)"
proof -
  have "get_read 100 True (FdManager_new (\<lambda>p. wit_ctx)) = Inr None"
    using get_read_eq [OF wit_table(2,1)] wit_table(4) by simp
  moreover have "(8 :: nat) \<noteq> 9" by simp
  ultimately show ?thesis
    using get_create_race [OF wit_table(1,2) wit_table(3) wit_table(3), of 8 9 wit_calls "\<lambda>fd. 2"] by blast
qed

end
