(* ===== verification/IOManager.thy ===== *)
theory IOManager
  imports Timer Workers
begin

text \<open>
  The IO manager (\<open>include/iomanager.h\<close>, \<open>src/iomanager.cpp\<close>): a scheduler and a timer
  manager with an epoll descriptor, a pipe that wakes its idle threads, and a table of
  descriptor contexts. Schedulers and contexts are objects at addresses of the world; the
  results of \<open>epoll_ctl\<close> and \<open>epoll_wait\<close> are arguments, and the successful \<open>epoll_ctl\<close>
  calls and the bytes in the pipe are recorded in the world.
\<close>

section \<open>Data\<close>

text \<open>What the schedulers run: functions, among them the callbacks of timers.\<close>

type_synonym 'f fn = "'f callback"

definition EV_NONE :: u32 where "EV_NONE = 0x0"
definition EV_READ :: u32 where "EV_READ = 0x1"
definition EV_WRITE :: u32 where "EV_WRITE = 0x4"

definition EPOLLIN :: u32 where "EPOLLIN = 0x1"
definition EPOLLOUT :: u32 where "EPOLLOUT = 0x4"
definition EPOLLERR :: u32 where "EPOLLERR = 0x8"
definition EPOLLHUP :: u32 where "EPOLLHUP = 0x10"
definition EPOLLET :: u32 where "EPOLLET = 0x80000000"

datatype ep_op = EPOLL_CTL_ADD | EPOLL_CTL_MOD | EPOLL_CTL_DEL

text \<open>\<open>epoll_data_t\<close> is a union: \<open>data_fd\<close> reads the \<open>int\<close> also when a pointer was stored.\<close>

datatype ep_data = DataFd int | DataPtr nat

fun data_fd :: "(nat \<Rightarrow> u64) \<Rightarrow> ep_data \<Rightarrow> int" where
  "data_fd addr (DataFd fd) = fd"
| "data_fd addr (DataPtr p) = sint (ucast (addr p) :: u32)"

record epoll_event =
  ep_events :: u32
  ep_data :: ep_data

record 'f EventContext =
  ev_scheduler :: "nat option"
  ev_doroutine :: "nat option"
  ev_func :: "'f fn option"
  ev_repeat :: bool

record 'f FdContext =
  c_read :: "'f EventContext"
  c_write :: "'f EventContext"
  c_fd :: int
  c_events :: u32

definition no_event :: "'f EventContext" where
  "no_event = \<lparr>ev_scheduler = None, ev_doroutine = None, ev_func = None, ev_repeat = False\<rparr>"

definition FdContext_new :: "int \<Rightarrow> 'f FdContext" where
  "FdContext_new fd = \<lparr>c_read = no_event, c_write = no_event, c_fd = fd, c_events = EV_NONE\<rparr>"

record 'f IOManager =
  io_sched :: "'f fn Scheduler"
  io_timers :: "'f TimerManager"
  m_epfd :: int
  m_tickleFds :: "int \<times> int"
  m_pendingEventCount :: u64
  m_fdContexts :: "nat option list"

datatype 'f sched_obj = Plain "'f fn Scheduler" | Io "'f IOManager"

record 'f world =
  w_scheds :: "nat \<Rightarrow> 'f sched_obj option"
  w_ctxs :: "nat \<Rightarrow> 'f FdContext option"
  w_next :: nat
  w_pipe :: "nat \<Rightarrow> nat"
  w_ctl :: "(nat \<times> ep_op \<times> int \<times> u32) list"

text \<open>The thread-locals an operation reads: the thread's scheduler and current coroutine.\<close>

record thread_env =
  th_sched :: "nat option"
  th_dor :: "nat option"

section \<open>Access to the objects\<close>

definition iom_at :: "nat \<Rightarrow> 'f world \<Rightarrow> fault + 'f IOManager" where
  "iom_at i w = (case w_scheds w i of Some (Io m) \<Rightarrow> Inr m | _ \<Rightarrow> Inl Undefined)"

definition put_iom :: "nat \<Rightarrow> 'f IOManager \<Rightarrow> 'f world \<Rightarrow> 'f world" where
  "put_iom i m w = w\<lparr>w_scheds := (w_scheds w)(i \<mapsto> Io m)\<rparr>"

definition ctx_at :: "nat option \<Rightarrow> 'f world \<Rightarrow> fault + 'f FdContext" where
  "ctx_at p w = (case p of None \<Rightarrow> Inl NullDeref
     | Some a \<Rightarrow> (case w_ctxs w a of None \<Rightarrow> Inl Undefined | Some c \<Rightarrow> Inr c))"

definition put_ctx :: "nat option \<Rightarrow> 'f FdContext \<Rightarrow> 'f world \<Rightarrow> 'f world" where
  "put_ctx p c w = (case p of None \<Rightarrow> w | Some a \<Rightarrow> w\<lparr>w_ctxs := (w_ctxs w)(a \<mapsto> c)\<rparr>)"

section \<open>Operations\<close>

definition GetThis :: "thread_env \<Rightarrow> 'f world \<Rightarrow> nat option" where
  "GetThis env w = (case th_sched env of None \<Rightarrow> None
     | Some s \<Rightarrow> (case w_scheds w s of Some (Io m) \<Rightarrow> Some s | _ \<Rightarrow> None))"

text \<open>\<open>tickle\<close> writes to the pipe only when some thread is idle.\<close>

definition tickle :: "nat \<Rightarrow> 'f world \<Rightarrow> fault + 'f world" where
  "tickle i w = rbind (iom_at i w) (\<lambda>m.
     if hasIdleThreads (io_sched m) then Inr (w\<lparr>w_pipe := (w_pipe w)(i := w_pipe w i + 1)\<rparr>) else Inr w)"

definition onTimerInsertedAtFront :: "nat \<Rightarrow> 'f world \<Rightarrow> fault + 'f world" where
  "onTimerInsertedAtFront i w = tickle i w"

text \<open>\<open>schedule\<close> through a pointer to a scheduler, with the virtual \<open>tickle\<close>.\<close>

definition schedule_to ::
  "nat option \<Rightarrow> 'f fn DoroutineOrCb \<Rightarrow> int \<Rightarrow> 'f world \<Rightarrow> fault + 'f world" where
  "schedule_to s fc thr w =
     (case s of None \<Rightarrow> Inl NullDeref
      | Some i \<Rightarrow> (case w_scheds w i of
          None \<Rightarrow> Inl Undefined
        | Some (Plain sch) \<Rightarrow> Inr (w\<lparr>w_scheds := (w_scheds w)(i \<mapsto> Plain (snd (schedule fc thr sch)))\<rparr>)
        | Some (Io m) \<Rightarrow>
            (let (needTickle, sch) = schedule fc thr (io_sched m);
                 w1 = put_iom i (m\<lparr>io_sched := sch\<rparr>) w
             in if needTickle then tickle i w1 else Inr w1)))"

definition getEventContext :: "u32 \<Rightarrow> 'f FdContext \<Rightarrow> fault + 'f EventContext" where
  "getEventContext event c =
     (if event = EV_READ then Inr (c_read c)
      else if event = EV_WRITE then Inr (c_write c)
      else Inl Undefined)"

text \<open>Storing through the reference \<open>getEventContext\<close> returned.\<close>

definition putEventContext :: "u32 \<Rightarrow> 'f EventContext \<Rightarrow> 'f FdContext \<Rightarrow> 'f FdContext" where
  "putEventContext event x c =
     (if event = EV_READ then c\<lparr>c_read := x\<rparr> else c\<lparr>c_write := x\<rparr>)"

definition resetEventContext :: "'f EventContext \<Rightarrow> 'f EventContext" where
  "resetEventContext x = x\<lparr>ev_scheduler := None, ev_doroutine := None, ev_func := None, ev_repeat := False\<rparr>"

definition incPendingEventCount :: "'f IOManager \<Rightarrow> 'f IOManager" where
  "incPendingEventCount m = m\<lparr>m_pendingEventCount := m_pendingEventCount m + 1\<rparr>"

definition decPendingEventCount :: "'f IOManager \<Rightarrow> 'f IOManager" where
  "decPendingEventCount m = m\<lparr>m_pendingEventCount := m_pendingEventCount m - 1\<rparr>"

text \<open>
  \<open>triggerEvent\<close> of the context at \<open>p\<close>. That the event is not registered is only logged. The
  pending count that is decremented is the one of the calling thread's IO manager.
\<close>

definition triggerEvent :: "thread_env \<Rightarrow> nat option \<Rightarrow> u32 \<Rightarrow> bool \<Rightarrow> 'f world \<Rightarrow> fault + 'f world" where
  "triggerEvent env p event lastTrigger w =
     rbind (ctx_at p w) (\<lambda>c.
     rbind (getEventContext event c) (\<lambda>x.
     rbind (case ev_func x of
              Some f \<Rightarrow> schedule_to (ev_scheduler x) (Cb (Some f)) (- 1) w
            | None \<Rightarrow> schedule_to (ev_scheduler x) (Dor (ev_doroutine x)) (- 1) w) (\<lambda>w1.
     if \<not> ev_repeat x \<or> lastTrigger then
       (case GetThis env w1 of
          None \<Rightarrow> Inl NullDeref
        | Some i \<Rightarrow> rbind (iom_at i w1) (\<lambda>m.
            Inr (put_ctx p (putEventContext event (resetEventContext x)
                   (c\<lparr>c_events := c_events c AND NOT event\<rparr>))
                 (put_iom i (decPendingEventCount m) w1))))
     else Inr w1)))"

text \<open>\<open>contextResize\<close>: every slot without a context gets a new one.\<close>

fun fill_contexts ::
  "int \<Rightarrow> nat option list \<Rightarrow> (nat \<Rightarrow> 'f FdContext option) \<times> nat
    \<Rightarrow> nat option list \<times> (nat \<Rightarrow> 'f FdContext option) \<times> nat" where
  "fill_contexts i [] hn = ([], hn)"
| "fill_contexts i (Some p # ps) hn =
     (case fill_contexts (i + 1) ps hn of (qs, hn') \<Rightarrow> (Some p # qs, hn'))"
| "fill_contexts i (None # ps) hn =
     (let (h, n) = hn in
      case fill_contexts (i + 1) ps (h(n \<mapsto> FdContext_new i), n + 1) of (qs, hn') \<Rightarrow> (Some n # qs, hn'))"

definition contextResize :: "nat \<Rightarrow> nat \<Rightarrow> 'f world \<Rightarrow> fault + 'f world" where
  "contextResize i sz w = rbind (iom_at i w) (\<lambda>m.
     let (ps, h, n) = fill_contexts 0 (vec_resize sz None (m_fdContexts m)) (w_ctxs w, w_next w)
     in Inr (put_iom i (m\<lparr>m_fdContexts := ps\<rparr>) (w\<lparr>w_ctxs := h, w_next := n\<rparr>)))"

text \<open>
  \<open>addEvent\<close> in its three critical sections: the look-up under the read lock (\<open>None\<close> when the
  table is too small), the resize under the write lock, and the registration under the
  context's mutex. \<open>ctl\<close> is what \<open>epoll_ctl\<close> returns.
\<close>

definition addEvent_find :: "nat \<Rightarrow> int \<Rightarrow> 'f world \<Rightarrow> fault + nat option option" where
  "addEvent_find i fd w = rbind (iom_at i w) (\<lambda>m.
     if int_of_size (length (m_fdContexts m)) > fd
     then rbind (vec_get (m_fdContexts m) fd) (\<lambda>p. Inr (Some p))
     else Inr None)"

definition addEvent_grow :: "nat \<Rightarrow> int \<Rightarrow> 'f world \<Rightarrow> fault + nat option \<times> 'f world" where
  "addEvent_grow i fd w = rbind (contextResize i (grow_size fd) w) (\<lambda>w1.
     rbind (iom_at i w1) (\<lambda>m. rbind (vec_get (m_fdContexts m) fd) (\<lambda>p. Inr (p, w1))))"

definition addEvent_arm ::
  "thread_env \<Rightarrow> (ep_op \<Rightarrow> int \<Rightarrow> u32 \<Rightarrow> int) \<Rightarrow> nat \<Rightarrow> nat option \<Rightarrow> int \<Rightarrow> u32 \<Rightarrow> 'f fn option \<Rightarrow> bool
    \<Rightarrow> 'f world \<Rightarrow> fault + int \<times> 'f world" where
  "addEvent_arm env ctl i p fd event func repeat w =
     rbind (ctx_at p w) (\<lambda>c.
     let op = (if c_events c \<noteq> 0 then EPOLL_CTL_MOD else EPOLL_CTL_ADD);
         evs = EPOLLET OR c_events c OR event;
         rt = ctl op fd evs
     in if rt = - 1 then Inr (- 1, w)
        else
          rbind (iom_at i w) (\<lambda>m.
          let w1 = put_iom i (incPendingEventCount m) (w\<lparr>w_ctl := w_ctl w @ [(i, op, fd, evs)]\<rparr>);
              c1 = c\<lparr>c_events := c_events c OR event\<rparr>
          in rbind (getEventContext event c1) (\<lambda>x.
             let x1 = x\<lparr>ev_repeat := repeat, ev_scheduler := th_sched env\<rparr>;
                 x2 = (if func \<noteq> None then x1\<lparr>ev_func := func\<rparr> else x1\<lparr>ev_doroutine := th_dor env\<rparr>)
             in Inr (0, put_ctx p (putEventContext event x2 c1) w1))))"

definition addEvent ::
  "thread_env \<Rightarrow> (ep_op \<Rightarrow> int \<Rightarrow> u32 \<Rightarrow> int) \<Rightarrow> nat \<Rightarrow> int \<Rightarrow> u32 \<Rightarrow> 'f fn option \<Rightarrow> bool
    \<Rightarrow> 'f world \<Rightarrow> fault + int \<times> 'f world" where
  "addEvent env ctl i fd event func repeat w =
     rbind (addEvent_find i fd w) (\<lambda>r.
     case r of
       Some p \<Rightarrow> addEvent_arm env ctl i p fd event func repeat w
     | None \<Rightarrow> rbind (addEvent_grow i fd w) (\<lambda>(p, w1). addEvent_arm env ctl i p fd event func repeat w1))"

text \<open>The look-up \<open>delEvent\<close>, \<open>cancelEvent\<close> and \<open>cancelAll\<close> share: \<open>None\<close> when the table is too small.\<close>

definition find_ctx :: "nat \<Rightarrow> int \<Rightarrow> 'f world \<Rightarrow> fault + nat option option" where
  "find_ctx i fd w = rbind (iom_at i w) (\<lambda>m.
     if int_of_size (length (m_fdContexts m)) \<le> fd then Inr None
     else rbind (vec_get (m_fdContexts m) fd) (\<lambda>p. Inr (Some p)))"

definition delEvent ::
  "(ep_op \<Rightarrow> int \<Rightarrow> u32 \<Rightarrow> int) \<Rightarrow> nat \<Rightarrow> int \<Rightarrow> u32 \<Rightarrow> 'f world \<Rightarrow> fault + bool \<times> 'f world" where
  "delEvent ctl i fd event w =
     rbind (find_ctx i fd w) (\<lambda>r.
     case r of None \<Rightarrow> Inr (False, w)
     | Some p \<Rightarrow> rbind (ctx_at p w) (\<lambda>c.
         if c_events c AND event = 0 then Inr (False, w)
         else
           let newEvent = c_events c AND NOT event;
               op = (if newEvent \<noteq> 0 then EPOLL_CTL_MOD else EPOLL_CTL_DEL);
               evs = EPOLLET OR newEvent
           in if ctl op fd evs = - 1 then Inr (False, w)
              else rbind (iom_at i w) (\<lambda>m.
                   let w1 = put_iom i (decPendingEventCount m) (w\<lparr>w_ctl := w_ctl w @ [(i, op, fd, evs)]\<rparr>);
                       c1 = c\<lparr>c_events := newEvent\<rparr>
                   in rbind (getEventContext event c1) (\<lambda>x.
                      Inr (True, put_ctx p (putEventContext event (resetEventContext x) c1) w1)))))"

definition cancelEvent ::
  "thread_env \<Rightarrow> (ep_op \<Rightarrow> int \<Rightarrow> u32 \<Rightarrow> int) \<Rightarrow> nat \<Rightarrow> int \<Rightarrow> u32 \<Rightarrow> 'f world \<Rightarrow> fault + bool \<times> 'f world" where
  "cancelEvent env ctl i fd event w =
     rbind (find_ctx i fd w) (\<lambda>r.
     case r of None \<Rightarrow> Inr (False, w)
     | Some p \<Rightarrow> rbind (ctx_at p w) (\<lambda>c.
         if c_events c AND event = 0 then Inr (False, w)
         else
           let newEvent = c_events c AND NOT event;
               op = (if newEvent \<noteq> 0 then EPOLL_CTL_MOD else EPOLL_CTL_DEL);
               evs = EPOLLET OR newEvent
           in if ctl op fd evs = - 1 then Inr (False, w)
              else rbind (triggerEvent env p event True (w\<lparr>w_ctl := w_ctl w @ [(i, op, fd, evs)]\<rparr>))
                     (\<lambda>w1. Inr (True, w1))))"

text \<open>Triggering one event of a context when it is registered, and going on.\<close>

definition trigger_if :: "thread_env \<Rightarrow> nat option \<Rightarrow> u32 \<Rightarrow> 'f world \<Rightarrow> fault + 'f world" where
  "trigger_if env p event w = rbind (ctx_at p w) (\<lambda>c.
     if c_events c AND event \<noteq> 0 then triggerEvent env p event True w else Inr w)"

definition cancelAll ::
  "thread_env \<Rightarrow> (ep_op \<Rightarrow> int \<Rightarrow> u32 \<Rightarrow> int) \<Rightarrow> nat \<Rightarrow> int \<Rightarrow> 'f world \<Rightarrow> fault + bool \<times> 'f world" where
  "cancelAll env ctl i fd w =
     rbind (find_ctx i fd w) (\<lambda>r.
     case r of None \<Rightarrow> Inr (False, w)
     | Some p \<Rightarrow> rbind (ctx_at p w) (\<lambda>c.
         if c_events c = 0 then Inr (False, w)
         else if ctl EPOLL_CTL_DEL fd 0 = - 1 then Inr (False, w)
         else rbind (trigger_if env p EV_READ (w\<lparr>w_ctl := w_ctl w @ [(i, EPOLL_CTL_DEL, fd, 0)]\<rparr>)) (\<lambda>w1.
              rbind (trigger_if env p EV_WRITE w1) (\<lambda>w2. Inr (True, w2)))))"

text \<open>\<open>stopping\<close>, with the time to the next timer.\<close>

definition io_stopping :: "u64 \<Rightarrow> 'f IOManager \<Rightarrow> bool \<times> u64" where
  "io_stopping now m =
     (let timeout = getNextTimer now (io_timers m)
      in (timeout = NOT 0 \<and> m_pendingEventCount m = 0 \<and> stopping (io_sched m), timeout))"

text \<open>\<open>stopping()\<close>, which overrides the scheduler's; \<open>stop\<close> calls it.\<close>

definition IOManager_stopping :: "u64 \<Rightarrow> 'f IOManager \<Rightarrow> bool" where
  [simp]: "IOManager_stopping now m = fst (io_stopping now m)"

section \<open>The idle coroutine\<close>

text \<open>
  The \<open>do ... while(true)\<close> around \<open>epoll_wait\<close>: \<open>wait n timeout\<close> is what its \<open>n\<close>-th call
  answers. The result lists the timeouts passed, and the events of the last call.
\<close>

datatype wait_result = Interrupted | WaitFailed | Ready "epoll_event list"

definition MAX_TIMEOUT :: int where "MAX_TIMEOUT = 5000"

definition poll_timeout :: "u64 \<Rightarrow> u64" where
  "poll_timeout nextTimeout =
     (if nextTimeout \<noteq> NOT 0 then word_of_int (min (sint (ucast nextTimeout :: u32)) MAX_TIMEOUT)
      else word_of_int MAX_TIMEOUT)"

partial_function (option) wait_loop ::
  "(nat \<Rightarrow> int \<Rightarrow> wait_result) \<Rightarrow> nat \<Rightarrow> u64 \<Rightarrow> int list \<Rightarrow> (int list \<times> epoll_event list) option" where
  "wait_loop wait n nextTimeout passed =
     (let nt = poll_timeout nextTimeout; t = sint (ucast nt :: u32)
      in case wait n t of
           Interrupted \<Rightarrow> wait_loop wait (n + 1) nt (passed @ [t])
         | WaitFailed \<Rightarrow> Some (passed @ [t], [])
         | Ready evs \<Rightarrow> Some (passed @ [t], evs))"

text \<open>The timers that are due: their callbacks are scheduled.\<close>

fun repeat_fault :: "nat \<Rightarrow> ('s \<Rightarrow> fault + 's) \<Rightarrow> 's \<Rightarrow> fault + 's" where
  "repeat_fault 0 f s = Inr s"
| "repeat_fault (Suc n) f s = rbind (f s) (repeat_fault n f)"

fun schedule_all :: "nat \<Rightarrow> 'f fn option list \<Rightarrow> 'f world \<Rightarrow> fault + 'f world" where
  "schedule_all i [] w = Inr w"
| "schedule_all i (f # fs) w = rbind (schedule_to (Some i) (Cb f) (- 1) w) (schedule_all i fs)"

definition run_timers :: "nat \<Rightarrow> nat \<Rightarrow> u64 \<Rightarrow> 'f world \<Rightarrow> fault + 'f world" where
  "run_timers i q now w = rbind (iom_at i w) (\<lambda>m.
     rbind (listExpiredFunc q now (io_timers m)) (\<lambda>(funcs, fronts, ts).
     rbind (repeat_fault fronts (onTimerInsertedAtFront i) (put_iom i (m\<lparr>io_timers := ts\<rparr>) w))
       (schedule_all i funcs)))"

text \<open>One event that \<open>epoll_wait\<close> reported.\<close>

definition real_events :: "'f FdContext \<Rightarrow> u32 \<Rightarrow> u32" where
  "real_events c reported =
     (let evs = (if reported AND (EPOLLERR OR EPOLLHUP) \<noteq> 0
                 then reported OR ((EPOLLIN OR EPOLLOUT) AND c_events c) else reported)
      in (if evs AND EPOLLIN \<noteq> 0 then EV_READ else EV_NONE)
         OR (if evs AND EPOLLOUT \<noteq> 0 then EV_WRITE else EV_NONE))"

definition left_events :: "'f FdContext \<Rightarrow> u32 \<Rightarrow> u32" where
  "left_events c real =
     (if real AND EV_READ \<noteq> 0 \<and> ev_repeat (c_read c) then EV_READ else EV_NONE)
     OR (if real AND EV_WRITE \<noteq> 0 \<and> ev_repeat (c_write c) then EV_WRITE else EV_NONE)
     OR (c_events c AND NOT real)"

definition handle_event ::
  "thread_env \<Rightarrow> (ep_op \<Rightarrow> int \<Rightarrow> u32 \<Rightarrow> int) \<Rightarrow> (nat \<Rightarrow> u64) \<Rightarrow> nat \<Rightarrow> epoll_event \<Rightarrow> 'f world
    \<Rightarrow> fault + 'f world" where
  "handle_event env ctl addr i ev w = rbind (iom_at i w) (\<lambda>m.
     if data_fd addr (ep_data ev) = fst (m_tickleFds m) then Inr (w\<lparr>w_pipe := (w_pipe w)(i := 0)\<rparr>)
     else case ep_data ev of
       DataFd _ \<Rightarrow> Inl Undefined
     | DataPtr a \<Rightarrow> rbind (ctx_at (Some a) w) (\<lambda>c.
         let real = real_events c (ep_events ev)
         in if c_events c AND real = 0 then Inr w
            else
              let left = left_events c real;
                  op = (if left \<noteq> 0 then EPOLL_CTL_MOD else EPOLL_CTL_DEL);
                  evs = EPOLLET OR left
              in if ctl op (c_fd c) evs = - 1 then Inr w
                 else rbind (if real AND EV_READ \<noteq> 0
                             then triggerEvent env (Some a) EV_READ False
                               (w\<lparr>w_ctl := w_ctl w @ [(i, op, c_fd c, evs)]\<rparr>)
                             else Inr (w\<lparr>w_ctl := w_ctl w @ [(i, op, c_fd c, evs)]\<rparr>)) (\<lambda>w1.
                      if real AND EV_WRITE \<noteq> 0 then triggerEvent env (Some a) EV_WRITE False w1
                      else Inr w1)))"

fun handle_events ::
  "thread_env \<Rightarrow> (ep_op \<Rightarrow> int \<Rightarrow> u32 \<Rightarrow> int) \<Rightarrow> (nat \<Rightarrow> u64) \<Rightarrow> nat \<Rightarrow> epoll_event list \<Rightarrow> 'f world
    \<Rightarrow> fault + 'f world" where
  "handle_events env ctl addr i [] w = Inr w"
| "handle_events env ctl addr i (ev # evs) w =
     rbind (handle_event env ctl addr i ev w) (handle_events env ctl addr i evs)"

text \<open>
  One iteration of \<open>idle\<close> up to its \<open>yield\<close>, or its end (\<open>None\<close>). \<open>now0\<close> and \<open>now1\<close> are the clock
  when \<open>stopping\<close> and \<open>listExpiredFunc\<close> read it; the outer \<open>option\<close> is \<open>None\<close> when \<open>epoll_wait\<close>
  is interrupted for ever.
\<close>

definition idle_iter ::
  "thread_env \<Rightarrow> (ep_op \<Rightarrow> int \<Rightarrow> u32 \<Rightarrow> int) \<Rightarrow> (nat \<Rightarrow> u64) \<Rightarrow> (nat \<Rightarrow> int \<Rightarrow> wait_result)
    \<Rightarrow> u64 \<Rightarrow> u64 \<Rightarrow> nat \<Rightarrow> nat \<Rightarrow> 'f world \<Rightarrow> (fault + 'f world option) option" where
  "idle_iter env ctl addr wait now0 now1 q i w =
     (case iom_at i w of
        Inl f \<Rightarrow> Some (Inl f)
      | Inr m \<Rightarrow>
          (let (stop, nextTimeout) = io_stopping now0 m
           in if stop then Some (Inr None)
              else case wait_loop wait 0 nextTimeout [] of
                     None \<Rightarrow> None
                   | Some (_, evs) \<Rightarrow>
                       Some (rbind (run_timers i q now1 w) (\<lambda>w1.
                             rbind (handle_events env ctl addr i evs w1) (\<lambda>w2. Inr (Some w2))))))"

text \<open>Adding a timer to an IO manager.\<close>

definition io_addTimer ::
  "nat \<Rightarrow> nat \<Rightarrow> u64 \<Rightarrow> 'f fn option \<Rightarrow> bool \<Rightarrow> u64 \<Rightarrow> 'f world \<Rightarrow> fault + 'f world" where
  "io_addTimer i p ms func repeat now w = rbind (iom_at i w) (\<lambda>m.
     rbind (addTimer p ms func repeat now (io_timers m)) (\<lambda>(front, ts).
     let w1 = put_iom i (m\<lparr>io_timers := ts\<rparr>) w
     in if front then onTimerInsertedAtFront i w1 else Inr w1))"

text \<open>
  The constructor, on thread \<open>tid\<close> and at address \<open>i\<close>, after its system calls: \<open>epfd\<close> is what
  \<open>epoll_create\<close> returned and \<open>fds\<close> the pipe. Errors of these calls are only logged. The result
  holds the thread's scheduler pointer and coroutines as \<open>Scheduler_new\<close> leaves them.
\<close>

definition IOManager_new ::
  "nat \<Rightarrow> u64 \<Rightarrow> bool \<Rightarrow> string \<Rightarrow> int \<Rightarrow> nat \<Rightarrow> nat \<Rightarrow> 'f fn \<Rightarrow> (u32 \<Rightarrow> nat option)
    \<Rightarrow> (nat \<Rightarrow> 'f Timer) \<Rightarrow> u64 \<Rightarrow> int \<Rightarrow> int \<times> int \<Rightarrow> (ep_op \<Rightarrow> int \<Rightarrow> u32 \<Rightarrow> int) \<Rightarrow> (nat \<Rightarrow> nat)
    \<Rightarrow> nat option \<times> 'f fn thread_rt \<Rightarrow> 'f world \<Rightarrow> fault + (nat option \<times> 'f fn thread_rt) \<times> 'f world" where
  "IOManager_new i threads userCaller name tid M S run alloc timers elapsed epfd fds ctl spawn env w =
     (let (sch, env1) = Scheduler_new i threads userCaller name tid M S run alloc env;
          m = \<lparr>io_sched = sch, io_timers = TimerManager_new timers elapsed, m_epfd = epfd,
               m_tickleFds = fds, m_pendingEventCount = 0, m_fdContexts = []\<rparr>;
          evs = EPOLLIN OR EPOLLET;
          w1 = put_iom i m w;
          w2 = (if ctl EPOLL_CTL_ADD (fst fds) evs = - 1 then w1
                else w1\<lparr>w_ctl := w_ctl w1 @ [(i, EPOLL_CTL_ADD, fst fds, evs)]\<rparr>)
      in rbind (contextResize i 32 w2) (\<lambda>w3.
         rbind (iom_at i w3) (\<lambda>m3.
         rbind (start spawn (io_sched m3)) (\<lambda>sch'.
           Inr (env1, put_iom i (m3\<lparr>io_sched := sch'\<rparr>) w3)))))"

text \<open>The end of the destructor: the contexts of the table are deleted, and the base class.\<close>

definition IOManager_destroy ::
  "nat \<Rightarrow> nat option \<times> 'f fn thread_rt \<Rightarrow> 'f world \<Rightarrow> fault + (nat option \<times> 'f fn thread_rt) \<times> 'f world" where
  "IOManager_destroy i env w = rbind (iom_at i w) (\<lambda>m.
     Inr (Scheduler_destroy i env,
       w\<lparr>w_ctxs := (\<lambda>a. if Some a \<in> set (m_fdContexts m) then None else w_ctxs w a),
         w_scheds := (w_scheds w)(i := None)\<rparr>))"

section \<open>Event masks\<close>

lemmas event_defs = EV_READ_def EV_WRITE_def EV_NONE_def EPOLLIN_def EPOLLOUT_def EPOLLERR_def
  EPOLLHUP_def EPOLLET_def

text \<open>The masks a context can have, and how many events are in one.\<close>

definition event_masks :: "u32 set" where
  "event_masks = {0, 1, 4, 5}"

definition events_in :: "u32 \<Rightarrow> nat" where
  "events_in e = (if e AND EV_READ \<noteq> 0 then 1 else 0) + (if e AND EV_WRITE \<noteq> 0 then 1 else 0)"

definition single :: "u32 \<Rightarrow> bool" where
  "single e \<longleftrightarrow> e = EV_READ \<or> e = EV_WRITE"

lemma event_masks_cases:
  assumes "e \<in> event_masks"
  obtains "e = 0" | "e = 1" | "e = 4" | "e = 5"
  using assms by (auto simp: event_masks_def)

lemma mask_clear:
  assumes "e \<in> event_masks" and "single v" and "e AND v \<noteq> 0"
  shows "e AND NOT v \<in> event_masks" and "events_in (e AND NOT v) + 1 = events_in e"
    and "(e AND NOT v) AND v = 0" and "single u \<Longrightarrow> u \<noteq> v \<Longrightarrow> (e AND NOT v) AND u = e AND u"
  using assms by (auto elim!: event_masks_cases simp: single_def event_defs event_masks_def events_in_def)

lemma mask_set:
  assumes "e \<in> event_masks" and "single v" and "e AND v = 0"
  shows "e OR v \<in> event_masks" and "events_in (e OR v) = events_in e + 1"
    and "(e OR v) AND v \<noteq> 0" and "single u \<Longrightarrow> u \<noteq> v \<Longrightarrow> (e OR v) AND u = e AND u"
  using assms by (auto elim!: event_masks_cases simp: single_def event_defs event_masks_def events_in_def)

lemma mask_not_ET:
  assumes "e \<in> event_masks"
  shows "(EPOLLET OR e) AND NOT EPOLLET = e"
  using assms by (auto elim!: event_masks_cases simp: event_defs)

section \<open>The timeout of the idle coroutine\<close>

lemma poll_timeout_value:
  "sint (ucast (poll_timeout nt) :: u32) =
    (if nt \<noteq> NOT 0 then min (sint (ucast nt :: u32)) MAX_TIMEOUT else MAX_TIMEOUT)"
proof -
  have c: "sint (ucast (word_of_int x :: u64) :: u32) = x" if "- (2 ^ 31) \<le> x" "x < 2 ^ 31" for x
  proof -
    have "(ucast (word_of_int x :: u64) :: u32) = word_of_int x"
      by (simp add: unsigned_of_int word_of_int_eq_iff take_bit_take_bit)
    moreover have "sint (word_of_int x :: u32) = x"
    proof -
      have "signed_take_bit 31 x = x" using that by (intro signed_take_bit_int_eq_self) simp_all
      then show ?thesis by (subst sint_sbintrunc') simp
    qed
    ultimately show ?thesis by simp
  qed
  have "- (2 ^ 31) \<le> sint (ucast nt :: u32)" "sint (ucast nt :: u32) < 2 ^ 31"
    using sint_ge [of "ucast nt :: u32"] sint_lt [of "ucast nt :: u32"] by simp_all
  then show ?thesis by (auto simp: poll_timeout_def MAX_TIMEOUT_def c)
qed

lemma uint_below:
  fixes nt :: u64
  assumes "unat nt < 2 ^ n"
  shows "uint nt < 2 ^ n"
proof -
  have "int (unat nt) < int (2 ^ n)" using assms by (rule of_nat_less_iff [THEN iffD2])
  then show ?thesis unfolding of_nat_unat by simp
qed

lemma int_nonneg_32:
  assumes "unat nt < 2 ^ 31"
  shows "sint (ucast (nt :: u64) :: u32) = int (unat nt)" and "nt \<noteq> NOT 0"
proof -
  have u: "uint nt < 2 ^ 31" using assms by (rule uint_below)
  have "(ucast nt :: u32) = word_of_int (uint nt)" by (rule ucast_eq)
  moreover have "signed_take_bit 31 (uint nt) = uint nt"
  proof (rule signed_take_bit_int_eq_self)
    show "- (2 ^ 31) \<le> uint nt" by (rule order_trans [OF _ unsigned_greater_eq]) simp
    show "uint nt < 2 ^ 31" by (fact u)
  qed
  ultimately have "sint (ucast nt :: u32) = uint nt" 
    by (simp only: sint_sbintrunc') simp
  then show "sint (ucast (nt :: u64) :: u32) = int (unat nt)" by simp
  show "nt \<noteq> NOT 0" using assms by (auto simp: unsigned_minus_1_eq_mask mask_eq_exp_minus_1)
qed

lemma poll_again:
  assumes "0 \<le> t" and "t \<le> MAX_TIMEOUT" and "sint (ucast nt :: u32) = t" and "nt \<noteq> NOT 0"
  shows "poll_timeout nt = word_of_int t"
  using assms by (simp add: poll_timeout_def)

lemma small_word:
  assumes "0 \<le> t" and "t \<le> MAX_TIMEOUT"
  shows "sint (ucast (word_of_int t :: u64) :: u32) = t" and "(word_of_int t :: u64) \<noteq> NOT 0"
proof -
  have "int (unat (word_of_int t :: u64)) = t"
    using assms by (simp add: uint_nat [symmetric] uint_word_of_int MAX_TIMEOUT_def)
  moreover from this have "unat (word_of_int t :: u64) < 2 ^ 31"
  proof -
    have "(5000 :: int) < int (2 ^ 31)" by simp
    then have "int (unat (word_of_int t :: u64)) < int (2 ^ 31)"
      using assms(2) calculation unfolding MAX_TIMEOUT_def by linarith
    then show ?thesis by (simp only: of_nat_less_iff)
  qed
  ultimately show "sint (ucast (word_of_int t :: u64) :: u32) = t" "(word_of_int t :: u64) \<noteq> NOT 0"
    using int_nonneg_32 by auto
qed

lemma wait_loop_retries:
  assumes t: "0 \<le> t" "t \<le> MAX_TIMEOUT"
    and nt: "poll_timeout nt = word_of_int t"
    and "wait (n + N) t = Ready evs" and "\<forall>k < N. wait (n + k) t = Interrupted"
  shows "wait_loop wait n nt passed = Some (passed @ replicate (Suc N) t, evs)"
  using assms(3-)
proof (induction N arbitrary: n nt passed)
  case 0
  then show ?case using small_word [OF t] by (subst wait_loop.simps) (simp add: Let_def)
next
  case (Suc N)
  have w: "sint (ucast (word_of_int t :: u64) :: u32) = t" "(word_of_int t :: u64) \<noteq> NOT 0"
    using small_word [OF t] by auto
  then have "poll_timeout (word_of_int t) = word_of_int t" using poll_again [OF t] by blast
  moreover have "wait n t = Interrupted" using Suc.prems(3) by (metis add_0_right zero_less_Suc)
  moreover have "wait (Suc n + N) t = Ready evs" using Suc.prems(2) by simp
  moreover have "\<forall>k < N. wait (Suc n + k) t = Interrupted"
    using Suc.prems(3) by (metis Suc_less_eq add_Suc_right add_Suc)
  ultimately show ?case
    using Suc.IH [of "word_of_int t" "Suc n" "passed @ [t]"] w Suc.prems(1)
    by (subst wait_loop.simps) (simp add: Let_def replicate_append_same)
qed

text \<open>
  How long an idle thread sleeps. If no timer is pending, or the next one is due in less
  than \<open>2 ^ 31\<close> ms, then \<open>epoll_wait\<close> gets the time to it, at most 5000 ms, again after every
  interruption by a signal, and the loop ends with the first call that is not interrupted.
\<close>

theorem idle_sleeps:
  assumes "nt = NOT 0 \<or> unat nt < 2 ^ 31"
    and "t = (if nt = NOT 0 then 5000 else min (int (unat nt)) 5000)"
    and "wait N t = Ready evs" and "\<forall>k < N. wait k t = Interrupted"
  shows "wait_loop wait 0 nt [] = Some (replicate (Suc N) t, evs)"
proof -
  have t: "0 \<le> t" "t \<le> MAX_TIMEOUT" using assms(2) by (auto simp: MAX_TIMEOUT_def)
  have "poll_timeout nt = word_of_int t"
  proof (cases "nt = NOT 0")
    case True
    then show ?thesis using assms(2) by (simp add: poll_timeout_def MAX_TIMEOUT_def)
  next
    case False
    then have "sint (ucast nt :: u32) = int (unat nt)" using assms(1) int_nonneg_32 by blast
    then show ?thesis using False assms(2) by (simp add: poll_timeout_def MAX_TIMEOUT_def)
  qed
  from wait_loop_retries [OF t this, of wait 0 N evs "[]"] assms(3,4) show ?thesis by simp
qed

lemma idle_sleeps_witness:
  "wait_loop (\<lambda>n t. if n < 3 then Interrupted else Ready []) 0 70 [] = Some (replicate (Suc 3) 70, [])"
proof (rule idle_sleeps)
  have "(70 :: u64) \<noteq> NOT 0" by (rule int_nonneg_32) simp
  then show "(70 :: int) = (if (70 :: u64) = NOT 0 then 5000 else min (int (unat (70 :: u64))) 5000)" by simp
qed simp_all

text \<open>
  The clamp to 5000 ms is made after the conversion to \<open>int\<close>: a delay whose low 32 bits
  are negative as an \<open>int\<close> is passed on as that negative number, and \<open>epoll_wait\<close> then blocks
  without a timeout, which the comment in the code says is avoided.
\<close>

theorem idle_sleeps_forever:
  assumes "nt \<noteq> NOT 0" and "sint (ucast nt :: u32) < 0" and "wait 0 (sint (ucast nt :: u32)) = Ready evs"
  shows "wait_loop wait 0 nt [] = Some ([sint (ucast nt :: u32)], evs)"
proof -
  have "sint (ucast (poll_timeout nt) :: u32) = sint (ucast nt :: u32)"
    using assms(1,2) by (simp add: poll_timeout_value MAX_TIMEOUT_def)
  then show ?thesis using assms(3) by (subst wait_loop.simps) (simp add: Let_def)
qed

lemma idle_sleeps_forever_witness:
  "wait_loop (\<lambda>n t. Ready []) 0 2147483648 [] = Some ([- 2147483648], [])"
proof -
  have "sint (ucast (2147483648 :: u64) :: u32) = - 2147483648" by (simp add: unsigned_numeral sint_numeral)
  then show ?thesis using idle_sleeps_forever [of 2147483648 "\<lambda>n t. Ready []" "[]"] by simp
qed

section \<open>What scheduling changes\<close>

fun sched_of :: "'f sched_obj \<Rightarrow> 'f fn Scheduler" where
  "sched_of (Plain sch) = sch"
| "sched_of (Io m) = io_sched m"

definition queue_at :: "nat \<Rightarrow> 'f world \<Rightarrow> 'f fn SchedulerTask list" where
  "queue_at s w = (case w_scheds w s of None \<Rightarrow> [] | Some ob \<Rightarrow> m_tasks (sched_of ob))"

text \<open>
  The frame of \<open>schedule\<close>: IO managers keep all but their queue, nothing is created or
  destroyed, and contexts and \<open>epoll\<close> are not touched.
\<close>

definition sched_frame :: "'f world \<Rightarrow> 'f world \<Rightarrow> bool" where
  "sched_frame w w' \<longleftrightarrow> w_ctxs w' = w_ctxs w \<and> w_next w' = w_next w \<and> w_ctl w' = w_ctl w
     \<and> (\<forall>k. w_scheds w' k = None \<longleftrightarrow> w_scheds w k = None)
     \<and> (\<forall>k m. w_scheds w k = Some (Io m) \<longrightarrow> (\<exists>sch. w_scheds w' k = Some (Io (m\<lparr>io_sched := sch\<rparr>))
          \<and> m_stopping sch = m_stopping (io_sched m)
          \<and> m_activeThreadCount sch = m_activeThreadCount (io_sched m)))
     \<and> (\<forall>k sch. w_scheds w k = Some (Plain sch) \<longrightarrow> (\<exists>sch'. w_scheds w' k = Some (Plain sch')))"

lemma sched_frame_refl: "sched_frame w w"
proof -
  have "m = m\<lparr>io_sched := io_sched m\<rparr>" for m :: "'f IOManager" by simp
  then show ?thesis unfolding sched_frame_def by metis
qed

lemma sched_frame_Io:
  assumes "sched_frame w w'" and "w_scheds w k = Some (Io m)"
  obtains sch where "w_scheds w' k = Some (Io (m\<lparr>io_sched := sch\<rparr>))"
    and "m_stopping sch = m_stopping (io_sched m)"
    and "m_activeThreadCount sch = m_activeThreadCount (io_sched m)"
proof -
  have "\<exists>sch. w_scheds w' k = Some (Io (m\<lparr>io_sched := sch\<rparr>))
      \<and> m_stopping sch = m_stopping (io_sched m) \<and> m_activeThreadCount sch = m_activeThreadCount (io_sched m)"
    using assms by (simp add: sched_frame_def)
  then show thesis by (elim exE conjE) (rule that)
qed

lemma sched_frameD:
  assumes "sched_frame w w'"
  shows "w_ctxs w' = w_ctxs w" "w_next w' = w_next w" "w_ctl w' = w_ctl w"
    "w_scheds w' k = None \<longleftrightarrow> w_scheds w k = None"
  using assms by (simp_all add: sched_frame_def)

lemma sched_frame_trans:
  assumes "sched_frame w1 w2" and "sched_frame w2 w3"
  shows "sched_frame w1 w3"
  unfolding sched_frame_def
proof (intro conjI allI impI)
  fix k m assume "w_scheds w1 k = Some (Io m)"
  with assms(1) obtain s2 where s2: "w_scheds w2 k = Some (Io (m\<lparr>io_sched := s2\<rparr>))"
    "m_stopping s2 = m_stopping (io_sched m)" "m_activeThreadCount s2 = m_activeThreadCount (io_sched m)"
    by (rule sched_frame_Io)
  from assms(2) s2(1) obtain s3 where s3: "w_scheds w3 k = Some (Io (m\<lparr>io_sched := s2\<rparr>\<lparr>io_sched := s3\<rparr>))"
    "m_stopping s3 = m_stopping (io_sched (m\<lparr>io_sched := s2\<rparr>))"
    "m_activeThreadCount s3 = m_activeThreadCount (io_sched (m\<lparr>io_sched := s2\<rparr>))"
    by (rule sched_frame_Io)
  then show "\<exists>sch. w_scheds w3 k = Some (Io (m\<lparr>io_sched := sch\<rparr>))
      \<and> m_stopping sch = m_stopping (io_sched m) \<and> m_activeThreadCount sch = m_activeThreadCount (io_sched m)"
    using s2 by (intro exI [of _ s3]) simp
next
  fix k sch assume "w_scheds w1 k = Some (Plain sch)"
  then obtain sch' where "w_scheds w2 k = Some (Plain sch')" using assms(1) by (auto simp: sched_frame_def)
  then show "\<exists>sch'. w_scheds w3 k = Some (Plain sch')" using assms(2) by (simp add: sched_frame_def)
qed (use sched_frameD [OF assms(1)] sched_frameD [OF assms(2)] in simp_all)

lemma tickle_ok:
  assumes "w_scheds w i = Some (Io m)"
  shows "\<exists>n. tickle i w = Inr (w\<lparr>w_pipe := n\<rparr>)"
proof (cases "hasIdleThreads (io_sched m)")
  case True
  then show ?thesis using assms
    by (intro exI [of _ "(w_pipe w)(i := w_pipe w i + 1)"]) (simp add: tickle_def iom_at_def)
next
  case False
  then show ?thesis using assms by (intro exI [of _ "w_pipe w"]) (simp add: tickle_def iom_at_def)
qed

lemma tasks_of_request: "submit_on (fc, thr) sch = snd (schedule fc thr sch)"
  by (simp add: submit_on_def)

definition requested :: "'f fn DoroutineOrCb \<Rightarrow> 'f fn SchedulerTask list" where
  "requested fc = (case task_of_request (fc, - 1) of None \<Rightarrow> [] | Some t \<Rightarrow> [t])"

lemma schedule_to_ok:
  assumes "w_scheds w s \<noteq> None"
  obtains w' where "schedule_to (Some s) fc (- 1) w = Inr w'" and "sched_frame w w'"
    and "queue_at s w' = queue_at s w @ requested fc" and "\<forall>k. k \<noteq> s \<longrightarrow> queue_at k w' = queue_at k w"
proof -
  have q: "m_tasks (snd (schedule fc (- 1) sch)) = m_tasks sch @ requested fc" for sch
    using scheduler_queue.contents_submit [of "(fc, - 1)" sch] by (simp add: tasks_of_request requested_def)
  obtain ob where ob: "w_scheds w s = Some ob" using assms by blast
  show thesis
  proof (cases ob)
    case (Plain sch)
    let ?w = "w\<lparr>w_scheds := (w_scheds w)(s \<mapsto> Plain (snd (schedule fc (- 1) sch)))\<rparr>"
    have "schedule_to (Some s) fc (- 1) w = Inr ?w" using ob Plain by (simp add: schedule_to_def)
    moreover have "sched_frame w ?w"
      using ob Plain sched_frame_refl [of w] by (auto simp: sched_frame_def)
    moreover have "queue_at s ?w = queue_at s w @ requested fc" "\<forall>k. k \<noteq> s \<longrightarrow> queue_at k ?w = queue_at k w"
      using ob Plain q by (simp_all add: queue_at_def)
    ultimately show thesis by (rule that)
  next
    case (Io m)
    let ?sch = "snd (schedule fc (- 1) (io_sched m))"
    let ?w = "put_iom s (m\<lparr>io_sched := ?sch\<rparr>) w"
    have "w_scheds ?w s = Some (Io (m\<lparr>io_sched := ?sch\<rparr>))" by (simp add: put_iom_def)
    from tickle_ok [OF this] obtain n where n: "tickle s ?w = Inr (?w\<lparr>w_pipe := n\<rparr>)" by blast
    have st: "schedule_to (Some s) fc (- 1) w =
        (if fst (schedule fc (- 1) (io_sched m)) then tickle s ?w else Inr ?w)"
      using ob Io by (simp add: schedule_to_def split_beta Let_def)
    have "\<exists>n'. schedule_to (Some s) fc (- 1) w = Inr (?w\<lparr>w_pipe := n'\<rparr>)"
    proof (cases "fst (schedule fc (- 1) (io_sched m))")
      case True
      then show ?thesis using st n by (intro exI [of _ n]) simp
    next
      case False
      then show ?thesis using st by (intro exI [of _ "w_pipe ?w"]) simp
    qed
    then obtain n' where n': "schedule_to (Some s) fc (- 1) w = Inr (?w\<lparr>w_pipe := n'\<rparr>)" by (elim exE)
    have fr: "sched_frame w (?w\<lparr>w_pipe := n'\<rparr>)"
      using ob Io sched_frame_refl [of w] schedule_frame [of fc "- 1" "io_sched m"]
      by (auto simp: sched_frame_def put_iom_def)
    have "queue_at s (?w\<lparr>w_pipe := n'\<rparr>) = queue_at s w @ requested fc"
      "\<forall>k. k \<noteq> s \<longrightarrow> queue_at k (?w\<lparr>w_pipe := n'\<rparr>) = queue_at k w"
      using ob Io q by (simp_all add: queue_at_def put_iom_def)
    with n' fr show thesis by (rule that)
  qed
qed

section \<open>The invariant of registered events\<close>

definition ev_of :: "u32 \<Rightarrow> 'f FdContext \<Rightarrow> 'f EventContext" where
  "ev_of e c = (if e = EV_READ then c_read c else c_write c)"

lemma ev_of_put:
  "ev_of e (putEventContext e x c) = x"
  "single e \<Longrightarrow> single u \<Longrightarrow> u \<noteq> e \<Longrightarrow> ev_of u (putEventContext e x c) = ev_of u c"
  "c_events (putEventContext e x c) = c_events c" "c_fd (putEventContext e x c) = c_fd c"
  "ev_of e (c\<lparr>c_events := v\<rparr>) = ev_of e c"
  by (auto simp: ev_of_def putEventContext_def single_def event_defs)

lemma get_ev: "single e \<Longrightarrow> getEventContext e c = Inr (ev_of e c)"
  by (auto simp: getEventContext_def ev_of_def single_def event_defs)

lemma reset_ev: "resetEventContext x = no_event"
  by (simp add: resetEventContext_def no_event_def)

text \<open>What a registered event resumes: its function, else its coroutine.\<close>

definition ev_request :: "'f EventContext \<Rightarrow> 'f fn DoroutineOrCb" where
  "ev_request x = (case ev_func x of Some f \<Rightarrow> Cb (Some f) | None \<Rightarrow> Dor (ev_doroutine x))"

definition armed :: "'f world \<Rightarrow> 'f EventContext \<Rightarrow> bool" where
  "armed w x \<longleftrightarrow> (\<exists>s. ev_scheduler x = Some s \<and> w_scheds w s \<noteq> None)
     \<and> (ev_func x \<noteq> None \<or> ev_doroutine x \<noteq> None)"

definition ctx_ok :: "'f world \<Rightarrow> nat \<Rightarrow> 'f FdContext \<Rightarrow> bool" where
  "ctx_ok w j c \<longleftrightarrow> c_fd c = int j \<and> c_events c \<in> event_masks
     \<and> (\<forall>e. single e \<longrightarrow> (if c_events c AND e \<noteq> 0 then armed w (ev_of e c) else ev_of e c = no_event))"

lemma ctx_okD:
  assumes "ctx_ok w j c"
  shows "c_fd c = int j" "c_events c \<in> event_masks"
    "single e \<Longrightarrow> c_events c AND e \<noteq> 0 \<Longrightarrow> armed w (ev_of e c)"
    "single e \<Longrightarrow> c_events c AND e = 0 \<Longrightarrow> ev_of e c = no_event"
  using assms unfolding ctx_ok_def by (auto split: if_splits)

lemma armed_mono:
  "armed w x \<Longrightarrow> (\<And>k. w_scheds w k \<noteq> None \<Longrightarrow> w_scheds w' k \<noteq> None) \<Longrightarrow> armed w' x"
  by (auto simp: armed_def)

lemma ctx_ok_mono:
  assumes "ctx_ok w j c" and "\<And>k. w_scheds w k \<noteq> None \<Longrightarrow> w_scheds w' k \<noteq> None"
  shows "ctx_ok w' j c"
proof -
  have "armed w' x" if "armed w x" for x using armed_mono [OF that assms(2)] .
  with assms(1) show ?thesis unfolding ctx_ok_def by (simp split: if_splits)
qed

text \<open>The mask the last successful \<open>epoll_ctl\<close> call for \<open>fd\<close> left in the kernel.\<close>

definition interest :: "nat \<Rightarrow> (nat \<times> ep_op \<times> int \<times> u32) list \<Rightarrow> int \<Rightarrow> u32" where
  "interest i ctls fd =
     (case filter (\<lambda>(k, op, e, evs). k = i \<and> e = fd) (rev ctls) of
        [] \<Rightarrow> 0
      | (k, op, e, evs) # _ \<Rightarrow> if op = EPOLL_CTL_DEL then 0 else evs AND NOT EPOLLET)"

lemma interest_snoc:
  "interest i (ctls @ [(k, op, e, evs)]) fd =
    (if k = i \<and> e = fd then if op = EPOLL_CTL_DEL then 0 else evs AND NOT EPOLLET
     else interest i ctls fd)"
  by (simp add: interest_def)

definition mask_at :: "'f world \<Rightarrow> nat option \<Rightarrow> u32" where
  "mask_at w p = (case p of None \<Rightarrow> 0 | Some a \<Rightarrow>
     (case w_ctxs w a of None \<Rightarrow> 0 | Some c \<Rightarrow> c_events c))"

definition slot_ok :: "'f world \<Rightarrow> nat \<Rightarrow> nat option \<Rightarrow> bool" where
  "slot_ok w j p \<longleftrightarrow> (\<exists>a c. p = Some a \<and> a < w_next w \<and> w_ctxs w a = Some c \<and> ctx_ok w j c)"

definition registered :: "'f world \<Rightarrow> nat option list \<Rightarrow> nat" where
  "registered w ps = sum_list (map (\<lambda>p. events_in (mask_at w p)) ps)"

definition slot_mask :: "'f world \<Rightarrow> nat option list \<Rightarrow> nat \<Rightarrow> u32" where
  "slot_mask w ps j = (if j < length ps then mask_at w (ps ! j) else 0)"

text \<open>
  The table is in order, and the pending count is \<open>x\<close> more than the number of registered
  events: \<open>x\<close> is 0 as long as no event is registered while it is taken and no thread of another
  manager cancels one.
\<close>

definition io_table_off :: "u64 \<Rightarrow> nat \<Rightarrow> 'f IOManager \<Rightarrow> 'f world \<Rightarrow> bool" where
  "io_table_off x i m w \<longleftrightarrow> length (m_fdContexts m) < 2 ^ 31
     \<and> distinct (m_fdContexts m)
     \<and> (\<forall>j < length (m_fdContexts m). slot_ok w j (m_fdContexts m ! j))
     \<and> m_pendingEventCount m = of_nat (registered w (m_fdContexts m)) + x
     \<and> (\<forall>j. int j \<noteq> fst (m_tickleFds m) \<longrightarrow>
          interest i (w_ctl w) (int j) = slot_mask w (m_fdContexts m) j)"

definition io_ok_off :: "u64 \<Rightarrow> nat \<Rightarrow> 'f IOManager \<Rightarrow> 'f world \<Rightarrow> bool" where
  "io_ok_off x i m w \<longleftrightarrow> 32 \<le> length (m_fdContexts m) \<and> io_table_off x i m w"

definition io_inv_off :: "u64 \<Rightarrow> nat \<Rightarrow> 'f world \<Rightarrow> bool" where
  "io_inv_off x i w \<longleftrightarrow> (\<exists>m. w_scheds w i = Some (Io m) \<and> io_ok_off x i m w)"

abbreviation io_table :: "nat \<Rightarrow> 'f IOManager \<Rightarrow> 'f world \<Rightarrow> bool" where
  "io_table i m w \<equiv> io_table_off 0 i m w"

abbreviation io_ok :: "nat \<Rightarrow> 'f IOManager \<Rightarrow> 'f world \<Rightarrow> bool" where
  "io_ok i m w \<equiv> io_ok_off 0 i m w"

abbreviation io_inv :: "nat \<Rightarrow> 'f world \<Rightarrow> bool" where
  "io_inv i w \<equiv> io_inv_off 0 i w"

lemmas io_table_def = io_table_off_def
lemmas io_ok_def = io_ok_off_def
lemmas io_inv_def = io_inv_off_def

lemma registered_upd:
  assumes "distinct ps" and "j < length ps" and "ps ! j = Some a"
    and "w_ctxs w' = (w_ctxs w)(a \<mapsto> c')"
  shows "registered w' ps + events_in (mask_at w (Some a)) = registered w ps + events_in (c_events c')"
  using assms(1-3)
proof (induction ps arbitrary: j)
  case (Cons p ps)
  have same: "registered w' qs = registered w qs" if "Some a \<notin> set qs" for qs
    using that assms(4) by (induction qs) (auto simp: registered_def mask_at_def split: option.splits)
  have at: "mask_at w' (Some a) = c_events c'" using assms(4) by (simp add: mask_at_def)
  show ?case
  proof (cases j)
    case 0
    with Cons.prems same [of ps] at show ?thesis by (simp add: registered_def)
  next
    case (Suc k)
    then have "ps ! k = Some a" "k < length ps" using Cons.prems by auto
    then have "p \<noteq> Some a" using Cons.prems(1) by (metis distinct.simps(2) nth_mem)
    then have "mask_at w' p = mask_at w p"
      using assms(4) by (auto simp: mask_at_def split: option.splits)
    then show ?thesis using Cons.IH [of k] Cons.prems(1) \<open>ps ! k = Some a\<close> \<open>k < length ps\<close>
      by (simp add: registered_def)
  qed
qed simp

lemma io_ok_update:
  assumes ok: "io_ok_off x i m w" and j: "j < length (m_fdContexts m)" "m_fdContexts m ! j = Some a"
      "w_ctxs w a = Some c"
    and w': "w_ctxs w' = (w_ctxs w)(a \<mapsto> c')" "w_next w' = w_next w"
      "\<And>k. w_scheds w k \<noteq> None \<Longrightarrow> w_scheds w' k \<noteq> None"
      "w_ctl w' = w_ctl w @ [(i, op, int j, evs)]"
      "(if op = EPOLL_CTL_DEL then 0 else evs AND NOT EPOLLET) = c_events c'"
    and c': "ctx_ok w' j c'"
    and m': "m_fdContexts m' = m_fdContexts m" "m_tickleFds m' = m_tickleFds m"
      "m_pendingEventCount m' + of_nat (events_in (c_events c)) = m_pendingEventCount m + of_nat (events_in (c_events c')) + y"
  shows "io_ok_off (x + y) i m' w'"
proof -
  let ?ps = "m_fdContexts m"
  have d: "distinct ?ps" using ok by (simp add: io_ok_def io_table_def)
  have other: "?ps ! k \<noteq> Some a" if "k < length ?ps" "k \<noteq> j" for k
    using nth_eq_iff_index_eq [OF d that(1) j(1)] that(2) j(2) by simp
  have slots: "slot_ok w' k (?ps ! k)" if k: "k < length ?ps" for k
  proof (cases "k = j")
    case True
    have "slot_ok w j (?ps ! j)" using ok j(1) by (simp add: io_ok_def io_table_def)
    then have "a < w_next w" using j(2) by (simp add: slot_ok_def)
    then show ?thesis using True j(2) w'(1,2) c' by (simp add: slot_ok_def)
  next
    case False
    have "slot_ok w k (?ps ! k)" using ok k by (simp add: io_ok_def io_table_def)
    then obtain b e where b: "?ps ! k = Some b" "b < w_next w" "w_ctxs w b = Some e" "ctx_ok w k e"
      unfolding slot_ok_def by blast
    have "ctx_ok w' k e" using ctx_ok_mono [OF b(4) w'(3)] .
    then show ?thesis using b other [OF k False] w'(1,2) by (simp add: slot_ok_def)
  qed
  have "of_nat (registered w' ?ps) + (of_nat (events_in (c_events c)) :: u64)
      = of_nat (registered w ?ps) + of_nat (events_in (c_events c'))"
    using registered_upd [OF d j(1,2) w'(1)] j(3) by (simp add: mask_at_def flip: of_nat_add)
  moreover have "m_pendingEventCount m = of_nat (registered w ?ps) + x"
    using ok by (simp add: io_ok_def io_table_def)
  ultimately have "m_pendingEventCount m' + (of_nat (events_in (c_events c)) :: u64)
      = of_nat (registered w' ?ps) + (x + y) + of_nat (events_in (c_events c))"
    using m'(3) by (simp add: add.assoc add.left_commute add.commute)
  then have pend: "m_pendingEventCount m' = of_nat (registered w' ?ps) + (x + y)"
    by (rule add_right_imp_eq)
  have int: "interest i (w_ctl w') (int k) = slot_mask w' ?ps k"
    if "int k \<noteq> fst (m_tickleFds m)" for k
  proof (cases "k = j")
    case True
    then show ?thesis using w'(1,4,5) j(1,2) by (simp add: interest_snoc mask_at_def slot_mask_def)
  next
    case False
    have "slot_mask w' ?ps k = slot_mask w ?ps k"
      using other [OF _ False] w'(1) by (auto simp: slot_mask_def mask_at_def split: option.splits)
    then show ?thesis using False that ok w'(4) by (simp add: interest_snoc io_ok_def io_table_def)
  qed
  show ?thesis using ok slots pend int m'(1,2) by (simp add: io_ok_def io_table_def)
qed

text \<open>Steps that only touch queues, timers and the pipe keep the invariant.\<close>

lemma io_ok_frame:
  assumes ok: "io_ok_off x i m w"
    and w': "w_ctxs w' = w_ctxs w" "w_next w' = w_next w" "w_ctl w' = w_ctl w"
      "\<And>k. w_scheds w k \<noteq> None \<Longrightarrow> w_scheds w' k \<noteq> None"
    and m': "m_fdContexts m' = m_fdContexts m" "m_tickleFds m' = m_tickleFds m"
      "m_pendingEventCount m' = m_pendingEventCount m"
  shows "io_ok_off x i m' w'"
proof -
  have mask: "mask_at w' p = mask_at w p" for p
    unfolding mask_at_def w'(1) by (rule refl)
  have "slot_ok w' k p" if "slot_ok w k p" for k p
    using that ctx_ok_mono [OF _ w'(4)] w'(1,2) unfolding slot_ok_def by metis
  then show ?thesis using ok m' mask w'(3) by (simp add: io_ok_def io_table_def registered_def slot_mask_def)
qed

section \<open>What triggering changes\<close>

text \<open>The context after its event \<open>e\<close> was triggered, and what is appended to queue \<open>k\<close>.\<close>

definition after_trigger :: "u32 \<Rightarrow> bool \<Rightarrow> 'f FdContext \<Rightarrow> 'f FdContext" where
  "after_trigger e lastTrigger c =
     (if \<not> ev_repeat (ev_of e c) \<or> lastTrigger
      then putEventContext e no_event (c\<lparr>c_events := c_events c AND NOT e\<rparr>) else c)"

definition resumed :: "nat \<Rightarrow> 'f EventContext \<Rightarrow> 'f fn SchedulerTask list" where
  "resumed k x = (if ev_scheduler x = Some k then requested (ev_request x) else [])"

text \<open>
  The effect of an operation on the context at \<open>a\<close>: the manager's count moves with the
  number of events in the context, up to \<open>x\<close>.
\<close>

definition io_effect ::
  "u64 \<Rightarrow> nat \<Rightarrow> nat \<Rightarrow> 'f world \<Rightarrow> 'f IOManager \<Rightarrow> 'f FdContext \<Rightarrow> 'f world \<Rightarrow> 'f IOManager \<Rightarrow> 'f FdContext \<Rightarrow> bool" where
  "io_effect x i a w m c w' m' c' \<longleftrightarrow> w_scheds w' i = Some (Io m')
     \<and> m_fdContexts m' = m_fdContexts m \<and> m_tickleFds m' = m_tickleFds m
     \<and> io_timers m' = io_timers m
     \<and> w_ctxs w' = (w_ctxs w)(a \<mapsto> c') \<and> w_next w' = w_next w \<and> w_ctl w' = w_ctl w
     \<and> (\<forall>k. w_scheds w k \<noteq> None \<longrightarrow> w_scheds w' k \<noteq> None)
     \<and> m_pendingEventCount m' + of_nat (events_in (c_events c))
        = m_pendingEventCount m + of_nat (events_in (c_events c')) + x"

lemma io_effect_trans:
  assumes "io_effect x i a w m c w1 m1 c1" and "io_effect y i a w1 m1 c1 w2 m2 c2"
  shows "io_effect (x + y) i a w m c w2 m2 c2"
proof -
  have 1: "m_pendingEventCount m1 + of_nat (events_in (c_events c))
      = m_pendingEventCount m + of_nat (events_in (c_events c1)) + x"
    and 2: "m_pendingEventCount m2 + of_nat (events_in (c_events c1))
      = m_pendingEventCount m1 + of_nat (events_in (c_events c2)) + y"
    using assms by (simp_all add: io_effect_def)
  have "m_pendingEventCount m2 + of_nat (events_in (c_events c)) + (of_nat (events_in (c_events c1)) :: u64)
      = (m_pendingEventCount m2 + of_nat (events_in (c_events c1))) + of_nat (events_in (c_events c))"
    by (simp only: ac_simps)
  also have "\<dots> = (m_pendingEventCount m1 + of_nat (events_in (c_events c))) + of_nat (events_in (c_events c2)) + y"
    unfolding 2 by (simp only: ac_simps)
  also have "\<dots> = m_pendingEventCount m + of_nat (events_in (c_events c2)) + (x + y) + of_nat (events_in (c_events c1))"
    unfolding 1 by (simp only: ac_simps)
  finally have "m_pendingEventCount m2 + of_nat (events_in (c_events c))
      = m_pendingEventCount m + of_nat (events_in (c_events c2)) + (x + y)"
    by (rule add_right_imp_eq)
  with assms show ?thesis unfolding io_effect_def by simp
qed

text \<open>
  What a thread leaves in the count of the manager \<open>i\<close> when it triggers events of a context:
  nothing if it is a thread of \<open>i\<close>, and all of them if it is not, because \<open>triggerEvent\<close>
  decrements the count of the calling thread's manager.
\<close>

definition left_over :: "thread_env \<Rightarrow> nat \<Rightarrow> 'f FdContext \<Rightarrow> 'f FdContext \<Rightarrow> u64" where
  "left_over env i c c' = (if th_sched env = Some i then 0
     else of_nat (events_in (c_events c)) - of_nat (events_in (c_events c')))"

lemma left_over_own [simp]: "th_sched env = Some i \<Longrightarrow> left_over env i c c' = 0"
  by (simp add: left_over_def)

lemma left_over_same [simp]: "left_over env i c c = 0"
  by (simp add: left_over_def)

lemma left_over_trans: "left_over env i c c1 + left_over env i c1 c2 = left_over env i c c2"
  by (simp add: left_over_def)

text \<open>Handing over what waits for an event, as \<open>triggerEvent\<close> does.\<close>

lemma trigger_schedules:
  assumes "armed w x"
  obtains w1 where "(case ev_func x of
              Some f \<Rightarrow> schedule_to (ev_scheduler x) (Cb (Some f)) (- 1) w
            | None \<Rightarrow> schedule_to (ev_scheduler x) (Dor (ev_doroutine x)) (- 1) w) = Inr w1"
    and "sched_frame w w1" and "\<forall>k. queue_at k w1 = queue_at k w @ resumed k x"
proof -
  obtain s where s: "ev_scheduler x = Some s" "w_scheds w s \<noteq> None" using assms by (auto simp: armed_def)
  from s(2) obtain w1 where w1: "schedule_to (Some s) (ev_request x) (- 1) w = Inr w1"
    "sched_frame w w1" "queue_at s w1 = queue_at s w @ requested (ev_request x)"
    "\<forall>k. k \<noteq> s \<longrightarrow> queue_at k w1 = queue_at k w" by (rule schedule_to_ok)
  have "\<forall>k. queue_at k w1 = queue_at k w @ resumed k x"
    using w1(3,4) s(1) by (auto simp: resumed_def)
  moreover have "(case ev_func x of
              Some f \<Rightarrow> schedule_to (ev_scheduler x) (Cb (Some f)) (- 1) w
            | None \<Rightarrow> schedule_to (ev_scheduler x) (Dor (ev_doroutine x)) (- 1) w) = Inr w1"
    using w1(1) s(1) by (simp add: ev_request_def split: option.splits)
  ultimately show thesis using w1(2) that by blast
qed

text \<open>A thread without an IO manager hands the task over and then crashes.\<close>

lemma triggerEvent_null:
  assumes c: "w_ctxs w a = Some c" and e: "single e" and reg: "armed w (ev_of e c)"
    and env: "\<forall>s m. th_sched env = Some s \<longrightarrow> w_scheds w s \<noteq> Some (Io m)"
  shows "triggerEvent env (Some a) e True w = Inl NullDeref"
proof -
  obtain w1 where w1: "(case ev_func (ev_of e c) of
              Some f \<Rightarrow> schedule_to (ev_scheduler (ev_of e c)) (Cb (Some f)) (- 1) w
            | None \<Rightarrow> schedule_to (ev_scheduler (ev_of e c)) (Dor (ev_doroutine (ev_of e c))) (- 1) w) = Inr w1"
    "sched_frame w w1" by (rule trigger_schedules [OF reg])
  have "GetThis env w1 = None"
  proof (cases "th_sched env")
    case None
    then show ?thesis by (simp add: GetThis_def)
  next
    case (Some t)
    show ?thesis
    proof (cases "w_scheds w t")
      case None
      then have "w_scheds w1 t = None" using sched_frameD(4) [OF w1(2)] by simp
      then show ?thesis using Some by (simp add: GetThis_def)
    next
      case ob: (Some ob)
      then obtain sch where "w_scheds w t = Some (Plain sch)"
        using env Some by (cases ob) auto
      then obtain sch' where "w_scheds w1 t = Some (Plain sch')" using w1(2) by (auto simp: sched_frame_def)
      then show ?thesis using Some by (simp add: GetThis_def)
    qed
  qed
  then show ?thesis using c w1(1) by (simp add: triggerEvent_def ctx_at_def get_ev [OF e])
qed

lemma triggerEvent_ok:
  assumes m: "w_scheds w i = Some (Io m)" and env: "th_sched env = Some k" "w_scheds w k = Some (Io mk)"
    and c: "w_ctxs w a = Some c" and e: "single e"
    and reg: "c_events c AND e \<noteq> 0" "c_events c \<in> event_masks" "armed w (ev_of e c)"
  obtains w' m' where "triggerEvent env (Some a) e lastTrigger w = Inr w'"
    and "io_effect (left_over env i c (after_trigger e lastTrigger c)) i a w m c w' m' (after_trigger e lastTrigger c)"
    and "\<forall>k. queue_at k w' = queue_at k w @ resumed k (ev_of e c)"
    and "\<exists>mk'. w_scheds w' k = Some (Io mk')"
proof -
  let ?x = "ev_of e c"
  obtain w1 where sch: "(case ev_func ?x of
              Some f \<Rightarrow> schedule_to (ev_scheduler ?x) (Cb (Some f)) (- 1) w
            | None \<Rightarrow> schedule_to (ev_scheduler ?x) (Dor (ev_doroutine ?x)) (- 1) w) = Inr w1"
    and w1: "sched_frame w w1" and q: "\<forall>k. queue_at k w1 = queue_at k w @ resumed k ?x"
    by (rule trigger_schedules [OF reg(3)])
  from w1 m obtain sch where m1: "w_scheds w1 i = Some (Io (m\<lparr>io_sched := sch\<rparr>))"
    by (rule sched_frame_Io)
  from w1 env(2) obtain schk where k1: "w_scheds w1 k = Some (Io (mk\<lparr>io_sched := schk\<rparr>))"
    by (rule sched_frame_Io)
  let ?m1 = "m\<lparr>io_sched := sch\<rparr>" and ?k1 = "mk\<lparr>io_sched := schk\<rparr>"
  note fr = sched_frameD [OF w1]
  show thesis
  proof (cases "\<not> ev_repeat ?x \<or> lastTrigger")
    case False
    have "triggerEvent env (Some a) e lastTrigger w = Inr w1"
      using False c get_ev [OF e, of c] sch by (simp add: triggerEvent_def ctx_at_def)
    moreover have "after_trigger e lastTrigger c = c" using False by (simp add: after_trigger_def)
    then have "io_effect (left_over env i c (after_trigger e lastTrigger c)) i a w m c w1 ?m1 (after_trigger e lastTrigger c)"
      using fr m1 c by (simp add: io_effect_def map_upd_triv)
    ultimately show thesis using q k1 that by blast
  next
    case True
    let ?c' = "after_trigger e lastTrigger c" and ?k' = "decPendingEventCount ?k1"
    let ?m' = "if k = i then ?k' else ?m1"
    let ?w' = "put_ctx (Some a) ?c' (put_iom k ?k' w1)"
    have same: "k = i \<Longrightarrow> ?k1 = ?m1" using m1 k1 by simp
    have "GetThis env w1 = Some k" using env k1 by (simp add: GetThis_def)
    then have "triggerEvent env (Some a) e lastTrigger w = Inr ?w'"
      using True c get_ev [OF e, of c] sch k1
      by (simp add: triggerEvent_def ctx_at_def iom_at_def after_trigger_def reset_ev)
    moreover have "io_effect (left_over env i c ?c') i a w m c ?w' ?m' ?c'"
    proof -
      have n: "events_in (c_events ?c') + 1 = events_in (c_events c)"
        using True mask_clear(2) [OF reg(2) e reg(1)] by (simp add: after_trigger_def ev_of_put)
      have pend: "m_pendingEventCount ?m' + of_nat (events_in (c_events c))
          = m_pendingEventCount m + of_nat (events_in (c_events ?c')) + left_over env i c ?c'"
      proof (cases "k = i")
        case True
        then show ?thesis using same env(1)
          by (simp add: decPendingEventCount_def flip: n)
      next
        case False
        then show ?thesis using env(1) by (simp add: left_over_def)
      qed
      have "\<forall>l. w_scheds w l \<noteq> None \<longrightarrow> w_scheds ?w' l \<noteq> None"
        using fr(4) by (simp add: put_ctx_def put_iom_def del: not_None_eq)
      moreover have "w_scheds ?w' i = Some (Io ?m')" using m1 by (simp add: put_ctx_def put_iom_def)
      moreover have "m_fdContexts ?m' = m_fdContexts m" "m_tickleFds ?m' = m_tickleFds m" "io_timers ?m' = io_timers m"
        using same m env(2) by (auto simp: decPendingEventCount_def)
      moreover have "w_ctxs ?w' = (w_ctxs w)(a \<mapsto> ?c')" "w_next ?w' = w_next w" "w_ctl ?w' = w_ctl w"
        using fr(1-3) by (simp_all add: put_ctx_def put_iom_def)
      ultimately show ?thesis using pend unfolding io_effect_def by blast
    qed
    moreover have "queue_at l ?w' = queue_at l w1" for l
      using k1 by (simp add: queue_at_def put_ctx_def put_iom_def decPendingEventCount_def)
    then have "\<forall>l. queue_at l ?w' = queue_at l w @ resumed l ?x" using q by simp
    moreover have "w_scheds ?w' k = Some (Io ?k')" by (simp add: put_ctx_def put_iom_def)
    ultimately show thesis using that by blast
  qed
qed

lemma after_trigger_ok:
  assumes "ctx_ok w j c" and "single e" and "c_events c AND e \<noteq> 0"
  shows "ctx_ok w j (after_trigger e lastTrigger c)"
proof (cases "\<not> ev_repeat (ev_of e c) \<or> lastTrigger")
  case True
  note c = ctx_okD [OF assms(1)]
  note mk = mask_clear [OF c(2) assms(2,3)]
  let ?d = "putEventContext e no_event (c\<lparr>c_events := c_events c AND NOT e\<rparr>)"
  have "if c_events ?d AND u \<noteq> 0 then armed w (ev_of u ?d) else ev_of u ?d = no_event" if u: "single u" for u
  proof (cases "u = e")
    case True
    then show ?thesis using mk(3) by (simp add: ev_of_put)
  next
    case False
    then show ?thesis using mk(4) [OF u False] c(3,4) [OF u] 
      ev_of_put(2) [OF assms(2) u False, of no_event "c\<lparr>c_events := c_events c AND NOT e\<rparr>"]
      by (simp add: ev_of_put)
  qed
  then show ?thesis using True c(1) mk(1) by (simp add: after_trigger_def ctx_ok_def ev_of_put)
next
  case False
  then show ?thesis using assms(1) by (simp add: after_trigger_def)
qed

section \<open>Growing the context table\<close>

interpretation event_table: growing_table 32 grow_size
  by unfold_locales (simp add: grow_size_fits)

definition somes :: "'a option list \<Rightarrow> 'a list" where
  "somes ps = List.map_filter (\<lambda>p. p) ps"

lemma somes_simps [simp]:
  "somes [] = []" "somes (None # ps) = somes ps" "somes (Some p # ps) = p # somes ps"
  by (simp_all add: somes_def List.map_filter_simps)

lemma set_somes: "p \<in> set (somes ps) \<longleftrightarrow> Some p \<in> set ps"
  by (auto simp: somes_def List.map_filter_def image_iff)

lemma fill_contexts_spec:
  assumes "fill_contexts i ps (h, n) = (qs, h', n')"
    and "\<forall>p \<in> set (somes ps). p < n" and "distinct (somes ps)"
  shows "length qs = length ps \<and> n \<le> n' \<and> distinct qs
    \<and> (\<forall>q \<in> set qs. \<exists>a. q = Some a \<and> (Some a \<in> set ps \<or> n \<le> a) \<and> a < n')
    \<and> (\<forall>a < n. h' a = h a)
    \<and> (\<forall>j < length ps. case ps ! j of
         Some p \<Rightarrow> qs ! j = Some p
       | None \<Rightarrow> \<exists>a. qs ! j = Some a \<and> n \<le> a \<and> h' a = Some (FdContext_new (i + int j)))"
  using assms
proof (induction i ps "(h, n)" arbitrary: h n qs h' n' rule: fill_contexts.induct)
  case (1 i)
  then show ?case by simp
next
  case (2 i p ps)
  obtain qs1 where f: "fill_contexts (i + 1) ps (h, n) = (qs1, h', n')" and qs: "qs = Some p # qs1"
    using "2.prems"(1) by (auto split: prod.splits)
  have IH: "length qs1 = length ps \<and> n \<le> n' \<and> distinct qs1
    \<and> (\<forall>q \<in> set qs1. \<exists>a. q = Some a \<and> (Some a \<in> set ps \<or> n \<le> a) \<and> a < n')
    \<and> (\<forall>a < n. h' a = h a)
    \<and> (\<forall>j < length ps. case ps ! j of
         Some p \<Rightarrow> qs1 ! j = Some p
       | None \<Rightarrow> \<exists>a. qs1 ! j = Some a \<and> n \<le> a \<and> h' a = Some (FdContext_new (i + 1 + int j)))"
    using "2.hyps" [OF f] "2.prems"(2,3) by simp
  have p: "p < n" "Some p \<notin> set ps" using "2.prems"(2,3) by (auto simp: set_somes)
  have "Some p \<notin> set qs1" using IH p by fastforce
  moreover have "p < n'" using p(1) IH by simp
  moreover have "case (Some p # ps) ! j of Some p \<Rightarrow> qs ! j = Some p
       | None \<Rightarrow> \<exists>a. qs ! j = Some a \<and> n \<le> a \<and> h' a = Some (FdContext_new (i + int j))"
    if "j < length (Some p # ps)" for j
  proof (cases j)
    case 0
    then show ?thesis using qs by simp
  next
    case (Suc k)
    then have "k < length ps" using that by simp
    with IH Suc qs show ?thesis by (auto simp: algebra_simps split: option.splits)
  qed
  ultimately show ?case using IH qs by fastforce
next
  case (3 i ps)
  let ?h = "h(n \<mapsto> FdContext_new i)"
  obtain qs1 where f: "fill_contexts (i + 1) ps (?h, n + 1) = (qs1, h', n')" and qs: "qs = Some n # qs1"
    using "3.prems"(1) by (auto split: prod.splits)
  have IH: "length qs1 = length ps \<and> n + 1 \<le> n' \<and> distinct qs1
    \<and> (\<forall>q \<in> set qs1. \<exists>a. q = Some a \<and> (Some a \<in> set ps \<or> n + 1 \<le> a) \<and> a < n')
    \<and> (\<forall>a < n + 1. h' a = ?h a)
    \<and> (\<forall>j < length ps. case ps ! j of
         Some p \<Rightarrow> qs1 ! j = Some p
       | None \<Rightarrow> \<exists>a. qs1 ! j = Some a \<and> n + 1 \<le> a \<and> h' a = Some (FdContext_new (i + 1 + int j)))"
    using "3.hyps" [OF refl refl f] "3.prems"(2,3) by fastforce
  have "Some n \<notin> set ps" using "3.prems"(2) by (auto simp: set_somes)
  then have "Some n \<notin> set qs1" using IH by fastforce
  moreover have hn: "h' n = Some (FdContext_new i)" using IH by simp
  moreover have "case (None # ps) ! j of Some p \<Rightarrow> qs ! j = Some p
       | None \<Rightarrow> \<exists>a. qs ! j = Some a \<and> n \<le> a \<and> h' a = Some (FdContext_new (i + int j))"
    if "j < length (None # ps)" for j
  proof (cases j)
    case 0
    then show ?thesis using qs hn by simp
  next
    case (Suc k)
    then have "k < length ps" using that by simp
    with IH Suc qs show ?thesis by (fastforce simp: algebra_simps split: option.splits)
  qed
  ultimately show ?case using IH qs by fastforce
qed

lemma somes_resize:
  "somes (ps @ replicate k None) = somes ps"
  by (induction ps) (induction k, simp_all add: somes_def List.map_filter_simps split: option.splits)

lemma distinct_somes: "distinct ps \<Longrightarrow> distinct (somes ps)"
proof (induction ps)
  case (Cons p ps)
  then show ?case by (cases p) (auto simp: set_somes)
qed simp

lemma slotE:
  assumes "io_table_off x i m w" and "j < length (m_fdContexts m)"
  obtains a c where "m_fdContexts m ! j = Some a" and "a < w_next w" and "w_ctxs w a = Some c" and "ctx_ok w j c"
  using assms unfolding io_table_def slot_ok_def by blast

lemma io_ok_table: "io_ok_off x i m w \<Longrightarrow> io_table_off x i m w"
  by (simp add: io_ok_def)

lemma contextResize_ok:
  assumes m: "w_scheds w i = Some (Io m)" and ok: "io_table_off x i m w"
    and sz: "length (m_fdContexts m) \<le> sz" "sz < 2 ^ 31"
  obtains m' w' where "contextResize i sz w = Inr w'" and "w_scheds w' = (w_scheds w)(i \<mapsto> Io m')"
    and "io_table_off x i m' w'" and "length (m_fdContexts m') = sz" and "io_sched m' = io_sched m"
    and "\<forall>j. slot_mask w' (m_fdContexts m') j = slot_mask w (m_fdContexts m) j"
    and "w_ctl w' = w_ctl w" and "m_tickleFds m' = m_tickleFds m"
    and "\<forall>j < sz. \<exists>a. m_fdContexts m' ! j = Some a \<and> w_ctxs w' a = (if j < length (m_fdContexts m)
      then w_ctxs w (the (m_fdContexts m ! j)) else Some (FdContext_new (int j)))"
proof -
  let ?ps = "m_fdContexts m" and ?rs = "vec_resize sz None (m_fdContexts m)"
  obtain qs h n where f: "fill_contexts 0 ?rs (w_ctxs w, w_next w) = (qs, h, n)" by (metis prod_cases3)
  let ?m' = "m\<lparr>m_fdContexts := qs\<rparr>"
  let ?w' = "put_iom i ?m' (w\<lparr>w_ctxs := h, w_next := n\<rparr>)"
  have rs: "?rs = ?ps @ replicate (sz - length ?ps) None" using sz(1) by (simp add: vec_resize_def)
  have old: "p < w_next w" if "Some p \<in> set ?ps" for p
    using that slotE [OF ok] by (metis in_set_conv_nth option.inject)
  have d: "distinct ?ps" using ok by (simp add: io_table_def)
  have F: "length qs = sz \<and> w_next w \<le> n \<and> distinct qs
    \<and> (\<forall>q \<in> set qs. \<exists>a. q = Some a \<and> (Some a \<in> set ?rs \<or> w_next w \<le> a) \<and> a < n)
    \<and> (\<forall>a < w_next w. h a = w_ctxs w a)
    \<and> (\<forall>j < sz. case ?rs ! j of
         Some p \<Rightarrow> qs ! j = Some p
       | None \<Rightarrow> \<exists>a. qs ! j = Some a \<and> w_next w \<le> a \<and> h a = Some (FdContext_new (0 + int j)))"
    using fill_contexts_spec [OF f] old distinct_somes [OF d] sz(1)
    by (simp add: rs somes_resize set_somes del: replicate_append_same)
  have cases: "case ?rs ! j of Some p \<Rightarrow> qs ! j = Some p
       | None \<Rightarrow> \<exists>a. qs ! j = Some a \<and> w_next w \<le> a \<and> h a = Some (FdContext_new (0 + int j))"
    if "j < sz" for j
    by (rule F [THEN conjunct2, THEN conjunct2, THEN conjunct2, THEN conjunct2, THEN conjunct2, rule_format])
      (rule that)
  have keep: "qs ! j = ?ps ! j" if j: "j < length ?ps" for j
  proof -
    obtain a c where a: "?ps ! j = Some a" "a < w_next w" "w_ctxs w a = Some c" "ctx_ok w j c"
      by (rule slotE [OF ok j])
    then have "?rs ! j = Some a" using that rs by (simp add: nth_append)
    moreover have "j < sz" using j sz(1) by simp
    ultimately show ?thesis using cases [of j] a(1) by simp
  qed
  have new: "\<exists>a. qs ! j = Some a \<and> h a = Some (FdContext_new (int j))" if "length ?ps \<le> j" "j < sz" for j
  proof -
    have "?rs ! j = None" using that rs by (simp add: nth_append)
    then show ?thesis using cases [OF that(2)] by auto
  qed
  have scheds: "w_scheds ?w' = (w_scheds w)(i \<mapsto> Io ?m')" by (simp add: put_iom_def)
  have ctxs: "w_ctxs ?w' = h" "w_next ?w' = n" "w_ctl ?w' = w_ctl w" by (simp_all add: put_iom_def)
  have mono: "w_scheds w k \<noteq> None \<Longrightarrow> w_scheds ?w' k \<noteq> None" for k using scheds by simp
  have fresh_ok: "ctx_ok v j (FdContext_new (int j))" for v :: "'a world" and j
    by (simp add: ctx_ok_def FdContext_new_def event_masks_def EV_NONE_def ev_of_def)
  have mask: "slot_mask ?w' qs j = slot_mask w ?ps j" for j
  proof (cases "j < length ?ps")
    case True
    obtain a c where "?ps ! j = Some a" "a < w_next w" "w_ctxs w a = Some c" "ctx_ok w j c"
      by (rule slotE [OF ok True])
    then show ?thesis using True keep [OF True] F sz(1) ctxs(1) by (simp add: slot_mask_def mask_at_def)
  next
    case False
    then show ?thesis using new [of j] F ctxs(1)
      by (auto simp: slot_mask_def mask_at_def FdContext_new_def EV_NONE_def)
  qed
  have slots: "slot_ok ?w' j (qs ! j)" if js: "j < sz" for j
  proof -
    have "qs ! j \<in> set qs" using js F by simp
    then obtain a where a: "qs ! j = Some a" "a < n" using F by blast
    show ?thesis
    proof (cases "j < length ?ps")
      case True
      obtain b c where b: "?ps ! j = Some b" "b < w_next w" "w_ctxs w b = Some c" "ctx_ok w j c"
        by (rule slotE [OF ok True])
      then have "h b = Some c" using F by simp
      moreover have "ctx_ok ?w' j c" using ctx_ok_mono [OF b(4)] mono by blast
      ultimately show ?thesis using b keep [OF True] a ctxs by (simp add: slot_ok_def)
    next
      case False
      then obtain b where "qs ! j = Some b" "h b = Some (FdContext_new (int j))" using new [of j] js by auto
      then show ?thesis using a ctxs fresh_ok by (simp add: slot_ok_def)
    qed
  qed
  have reg: "registered ?w' qs = registered w ?ps"
  proof -
    have e: "registered v rs = (\<Sum>j < length rs. events_in (slot_mask v rs j))" for v :: "'a world" and rs
      by (simp add: registered_def slot_mask_def sum_list_sum_nth atLeast0LessThan)
    have "(\<Sum>j < sz. events_in (slot_mask w ?ps j)) = (\<Sum>j < length ?ps. events_in (slot_mask w ?ps j))"
      by (rule sum.mono_neutral_right) (use sz(1) in \<open>auto simp: slot_mask_def events_in_def\<close>)
    then show ?thesis using F by (simp add: e mask)
  qed
  have at: "\<exists>a. qs ! j = Some a \<and> w_ctxs ?w' a = (if j < length ?ps
      then w_ctxs w (the (?ps ! j)) else Some (FdContext_new (int j)))" if js: "j < sz" for j
  proof (cases "j < length ?ps")
    case True
    obtain b c where b: "?ps ! j = Some b" "b < w_next w" "w_ctxs w b = Some c" "ctx_ok w j c"
      by (rule slotE [OF ok True])
    then show ?thesis using True keep [OF True] F ctxs(1) by simp
  next
    case False
    then show ?thesis using new [of j] js ctxs(1) by simp
  qed
  have "io_table_off x i ?m' ?w'"
    using ok F sz slots reg mask ctxs(3) by (simp add: io_table_def)
  moreover have "contextResize i sz w = Inr ?w'" using m f by (simp add: contextResize_def iom_at_def)
  ultimately show thesis using scheds F mask ctxs(3) at by (intro that [of ?w' ?m']) simp_all
qed

end
