(* ===== verification/IOEvents.thy ===== *)
theory IOEvents
  imports IOManager
begin

text \<open>
  The operations of the IO manager on registered events: each keeps the invariant, none of
  them faults in a state that satisfies it, and what each registers, resumes and removes.
\<close>

section \<open>Looking a context up\<close>

lemma int_of_table: "io_ok_off x i m w \<Longrightarrow> int_of_size (length (m_fdContexts m)) = int (length (m_fdContexts m))"
  by (intro int_of_size_small) (simp add: io_ok_def io_table_def)

lemma find_ctx_eq:
  assumes "w_scheds w i = Some (Io m)" and "io_ok_off x i m w" and "0 \<le> fd"
  shows "find_ctx i fd w = Inr (if nat fd < length (m_fdContexts m)
    then Some (m_fdContexts m ! nat fd) else None)"
proof -
  have "int (length (m_fdContexts m)) \<le> fd \<longleftrightarrow> \<not> nat fd < length (m_fdContexts m)"
    using assms(3) by linarith
  then show ?thesis using assms int_of_table [OF assms(2)]
    by (auto simp: find_ctx_def iom_at_def vec_get_def)
qed

lemma addEvent_find_eq:
  assumes "w_scheds w i = Some (Io m)" and "io_ok_off x i m w" and "0 \<le> fd"
  shows "addEvent_find i fd w = Inr (if nat fd < length (m_fdContexts m)
    then Some (m_fdContexts m ! nat fd) else None)"
proof -
  have "fd < int (length (m_fdContexts m)) \<longleftrightarrow> nat fd < length (m_fdContexts m)"
    using assms(3) by linarith
  then show ?thesis using assms int_of_table [OF assms(2)]
    by (auto simp: addEvent_find_def iom_at_def vec_get_def)
qed

text \<open>The mask registered for a descriptor.\<close>

definition fd_mask :: "nat \<Rightarrow> int \<Rightarrow> 'f world \<Rightarrow> u32" where
  "fd_mask i fd w = (case w_scheds w i of
     Some (Io m) \<Rightarrow> slot_mask w (m_fdContexts m) (nat fd) | _ \<Rightarrow> 0)"

definition ctx_of :: "nat \<Rightarrow> int \<Rightarrow> 'f world \<Rightarrow> 'f FdContext option" where
  "ctx_of i fd w = (case w_scheds w i of
     Some (Io m) \<Rightarrow> (if nat fd < length (m_fdContexts m)
       then (case m_fdContexts m ! nat fd of None \<Rightarrow> None | Some a \<Rightarrow> w_ctxs w a) else None)
   | _ \<Rightarrow> None)"

lemma fd_mask_ctx: "fd_mask i fd w = (case ctx_of i fd w of None \<Rightarrow> 0 | Some c \<Rightarrow> c_events c)"
  by (auto simp: fd_mask_def ctx_of_def slot_mask_def mask_at_def split: option.splits sched_obj.splits)

section \<open>Registering\<close>

text \<open>The context after the registration of \<open>e\<close> by a thread with \<open>env\<close>.\<close>

definition registered_ctx ::
  "thread_env \<Rightarrow> u32 \<Rightarrow> 'f fn option \<Rightarrow> bool \<Rightarrow> 'f FdContext \<Rightarrow> 'f FdContext" where
  "registered_ctx env e func rep c =
     putEventContext e
       (if func \<noteq> None
        then (ev_of e c)\<lparr>ev_repeat := rep, ev_scheduler := th_sched env, ev_func := func\<rparr>
        else (ev_of e c)\<lparr>ev_repeat := rep, ev_scheduler := th_sched env, ev_doroutine := th_dor env\<rparr>)
       (c\<lparr>c_events := c_events c OR e\<rparr>)"

text \<open>One more registration of \<open>e\<close> in the mask \<open>v\<close>: 1 when the event is taken already.\<close>

definition again :: "u32 \<Rightarrow> u32 \<Rightarrow> nat" where
  "again v e = (if v AND e = 0 then 0 else 1)"

lemma again_free [simp]: "v AND e = 0 \<Longrightarrow> again v e = 0"
  by (simp add: again_def)

lemma mask_add:
  assumes "v \<in> event_masks" and "single e"
  shows "v OR e \<in> event_masks" and "events_in (v OR e) + again v e = events_in v + 1"
    and "(v OR e) AND e \<noteq> 0" and "single u \<Longrightarrow> u \<noteq> e \<Longrightarrow> (v OR e) AND u = v AND u"
  using assms by (auto elim!: event_masks_cases simp: single_def event_defs event_masks_def events_in_def again_def)

text \<open>
  The threads that can register: a scheduler runs them, and they pass a function or are in a
  coroutine.
\<close>

definition in_scheduler :: "'f fn option \<Rightarrow> thread_env \<Rightarrow> 'f world \<Rightarrow> bool" where
  "in_scheduler func env w \<longleftrightarrow> (\<exists>k. th_sched env = Some k \<and> w_scheds w k \<noteq> None)
     \<and> (func \<noteq> None \<or> th_dor env \<noteq> None)"

lemma registered_ctx_ok:
  assumes "ctx_ok w j c" and "single e" and "in_scheduler func env w"
  shows "ctx_ok w j (registered_ctx env e func rep c)"
proof -
  note c = ctx_okD [OF assms(1)]
  note mk = mask_add [OF c(2) assms(2)]
  let ?d = "registered_ctx env e func rep c"
  have "if c_events ?d AND u \<noteq> 0 then armed w (ev_of u ?d) else ev_of u ?d = no_event" if u: "single u" for u
  proof (cases "u = e")
    case True
    then show ?thesis using mk(3) assms(3)
      by (auto simp: registered_ctx_def ev_of_put armed_def in_scheduler_def)
  next
    case False
    have "ev_of u ?d = ev_of u c" by (simp add: registered_ctx_def ev_of_put ev_of_put(2) [OF assms(2) u False])
    moreover have "c_events ?d AND u = c_events c AND u"
      using mk(4) [OF u False] by (simp add: registered_ctx_def ev_of_put)
    ultimately show ?thesis using c(3,4) [OF u] by simp
  qed
  moreover have "c_fd ?d = int j" "c_events ?d \<in> event_masks"
    using c(1) mk(1) by (simp_all add: registered_ctx_def ev_of_put)
  ultimately show ?thesis unfolding ctx_ok_def by blast
qed

lemma addEvent_arm_ok:
  assumes m: "w_scheds w i = Some (Io m)" and ok: "io_ok_off x i m w"
    and j: "j < length (m_fdContexts m)" "m_fdContexts m ! j = Some a" "w_ctxs w a = Some c" "ctx_ok w j c"
    and e: "single e" and env: "in_scheduler func env w"
    and ctl: "ctl (if c_events c \<noteq> 0 then EPOLL_CTL_MOD else EPOLL_CTL_ADD) (int j)
      (EPOLLET OR c_events c OR e) \<noteq> - 1"
  obtains m' w' where "addEvent_arm env ctl i (Some a) (int j) e func rep w = Inr (0, w')"
    and "w_scheds w' = (w_scheds w)(i \<mapsto> Io m')" and "io_ok_off (x + of_nat (again (c_events c) e)) i m' w'"
    and "io_sched m' = io_sched m" and "m_fdContexts m' = m_fdContexts m"
    and "w_ctxs w' = (w_ctxs w)(a \<mapsto> registered_ctx env e func rep c)"
proof -
  let ?op = "if c_events c \<noteq> 0 then EPOLL_CTL_MOD else EPOLL_CTL_ADD"
  let ?evs = "EPOLLET OR c_events c OR e"
  let ?m' = "incPendingEventCount m" and ?c' = "registered_ctx env e func rep c"
  let ?w' = "put_ctx (Some a) ?c' (put_iom i ?m' (w\<lparr>w_ctl := w_ctl w @ [(i, ?op, int j, ?evs)]\<rparr>))"
  note c = ctx_okD [OF j(4)]
  note mk = mask_add [OF c(2) e]
  have arm: "addEvent_arm env ctl i (Some a) (int j) e func rep w = Inr (0, ?w')"
  proof (cases "func = None")
    case True
    then show ?thesis using m j(3) ctl
      by (simp add: get_ev [OF e] addEvent_arm_def ctx_at_def iom_at_def registered_ctx_def ev_of_put Let_def)
  next
    case False
    then show ?thesis using m j(3) ctl
      by (simp add: get_ev [OF e] addEvent_arm_def ctx_at_def iom_at_def registered_ctx_def ev_of_put Let_def)
  qed
  have scheds: "w_scheds ?w' = (w_scheds w)(i \<mapsto> Io ?m')" by (simp add: put_ctx_def put_iom_def)
  have "io_ok_off (x + of_nat (again (c_events c) e)) i ?m' ?w'"
  proof (rule io_ok_update [OF ok j(1-3)])
    show "w_ctxs ?w' = (w_ctxs w)(a \<mapsto> ?c')" "w_next ?w' = w_next w"
      "w_ctl ?w' = w_ctl w @ [(i, ?op, int j, ?evs)]" by (simp_all add: put_ctx_def put_iom_def)
    show mono: "w_scheds ?w' k \<noteq> None" if "w_scheds w k \<noteq> None" for k using that scheds by simp
    have ce: "c_events ?c' = c_events c OR e" by (simp add: registered_ctx_def ev_of_put)
    show "(if ?op = EPOLL_CTL_DEL then 0 else ?evs AND NOT EPOLLET) = c_events ?c'"
      using mask_not_ET [OF mk(1)] ce by (simp add: or.assoc)
    have "ctx_ok w j ?c'" by (rule registered_ctx_ok [OF j(4) e env])
    then show "ctx_ok ?w' j ?c'" by (rule ctx_ok_mono) (rule mono)
    show "m_fdContexts ?m' = m_fdContexts m" "m_tickleFds ?m' = m_tickleFds m"
      by (simp_all add: incPendingEventCount_def)
    have "(of_nat (events_in (c_events c OR e)) :: u64) + of_nat (again (c_events c) e)
        = of_nat (events_in (c_events c)) + 1" using mk(2) by (simp flip: of_nat_add)
    then show "m_pendingEventCount ?m' + of_nat (events_in (c_events c))
        = m_pendingEventCount m + of_nat (events_in (c_events ?c')) + of_nat (again (c_events c) e)"
      unfolding ce by (simp add: incPendingEventCount_def add.assoc add.commute)
  qed
  with arm scheds show thesis
    by (intro that [of ?w' ?m']) (simp_all add: incPendingEventCount_def put_ctx_def put_iom_def)
qed

lemma ctx_of_at:
  assumes "w_scheds w i = Some (Io m)" and "j < length (m_fdContexts m)" and "m_fdContexts m ! j = Some a"
  shows "ctx_of i (int j) w = w_ctxs w a"
  using assms by (simp add: ctx_of_def)

lemma ctx_of_upd:
  assumes m: "w_scheds w i = Some (Io m)" "w_scheds w' i = Some (Io m')" "m_fdContexts m' = m_fdContexts m"
    and ok: "io_ok_off x i m w" and j: "j < length (m_fdContexts m)" "m_fdContexts m ! j = Some a"
    and w': "w_ctxs w' = (w_ctxs w)(a \<mapsto> c')" and k: "nat k \<noteq> j"
  shows "ctx_of i k w' = ctx_of i k w"
proof -
  have "m_fdContexts m ! nat k \<noteq> Some a" if "nat k < length (m_fdContexts m)"
    using nth_eq_iff_index_eq [OF _ that j(1)] ok k j(2) by (simp add: io_ok_def io_table_def)
  then show ?thesis using m w' by (auto simp: ctx_of_def split: option.splits)
qed

text \<open>What an operation on descriptor \<open>fd\<close> leaves alone.\<close>

definition ctx_or_new :: "nat \<Rightarrow> int \<Rightarrow> 'f world \<Rightarrow> 'f FdContext" where
  "ctx_or_new i fd w = (case ctx_of i fd w of None \<Rightarrow> FdContext_new fd | Some c \<Rightarrow> c)"

lemma ctx_or_new_events: "c_events (ctx_or_new i fd w) = fd_mask i fd w"
  by (simp add: ctx_or_new_def fd_mask_ctx FdContext_new_def EV_NONE_def split: option.split)

definition only_fd :: "nat \<Rightarrow> int \<Rightarrow> 'f world \<Rightarrow> 'f world \<Rightarrow> bool" where
  "only_fd i fd w w' \<longleftrightarrow> (\<forall>k. 0 \<le> k \<and> k \<noteq> fd \<longrightarrow> ctx_or_new i k w' = ctx_or_new i k w)"

lemma only_fd_mask: "only_fd i fd w w' \<Longrightarrow> 0 \<le> k \<Longrightarrow> k \<noteq> fd \<Longrightarrow> fd_mask i k w' = fd_mask i k w"
  by (simp add: only_fd_def flip: ctx_or_new_events)

lemma queue_unchanged:
  assumes "w_scheds w i = Some (Io m)" and "w_scheds w' = (w_scheds w)(i \<mapsto> Io m')" and "io_sched m' = io_sched m"
  shows "queue_at k w' = queue_at k w"
  using assms by (simp add: queue_at_def)

definition env_of :: "nat \<Rightarrow> 'f fn option \<Rightarrow> thread_env \<Rightarrow> bool" where
  "env_of i func env \<longleftrightarrow> th_sched env = Some i \<and> (func \<noteq> None \<or> th_dor env \<noteq> None)"

definition fd_range :: "int \<Rightarrow> bool" where
  "fd_range fd \<longleftrightarrow> 0 \<le> fd \<and> fd < 2 ^ 30"

lemma addEvent_in_table:
  assumes m: "w_scheds w i = Some (Io m)" and ok: "io_ok_off x i m w"
    and fd: "0 \<le> fd" "nat fd < length (m_fdContexts m)"
    and e: "single e" and env: "in_scheduler func env w"
  shows "\<exists>r w'. (\<forall>p. m_fdContexts m ! nat fd = p \<longrightarrow> addEvent_arm env ctl i p fd e func rep w = Inr (r, w'))
    \<and> io_inv_off (if r = 0 then x + of_nat (again (fd_mask i fd w) e) else x) i w' \<and> only_fd i fd w w' \<and> (\<forall>k. queue_at k w' = queue_at k w)
    \<and> (r = - 1 \<and> ctx_of i fd w' = ctx_of i fd w
       \<or> r = 0 \<and> ctx_of i fd w' = Some (registered_ctx env e func rep (ctx_or_new i fd w)))"
proof -
  obtain a c where j: "m_fdContexts m ! nat fd = Some a" "a < w_next w" "w_ctxs w a = Some c" "ctx_ok w (nat fd) c"
    by (rule slotE [OF io_ok_table [OF ok] fd(2)])
  have ct: "ctx_of i fd w = Some c" using m fd j by (simp add: ctx_of_def)
  then have mask: "fd_mask i fd w = c_events c" by (simp add: fd_mask_ctx)
  let ?op = "if c_events c \<noteq> 0 then EPOLL_CTL_MOD else EPOLL_CTL_ADD"
  show ?thesis
  proof (cases "ctl ?op fd (EPOLLET OR c_events c OR e) = - 1")
    case True
    then have "addEvent_arm env ctl i (Some a) fd e func rep w = Inr (- 1, w)"
      using j(3) by (simp add: addEvent_arm_def ctx_at_def Let_def)
    moreover have "io_inv_off x i w" using m ok by (auto simp: io_inv_def)
    ultimately show ?thesis using j(1)
      by (intro exI [of _ "- 1"] exI [of _ w]) (simp add: only_fd_def)
  next
    case False
    then have "ctl ?op (int (nat fd)) (EPOLLET OR c_events c OR e) \<noteq> - 1" using fd(1) by simp
    then obtain m' w' where arm: "addEvent_arm env ctl i (Some a) (int (nat fd)) e func rep w = Inr (0, w')"
      "w_scheds w' = (w_scheds w)(i \<mapsto> Io m')" "io_ok_off (x + of_nat (again (c_events c) e)) i m' w'" "io_sched m' = io_sched m"
      "m_fdContexts m' = m_fdContexts m" "w_ctxs w' = (w_ctxs w)(a \<mapsto> registered_ctx env e func rep c)"
      using addEvent_arm_ok [OF m ok fd(2) j(1,3,4) e env] by metis
    have "ctx_of i fd w' = Some (registered_ctx env e func rep (ctx_or_new i fd w))"
      using arm(2,5,6) fd j(1) ct by (simp add: ctx_of_def ctx_or_new_def)
    moreover have "only_fd i fd w w'" unfolding only_fd_def
    proof (intro allI impI)
      fix k assume "0 \<le> k \<and> k \<noteq> fd"
      then have "nat k \<noteq> nat fd" using fd(1) by (auto simp: eq_nat_nat_iff)
      then show "ctx_or_new i k w' = ctx_or_new i k w"
        using ctx_of_upd [OF m _ arm(5) ok fd(2) j(1) arm(6)] arm(2) by (simp add: ctx_or_new_def)
    qed
    moreover have "queue_at k w' = queue_at k w" for k by (rule queue_unchanged [OF m arm(2,4)])
    moreover have "io_inv_off (x + of_nat (again (fd_mask i fd w) e)) i w'" using arm(2,3) mask by (auto simp: io_inv_def)
    ultimately show ?thesis using arm(1) fd(1) j(1)
      by (intro exI [of _ 0] exI [of _ w']) simp
  qed
qed

text \<open>
  Registering, by a thread of any scheduler, whether the event is free or taken: the context
  gets the new registration, and the count exceeds the registered events by one more when the
  event was taken.
\<close>

lemma addEvent_by:
  assumes inv: "io_inv_off x i w" and fd: "fd_range fd"
    and e: "single e" and env: "in_scheduler func env w"
  shows "\<exists>r w'. addEvent env ctl i fd e func rep w = Inr (r, w')
    \<and> io_inv_off (if r = 0 then x + of_nat (again (fd_mask i fd w) e) else x) i w' \<and> only_fd i fd w w' \<and> (\<forall>k. queue_at k w' = queue_at k w)
    \<and> (r = - 1 \<and> ctx_or_new i fd w' = ctx_or_new i fd w
       \<or> r = 0 \<and> ctx_of i fd w' = Some (registered_ctx env e func rep (ctx_or_new i fd w)))"
proof -
  obtain m where m: "w_scheds w i = Some (Io m)" and ok: "io_ok_off x i m w" using inv by (auto simp: io_inv_def)
  have fd0: "0 \<le> fd" using fd by (simp add: fd_range_def)
  show ?thesis
  proof (cases "nat fd < length (m_fdContexts m)")
    case True
    from addEvent_in_table [OF m ok fd0 True e env, of ctl rep] obtain r w' where
      a: "addEvent_arm env ctl i (m_fdContexts m ! nat fd) fd e func rep w = Inr (r, w')"
      "io_inv_off (if r = 0 then x + of_nat (again (fd_mask i fd w) e) else x) i w'"
      "only_fd i fd w w'" "\<forall>k. queue_at k w' = queue_at k w"
      "r = - 1 \<and> ctx_of i fd w' = ctx_of i fd w
       \<or> r = 0 \<and> ctx_of i fd w' = Some (registered_ctx env e func rep (ctx_or_new i fd w))" by blast
    have "addEvent env ctl i fd e func rep w = Inr (r, w')"
      using a(1) addEvent_find_eq [OF m ok fd0] True by (simp add: addEvent_def)
    then show ?thesis using a(2-5) by (intro exI [of _ r] exI [of _ w']) (auto simp: ctx_or_new_def)
  next
    case False
    let ?n = "length (m_fdContexts m)"
    have n: "32 \<le> ?n" using ok by (simp add: io_ok_def io_table_def)
    have le: "int ?n \<le> fd" using False fd0 by linarith
    have fits: "fd < int (grow_size fd)" by (rule event_table.grown_slot [OF n le])
    have "?n \<le> grow_size fd" using event_table.grown_length [OF n le] by simp
    moreover have "grow_size fd < 2 ^ 31" using fd grow_size_bound by (simp add: fd_range_def)
    ultimately obtain m1 w1 where g: "contextResize i (grow_size fd) w = Inr w1"
      "w_scheds w1 = (w_scheds w)(i \<mapsto> Io m1)" "io_table_off x i m1 w1" "length (m_fdContexts m1) = grow_size fd"
      "io_sched m1 = io_sched m" "\<forall>j. slot_mask w1 (m_fdContexts m1) j = slot_mask w (m_fdContexts m) j"
      "w_ctl w1 = w_ctl w" "m_tickleFds m1 = m_tickleFds m"
      "\<forall>j < grow_size fd. \<exists>a. m_fdContexts m1 ! j = Some a \<and> w_ctxs w1 a = (if j < ?n
        then w_ctxs w (the (m_fdContexts m ! j)) else Some (FdContext_new (int j)))"
      by (rule contextResize_ok [OF m io_ok_table [OF ok]])
    have ok1: "io_ok_off x i m1 w1" using g(3,4) n \<open>?n \<le> grow_size fd\<close> by (simp add: io_ok_def)
    have m1: "w_scheds w1 i = Some (Io m1)" using g(2) by simp
    have in1: "nat fd < length (m_fdContexts m1)" using fits fd0 g(4) by linarith
    have masks: "fd_mask i k w1 = fd_mask i k w" for k using m m1 g(6) by (simp add: fd_mask_def)
    have old: "ctx_or_new i k w1 = ctx_or_new i k w" if "0 \<le> k" for k
    proof (cases "nat k < ?n")
      case True
      then obtain a c where s: "m_fdContexts m ! nat k = Some a" "a < w_next w" "w_ctxs w a = Some c" "ctx_ok w (nat k) c"
        by (rule slotE [OF io_ok_table [OF ok]])
      then show ?thesis using g(9) [rule_format, of "nat k"] True \<open>?n \<le> grow_size fd\<close> m m1 g(4)
        by (auto simp: ctx_of_def ctx_or_new_def)
    next
      case False
      then show ?thesis using g(9) [rule_format, of "nat k"] m m1 g(4) that
        by (cases "nat k < grow_size fd") (auto simp: ctx_of_def ctx_or_new_def)
    qed
    have q1: "queue_at k w1 = queue_at k w" for k by (rule queue_unchanged [OF m g(2,5)])
    have env1: "in_scheduler func env w1" using env g(2) by (auto simp: in_scheduler_def)
    from addEvent_in_table [OF m1 ok1 fd0 in1 e env1, of ctl rep] obtain r w' where
      a: "addEvent_arm env ctl i (m_fdContexts m1 ! nat fd) fd e func rep w1 = Inr (r, w')"
      "io_inv_off (if r = 0 then x + of_nat (again (fd_mask i fd w) e) else x) i w'"
      "only_fd i fd w1 w'" "\<forall>k. queue_at k w' = queue_at k w1"
      "r = - 1 \<and> ctx_of i fd w' = ctx_of i fd w1
       \<or> r = 0 \<and> ctx_of i fd w' = Some (registered_ctx env e func rep (ctx_or_new i fd w1))" unfolding masks by blast
    have "addEvent_grow i fd w = Inr (m_fdContexts m1 ! nat fd, w1)"
      using g(1) m1 in1 fd0 by (simp add: addEvent_grow_def iom_at_def)
    then have "addEvent env ctl i fd e func rep w = Inr (r, w')"
      using a(1) addEvent_find_eq [OF m ok fd0] False by (simp add: addEvent_def)
    moreover have "ctx_or_new i fd w1 = ctx_or_new i fd w" by (rule old [OF fd0])
    moreover have "only_fd i fd w w'" using a(3) old by (simp add: only_fd_def)
    moreover have "ctx_or_new i fd w' = ctx_or_new i fd w" if "ctx_of i fd w' = ctx_of i fd w1"
      using that old [OF fd0] by (simp add: ctx_or_new_def)
    ultimately show ?thesis using a(2,4,5) q1 by (intro exI [of _ r] exI [of _ w']) auto
  qed
qed

text \<open>A free event, registered by a thread of the manager.\<close>

lemma in_scheduler_own: "env_of i func env \<Longrightarrow> w_scheds w i = Some ob \<Longrightarrow> in_scheduler func env w"
  by (auto simp: env_of_def in_scheduler_def)

lemma addEvent_ok:
  assumes inv: "io_inv_off x i w" and fd: "fd_range fd"
    and e: "single e" "fd_mask i fd w AND e = 0" and env: "env_of i func env"
  shows "\<exists>r w'. addEvent env ctl i fd e func rep w = Inr (r, w')
    \<and> io_inv_off x i w' \<and> only_fd i fd w w' \<and> (\<forall>k. queue_at k w' = queue_at k w)
    \<and> (r = - 1 \<and> ctx_or_new i fd w' = ctx_or_new i fd w
       \<or> r = 0 \<and> ctx_of i fd w' = Some (registered_ctx env e func rep (ctx_or_new i fd w)))"
proof -
  have "in_scheduler func env w" using env inv in_scheduler_own by (auto simp: io_inv_def)
  note * = addEvent_by [OF inv fd e(1) this, of ctl rep]
  have "(if r = 0 then x + of_nat (again (fd_mask i fd w) e) else x) = x" for r :: int using e(2) by simp
  with * show ?thesis by (simp only:)
qed

section \<open>Removing and cancelling\<close>

definition logged :: "(nat \<times> ep_op \<times> int \<times> u32) \<Rightarrow> 'f world \<Rightarrow> 'f world" where
  "logged call w = w\<lparr>w_ctl := w_ctl w @ [call]\<rparr>"

lemma logged_simps [simp]:
  "w_scheds (logged call w) = w_scheds w" "w_ctxs (logged call w) = w_ctxs w"
  "w_next (logged call w) = w_next w" "w_ctl (logged call w) = w_ctl w @ [call]"
  "queue_at k (logged call w) = queue_at k w" "armed (logged call w) x = armed w x"
  by (simp_all add: logged_def queue_at_def armed_def)

lemma effect_inv:
  assumes m: "w_scheds w i = Some (Io m)" and ok: "io_ok_off x i m w"
    and j: "j < length (m_fdContexts m)" "m_fdContexts m ! j = Some a" "w_ctxs w a = Some c"
    and eff: "io_effect y i a (logged (i, op, int j, evs) w) m c w' m' c'"
    and mask: "(if op = EPOLL_CTL_DEL then 0 else evs AND NOT EPOLLET) = c_events c'"
    and c': "ctx_ok w' j c'"
  shows "io_inv_off (x + y) i w'" and "ctx_of i (int j) w' = Some c'" and "only_fd i (int j) w w'"
proof -
  have E: "w_scheds w' i = Some (Io m')" "m_fdContexts m' = m_fdContexts m" "m_tickleFds m' = m_tickleFds m"
    "w_ctxs w' = (w_ctxs w)(a \<mapsto> c')" "w_next w' = w_next w" "w_ctl w' = w_ctl w @ [(i, op, int j, evs)]"
    "\<And>k. w_scheds w k \<noteq> None \<Longrightarrow> w_scheds w' k \<noteq> None"
    "m_pendingEventCount m' + of_nat (events_in (c_events c))
        = m_pendingEventCount m + of_nat (events_in (c_events c')) + y"
    using eff by (simp_all add: io_effect_def)
  have "io_ok_off (x + y) i m' w'"
    by (rule io_ok_update [OF ok j E(4,5,7,6) mask c' E(2,3,8)])
  then show "io_inv_off (x + y) i w'" using E(1) by (auto simp: io_inv_def)
  show "ctx_of i (int j) w' = Some c'" using E(1,2,4) j(1,2) by (simp add: ctx_of_def)
  show "only_fd i (int j) w w'" unfolding only_fd_def
  proof (intro allI impI)
    fix k assume "0 \<le> k \<and> k \<noteq> int j"
    then have "nat k \<noteq> j" by auto
    then show "ctx_or_new i k w' = ctx_or_new i k w"
      using ctx_of_upd [OF m E(1,2) ok j(1,2) E(4)] by (simp add: ctx_or_new_def)
  qed
qed

text \<open>The kernel's mask for the \<open>epoll_ctl\<close> call that leaves \<open>v\<close> registered.\<close>

lemma left_mask:
  assumes "v \<in> event_masks"
  shows "(if (if v \<noteq> 0 then EPOLL_CTL_MOD else EPOLL_CTL_DEL) = EPOLL_CTL_DEL then 0
    else (EPOLLET OR v) AND NOT EPOLLET) = v"
  using mask_not_ET [OF assms] by simp

definition del_effect :: "u32 \<Rightarrow> 'f IOManager \<Rightarrow> 'f FdContext \<Rightarrow> nat \<Rightarrow> nat \<Rightarrow> 'f world \<Rightarrow> 'f world" where
  "del_effect e m c i a w = put_ctx (Some a) (putEventContext e no_event (c\<lparr>c_events := c_events c AND NOT e\<rparr>))
     (put_iom i (decPendingEventCount m) w)"

lemma del_effect_ok:
  assumes m: "w_scheds w i = Some (Io m)" and "single e" and "c_events c AND e \<noteq> 0" "c_events c \<in> event_masks"
  shows "io_effect 0 i a w m c (del_effect e m c i a w) (decPendingEventCount m) (after_trigger e True c)"
    and "queue_at k (del_effect e m c i a w) = queue_at k w"
proof -
  let ?d = "after_trigger e True c"
  have n: "events_in (c_events ?d) + 1 = events_in (c_events c)"
    using mask_clear(2) [OF assms(4,2,3)] by (simp add: after_trigger_def ev_of_put)
  have "m_pendingEventCount m - 1 + (of_nat (events_in (c_events ?d) + 1) :: u64)
      = m_pendingEventCount m + of_nat (events_in (c_events ?d))" by simp
  then have pend: "m_pendingEventCount (decPendingEventCount m) + of_nat (events_in (c_events c))
      = m_pendingEventCount m + of_nat (events_in (c_events ?d))"
    unfolding n by (simp add: decPendingEventCount_def)
  have "del_effect e m c i a w = put_ctx (Some a) ?d (put_iom i (decPendingEventCount m) w)"
    by (simp add: del_effect_def after_trigger_def)
  with pend show "io_effect 0 i a w m c (del_effect e m c i a w) (decPendingEventCount m) ?d"
    by (simp add: io_effect_def put_ctx_def put_iom_def decPendingEventCount_def)
  show "queue_at k (del_effect e m c i a w) = queue_at k w"
    using m by (simp add: del_effect_def queue_at_def put_ctx_def put_iom_def decPendingEventCount_def)
qed

lemma io_effect_scheds:
  "io_effect y i a (logged call w) m c w' m' c' \<Longrightarrow> w_scheds w k \<noteq> None \<Longrightarrow> w_scheds w' k \<noteq> None"
  by (simp add: io_effect_def)

lemma after_trigger_events: "c_events (after_trigger e True c) = c_events c AND NOT e"
  by (simp add: after_trigger_def ev_of_put)

text \<open>The descriptor has a context in which \<open>e\<close> is registered.\<close>

lemma registeredE:
  assumes "io_inv_off x i w" and "0 \<le> fd" and "fd_mask i fd w \<noteq> 0"
  obtains m a c where "w_scheds w i = Some (Io m)" and "io_ok_off x i m w" and "nat fd < length (m_fdContexts m)"
    and "m_fdContexts m ! nat fd = Some a" and "w_ctxs w a = Some c" and "ctx_ok w (nat fd) c"
    and "find_ctx i fd w = Inr (Some (Some a))" and "ctx_of i fd w = Some c"
proof -
  obtain m where m: "w_scheds w i = Some (Io m)" and ok: "io_ok_off x i m w" using assms(1) by (auto simp: io_inv_def)
  have j: "nat fd < length (m_fdContexts m)"
    using assms(3) m by (auto simp: fd_mask_def slot_mask_def split: if_splits)
  obtain a c where s: "m_fdContexts m ! nat fd = Some a" "a < w_next w" "w_ctxs w a = Some c" "ctx_ok w (nat fd) c"
    by (rule slotE [OF io_ok_table [OF ok] j])
  show thesis
    using m ok j s find_ctx_eq [OF m ok assms(2)] by (intro that [of m a c]) (simp_all add: ctx_of_def)
qed

lemma unregistered:
  assumes "io_inv_off x i w" and "0 \<le> fd" and "fd_mask i fd w AND e = 0"
  shows "find_ctx i fd w = Inr None
    \<or> (\<exists>a c. find_ctx i fd w = Inr (Some (Some a)) \<and> w_ctxs w a = Some c \<and> c_events c AND e = 0
         \<and> c_events c = fd_mask i fd w)"
proof -
  obtain m where m: "w_scheds w i = Some (Io m)" and ok: "io_ok_off x i m w" using assms(1) by (auto simp: io_inv_def)
  show ?thesis
  proof (cases "nat fd < length (m_fdContexts m)")
    case True
    obtain a c where s: "m_fdContexts m ! nat fd = Some a" "a < w_next w" "w_ctxs w a = Some c" "ctx_ok w (nat fd) c"
      by (rule slotE [OF io_ok_table [OF ok] True])
    then have "c_events c = fd_mask i fd w" using m True by (simp add: fd_mask_def slot_mask_def mask_at_def)
    with s assms(3) True find_ctx_eq [OF m ok assms(2)] show ?thesis
      by (intro disjI2 exI [of _ a] exI [of _ c]) simp
  next
    case False
    then show ?thesis using find_ctx_eq [OF m ok assms(2)] by simp
  qed
qed

text \<open>The kernel accepts the call that takes \<open>e\<close> out of the mask \<open>v\<close> of \<open>fd\<close>.\<close>

definition accepts_removal :: "(ep_op \<Rightarrow> int \<Rightarrow> u32 \<Rightarrow> int) \<Rightarrow> int \<Rightarrow> u32 \<Rightarrow> u32 \<Rightarrow> bool" where
  "accepts_removal ctl fd v e \<longleftrightarrow>
     ctl (if v AND NOT e \<noteq> 0 then EPOLL_CTL_MOD else EPOLL_CTL_DEL) fd (EPOLLET OR (v AND NOT e)) \<noteq> - 1"

lemma delEvent_ok:
  assumes inv: "io_inv_off x i w" and fd: "0 \<le> fd" and e: "single e"
  shows "\<exists>b w'. delEvent ctl i fd e w = Inr (b, w') \<and> io_inv_off x i w' \<and> only_fd i fd w w'
    \<and> (\<forall>k. queue_at k w' = queue_at k w) \<and> (\<not> b \<longrightarrow> w' = w)
    \<and> b = (fd_mask i fd w AND e \<noteq> 0 \<and> accepts_removal ctl fd (fd_mask i fd w) e)
    \<and> (b \<longrightarrow> fd_mask i fd w AND e \<noteq> 0
         \<and> ctx_of i fd w' = Some (after_trigger e True (ctx_or_new i fd w)))"
proof (cases "fd_mask i fd w AND e = 0")
  case True
  then have "delEvent ctl i fd e w = Inr (False, w)"
    using unregistered [OF inv fd True] by (auto simp: delEvent_def ctx_at_def)
  then show ?thesis using inv True by (intro exI [of _ False] exI [of _ w]) (simp add: only_fd_def)
next
  case False
  then have ne: "fd_mask i fd w \<noteq> 0" by auto
  obtain m a c where s: "w_scheds w i = Some (Io m)" "io_ok_off x i m w" "nat fd < length (m_fdContexts m)"
    "m_fdContexts m ! nat fd = Some a" "w_ctxs w a = Some c" "ctx_ok w (nat fd) c"
    "find_ctx i fd w = Inr (Some (Some a))" "ctx_of i fd w = Some c" by (rule registeredE [OF inv fd ne])
  have reg: "c_events c AND e \<noteq> 0" using False s(8) by (simp add: fd_mask_ctx)
  note c = ctx_okD [OF s(6)]
  let ?new = "c_events c AND NOT e"
  let ?op = "if ?new \<noteq> 0 then EPOLL_CTL_MOD else EPOLL_CTL_DEL"
  show ?thesis
  proof (cases "ctl ?op fd (EPOLLET OR ?new) = - 1")
    case True
    then have "delEvent ctl i fd e w = Inr (False, w)"
      using s(5,7) reg by (simp add: delEvent_def ctx_at_def Let_def)
    then show ?thesis using inv True s(8)
      by (intro exI [of _ False] exI [of _ w]) (simp add: only_fd_def accepts_removal_def fd_mask_ctx)
  next
    case nofail: False
    let ?w0 = "logged (i, ?op, int (nat fd), EPOLLET OR ?new) w"
    let ?w' = "del_effect e m c i a ?w0"
    have run: "delEvent ctl i fd e w = Inr (True, ?w')"
      using s(1,5,7) reg nofail fd
      by (simp add: delEvent_def ctx_at_def iom_at_def Let_def get_ev [OF e] reset_ev del_effect_def
          logged_def ev_of_put put_iom_def put_ctx_def)
    have m0: "w_scheds ?w0 i = Some (Io m)" using s(1) by simp
    note eff = del_effect_ok [OF m0 e reg c(2)]
    have mk: "?new \<in> event_masks" by (rule mask_clear(1) [OF c(2) e reg])
    have lm: "(if ?op = EPOLL_CTL_DEL then 0 else (EPOLLET OR ?new) AND NOT EPOLLET)
        = c_events (after_trigger e True c)"
      using left_mask [OF mk] by (simp add: after_trigger_events)
    have cok: "ctx_ok ?w' (nat fd) (after_trigger e True c)"
      by (rule ctx_ok_mono [OF after_trigger_ok [OF s(6) e reg]]) (rule io_effect_scheds [OF eff(1)])
    note I = effect_inv [OF s(1-5) eff(1) lm cok]
    show ?thesis
      using run I eff(2) False fd s(8) nofail
      by (intro exI [of _ True] exI [of _ ?w']) (simp add: ctx_or_new_def accepts_removal_def fd_mask_ctx)
  qed
qed

text \<open>
  \<open>cancelEvent\<close> by a thread of the IO manager \<open>k\<close>: what it resumes, on the queue of each
  scheduler, and what a thread of another manager leaves in the count.
\<close>

lemma cancelEvent_by:
  assumes inv: "io_inv_off x i w" and fd: "0 \<le> fd" and e: "single e"
    and env: "th_sched env = Some k" "w_scheds w k = Some (Io mk)"
  shows "\<exists>b w'. cancelEvent env ctl i fd e w = Inr (b, w')
    \<and> io_inv_off (if b \<and> k \<noteq> i then x + 1 else x) i w' \<and> only_fd i fd w w'
    \<and> (\<not> b \<longrightarrow> w' = w)
    \<and> b = (fd_mask i fd w AND e \<noteq> 0 \<and> accepts_removal ctl fd (fd_mask i fd w) e)
    \<and> (b \<longrightarrow> fd_mask i fd w AND e \<noteq> 0
         \<and> ctx_of i fd w' = Some (after_trigger e True (ctx_or_new i fd w))
         \<and> (\<forall>k. queue_at k w' = queue_at k w @ resumed k (ev_of e (ctx_or_new i fd w))))"
proof (cases "fd_mask i fd w AND e = 0")
  case True
  then have "cancelEvent env ctl i fd e w = Inr (False, w)"
    using unregistered [OF inv fd True] by (auto simp: cancelEvent_def ctx_at_def)
  then show ?thesis using inv True by (intro exI [of _ False] exI [of _ w]) (simp add: only_fd_def)
next
  case False
  then have ne: "fd_mask i fd w \<noteq> 0" by auto
  obtain m a c where s: "w_scheds w i = Some (Io m)" "io_ok_off x i m w" "nat fd < length (m_fdContexts m)"
    "m_fdContexts m ! nat fd = Some a" "w_ctxs w a = Some c" "ctx_ok w (nat fd) c"
    "find_ctx i fd w = Inr (Some (Some a))" "ctx_of i fd w = Some c" by (rule registeredE [OF inv fd ne])
  have reg: "c_events c AND e \<noteq> 0" using False s(8) by (simp add: fd_mask_ctx)
  note c = ctx_okD [OF s(6)]
  let ?new = "c_events c AND NOT e"
  let ?op = "if ?new \<noteq> 0 then EPOLL_CTL_MOD else EPOLL_CTL_DEL"
  show ?thesis
  proof (cases "ctl ?op fd (EPOLLET OR ?new) = - 1")
    case True
    then have "cancelEvent env ctl i fd e w = Inr (False, w)"
      using s(5,7) reg by (simp add: cancelEvent_def ctx_at_def Let_def)
    then show ?thesis using inv True s(8)
      by (intro exI [of _ False] exI [of _ w]) (simp add: only_fd_def accepts_removal_def fd_mask_ctx)
  next
    case nofail: False
    let ?w0 = "logged (i, ?op, int (nat fd), EPOLLET OR ?new) w"
    have w0: "w_scheds ?w0 i = Some (Io m)" "w_ctxs ?w0 a = Some c" "armed ?w0 (ev_of e c)"
      "w_scheds ?w0 k = Some (Io mk)"
      using s(1,5) c(3) [OF e reg] env(2) by simp_all
    obtain w' m' where t: "triggerEvent env (Some a) e True ?w0 = Inr w'"
      "io_effect (left_over env i c (after_trigger e True c)) i a ?w0 m c w' m' (after_trigger e True c)"
      "\<forall>k. queue_at k w' = queue_at k ?w0 @ resumed k (ev_of e c)"
      by (rule triggerEvent_ok [OF w0(1) env(1) w0(4,2) e reg c(2) w0(3)])
    have run: "cancelEvent env ctl i fd e w = Inr (True, w')"
      using s(5,7) reg nofail fd t(1) by (simp add: cancelEvent_def ctx_at_def Let_def logged_def)
    have lm: "(if ?op = EPOLL_CTL_DEL then 0 else (EPOLLET OR ?new) AND NOT EPOLLET)
        = c_events (after_trigger e True c)"
      using left_mask [OF mask_clear(1) [OF c(2) e reg]] by (simp add: after_trigger_events)
    have cok: "ctx_ok w' (nat fd) (after_trigger e True c)"
      by (rule ctx_ok_mono [OF after_trigger_ok [OF s(6) e reg]]) (rule io_effect_scheds [OF t(2)])
    note I = effect_inv [OF s(1-5) t(2) lm cok]
    have one: "left_over env i c (after_trigger e True c) = (if k \<noteq> i then 1 else 0)"
      using env(1) mask_clear(2) [OF c(2) e reg]
      by (cases "k = i") (simp_all add: left_over_def after_trigger_events flip: mask_clear(2) [OF c(2) e reg])
    then have "io_inv_off (if k \<noteq> i then x + 1 else x) i w'" using I(1) by (simp split: if_splits)
    then show ?thesis
      using run I(2,3) t(3) False fd s(8) nofail by (intro exI [of _ True] exI [of _ w']) (simp add: ctx_or_new_def accepts_removal_def fd_mask_ctx)
  qed
qed

lemma cancelEvent_ok:
  assumes inv: "io_inv_off x i w" and fd: "0 \<le> fd" and e: "single e" and env: "th_sched env = Some i"
  shows "\<exists>b w'. cancelEvent env ctl i fd e w = Inr (b, w') \<and> io_inv_off x i w' \<and> only_fd i fd w w'
    \<and> (\<not> b \<longrightarrow> w' = w)
    \<and> b = (fd_mask i fd w AND e \<noteq> 0 \<and> accepts_removal ctl fd (fd_mask i fd w) e)
    \<and> (b \<longrightarrow> fd_mask i fd w AND e \<noteq> 0
         \<and> ctx_of i fd w' = Some (after_trigger e True (ctx_or_new i fd w))
         \<and> (\<forall>k. queue_at k w' = queue_at k w @ resumed k (ev_of e (ctx_or_new i fd w))))"
proof -
  obtain m where "w_scheds w i = Some (Io m)" using inv by (auto simp: io_inv_def)
  from cancelEvent_by [OF inv fd e env this, of ctl] show ?thesis by simp
qed

text \<open>By a thread without an IO manager: nothing is cancelled, or it crashes.\<close>

lemma cancelEvent_null:
  assumes inv: "io_inv_off x i w" and fd: "0 \<le> fd" and e: "single e"
    and env: "\<forall>s m. th_sched env = Some s \<longrightarrow> w_scheds w s \<noteq> Some (Io m)"
  shows "cancelEvent env ctl i fd e w =
    (if fd_mask i fd w AND e \<noteq> 0 \<and> accepts_removal ctl fd (fd_mask i fd w) e then Inl NullDeref else Inr (False, w))"
proof (cases "fd_mask i fd w AND e = 0")
  case True
  then show ?thesis
    using unregistered [OF inv fd True] by (auto simp: cancelEvent_def ctx_at_def)
next
  case False
  then have "fd_mask i fd w \<noteq> 0" by auto
  then obtain m a c where s: "w_scheds w i = Some (Io m)" "io_ok_off x i m w" "nat fd < length (m_fdContexts m)"
    "m_fdContexts m ! nat fd = Some a" "w_ctxs w a = Some c" "ctx_ok w (nat fd) c"
    "find_ctx i fd w = Inr (Some (Some a))" "ctx_of i fd w = Some c"
    by (rule registeredE [OF inv fd])
  have mask: "c_events c = fd_mask i fd w" using s(8) by (simp add: fd_mask_ctx)
  let ?new = "c_events c AND NOT e"
  let ?w0 = "logged (i, if ?new \<noteq> 0 then EPOLL_CTL_MOD else EPOLL_CTL_DEL, fd, EPOLLET OR ?new) w"
  have "armed ?w0 (ev_of e c)" using ctx_okD(3) [OF s(6) e] False mask by simp
  from triggerEvent_null [OF _ e this, of a env] s(5) env
  have "triggerEvent env (Some a) e True ?w0 = Inl NullDeref" by simp
  then show ?thesis
    using s(5,7) False mask
    by (simp add: cancelEvent_def ctx_at_def Let_def accepts_removal_def logged_def)
qed

section \<open>Triggering several events of one context\<close>

text \<open>The events of \<open>es\<close> that are registered, in this order, each triggered once.\<close>

fun trigger_seq ::
  "thread_env \<Rightarrow> nat \<Rightarrow> bool \<Rightarrow> u32 list \<Rightarrow> 'f world \<Rightarrow> fault + 'f world" where
  "trigger_seq env a lastTrigger [] w = Inr w"
| "trigger_seq env a lastTrigger (e # es) w =
     rbind (triggerEvent env (Some a) e lastTrigger w) (trigger_seq env a lastTrigger es)"

lemma after_trigger_other:
  assumes "single e" and "single u" and "u \<noteq> e" and "c_events c \<in> event_masks" and "c_events c AND e \<noteq> 0"
  shows "ev_of u (after_trigger e l c) = ev_of u c" and "c_events (after_trigger e l c) AND u = c_events c AND u"
  using mask_clear(4) [OF assms(4,1,5,2,3)] by (auto simp: after_trigger_def ev_of_put ev_of_put(2) [OF assms(1-3)])

lemma trigger_seq_ok:
  assumes "w_scheds w i = Some (Io m)" and env: "th_sched env = Some k" and "w_scheds w k = Some (Io mk)"
    and "w_ctxs w a = Some c" and "ctx_ok w j c"
    and "distinct es" and "\<forall>e \<in> set es. single e \<and> c_events c AND e \<noteq> 0"
  shows "\<exists>w' m' c'. trigger_seq env a l es w = Inr w' \<and> io_effect (left_over env i c c') i a w m c w' m' c' \<and> ctx_ok w' j c'
    \<and> c' = fold (\<lambda>e. after_trigger e l) es c
    \<and> (\<forall>k. queue_at k w' = queue_at k w @ concat (map (\<lambda>e. resumed k (ev_of e c)) es))"
  using assms(1,3-7)
proof (induction es arbitrary: w m mk c)
  case Nil
  then show ?case by (intro exI [of _ w] exI [of _ m] exI [of _ c]) (simp add: io_effect_def map_upd_triv)
next
  case (Cons e es)
  note cc = ctx_okD [OF Cons.prems(4)]
  have e: "single e" "c_events c AND e \<noteq> 0" using Cons.prems(6) by simp_all
  let ?c1 = "after_trigger e l c"
  obtain w1 m1 where t: "triggerEvent env (Some a) e l w = Inr w1"
    "io_effect (left_over env i c ?c1) i a w m c w1 m1 ?c1"
    "\<forall>k. queue_at k w1 = queue_at k w @ resumed k (ev_of e c)" "\<exists>mk'. w_scheds w1 k = Some (Io mk')"
    by (rule triggerEvent_ok [OF Cons.prems(1) env Cons.prems(2,3) e(1,2) cc(2) cc(3) [OF e]])
  then obtain mk1 where k1: "w_scheds w1 k = Some (Io mk1)" by blast
  have E: "w_scheds w1 i = Some (Io m1)" "w_ctxs w1 a = Some ?c1"
    "\<And>k. w_scheds w k \<noteq> None \<Longrightarrow> w_scheds w1 k \<noteq> None"
    using t(2) by (simp_all add: io_effect_def)
  have ok1: "ctx_ok w j ?c1" by (rule after_trigger_ok [OF Cons.prems(4) e])
  have ok1': "ctx_ok w1 j ?c1" by (rule ctx_ok_mono [OF ok1 E(3)])
  have rest: "single u \<and> c_events ?c1 AND u \<noteq> 0 \<and> ev_of u ?c1 = ev_of u c" if "u \<in> set es" for u
  proof -
    have "u \<noteq> e" "single u" "c_events c AND u \<noteq> 0" using that Cons.prems(5,6) by auto
    then show ?thesis using after_trigger_other [OF e(1) _ _ cc(2) e(2)] by simp
  qed
  obtain w' m' c' where r: "trigger_seq env a l es w1 = Inr w'" "io_effect (left_over env i ?c1 c') i a w1 m1 ?c1 w' m' c'"
    "ctx_ok w' j c'" "c' = fold (\<lambda>e. after_trigger e l) es ?c1"
    "\<forall>k. queue_at k w' = queue_at k w1 @ concat (map (\<lambda>e. resumed k (ev_of e ?c1)) es)"
    using Cons.IH [OF E(1) k1 E(2) ok1'] Cons.prems(5) rest by auto
  have same: "map (\<lambda>e. resumed k (ev_of e ?c1)) es = map (\<lambda>e. resumed k (ev_of e c)) es" for k
    by (rule map_cong [OF refl]) (simp add: rest)
  have q: "\<forall>k. queue_at k w' = queue_at k w @ concat (map (\<lambda>e. resumed k (ev_of e c)) (e # es))"
    using r(5) t(3) unfolding same by simp
  show ?case using t(1) r(1,3,4) io_effect_trans [OF t(2) r(2)] q
    by (intro exI [of _ w'] exI [of _ m'] exI [of _ c']) (simp add: left_over_trans)
qed

text \<open>The events of the mask \<open>v\<close>, in the order in which the code triggers them.\<close>

definition events_of :: "u32 \<Rightarrow> u32 list" where
  "events_of v = filter (\<lambda>e. v AND e \<noteq> 0) [EV_READ, EV_WRITE]"

lemma events_of_props:
  "distinct (events_of v)" "e \<in> set (events_of v) \<longleftrightarrow> single e \<and> v AND e \<noteq> 0"
  by (auto simp: events_of_def single_def event_defs)

lemma fold_trigger_all:
  assumes "c_events c \<in> event_masks"
  shows "c_events (fold (\<lambda>e. after_trigger e True) (events_of (c_events c)) c) = 0"
  using assms
  by (auto elim!: event_masks_cases simp: events_of_def event_defs after_trigger_events)

lemma after_trigger_once:
  "c_events (after_trigger e False c) =
    (if ev_repeat (ev_of e c) then c_events c else c_events c AND NOT e)"
  by (simp add: after_trigger_def ev_of_put)

lemma ev_of_rw: "ev_of EV_READ c = c_read c" "ev_of EV_WRITE c = c_write c"
  by (simp_all add: ev_of_def event_defs)

lemma after_read_write: "c_write (after_trigger EV_READ l c) = c_write c"
  by (simp add: after_trigger_def putEventContext_def)

text \<open>
  When every reported event is registered, the mask \<open>idle\<close> leaves in the kernel is the mask
  the context has after the events were triggered.
\<close>

lemma fold_trigger_left:
  assumes "c_events c \<in> event_masks" and "real \<in> event_masks" and "real AND NOT (c_events c) = 0"
  shows "c_events (fold (\<lambda>e. after_trigger e False) (events_of real) c) = left_events c real"
    and "left_events c real \<in> event_masks"
proof -
  have cases: "(real = 0) \<or> (real = 1 \<and> (c_events c = 1 \<or> c_events c = 5))
    \<or> (real = 4 \<and> (c_events c = 4 \<or> c_events c = 5)) \<or> (real = 5 \<and> c_events c = 5)"
    using assms by (auto elim!: event_masks_cases)
  have R: "ev_of 1 c = c_read c" "ev_of 4 c = c_write c" "ev_of 4 (after_trigger 1 l c) = c_write c" for l
    using ev_of_rw [of c] ev_of_rw(2) [of "after_trigger EV_READ l c"] after_read_write [of l c]
    by (simp_all add: event_defs)
  show "c_events (fold (\<lambda>e. after_trigger e False) (events_of real) c) = left_events c real"
    using cases by (auto simp: events_of_def left_events_def event_defs after_trigger_once R)
  show "left_events c real \<in> event_masks"
  proof (cases "real = 0")
    case True
    then have "left_events c real = c_events c" by (simp add: left_events_def event_defs)
    then show ?thesis using assms(1) by simp
  next
    case False
    then show ?thesis using cases by (auto simp: left_events_def event_defs event_masks_def)
  qed
qed

lemma real_events_mask: "real_events c reported \<in> event_masks"
  by (auto simp: real_events_def Let_def event_defs event_masks_def)

lemma cancelAll_seq:
  assumes m: "w_scheds w i = Some (Io m)" and env: "th_sched env = Some k" "w_scheds w k = Some (Io mk)"
    and c: "w_ctxs w a = Some c" "ctx_ok w j c"
  shows "rbind (trigger_if env (Some a) EV_READ w) (trigger_if env (Some a) EV_WRITE)
    = trigger_seq env a True (events_of (c_events c)) w"
proof (cases "c_events c AND EV_READ = 0")
  case True
  then show ?thesis using c(1) by (cases "c_events c AND EV_WRITE = 0")
    (auto simp: trigger_if_def ctx_at_def events_of_def rbind_def split: sum.split)
next
  case False
  have s: "single EV_READ" "single EV_WRITE" "EV_WRITE \<noteq> EV_READ" by (simp_all add: single_def event_defs)
  note cc = ctx_okD [OF c(2)]
  obtain w1 m1 where t: "triggerEvent env (Some a) EV_READ True w = Inr w1"
    "io_effect (left_over env i c (after_trigger EV_READ True c)) i a w m c w1 m1 (after_trigger EV_READ True c)"
    "\<forall>k. queue_at k w1 = queue_at k w @ resumed k (ev_of EV_READ c)"
    by (rule triggerEvent_ok [OF m env c(1) s(1) False cc(2) cc(3) [OF s(1) False]])
  have "w_ctxs w1 a = Some (after_trigger EV_READ True c)" using t(2) by (simp add: io_effect_def)
  then have "trigger_if env (Some a) EV_WRITE w1 =
      (if c_events c AND EV_WRITE \<noteq> 0 then triggerEvent env (Some a) EV_WRITE True w1 else Inr w1)"
    using after_trigger_other(2) [OF s(1,2,3) cc(2) False] by (simp add: trigger_if_def ctx_at_def)
  then show ?thesis using False c(1) t(1)
    by (auto simp: trigger_if_def ctx_at_def events_of_def rbind_def split: sum.split)
qed

lemma cancelAll_by:
  assumes inv: "io_inv_off x i w" and fd: "0 \<le> fd"
    and env: "th_sched env = Some k" "w_scheds w k = Some (Io mk)"
  shows "\<exists>b w'. cancelAll env ctl i fd w = Inr (b, w')
    \<and> io_inv_off (if b \<and> k \<noteq> i then x + of_nat (events_in (fd_mask i fd w)) else x) i w' \<and> only_fd i fd w w'
    \<and> (\<not> b \<longrightarrow> w' = w)
    \<and> b = (fd_mask i fd w \<noteq> 0 \<and> ctl EPOLL_CTL_DEL fd 0 \<noteq> - 1)
    \<and> (b \<longrightarrow> fd_mask i fd w \<noteq> 0 \<and> fd_mask i fd w' = 0
         \<and> ctx_of i fd w' = Some (fold (\<lambda>e. after_trigger e True) (events_of (fd_mask i fd w)) (ctx_or_new i fd w))
         \<and> (\<forall>k. queue_at k w' = queue_at k w @ concat (map (\<lambda>e. resumed k (ev_of e (ctx_or_new i fd w)))
              (events_of (fd_mask i fd w)))))"
proof (cases "fd_mask i fd w = 0")
  case True
  then have "fd_mask i fd w AND 5 = 0" by simp
  then have "cancelAll env ctl i fd w = Inr (False, w)"
    using unregistered [OF inv fd] True by (fastforce simp: cancelAll_def ctx_at_def)
  then show ?thesis using inv True by (intro exI [of _ False] exI [of _ w]) (simp add: only_fd_def)
next
  case False
  obtain m a c where s: "w_scheds w i = Some (Io m)" "io_ok_off x i m w" "nat fd < length (m_fdContexts m)"
    "m_fdContexts m ! nat fd = Some a" "w_ctxs w a = Some c" "ctx_ok w (nat fd) c"
    "find_ctx i fd w = Inr (Some (Some a))" "ctx_of i fd w = Some c" by (rule registeredE [OF inv fd False])
  have mask: "c_events c = fd_mask i fd w" using s(8) by (simp add: fd_mask_ctx)
  note c = ctx_okD [OF s(6)]
  show ?thesis
  proof (cases "ctl EPOLL_CTL_DEL fd 0 = - 1")
    case True
    then have "cancelAll env ctl i fd w = Inr (False, w)"
      using s(5,7) False mask by (simp add: cancelAll_def ctx_at_def)
    then show ?thesis using inv True by (intro exI [of _ False] exI [of _ w]) (simp add: only_fd_def)
  next
    case nofail: False
    let ?w0 = "logged (i, EPOLL_CTL_DEL, int (nat fd), 0) w" and ?es = "events_of (c_events c)"
    have w0: "w_scheds ?w0 i = Some (Io m)" "w_scheds ?w0 k = Some (Io mk)" "w_ctxs ?w0 a = Some c"
      using s(1,5) env(2) by simp_all
    have ok0: "ctx_ok ?w0 (nat fd) c" using s(6) by (simp add: ctx_ok_def)
    obtain w' m' c' where t: "trigger_seq env a True ?es ?w0 = Inr w'" "io_effect (left_over env i c c') i a ?w0 m c w' m' c'"
      "ctx_ok w' (nat fd) c'" "c' = fold (\<lambda>e. after_trigger e True) ?es c"
      "\<forall>k. queue_at k w' = queue_at k ?w0 @ concat (map (\<lambda>e. resumed k (ev_of e c)) ?es)"
      using trigger_seq_ok [OF w0(1) env(1) w0(2,3) ok0 events_of_props(1), of "c_events c" True]
        events_of_props(2) by blast
    have "rbind (trigger_if env (Some a) EV_READ ?w0) (trigger_if env (Some a) EV_WRITE) = Inr w'"
      using cancelAll_seq [OF w0(1) env(1) w0(2,3) ok0] t(1) by simp
    then obtain w1 where "trigger_if env (Some a) EV_READ ?w0 = Inr w1" "trigger_if env (Some a) EV_WRITE w1 = Inr w'"
      by (auto simp: rbind_eq_Inr)
    then have run: "cancelAll env ctl i fd w = Inr (True, w')"
      using s(5,7) False mask nofail fd by (simp add: cancelAll_def ctx_at_def logged_def)
    have c0: "c_events c' = 0" using t(4) fold_trigger_all [OF c(2)] by simp
    have lm: "(if EPOLL_CTL_DEL = EPOLL_CTL_DEL then 0 else 0 AND NOT EPOLLET) = c_events c'" by (simp add: c0)
    note I = effect_inv [OF s(1-5) t(2) lm t(3)]
    have "fd_mask i fd w' = 0" using I(2) c0 fd by (simp add: fd_mask_ctx)
    moreover have "left_over env i c c' = (if k \<noteq> i then of_nat (events_in (fd_mask i fd w)) else 0)"
      using env(1) mask c0 by (simp add: left_over_def events_in_def)
    then have "io_inv_off (if k \<noteq> i then x + of_nat (events_in (fd_mask i fd w)) else x) i w'"
      using I(1) by (simp split: if_splits)
    ultimately show ?thesis
      using run nofail I(2,3) t(4,5) False fd s(8) mask by (intro exI [of _ True] exI [of _ w']) (simp add: ctx_or_new_def)
  qed
qed

lemma cancelAll_ok:
  assumes inv: "io_inv_off x i w" and fd: "0 \<le> fd" and env: "th_sched env = Some i"
  shows "\<exists>b w'. cancelAll env ctl i fd w = Inr (b, w') \<and> io_inv_off x i w' \<and> only_fd i fd w w'
    \<and> (\<not> b \<longrightarrow> w' = w)
    \<and> (b \<longrightarrow> fd_mask i fd w \<noteq> 0 \<and> fd_mask i fd w' = 0
         \<and> ctx_of i fd w' = Some (fold (\<lambda>e. after_trigger e True) (events_of (fd_mask i fd w)) (ctx_or_new i fd w))
         \<and> (\<forall>k. queue_at k w' = queue_at k w @ concat (map (\<lambda>e. resumed k (ev_of e (ctx_or_new i fd w)))
              (events_of (fd_mask i fd w)))))"
proof -
  obtain m where "w_scheds w i = Some (Io m)" using inv by (auto simp: io_inv_def)
  from cancelAll_by [OF inv fd env this, of ctl] show ?thesis by auto
qed

lemma cancelAll_null:
  assumes inv: "io_inv_off x i w" and fd: "0 \<le> fd"
    and env: "\<forall>s m. th_sched env = Some s \<longrightarrow> w_scheds w s \<noteq> Some (Io m)"
  shows "cancelAll env ctl i fd w =
    (if fd_mask i fd w \<noteq> 0 \<and> ctl EPOLL_CTL_DEL fd 0 \<noteq> - 1 then Inl NullDeref else Inr (False, w))"
proof (cases "fd_mask i fd w = 0")
  case True
  then have "fd_mask i fd w AND 5 = 0" by simp
  then show ?thesis
    using unregistered [OF inv fd] True by (fastforce simp: cancelAll_def ctx_at_def)
next
  case False
  obtain m a c where s: "w_scheds w i = Some (Io m)" "io_ok_off x i m w" "nat fd < length (m_fdContexts m)"
    "m_fdContexts m ! nat fd = Some a" "w_ctxs w a = Some c" "ctx_ok w (nat fd) c"
    "find_ctx i fd w = Inr (Some (Some a))" "ctx_of i fd w = Some c" by (rule registeredE [OF inv fd False])
  have mask: "c_events c = fd_mask i fd w" using s(8) by (simp add: fd_mask_ctx)
  let ?w0 = "logged (i, EPOLL_CTL_DEL, fd, 0) w"
  have null: "triggerEvent env (Some a) e True ?w0 = Inl NullDeref" if "single e" "c_events c AND e \<noteq> 0" for e
    using triggerEvent_null [of ?w0 a c e env] ctx_okD(3) [OF s(6) that] s(5) env that(1) by simp
  have "c_events c AND EV_READ \<noteq> 0 \<or> c_events c AND EV_WRITE \<noteq> 0"
    using ctx_okD(2) [OF s(6)] False mask by (auto elim!: event_masks_cases simp: event_defs)
  then show ?thesis
    using s(5,7) False mask null
    by (auto simp: cancelAll_def ctx_at_def trigger_if_def single_def logged_def)
qed

section \<open>Events reported by epoll\<close>

lemma io_inv_frame:
  assumes "io_inv_off x i w" and "sched_frame w w'"
  shows "io_inv_off x i w'"
proof -
  obtain m where m: "w_scheds w i = Some (Io m)" "io_ok_off x i m w" using assms(1) by (auto simp: io_inv_def)
  from assms(2) m(1) obtain sch where m': "w_scheds w' i = Some (Io (m\<lparr>io_sched := sch\<rparr>))"
    by (rule sched_frame_Io)
  have "io_ok_off x i (m\<lparr>io_sched := sch\<rparr>) w'"
    by (rule io_ok_frame [OF m(2)]) (use sched_frameD [OF assms(2)] in simp_all)
  with m' show ?thesis by (auto simp: io_inv_def)
qed

lemma ctx_or_new_cong:
  assumes "w_scheds w i = Some (Io m)" and "w_scheds w' i = Some (Io m')"
    and "m_fdContexts m' = m_fdContexts m" and "w_ctxs w' = w_ctxs w"
  shows "ctx_or_new i k w' = ctx_or_new i k w"
  using assms(3) unfolding ctx_or_new_def ctx_of_def assms(1,2,4) by simp

lemma ctx_or_new_frame:
  assumes "io_inv_off x i w" and "sched_frame w w'"
  shows "ctx_or_new i k w' = ctx_or_new i k w"
proof -
  obtain m where m: "w_scheds w i = Some (Io m)" using assms(1) by (auto simp: io_inv_def)
  from assms(2) m obtain sch where "w_scheds w' i = Some (Io (m\<lparr>io_sched := sch\<rparr>))" by (rule sched_frame_Io)
  from ctx_or_new_cong [OF m this _ sched_frameD(1) [OF assms(2)]] show ?thesis by simp
qed

lemma ctx_or_new_pipe: "ctx_or_new i k (w\<lparr>w_pipe := n\<rparr>) = ctx_or_new i k w"
proof -
  have "w_ctxs (w\<lparr>w_pipe := n\<rparr>) = w_ctxs w" "w_scheds (w\<lparr>w_pipe := n\<rparr>) = w_scheds w" by simp_all
  then show ?thesis by (simp only: ctx_or_new_def ctx_of_def)
qed

lemma io_inv_pipe: "io_inv_off x i w \<Longrightarrow> io_inv_off x i (w\<lparr>w_pipe := n\<rparr>)"
proof -
  assume "io_inv_off x i w"
  then obtain m where m: "w_scheds w i = Some (Io m)" "io_ok_off x i m w" by (auto simp: io_inv_def)
  have "io_ok_off x i m (w\<lparr>w_pipe := n\<rparr>)" by (rule io_ok_frame [OF m(2)]) simp_all
  with m show ?thesis by (auto simp: io_inv_def)
qed

text \<open>An update of the manager's scheduler or timers.\<close>

lemma io_inv_put:
  assumes "w_scheds w i = Some (Io m)" and "io_ok_off x i m w"
    and "m_fdContexts m' = m_fdContexts m" "m_tickleFds m' = m_tickleFds m"
    and "m_pendingEventCount m' = m_pendingEventCount m"
  shows "io_inv_off x i (put_iom i m' w)"
proof -
  have "io_ok_off x i m' (put_iom i m' w)"
    by (rule io_ok_frame [OF assms(2)]) (use assms(3-5) in \<open>simp_all add: put_iom_def\<close>)
  then show ?thesis by (auto simp: io_inv_def put_iom_def)
qed

text \<open>
  An event the idle coroutine can meet: the wake-up of the pipe, or one for a context of the
  table of which every reported event is (still) registered.
\<close>

definition live_event :: "(nat \<Rightarrow> u64) \<Rightarrow> nat \<Rightarrow> epoll_event \<Rightarrow> 'f world \<Rightarrow> bool" where
  "live_event addr i ev w \<longleftrightarrow> (\<exists>m. w_scheds w i = Some (Io m)
     \<and> (data_fd addr (ep_data ev) = fst (m_tickleFds m)
        \<or> (\<exists>a c. ep_data ev = DataPtr a \<and> Some a \<in> set (m_fdContexts m) \<and> w_ctxs w a = Some c
             \<and> real_events c (ep_events ev) AND NOT (c_events c) = 0)))"

lemma live_mem:
  assumes "ctx_ok w j c" and "real_events c reported AND NOT (c_events c) = 0"
  shows "\<forall>e \<in> set (events_of (real_events c reported)). single e \<and> c_events c AND e \<noteq> 0"
proof
  fix e assume "e \<in> set (events_of (real_events c reported))"
  then have e: "single e" "real_events c reported AND e \<noteq> 0" by (simp_all add: events_of_props(2))
  have "c_events c AND e \<noteq> 0" using e assms(2) ctx_okD(2) [OF assms(1)] real_events_mask [of c reported]
    by (auto elim!: event_masks_cases simp: single_def event_defs)
  with e(1) show "single e \<and> c_events c AND e \<noteq> 0" by simp
qed

text \<open>A report has an effect when some event is registered and the kernel accepts the mask that is left.\<close>

definition accepts_report :: "(ep_op \<Rightarrow> int \<Rightarrow> u32 \<Rightarrow> int) \<Rightarrow> 'f FdContext \<Rightarrow> u32 \<Rightarrow> bool" where
  "accepts_report ctl c real \<longleftrightarrow> c_events c AND real \<noteq> 0
     \<and> ctl (if left_events c real \<noteq> 0 then EPOLL_CTL_MOD else EPOLL_CTL_DEL) (c_fd c)
         (EPOLLET OR left_events c real) \<noteq> - 1"

lemma handle_event_ctx:
  assumes m: "w_scheds w i = Some (Io m)" and ok: "io_ok_off x i m w" and env: "th_sched env = Some i"
    and j: "j < length (m_fdContexts m)" "m_fdContexts m ! j = Some a" "w_ctxs w a = Some c" "ctx_ok w j c"
    and ev: "ep_data ev = DataPtr a" "data_fd addr (ep_data ev) \<noteq> fst (m_tickleFds m)"
    and real: "real = real_events c (ep_events ev)" "real AND NOT (c_events c) = 0"
  shows "\<exists>w'. handle_event env ctl addr i ev w = Inr w' \<and> io_inv_off x i w' \<and> only_fd i (int j) w w'
    \<and> (if accepts_report ctl c real
       then ctx_of i (int j) w' = Some (fold (\<lambda>e. after_trigger e False) (events_of real) c)
         \<and> (\<forall>k. queue_at k w' = queue_at k w @ concat (map (\<lambda>e. resumed k (ev_of e c)) (events_of real)))
       else w' = w)"
proof -
  note c = ctx_okD [OF j(4)]
  let ?left = "left_events c real" and ?es = "events_of real"
  let ?op = "if ?left \<noteq> 0 then EPOLL_CTL_MOD else EPOLL_CTL_DEL"
  have inv: "io_inv_off x i w" using m ok by (auto simp: io_inv_def)
  show ?thesis
  proof (cases "accepts_report ctl c real")
    case refused: False
    then have "c_events c AND real = 0 \<or> ctl ?op (c_fd c) (EPOLLET OR ?left) = - 1" by (simp add: accepts_report_def)
    then have "handle_event env ctl addr i ev w = Inr w"
      using m j(3) ev real(1) by (auto simp: handle_event_def iom_at_def ctx_at_def Let_def)
    then show ?thesis using inv refused by (intro exI [of _ w]) (simp add: only_fd_def)
  next
    case accepted: True
    then have False: "\<not> (c_events c AND real = 0 \<or> ctl ?op (c_fd c) (EPOLLET OR ?left) = - 1)"
      by (simp add: accepts_report_def)
    let ?w0 = "logged (i, ?op, int j, EPOLLET OR ?left) w"
    have w0: "w_scheds ?w0 i = Some (Io m)" "w_ctxs ?w0 a = Some c" using m j(3) by simp_all
    have ok0: "ctx_ok ?w0 j c" using j(4) by (simp add: ctx_ok_def)
    have mem: "\<forall>e \<in> set ?es. single e \<and> c_events c AND e \<noteq> 0"
      using live_mem [OF j(4) real(2) [unfolded real(1)]] unfolding real(1) .
    obtain w' m' c' where t: "trigger_seq env a False ?es ?w0 = Inr w'" "io_effect 0 i a ?w0 m c w' m' c'"
      "ctx_ok w' j c'" "c' = fold (\<lambda>e. after_trigger e False) ?es c"
      "\<forall>k. queue_at k w' = queue_at k ?w0 @ concat (map (\<lambda>e. resumed k (ev_of e c)) ?es)"
      using trigger_seq_ok [OF w0(1) env w0(1,2) ok0 events_of_props(1) mem, of False]
      unfolding left_over_own [OF env] by blast
    have "handle_event env ctl addr i ev w = trigger_seq env a False ?es ?w0"
      using False m j(3) ev real(1) c(1)
      by (simp add: handle_event_def iom_at_def ctx_at_def Let_def logged_def events_of_def rbind_def
          split: sum.split)
    then have run: "handle_event env ctl addr i ev w = Inr w'" using t(1) by simp
    have rm: "real \<in> event_masks" using real(1) real_events_mask by simp
    note left = fold_trigger_left [OF c(2) rm real(2)]
    have lm: "(if ?op = EPOLL_CTL_DEL then 0 else (EPOLLET OR ?left) AND NOT EPOLLET) = c_events c'"
      using left_mask [OF left(2)] left(1) t(4) by simp
    note I = effect_inv [OF m ok j(1-3) t(2) lm t(3), unfolded add_0_right]
    show ?thesis using run I t(4,5) accepted by (intro exI [of _ w']) simp
  qed
qed

text \<open>
  A report of an event that is not registered any more: when no other event of it is registered,
  or the kernel refuses, it is ignored; otherwise the idle thread crashes.
\<close>

lemma trigger_unregistered:
  assumes "w_ctxs w a = Some c" and "single e" and "ev_of e c = no_event"
  shows "triggerEvent env (Some a) e l w = Inl NullDeref"
  using assms by (simp add: triggerEvent_def ctx_at_def get_ev no_event_def schedule_to_def)

lemma handle_event_stale:
  assumes m: "w_scheds w i = Some (Io m)" and env: "th_sched env = Some i"
    and j: "w_ctxs w a = Some c" "ctx_ok w j c"
    and ev: "ep_data ev = DataPtr a" "data_fd addr (ep_data ev) \<noteq> fst (m_tickleFds m)"
    and real: "real = real_events c (ep_events ev)" "real AND NOT (c_events c) \<noteq> 0"
    and acc: "accepts_report ctl c real"
  shows "handle_event env ctl addr i ev w = Inl NullDeref"
proof -
  note c = ctx_okD [OF j(2)]
  have s: "single EV_READ" "single EV_WRITE" "EV_WRITE \<noteq> EV_READ" by (simp_all add: single_def event_defs)
  let ?left = "left_events c real"
  let ?w0 = "logged (i, if ?left \<noteq> 0 then EPOLL_CTL_MOD else EPOLL_CTL_DEL, c_fd c, EPOLLET OR ?left) w"
  have run: "handle_event env ctl addr i ev w = rbind (triggerEvent env (Some a) EV_READ False ?w0)
      (triggerEvent env (Some a) EV_WRITE False)" if "real = 5"
    using acc m j(1) ev real(1) that
    by (simp add: handle_event_def iom_at_def ctx_at_def Let_def logged_def accepts_report_def event_defs rbind_def
        split: sum.split)
  have two: "real = 5 \<and> (c_events c = 1 \<or> c_events c = 4)"
    using real(2) acc c(2) real_events_mask [of c "ep_events ev"] unfolding real(1) [symmetric]
    by (auto elim!: event_masks_cases simp: accepts_report_def)
  have w0: "w_ctxs ?w0 a = Some c" "w_scheds ?w0 i = Some (Io m)" using j(1) m by simp_all
  show ?thesis
  proof (cases "c_events c = 4")
    case True
    then have "ev_of EV_READ c = no_event" using c(4) [OF s(1)] by (simp add: event_defs)
    then show ?thesis using run two trigger_unregistered [OF w0(1) s(1)] by simp
  next
    case False
    then have r: "c_events c AND EV_READ \<noteq> 0" "c_events c AND EV_WRITE = 0" using two by (auto simp: event_defs)
    have "armed ?w0 (ev_of EV_READ c)" using c(3) [OF s(1) r(1)] by simp
    from triggerEvent_ok [OF w0(2) env w0(2,1) s(1) r(1) c(2) this, of False]
    obtain w1 m1 where t: "triggerEvent env (Some a) EV_READ False ?w0 = Inr w1"
      "io_effect (left_over env i c (after_trigger EV_READ False c)) i a ?w0 m c w1 m1 (after_trigger EV_READ False c)"
      by blast
    have "w_ctxs w1 a = Some (after_trigger EV_READ False c)" using t(2) by (simp add: io_effect_def)
    moreover have "ev_of EV_WRITE (after_trigger EV_READ False c) = no_event"
      using after_trigger_other(1) [OF s(1,2,3) c(2) r(1)] c(4) [OF s(2) r(2)] by simp
    ultimately show ?thesis using run two t(1) trigger_unregistered [OF _ s(2)] by simp
  qed
qed

text \<open>So a report that is handled and has an effect is one of registered events.\<close>

lemma handled_live:
  assumes m: "w_scheds w i = Some (Io m)" and env: "th_sched env = Some i"
    and j: "w_ctxs w a = Some c" "ctx_ok w j c"
    and ev: "ep_data ev = DataPtr a" "data_fd addr (ep_data ev) \<noteq> fst (m_tickleFds m)"
    and run: "handle_event env ctl addr i ev w = Inr w'"
    and real: "real = real_events c (ep_events ev)"
  shows "accepts_report ctl c real \<and> real AND NOT (c_events c) = 0 \<or> \<not> accepts_report ctl c real \<and> w' = w"
proof (cases "accepts_report ctl c real")
  case True
  then show ?thesis using handle_event_stale [OF m env j ev real _ True] run by auto
next
  case False
  then have "handle_event env ctl addr i ev w = Inr w"
    using m j(1) ev real by (auto simp: handle_event_def iom_at_def ctx_at_def Let_def accepts_report_def)
  then show ?thesis using False run by simp
qed

lemma live_eventE:
  assumes "io_inv_off x i w" and "live_event addr i ev w"
  obtains (pipe) m where "w_scheds w i = Some (Io m)" and "data_fd addr (ep_data ev) = fst (m_tickleFds m)"
  | (slot) m a c j where "w_scheds w i = Some (Io m)" and "io_ok_off x i m w" and "ep_data ev = DataPtr a"
    and "data_fd addr (ep_data ev) \<noteq> fst (m_tickleFds m)" and "j < length (m_fdContexts m)"
    and "m_fdContexts m ! j = Some a" and "w_ctxs w a = Some c" and "ctx_ok w j c"
    and "real_events c (ep_events ev) AND NOT (c_events c) = 0"
proof -
  obtain m where m: "w_scheds w i = Some (Io m)" and ok: "io_ok_off x i m w" using assms(1) by (auto simp: io_inv_def)
  show thesis
  proof (cases "data_fd addr (ep_data ev) = fst (m_tickleFds m)")
    case True
    then show ?thesis using m pipe by blast
  next
    case False
    then obtain a c where a: "ep_data ev = DataPtr a" "Some a \<in> set (m_fdContexts m)" "w_ctxs w a = Some c"
      "real_events c (ep_events ev) AND NOT (c_events c) = 0" using assms(2) m by (auto simp: live_event_def)
    then obtain j where j: "j < length (m_fdContexts m)" "m_fdContexts m ! j = Some a"
      by (metis in_set_conv_nth)
    obtain b d where s: "m_fdContexts m ! j = Some b" "b < w_next w" "w_ctxs w b = Some d" "ctx_ok w j d"
      by (rule slotE [OF io_ok_table [OF ok] j(1)])
    then have "ctx_ok w j c" using j(2) a(3) by simp
    with slot [OF m ok a(1) False j a(3)] a(4) show ?thesis by blast
  qed
qed

lemma handle_event_pipe:
  assumes "w_scheds w i = Some (Io m)" and "data_fd addr (ep_data ev) = fst (m_tickleFds m)"
  shows "handle_event env ctl addr i ev w = Inr (w\<lparr>w_pipe := (w_pipe w)(i := 0)\<rparr>)"
  using assms by (simp add: handle_event_def iom_at_def)

lemma handle_event_inv:
  assumes inv: "io_inv_off x i w" and env: "th_sched env = Some i" and live: "live_event addr i ev w"
  shows "\<exists>w'. handle_event env ctl addr i ev w = Inr w' \<and> io_inv_off x i w'"
  using inv live
proof (cases rule: live_eventE)
  case (pipe m)
  then show ?thesis using handle_event_pipe [OF pipe] io_inv_pipe [OF inv] by blast
next
  case (slot m a c j)
  from handle_event_ctx [OF slot(1,2) env slot(5-8) slot(3,4) refl slot(9)] show ?thesis by blast
qed

section \<open>Scheduling and timers\<close>

lemma schedule_to_inv:
  assumes "io_inv_off x i w" and "w_scheds w s \<noteq> None"
  shows "\<exists>w'. schedule_to (Some s) fc (- 1) w = Inr w' \<and> io_inv_off x i w' \<and> sched_frame w w'"
proof -
  obtain w' where w': "schedule_to (Some s) fc (- 1) w = Inr w'" "sched_frame w w'"
    "queue_at s w' = queue_at s w @ requested fc" "\<forall>k. k \<noteq> s \<longrightarrow> queue_at k w' = queue_at k w"
    by (rule schedule_to_ok [OF assms(2)])
  with io_inv_frame [OF assms(1)] show ?thesis by blast
qed

lemma schedule_all_inv:
  assumes "io_inv_off x i w"
  shows "\<exists>w'. schedule_all i fs w = Inr w' \<and> io_inv_off x i w' \<and> sched_frame w w'
    \<and> queue_at i w' = queue_at i w @ concat (map (\<lambda>f. requested (Cb f)) fs)"
  using assms
proof (induction fs arbitrary: w)
  case (Cons f fs)
  have "w_scheds w i \<noteq> None" using Cons.prems by (auto simp: io_inv_def)
  then obtain w1 where w1: "schedule_to (Some i) (Cb f) (- 1) w = Inr w1" "sched_frame w w1"
    "queue_at i w1 = queue_at i w @ requested (Cb f)" "\<forall>k. k \<noteq> i \<longrightarrow> queue_at k w1 = queue_at k w"
    by (rule schedule_to_ok)
  from Cons.IH [OF io_inv_frame [OF Cons.prems w1(2)]] w1(1,3) sched_frame_trans [OF w1(2)]
  show ?case by auto
qed (simp add: sched_frame_refl)

lemma tickles_inv:
  assumes "io_inv_off x i w"
  shows "\<exists>w'. repeat_fault n (onTimerInsertedAtFront i) w = Inr w' \<and> io_inv_off x i w'
    \<and> (\<forall>k. queue_at k w' = queue_at k w) \<and> (\<forall>k. ctx_or_new i k w' = ctx_or_new i k w)"
  using assms
proof (induction n arbitrary: w)
  case (Suc n)
  obtain m where "w_scheds w i = Some (Io m)" using Suc.prems by (auto simp: io_inv_def)
  from tickle_ok [OF this] obtain p where p: "tickle i w = Inr (w\<lparr>w_pipe := p\<rparr>)" by blast
  from Suc.IH [OF io_inv_pipe [OF Suc.prems, of p]] p show ?case
    by (auto simp: onTimerInsertedAtFront_def queue_at_def ctx_or_new_pipe)
qed simp

end
