(* ===== verification/IORuns.thy ===== *)
theory IORuns
  imports IOEvents
begin

text \<open>
  Runs of the IO manager: its constructor, the operations of all threads in any order (with
  events registered while they are taken, and threads of other managers), the timers the idle
  coroutine schedules, and what goes wrong: an event registered twice, an event that is
  stale when it is handled, two threads that grow the table, a thread without an IO manager.
\<close>

section \<open>Timers\<close>

lemma run_timers_ok:
  assumes inv: "io_inv_off x i w" and m: "w_scheds w i = Some (Io m)"
    and l: "listExpiredFunc q now (io_timers m) = Inr (funcs, fronts, ts)"
  shows "\<exists>w'. run_timers i q now w = Inr w' \<and> io_inv_off x i w'
    \<and> (\<forall>k. ctx_or_new i k w' = ctx_or_new i k w)
    \<and> queue_at i w' = queue_at i w @ concat (map (\<lambda>f. requested (Cb f)) funcs)"
proof -
  have ok: "io_ok_off x i m w" using inv m by (auto simp: io_inv_def)
  let ?w1 = "put_iom i (m\<lparr>io_timers := ts\<rparr>) w"
  have inv1: "io_inv_off x i ?w1" by (rule io_inv_put [OF m ok]) simp_all
  have q1: "queue_at i ?w1 = queue_at i w" using m by (simp add: queue_at_def put_iom_def)
  obtain w2 where w2: "repeat_fault fronts (onTimerInsertedAtFront i) ?w1 = Inr w2" "io_inv_off x i w2"
    "\<forall>k. queue_at k w2 = queue_at k ?w1" "\<forall>k. ctx_or_new i k w2 = ctx_or_new i k ?w1" using tickles_inv [OF inv1] by blast
  have c1: "ctx_or_new i k ?w1 = ctx_or_new i k w" for k
    by (rule ctx_or_new_cong [OF m, of _ "m\<lparr>io_timers := ts\<rparr>"]) (simp_all add: put_iom_def)
  obtain w3 where w3: "schedule_all i funcs w2 = Inr w3" "io_inv_off x i w3" "sched_frame w2 w3"
    "queue_at i w3 = queue_at i w2 @ concat (map (\<lambda>f. requested (Cb f)) funcs)"
    using schedule_all_inv [OF w2(2)] by blast
  have "run_timers i q now w = Inr w3"
    using m l w2(1) w3(1) by (simp add: run_timers_def iom_at_def)
  then show ?thesis using w2(3,4) w3(2,4) q1 c1 ctx_or_new_frame [OF w2(2) w3(3)] by (intro exI [of _ w3]) simp
qed

lemma run_timers_fault:
  assumes "w_scheds w i = Some (Io m)" and "listExpiredFunc q now (io_timers m) = Inl f"
  shows "run_timers i q now w = Inl f"
  using assms by (simp add: run_timers_def iom_at_def)

lemma io_addTimer_inv:
  assumes inv: "io_inv_off x i w" and add: "io_addTimer i p ms func rep now w = Inr w'"
  shows "io_inv_off x i w'" and "ctx_or_new i k w' = ctx_or_new i k w" and "queue_at s w' = queue_at s w"
proof -
  obtain m where m: "w_scheds w i = Some (Io m)" "io_ok_off x i m w" using inv by (auto simp: io_inv_def)
  obtain front ts where a: "addTimer p ms func rep now (io_timers m) = Inr (front, ts)"
    using add m(1) by (cases "addTimer p ms func rep now (io_timers m)") (auto simp: io_addTimer_def iom_at_def)
  let ?w1 = "put_iom i (m\<lparr>io_timers := ts\<rparr>) w"
  have inv1: "io_inv_off x i ?w1" by (rule io_inv_put [OF m]) simp_all
  have "w_scheds ?w1 i = Some (Io (m\<lparr>io_timers := ts\<rparr>))" by (simp add: put_iom_def)
  from tickle_ok [OF this] obtain n where n: "tickle i ?w1 = Inr (?w1\<lparr>w_pipe := n\<rparr>)" by blast
  have w': "w' = ?w1 \<or> w' = ?w1\<lparr>w_pipe := n\<rparr>"
    using add a m(1) n by (auto simp: io_addTimer_def iom_at_def onTimerInsertedAtFront_def Let_def split: if_splits)
  then show "io_inv_off x i w'" using inv1 io_inv_pipe [OF inv1] by auto
  have "ctx_or_new i k ?w1 = ctx_or_new i k w" by (rule ctx_or_new_cong [OF m(1), of _ "m\<lparr>io_timers := ts\<rparr>"]) (simp_all add: put_iom_def)
  then show "ctx_or_new i k w' = ctx_or_new i k w" using w' by (auto simp: ctx_or_new_pipe)
  show "queue_at s w' = queue_at s w" using w' m(1) by (auto simp: queue_at_def put_iom_def)
qed

text \<open>
  (C23) The idle coroutine hands the due timers to the scheduler: when the clock did not roll
  over and at most one due timer repeats, the queue of the IO manager is extended by exactly
  the callbacks of the timers whose deadline has been reached, in the order of their
  deadlines, leaving out those of cancelled timers; and the event bookkeeping is untouched.
\<close>

theorem idle_schedules_due_timers:
  assumes "io_inv i w" and "w_scheds w i = Some (Io m)" and "tm_inv (io_timers m)"
    and "q \<notin> set (m_timers (io_timers m))" and "\<not> fst (detectClockRollover now (io_timers m))"
    and "length (repeating (io_timers m) (due_timers now (io_timers m))) \<le> 1"
  shows "\<exists>w'. run_timers i q now w = Inr w' \<and> io_inv i w'
    \<and> queue_at i w' = queue_at i w
        @ map (\<lambda>f. task_of (Cb (Some f)) (- 1))
            (somes (map (\<lambda>p. t_func (tobj (io_timers m) p)) (due_timers now (io_timers m))))"
proof -
  have ex: "expired_timers now (io_timers m) = due_timers now (io_timers m)"
    using assms(5) by (simp add: expired_timers_def)
  from listExpiredFunc_ok [OF assms(3,4), of now] assms(6) obtain n mgr' where
    l: "listExpiredFunc q now (io_timers m) = Inr
      (map (\<lambda>p. t_func (tobj (io_timers m) p)) (due_timers now (io_timers m)), n, mgr')"
    unfolding ex by auto
  have "concat (map (\<lambda>f. requested (Cb f)) fs) = map (\<lambda>f. task_of (Cb (Some f)) (- 1)) (somes fs)"
    for fs :: "'a fn option list"
  proof (induction fs)
    case (Cons f fs)
    then show ?case
      by (cases f) (simp_all add: requested_def task_of_request_def Let_def has_work_def)
  qed simp
  with run_timers_ok [OF assms(1,2) l] show ?thesis by metis
qed

section \<open>The constructor\<close>

lemma Scheduler_new_tasks:
  "m_tasks (fst (Scheduler_new i threads uc name tid M S run alloc env)) = []"
  by (simp add: Scheduler_new_def Let_def)

lemma fd_mask_put: "fd_mask i fd (put_iom i m w) = slot_mask w (m_fdContexts m) (nat fd)"
proof -
  have "mask_at (put_iom i m w) p = mask_at w p" for p by (cases p) (simp_all add: mask_at_def put_iom_def)
  then show ?thesis by (simp add: fd_mask_def slot_mask_def put_iom_def)
qed

lemma IOManager_new_inv:
  assumes new: "IOManager_new i threads uc name tid M S run alloc timers elapsed epfd fds ctl spawn env w
      = Inr (env', w')"
    and log: "\<forall>c \<in> set (w_ctl w). fst c \<noteq> i"
  shows "io_inv i w'" and "fd_mask i fd w' = 0"
proof -
  obtain sch env1 where sch: "Scheduler_new i threads uc name tid M S run alloc env = (sch, env1)"
    by (cases "Scheduler_new i threads uc name tid M S run alloc env") (rule that)
  define m :: "'a IOManager" where "m = \<lparr>io_sched = sch, io_timers = TimerManager_new timers elapsed, m_epfd = epfd,
     m_tickleFds = fds, m_pendingEventCount = 0, m_fdContexts = []\<rparr>"
  define w2 where "w2 = (if ctl EPOLL_CTL_ADD (fst fds) (EPOLLIN OR EPOLLET) = - 1 then put_iom i m w
      else (put_iom i m w)\<lparr>w_ctl := w_ctl (put_iom i m w) @ [(i, EPOLL_CTL_ADD, fst fds, EPOLLIN OR EPOLLET)]\<rparr>)"
  have none: "interest i (w_ctl w) fd = 0" for fd
  proof -
    have "filter (\<lambda>(k, op, e, evs). k = i \<and> e = fd) (rev (w_ctl w)) = []"
      using log by (auto simp: filter_empty_conv)
    then show ?thesis by (simp add: interest_def)
  qed
  have m2: "w_scheds w2 i = Some (Io m)" by (simp add: w2_def put_iom_def)
  have int: "interest i (w_ctl w2) (int j) = 0" if "int j \<noteq> fst fds" for j
    using that none by (simp add: w2_def put_iom_def interest_snoc)
  have "io_table i m w2"
    using int by (simp add: io_table_def m_def registered_def slot_mask_def)
  moreover have "length (m_fdContexts m) \<le> 32" "(32 :: nat) < 2 ^ 31" by (simp_all add: m_def)
  ultimately obtain m3 w3 where r: "contextResize i 32 w2 = Inr w3" "w_scheds w3 = (w_scheds w2)(i \<mapsto> Io m3)"
    "io_table i m3 w3" "length (m_fdContexts m3) = 32" "io_sched m3 = io_sched m"
    "\<forall>j. slot_mask w3 (m_fdContexts m3) j = slot_mask w2 (m_fdContexts m) j"
    "w_ctl w3 = w_ctl w2" "m_tickleFds m3 = m_tickleFds m"
    "\<forall>j < 32. \<exists>a. m_fdContexts m3 ! j = Some a \<and> w_ctxs w3 a = (if j < length (m_fdContexts m)
      then w_ctxs w2 (the (m_fdContexts m ! j)) else Some (FdContext_new (int j)))"
    by (rule contextResize_ok [OF m2])
  have m3: "w_scheds w3 i = Some (Io m3)" using r(2) by simp
  obtain sch' where s: "start spawn (io_sched m3) = Inr sch'" "w' = put_iom i (m3\<lparr>io_sched := sch'\<rparr>) w3"
    using new r(1) m3
    unfolding IOManager_new_def sch Let_def prod.case m_def [symmetric] w2_def [symmetric]
    by (auto simp: iom_at_def rbind_eq_Inr)
  have "io_ok i m3 w3" using r(3,4) by (simp add: io_ok_def)
  then show "io_inv i w'" unfolding s(2) by (intro io_inv_put [OF m3]) simp_all
  have "slot_mask w3 (m_fdContexts m3) (nat fd) = 0" using r(6) by (simp add: slot_mask_def m_def)
  moreover have "fd_mask i fd w' = slot_mask w3 (m_fdContexts m3) (nat fd)" unfolding s(2)
    by (simp add: fd_mask_put)
  ultimately show "fd_mask i fd w' = 0" by simp
qed

lemma iom_at_Inr: "iom_at k w = Inr m \<longleftrightarrow> w_scheds w k = Some (Io m)"
  by (auto simp: iom_at_def split: option.splits sched_obj.splits)

lemma contextResize_keeps:
  assumes "contextResize i sz w = Inr w'" and "w_scheds w i = Some (Io m)"
  obtains m' where "w_scheds w' i = Some (Io m')" and "io_timers m' = io_timers m" and "io_sched m' = io_sched m"
    and "m_pendingEventCount m' = m_pendingEventCount m"
  using assms by (auto simp: contextResize_def iom_at_def put_iom_def split: prod.splits)

text \<open>The constructor leaves no timers, no tasks, no pending events and no active or idle threads.\<close>

lemma IOManager_new_fresh:
  assumes "IOManager_new i threads uc name tid M S run alloc timers elapsed epfd fds ctl spawn env w = Inr (env', w')"
  shows "\<exists>m. w_scheds w' i = Some (Io m) \<and> io_timers m = TimerManager_new timers elapsed
    \<and> m_tasks (io_sched m) = [] \<and> m_activeThreadCount (io_sched m) = 0 \<and> \<not> m_stopping (io_sched m)
    \<and> m_idleThreadCount (io_sched m) = 0 \<and> m_pendingEventCount m = 0"
proof -
  obtain sch env1 where sch: "Scheduler_new i threads uc name tid M S run alloc env = (sch, env1)"
    by (cases "Scheduler_new i threads uc name tid M S run alloc env") (rule that)
  then have base: "m_tasks sch = []" "m_activeThreadCount sch = 0" "\<not> m_stopping sch" "m_idleThreadCount sch = 0"
    by (auto simp: Scheduler_new_def Let_def split: if_splits)
  define m :: "'a IOManager" where "m = \<lparr>io_sched = sch, io_timers = TimerManager_new timers elapsed, m_epfd = epfd,
     m_tickleFds = fds, m_pendingEventCount = 0, m_fdContexts = []\<rparr>"
  define w2 where "w2 = (if ctl EPOLL_CTL_ADD (fst fds) (EPOLLIN OR EPOLLET) = - 1 then put_iom i m w
      else (put_iom i m w)\<lparr>w_ctl := w_ctl (put_iom i m w) @ [(i, EPOLL_CTL_ADD, fst fds, EPOLLIN OR EPOLLET)]\<rparr>)"
  have m2: "w_scheds w2 i = Some (Io m)" by (simp add: w2_def put_iom_def)
  obtain w3 m3 sch' where w3: "contextResize i 32 w2 = Inr w3" "w_scheds w3 i = Some (Io m3)"
    and s: "start spawn (io_sched m3) = Inr sch'" "w' = put_iom i (m3\<lparr>io_sched := sch'\<rparr>) w3"
    using assms unfolding IOManager_new_def sch Let_def prod.case m_def [symmetric] w2_def [symmetric]
    by (auto simp: iom_at_Inr rbind_eq_Inr)
  have m3: "io_timers m3 = TimerManager_new timers elapsed" "io_sched m3 = sch" "m_pendingEventCount m3 = 0"
    using contextResize_keeps [OF w3(1) m2] w3(2) by (auto simp: m_def)
  have "m_tasks sch' = []" "m_activeThreadCount sch' = 0" "\<not> m_stopping sch'" "m_idleThreadCount sch' = 0"
    using s(1) base by (auto simp: start_def m3(2) split: if_splits)
  then show ?thesis using m3(1,3) by (simp add: s(2) put_iom_def)
qed

section \<open>All operations\<close>

text \<open>\<open>cancelEvent\<close> and \<open>cancelAll\<close> by any thread, when they return.\<close>

lemma cancelEvent_any:
  assumes inv: "io_inv_off x i w" and fd: "0 \<le> fd" and e: "single e"
    and run: "cancelEvent env ctl i fd e w = Inr (b, w')"
  shows "io_inv_off (if b \<and> th_sched env \<noteq> Some i then x + 1 else x) i w' \<and> only_fd i fd w w'
    \<and> (\<not> b \<longrightarrow> w' = w)
    \<and> (b \<longrightarrow> fd_mask i fd w AND e \<noteq> 0
         \<and> ctx_of i fd w' = Some (after_trigger e True (ctx_or_new i fd w))
         \<and> (\<forall>k. queue_at k w' = queue_at k w @ resumed k (ev_of e (ctx_or_new i fd w))))"
proof (cases "\<exists>k mk. th_sched env = Some k \<and> w_scheds w k = Some (Io mk)")
  case True
  then obtain k mk where k: "th_sched env = Some k" "w_scheds w k = Some (Io mk)" by blast
  then show ?thesis using cancelEvent_by [OF inv fd e k, of ctl] run by auto
next
  case False
  then show ?thesis using cancelEvent_null [OF inv fd e, of env ctl] run inv
    by (auto simp: only_fd_def split: if_splits)
qed

lemma cancelAll_any:
  assumes inv: "io_inv_off x i w" and fd: "0 \<le> fd" and run: "cancelAll env ctl i fd w = Inr (b, w')"
  shows "io_inv_off (if b \<and> th_sched env \<noteq> Some i then x + of_nat (events_in (fd_mask i fd w)) else x) i w'
    \<and> only_fd i fd w w' \<and> (\<not> b \<longrightarrow> w' = w)
    \<and> (b \<longrightarrow> ctx_of i fd w' = Some (fold (\<lambda>e. after_trigger e True) (events_of (fd_mask i fd w)) (ctx_or_new i fd w))
         \<and> (\<forall>k. queue_at k w' = queue_at k w @ concat (map (\<lambda>e. resumed k (ev_of e (ctx_or_new i fd w)))
              (events_of (fd_mask i fd w)))))"
proof (cases "\<exists>k mk. th_sched env = Some k \<and> w_scheds w k = Some (Io mk)")
  case True
  then obtain k mk where k: "th_sched env = Some k" "w_scheds w k = Some (Io mk)" by blast
  then show ?thesis using cancelAll_by [OF inv fd k, of ctl] run by auto
next
  case False
  then show ?thesis using cancelAll_null [OF inv fd, of env ctl] run inv
    by (auto simp: only_fd_def split: if_splits)
qed

text \<open>What \<open>epoll\<close> can report: the pipe, or any context of the table, with any event bits.\<close>

definition reported :: "(nat \<Rightarrow> u64) \<Rightarrow> nat \<Rightarrow> epoll_event \<Rightarrow> 'f world \<Rightarrow> bool" where
  "reported addr i ev w \<longleftrightarrow> (\<exists>m. w_scheds w i = Some (Io m)
     \<and> (data_fd addr (ep_data ev) = fst (m_tickleFds m)
        \<or> (\<exists>a. ep_data ev = DataPtr a \<and> Some a \<in> set (m_fdContexts m))))"

lemma handle_event_any:
  assumes inv: "io_inv_off x i w" and env: "th_sched env = Some i" and rep: "reported addr i ev w"
    and run: "handle_event env ctl addr i ev w = Inr w'"
  shows "io_inv_off x i w'"
proof -
  obtain m where m: "w_scheds w i = Some (Io m)" and ok: "io_ok_off x i m w" using inv by (auto simp: io_inv_def)
  show ?thesis
  proof (cases "data_fd addr (ep_data ev) = fst (m_tickleFds m)")
    case True
    then show ?thesis using handle_event_pipe [OF m True] io_inv_pipe [OF inv] run by auto
  next
    case False
    then obtain a where a: "ep_data ev = DataPtr a" "Some a \<in> set (m_fdContexts m)"
      using rep m by (auto simp: reported_def)
    then obtain j where j: "j < length (m_fdContexts m)" "m_fdContexts m ! j = Some a"
      by (metis in_set_conv_nth)
    obtain b c where s: "m_fdContexts m ! j = Some b" "b < w_next w" "w_ctxs w b = Some c" "ctx_ok w j c"
      by (rule slotE [OF io_ok_table [OF ok] j(1)])
    then have c: "w_ctxs w a = Some c" using j(2) by simp
    from handled_live [OF m env c s(4) a(1) False run refl] show ?thesis
      using handle_event_ctx [OF m ok env j c s(4) a(1) False refl, of ctl] run inv by auto
  qed
qed

text \<open>
  The steps of an IO manager at \<open>i\<close>: its operations, by any thread, in any order, whatever
  \<open>epoll_ctl\<close> answers, as far as they return. The number counts what the pending count keeps
  too much: a registration of an event that is taken, and each event that a thread of another
  manager cancels. The operations are atomic; descriptors are in \<open>fd_range\<close> and events are
  \<open>READ\<close> or \<open>WRITE\<close>; a thread that registers runs a scheduler; the threads of the manager handle
  the reports.
\<close>

inductive io_step :: "nat \<Rightarrow> nat \<times> 'f world \<Rightarrow> nat \<times> 'f world \<Rightarrow> bool" for i :: nat where
  add: "fd_range fd \<Longrightarrow> single e \<Longrightarrow> in_scheduler func env w \<Longrightarrow>
     addEvent env ctl i fd e func rep w = Inr (r, w') \<Longrightarrow>
     io_step i (n, w) (if r = 0 then n + again (fd_mask i fd w) e else n, w')"
| del: "0 \<le> fd \<Longrightarrow> single e \<Longrightarrow> delEvent ctl i fd e w = Inr (b, w') \<Longrightarrow> io_step i (n, w) (n, w')"
| cancel: "0 \<le> fd \<Longrightarrow> single e \<Longrightarrow> cancelEvent env ctl i fd e w = Inr (b, w') \<Longrightarrow>
     io_step i (n, w) (if b \<and> th_sched env \<noteq> Some i then n + 1 else n, w')"
| cancel_all: "0 \<le> fd \<Longrightarrow> cancelAll env ctl i fd w = Inr (b, w') \<Longrightarrow>
     io_step i (n, w) (if b \<and> th_sched env \<noteq> Some i then n + events_in (fd_mask i fd w) else n, w')"
| event: "th_sched env = Some i \<Longrightarrow> reported addr i ev w \<Longrightarrow>
     handle_event env ctl addr i ev w = Inr w' \<Longrightarrow> io_step i (n, w) (n, w')"
| timers: "w_scheds w i = Some (Io m) \<Longrightarrow> listExpiredFunc q now (io_timers m) = Inr r \<Longrightarrow>
     run_timers i q now w = Inr w' \<Longrightarrow> io_step i (n, w) (n, w')"
| add_timer: "io_addTimer i p ms func rep now w = Inr w' \<Longrightarrow> io_step i (n, w) (n, w')"
| set_timers: "w_scheds w i = Some (Io m) \<Longrightarrow> io_step i (n, w) (n, put_iom i (m\<lparr>io_timers := ts\<rparr>) w)"
| wake: "io_step i (n, w) (n, w\<lparr>w_pipe := p\<rparr>)"
| schedule: "schedule_to (Some i) fc (- 1) w = Inr w' \<Longrightarrow> io_step i (n, w) (n, w')"
| threads: "w_scheds w i = Some (Io m) \<Longrightarrow> io_step i (n, w) (n, put_iom i (m\<lparr>io_sched := sch\<rparr>) w)"

lemma io_inv_step:
  assumes "io_step i s s'" and "io_inv_off (of_nat (fst s)) i (snd s)"
  shows "io_inv_off (of_nat (fst s')) i (snd s')"
  using assms
proof (induction rule: io_step.induct)
  case (add fd e func env w ctl rep r w' n)
  then have inv: "io_inv_off (of_nat n) i w" by simp
  from addEvent_by [OF inv add(1-3), of ctl rep] add(4) show ?case by auto
next
  case (del fd e ctl w b w' n)
  then have inv: "io_inv_off (of_nat n) i w" by simp
  from delEvent_ok [OF inv del(1,2), of ctl] del(3) show ?case by auto
next
  case (cancel fd e env ctl w b w' n)
  then have inv: "io_inv_off (of_nat n) i w" by simp
  from cancelEvent_any [OF inv cancel(1-3)] show ?case by (auto simp: add.commute)
next
  case (cancel_all fd env ctl w b w' n)
  then have inv: "io_inv_off (of_nat n) i w" by simp
  from cancelAll_any [OF inv cancel_all(1,2)] show ?case by auto
next
  case (event env addr ev w ctl w' n)
  then have inv: "io_inv_off (of_nat n) i w" by simp
  from handle_event_any [OF inv event(1-3)] show ?case by simp
next
  case (timers w m q now r w' n)
  then have inv: "io_inv_off (of_nat n) i w" by simp
  obtain funcs fronts ts where "r = (funcs, fronts, ts)" by (metis prod_cases3)
  then show ?case using run_timers_ok [OF inv timers(1), of q now funcs fronts ts] timers(2,3) by auto
next
  case (add_timer p ms func rep now w w' n)
  then show ?case using io_addTimer_inv(1) by fastforce
next
  case (set_timers w m n ts)
  then have "io_ok_off (of_nat n) i m w" by (auto simp: io_inv_def)
  from io_inv_put [OF set_timers(1) this, of "m\<lparr>io_timers := ts\<rparr>"] show ?case by simp
next
  case (wake n w p)
  then show ?case using io_inv_pipe by simp
next
  case (schedule fc w w' n)
  then have inv: "io_inv_off (of_nat n) i w" by simp
  have "w_scheds w i \<noteq> None" using inv by (auto simp: io_inv_def)
  then show ?case using schedule_to_inv [OF inv, of i fc] schedule(1) by auto
next
  case (threads w m n sch)
  then have "io_ok_off (of_nat n) i m w" by (auto simp: io_inv_def)
  from io_inv_put [OF threads(1) this, of "m\<lparr>io_sched := sch\<rparr>"] show ?case by simp
qed

text \<open>The worlds the constructor leaves, when no \<open>epoll_ctl\<close> call was made for this manager before.\<close>

definition io_started :: "nat \<Rightarrow> 'f world \<Rightarrow> bool" where
  "io_started i w' \<longleftrightarrow> (\<exists>threads uc name tid M S run alloc timers elapsed epfd fds ctl spawn env w env'.
     IOManager_new i threads uc name tid M S run alloc timers elapsed epfd fds ctl spawn env w = Inr (env', w')
     \<and> (\<forall>c \<in> set (w_ctl w). fst c \<noteq> i))"

lemma io_started_inv: "io_started i w \<Longrightarrow> io_inv i w"
  unfolding io_started_def by (elim exE conjE) (rule IOManager_new_inv)

lemma io_started_fresh:
  assumes "io_started i w"
  obtains m timers elapsed where "w_scheds w i = Some (Io m)" and "io_timers m = TimerManager_new timers elapsed"
    and "m_tasks (io_sched m) = []" and "m_activeThreadCount (io_sched m) = 0" and "\<not> m_stopping (io_sched m)"
    and "m_idleThreadCount (io_sched m) = 0" and "m_pendingEventCount m = 0"
  using assms IOManager_new_fresh unfolding io_started_def by metis

lemma io_started_none: "io_started i w \<Longrightarrow> fd_mask i fd w = 0"
  unfolding io_started_def by (elim exE conjE) (rule IOManager_new_inv)

interpretation io_runs: step_invariant "\<lambda>s. fst s = 0 \<and> io_started i (snd s)" "io_step i"
    "\<lambda>s. io_inv_off (of_nat (fst s)) i (snd s)" for i
  by unfold_locales (auto intro: io_inv_step io_started_inv)

lemma io_run_inv:
  assumes "io_started i w0" and "(io_step i)\<^sup>*\<^sup>* (0, w0) (n, w)"
  shows "io_inv_off (of_nat n) i w"
  using io_runs.good_reachable [of "(0, w0)" i "(n, w)"] assms by simp

text \<open>
  (C11) From the constructor on, after any sequence of operations of the manager that return, by
  any threads and whatever \<open>epoll_ctl\<close> answers: for every descriptor the mask the kernel was
  last told is the mask registered for it, and the pending event count is the number of events
  registered over all descriptors (modulo \<open>2 ^ 64\<close>), plus one for every time an event was
  registered that was registered already, and one for every event that \<open>cancelEvent\<close> or
  \<open>cancelAll\<close> triggered on a thread of another IO manager: those two are the only ways to lose
  count. Operations are atomic, on descriptors from 0 to \<open>2 ^ 30 - 1\<close> and the events \<open>READ\<close> and
  \<open>WRITE\<close>; threads that register belong to a scheduler; the reports are of contexts of the table
  and handled by threads of the manager; operations on other managers are not steps.
\<close>

theorem io_events_account:
  assumes "io_started i w0" and "(io_step i)\<^sup>*\<^sup>* (0, w0) (n, w)"
  shows "\<exists>m. w_scheds w i = Some (Io m)
    \<and> m_pendingEventCount m = of_nat ((\<Sum>j < length (m_fdContexts m). events_in (fd_mask i (int j) w)) + n)
    \<and> (\<forall>fd. 0 \<le> fd \<and> fd \<noteq> fst (m_tickleFds m) \<longrightarrow> interest i (w_ctl w) fd = fd_mask i fd w)"
proof -
  from io_run_inv [OF assms] obtain m where m: "w_scheds w i = Some (Io m)" and ok: "io_ok_off (of_nat n) i m w"
    by (auto simp: io_inv_def)
  have mask: "fd_mask i fd w = slot_mask w (m_fdContexts m) (nat fd)" for fd using m by (simp add: fd_mask_def)
  have "registered w (m_fdContexts m) = (\<Sum>j < length (m_fdContexts m). events_in (fd_mask i (int j) w))"
    by (simp add: mask registered_def slot_mask_def sum_list_sum_nth atLeast0LessThan)
  moreover have "interest i (w_ctl w) fd = fd_mask i fd w" if "0 \<le> fd" "fd \<noteq> fst (m_tickleFds m)" for fd
  proof -
    have "\<forall>j. int j \<noteq> fst (m_tickleFds m) \<longrightarrow>
        interest i (w_ctl w) (int j) = slot_mask w (m_fdContexts m) j"
      using ok by (simp add: io_ok_def io_table_def)
    from this [rule_format, of "nat fd"] that show ?thesis by (simp add: mask)
  qed
  ultimately show ?thesis using m ok by (intro exI [of _ m]) (simp add: io_ok_def io_table_def)
qed

text \<open>
  In every such state registering, removing and cancelling events (by threads of the manager) and
  handling a live event return.
\<close>

theorem io_operations_return:
  assumes "io_started i w0" and "(io_step i)\<^sup>*\<^sup>* (0, w0) (n, w)" and "fd_range fd" and "single e"
    and "env_of i func env" and "live_event addr i ev w"
  shows "(\<exists>r w'. addEvent env ctl i fd e func rep w = Inr (r, w'))
    \<and> (\<exists>b w'. delEvent ctl i fd e w = Inr (b, w'))
    \<and> (\<exists>b w'. cancelEvent env ctl i fd e w = Inr (b, w'))
    \<and> (\<exists>b w'. cancelAll env ctl i fd w = Inr (b, w'))
    \<and> (\<exists>w'. handle_event env ctl addr i ev w = Inr w')"
proof -
  have inv: "io_inv_off (of_nat n) i w" by (rule io_run_inv [OF assms(1,2)])
  have fd: "0 \<le> fd" using assms(3) by (simp add: fd_range_def)
  have env: "th_sched env = Some i" using assms(5) by (simp add: env_of_def)
  have "in_scheduler func env w" using inv assms(5) in_scheduler_own by (auto simp: io_inv_def)
  then show ?thesis
    using addEvent_by [OF inv assms(3,4), of func env ctl rep] delEvent_ok [OF inv fd assms(4), of ctl]
      cancelEvent_ok [OF inv fd assms(4) env, of ctl] cancelAll_ok [OF inv fd env, of ctl]
      handle_event_inv [OF inv env assms(6), of ctl]
    by blast
qed

section \<open>When the manager stops\<close>

lemma slot_mask_in:
  assumes "io_ok_off x i m w"
  shows "slot_mask w (m_fdContexts m) j \<in> event_masks"
proof (cases "j < length (m_fdContexts m)")
  case True
  obtain a c where "m_fdContexts m ! j = Some a" "a < w_next w" "w_ctxs w a = Some c" "ctx_ok w j c"
    by (rule slotE [OF io_ok_table [OF assms] True])
  then show ?thesis using True ctx_okD(2) by (simp add: slot_mask_def mask_at_def)
qed (simp add: slot_mask_def event_masks_def)

lemma events_in_zero: "e \<in> event_masks \<Longrightarrow> events_in e = 0 \<longleftrightarrow> e = 0"
  by (auto elim!: event_masks_cases simp: events_in_def event_defs)

lemma of_nat_u64_zero: "n < 2 ^ 64 \<Longrightarrow> (of_nat n :: u64) = 0 \<longleftrightarrow> n = 0"
  by (auto simp: word_of_nat_eq_0_iff dest: nat_dvd_not_less)

lemma pending_zero:
  assumes "w_scheds w i = Some (Io m)" and "io_ok_off (of_nat n) i m w" and "n < 2 ^ 63"
  shows "m_pendingEventCount m = 0 \<longleftrightarrow> n = 0 \<and> (\<forall>fd \<ge> 0. fd_mask i fd w = 0)"
proof -
  let ?s = "\<Sum>j < length (m_fdContexts m). events_in (slot_mask w (m_fdContexts m) j)"
  have mask: "fd_mask i fd w = slot_mask w (m_fdContexts m) (nat fd)" for fd using assms(1) by (simp add: fd_mask_def)
  have reg: "registered w (m_fdContexts m) = ?s"
    by (simp add: registered_def slot_mask_def sum_list_sum_nth atLeast0LessThan)
  have "?s \<le> (\<Sum>j < length (m_fdContexts m). 2)" by (rule sum_mono) (simp add: events_in_def)
  then have "?s \<le> 2 * length (m_fdContexts m)" by simp
  moreover have "length (m_fdContexts m) < 2 ^ 31" using assms(2) by (simp add: io_ok_def io_table_def)
  ultimately have "?s + n < 2 ^ 64" using assms(3) by simp
  then have "(of_nat (?s + n) :: u64) = 0 \<longleftrightarrow> ?s + n = 0" by (rule of_nat_u64_zero)
  moreover have "m_pendingEventCount m = of_nat (?s + n)" using assms(2) reg by (simp add: io_ok_def io_table_def)
  moreover have "?s = 0 \<longleftrightarrow> (\<forall>j < length (m_fdContexts m). slot_mask w (m_fdContexts m) j = 0)"
    by (auto simp: events_in_zero [OF slot_mask_in [OF assms(2)]])
  moreover have "\<dots> \<longleftrightarrow> (\<forall>fd \<ge> 0. fd_mask i fd w = 0)"
    unfolding mask by (metis nat_int of_nat_0_le_iff slot_mask_def)
  ultimately show ?thesis by auto
qed

text \<open>When \<open>stopping(timeout)\<close> of the IO manager holds, unless the clock stands at 0.\<close>

lemma io_stopping_off:
  assumes "io_inv_off (of_nat n) i w" and "n < 2 ^ 63" and "w_scheds w i = Some (Io m)" and "0 < now"
  shows "fst (io_stopping now m) \<longleftrightarrow> m_timers (io_timers m) = [] \<and> n = 0 \<and> (\<forall>fd \<ge> 0. fd_mask i fd w = 0)
      \<and> m_stopping (io_sched m) \<and> m_tasks (io_sched m) = [] \<and> m_activeThreadCount (io_sched m) = 0"
proof -
  have ok: "io_ok_off (of_nat n) i m w" using assms(1,3) by (auto simp: io_inv_def)
  have "n - now \<noteq> NOT 0" if "now < n" for n :: u64
  proof
    assume "n - now = NOT 0"
    moreover have "unat (n - now) = unat n - unat now" using that by (intro unat_sub) simp
    moreover have "unat n < 2 ^ 64" using unsigned_less [of n] by simp
    moreover have "unat (- 1 :: u64) = 2 ^ 64 - 1" by (simp add: unsigned_minus_1_eq_mask mask_eq_exp_minus_1)
    moreover have "0 < unat now" using assms(4) by (simp add: word_less_nat_alt)
    ultimately show False by simp
  qed
  then have "getNextTimer now (io_timers m) = NOT 0 \<longleftrightarrow> m_timers (io_timers m) = []"
    by (auto simp: getNextTimer_def split: list.split)
  then show ?thesis
    using pending_zero [OF assms(3) ok assms(2)] by (auto simp: io_stopping_def stopping_def Let_def)
qed

lemma io_stopping_iff:
  assumes "io_inv i w" and "w_scheds w i = Some (Io m)" and "0 < now"
  shows "fst (io_stopping now m) \<longleftrightarrow> m_timers (io_timers m) = [] \<and> (\<forall>fd \<ge> 0. fd_mask i fd w = 0)
      \<and> m_stopping (io_sched m) \<and> m_tasks (io_sched m) = [] \<and> m_activeThreadCount (io_sched m) = 0"
  using io_stopping_off [of 0 i w m now] assms by simp

text \<open>
  (C24) The idle coroutine of an IO manager ends exactly when nothing can happen any more: after
  any sequence of operations from the constructor on, as in C11, one iteration of its loop
  leaves the loop if and only if no timer is in the set, no event of any descriptor is
  registered, the scheduler was told to stop and has neither tasks nor active threads, and
  nothing was ever counted too much: once an event was registered while it was taken, or
  cancelled by a thread of another manager, the loop does not end any more (unless that happened
  \<open>2 ^ 63\<close> times). The clock is not at 0.
\<close>

theorem idle_ends_iff:
  assumes "io_started i w0" and "(io_step i)\<^sup>*\<^sup>* (0, w0) (n, w)" and "n < 2 ^ 63"
    and "w_scheds w i = Some (Io m)" and "0 < now"
  shows "idle_iter env ctl addr wait now now' q i w = Some (Inr None)
    \<longleftrightarrow> m_timers (io_timers m) = [] \<and> n = 0 \<and> (\<forall>fd \<ge> 0. fd_mask i fd w = 0)
      \<and> m_stopping (io_sched m) \<and> m_tasks (io_sched m) = [] \<and> m_activeThreadCount (io_sched m) = 0"
proof -
  note stop = io_stopping_off [OF io_run_inv [OF assms(1,2)] assms(3-5)]
  have "idle_iter env ctl addr wait now now' q i w = Some (Inr None) \<longleftrightarrow> fst (io_stopping now m)"
  proof (cases "io_stopping now m")
    case (Pair stop timeout)
    have never: "rbind r (\<lambda>w1. rbind (f w1) (\<lambda>w2. Inr (Some w2))) \<noteq> Inr None"
      for r :: "fault + 'a world" and f :: "'a world \<Rightarrow> fault + 'a world"
      by (simp add: rbind_eq_Inr)
    show ?thesis
    proof (cases stop)
      case True
      then show ?thesis by (simp add: idle_iter_def iom_at_def assms(4) Pair)
    next
      case False
      then show ?thesis
        by (cases "wait_loop wait 0 timeout []") (simp_all add: idle_iter_def iom_at_def assms(4) Pair never split: prod.split)
    qed
  qed
  then show ?thesis using stop by simp
qed

section \<open>What one registration leads to\<close>

text \<open>The context an event of \<open>epoll\<close> for descriptor \<open>fd\<close> points to.\<close>

definition ctx_ptr :: "nat \<Rightarrow> int \<Rightarrow> 'f world \<Rightarrow> nat option" where
  "ctx_ptr i fd w = (case w_scheds w i of
     Some (Io m) \<Rightarrow> (if nat fd < length (m_fdContexts m) then m_fdContexts m ! nat fd else None) | _ \<Rightarrow> None)"

lemma fresh_event:
  assumes "io_inv_off x i w" and "0 \<le> fd" and "single e" and "fd_mask i fd w AND e = 0"
  shows "ev_of e (ctx_or_new i fd w) = no_event" and "c_events (ctx_or_new i fd w) = fd_mask i fd w"
    and "fd_mask i fd w \<in> event_masks"
proof -
  obtain m where m: "w_scheds w i = Some (Io m)" and ok: "io_ok_off x i m w" using assms(1) by (auto simp: io_inv_def)
  have *: "ev_of e (ctx_or_new i fd w) = no_event \<and> c_events (ctx_or_new i fd w) = fd_mask i fd w
    \<and> fd_mask i fd w \<in> event_masks"
  proof (cases "nat fd < length (m_fdContexts m)")
    case True
    obtain a c where s: "m_fdContexts m ! nat fd = Some a" "a < w_next w" "w_ctxs w a = Some c" "ctx_ok w (nat fd) c"
      by (rule slotE [OF io_ok_table [OF ok] True])
    then have "ctx_of i fd w = Some c" using m True by (simp add: ctx_of_def)
    moreover from this have "c_events c AND e = 0" using assms(4) by (simp add: fd_mask_ctx)
    ultimately show ?thesis using ctx_okD(2,4) [OF s(4)] assms(3) by (simp add: fd_mask_ctx ctx_or_new_def)
  next
    case False
    then have "ctx_of i fd w = None" using m by (simp add: ctx_of_def)
    then show ?thesis
      by (simp add: fd_mask_ctx ctx_or_new_def FdContext_new_def EV_NONE_def ev_of_def event_masks_def)
  qed
  then show "ev_of e (ctx_or_new i fd w) = no_event" "c_events (ctx_or_new i fd w) = fd_mask i fd w"
    "fd_mask i fd w \<in> event_masks" by blast+
qed

text \<open>What the registration asks for: the function given, or the calling coroutine.\<close>

definition asked :: "thread_env \<Rightarrow> 'f fn option \<Rightarrow> 'f fn DoroutineOrCb" where
  "asked env func = (case func of Some f \<Rightarrow> Cb (Some f) | None \<Rightarrow> Dor (th_dor env))"

lemma registered_event:
  assumes "ev_of e c = no_event" and "single e"
  shows "ev_request (ev_of e (registered_ctx env e func rep c)) = asked env func"
    and "ev_scheduler (ev_of e (registered_ctx env e func rep c)) = th_sched env"
    and "ev_repeat (ev_of e (registered_ctx env e func rep c)) = rep"
    and "c_events (registered_ctx env e func rep c) = c_events c OR e"
  using assms(1)
  by (auto simp: registered_ctx_def ev_of_put ev_request_def asked_def no_event_def split: option.splits)

text \<open>
  (C18) A registration is answered once: after \<open>addEvent\<close> succeeded, the report of the event by
  \<open>epoll\<close> makes the idle coroutine append exactly what was asked for (the function, or the
  coroutine that registered) to the queue of the IO manager; the event is registered
  afterwards exactly if it repeats, and no other descriptor is affected. The setting: the event
  was free, the threads that register and that report belong to the manager, \<open>epoll_ctl\<close> accepts
  that the descriptor is armed again or removed, and the low half of the address of the context is
  not the number of the pipe's descriptor.
\<close>

theorem event_resumes_once:
  assumes "io_inv_off x i w" and "fd_range fd" and "single e" and "fd_mask i fd w AND e = 0"
    and "env_of i func env" and "addEvent env ctl i fd e func rep w = Inr (0, w1)"
    and "ctx_ptr i fd w1 = Some a" and "th_sched env' = Some i"
    and "\<forall>m. w_scheds w1 i = Some (Io m) \<longrightarrow> data_fd addr (DataPtr a) \<noteq> fst (m_tickleFds m)"
    and "\<forall>op evs. ctl' op fd evs \<noteq> - 1"
  shows "\<exists>w2. handle_event env' ctl' addr i \<lparr>ep_events = e, ep_data = DataPtr a\<rparr> w1 = Inr w2
    \<and> queue_at i w2 = queue_at i w @ requested (asked env func)
    \<and> fd_mask i fd w2 = (if rep then fd_mask i fd w OR e else fd_mask i fd w)
    \<and> only_fd i fd w w2 \<and> io_inv_off x i w2"
proof -
  have fd: "0 \<le> fd" using assms(2) by (simp add: fd_range_def)
  note F = fresh_event [OF assms(1) fd assms(3,4)]
  let ?c = "registered_ctx env e func rep (ctx_or_new i fd w)"
  from addEvent_ok [OF assms(1-5), of ctl rep] assms(6) have A: "io_inv_off x i w1" "only_fd i fd w w1"
    "\<forall>k. queue_at k w1 = queue_at k w" "ctx_of i fd w1 = Some ?c" by auto
  note R = registered_event [OF F(1) assms(3), of env func rep]
  obtain m where m: "w_scheds w1 i = Some (Io m)" and ok: "io_ok_off x i m w1" using A(1) by (auto simp: io_inv_def)
  have j: "nat fd < length (m_fdContexts m)" "m_fdContexts m ! nat fd = Some a"
    using assms(7) m by (auto simp: ctx_ptr_def split: if_splits)
  have c: "w_ctxs w1 a = Some ?c" using A(4) m j by (simp add: ctx_of_def)
  obtain b d where s: "m_fdContexts m ! nat fd = Some b" "b < w_next w1" "w_ctxs w1 b = Some d" "ctx_ok w1 (nat fd) d"
    by (rule slotE [OF io_ok_table [OF ok] j(1)])
  have cok: "ctx_ok w1 (nat fd) ?c" using s j(2) c by simp
  have mk: "c_events ?c = fd_mask i fd w OR e" using R(4) F(2) by simp
  have real: "real_events ?c e = e" "e AND NOT (c_events ?c) = 0" "c_events ?c AND e \<noteq> 0" "events_of e = [e]"
    using assms(3,4) F(3) mk
    by (auto elim!: event_masks_cases simp: single_def event_defs real_events_def events_of_def)
  have "c_fd ?c = fd" using ctx_okD(1) [OF cok] fd by simp
  then have acc: "accepts_report ctl' ?c e" using real(3) assms(10) by (simp add: accepts_report_def)
  let ?ev = "\<lparr>ep_events = e, ep_data = DataPtr a\<rparr>"
  from handle_event_ctx [OF m ok assms(8) j c cok, of ?ev addr e ctl'] assms(9) m real fd acc
  obtain w2 where w2: "handle_event env' ctl' addr i ?ev w1 = Inr w2" "io_inv_off x i w2" "only_fd i fd w1 w2"
    "ctx_of i fd w2 = Some (after_trigger e False ?c)"
    "\<forall>k. queue_at k w2 = queue_at k w1 @ resumed k (ev_of e ?c)" by auto
  have "resumed i (ev_of e ?c) = requested (asked env func)"
    using R(1,2) assms(5) by (simp add: resumed_def env_of_def)
  moreover have "fd_mask i fd w2 = (if rep then fd_mask i fd w OR e else fd_mask i fd w)"
  proof -
    have "(fd_mask i fd w OR e) AND NOT e = fd_mask i fd w"
      using assms(3,4) F(3) by (auto elim!: event_masks_cases simp: single_def event_defs)
    moreover have "fd_mask i fd w2 = c_events (after_trigger e False ?c)" using w2(4) by (simp add: fd_mask_ctx)
    moreover have "\<dots> = (if rep then c_events ?c else c_events ?c AND NOT e)"
      unfolding after_trigger_once R(3) by (rule refl)
    ultimately show ?thesis unfolding mk by simp
  qed
  moreover have "only_fd i fd w w2" using A(2) w2(3) by (simp add: only_fd_def)
  ultimately show ?thesis using w2(1,2,5) A(3) by (intro exI [of _ w2]) simp
qed


section \<open>Outside the discipline\<close>

text \<open>
  Registering an event that is registered already is not refused: the new coroutine or function
  takes the place of the old one.
\<close>

lemma addEvent_again:
  assumes "io_inv_off x i w" and "0 \<le> fd" and "single e" and "fd_mask i fd w AND e \<noteq> 0"
    and "w_scheds w i = Some (Io m)" and "\<forall>op evs. ctl op fd evs \<noteq> - 1"
  shows "\<exists>w'. addEvent env ctl i fd e func rep w = Inr (0, w')
    \<and> w_scheds w' i = Some (Io (incPendingEventCount m)) \<and> only_fd i fd w w'
    \<and> ctx_or_new i fd w' = registered_ctx env e func rep (ctx_or_new i fd w)
    \<and> fd_mask i fd w' = fd_mask i fd w"
proof -
  have "fd_mask i fd w \<noteq> 0" using assms(4) by auto
  then obtain m0 a c where s: "w_scheds w i = Some (Io m0)" "io_ok_off x i m0 w" "nat fd < length (m_fdContexts m0)"
    "m_fdContexts m0 ! nat fd = Some a" "w_ctxs w a = Some c" "ctx_ok w (nat fd) c"
    "find_ctx i fd w = Inr (Some (Some a))" "ctx_of i fd w = Some c"
    by (rule registeredE [OF assms(1,2)])
  have m: "m0 = m" using s(1) assms(5) by simp
  have mask: "c_events c = fd_mask i fd w" using s(8) by (simp add: fd_mask_ctx)
  have same: "c_events c OR e = c_events c"
    using assms(3,4) mask ctx_okD(2) [OF s(6)] by (auto elim!: event_masks_cases simp: single_def event_defs)
  let ?op = "if c_events c \<noteq> 0 then EPOLL_CTL_MOD else EPOLL_CTL_ADD"
  let ?call = "(i, ?op, fd, EPOLLET OR c_events c OR e)"
  let ?c' = "registered_ctx env e func rep c" and ?m' = "incPendingEventCount m"
  let ?w' = "put_ctx (Some a) ?c' (put_iom i ?m' (w\<lparr>w_ctl := w_ctl w @ [?call]\<rparr>))"
  have "addEvent_arm env ctl i (Some a) fd e func rep w = Inr (0, ?w')"
    using assms(5) s(5) assms(6) by (cases "func = None")
      (simp_all add: get_ev [OF assms(3)] addEvent_arm_def ctx_at_def iom_at_def registered_ctx_def ev_of_put Let_def)
  then have "addEvent env ctl i fd e func rep w = Inr (0, ?w')"
    using addEvent_find_eq [OF s(1,2) assms(2)] s(3,4) by (simp add: addEvent_def)
  moreover have m': "w_scheds ?w' i = Some (Io ?m')" by (simp add: put_ctx_def put_iom_def)
  moreover have c': "ctx_of i fd ?w' = Some ?c'" using s(3,4) m
    by (simp add: ctx_of_def put_ctx_def put_iom_def incPendingEventCount_def)
  moreover have "fd_mask i fd ?w' = c_events c" using same c' by (simp add: fd_mask_ctx registered_ctx_def ev_of_put)
  moreover have "ctx_of i k ?w' = ctx_of i k w" if "nat k \<noteq> nat fd" for k
    by (rule ctx_of_upd [OF s(1) m' _ s(2-4) _ that, of ?c'])
      (simp_all add: m put_ctx_def put_iom_def incPendingEventCount_def)
  then have "only_fd i fd w ?w'" using assms(2) by (auto simp: only_fd_def ctx_or_new_def)
  ultimately show ?thesis using s(8) mask by (intro exI [of _ ?w']) (simp add: ctx_or_new_def)
qed

text \<open>
  The call succeeds and counts the event again, while every mask stays as it is. The pending
  count then exceeds the number of registered events for good, so that \<open>stopping\<close> is false even
  when none is left.
\<close>

theorem addEvent_twice_leaks:
  assumes "io_inv_off x i w" and "0 \<le> fd" and "single e" and "fd_mask i fd w AND e \<noteq> 0"
    and "w_scheds w i = Some (Io m)" and "\<forall>op evs. ctl op fd evs \<noteq> - 1"
  shows "\<exists>w' m'. addEvent env ctl i fd e func rep w = Inr (0, w')
    \<and> w_scheds w' i = Some (Io m') \<and> m_pendingEventCount m' = m_pendingEventCount m + 1
    \<and> (\<forall>k. 0 \<le> k \<longrightarrow> fd_mask i k w' = fd_mask i k w)"
proof -
  obtain w' where w': "addEvent env ctl i fd e func rep w = Inr (0, w')" "w_scheds w' i = Some (Io (incPendingEventCount m))"
    "only_fd i fd w w'" "fd_mask i fd w' = fd_mask i fd w"
    using addEvent_again [where ctl = ctl, OF assms] by blast
  have "fd_mask i k w' = fd_mask i k w" if "0 \<le> k" for k
  proof (cases "k = fd")
    case False
    then have "ctx_or_new i k w' = ctx_or_new i k w" using w'(3) that by (simp add: only_fd_def)
    then show ?thesis by (simp flip: ctx_or_new_events)
  qed (simp add: w'(4))
  then show ?thesis using w'(1,2) by (auto simp: incPendingEventCount_def)
qed

text \<open>
  (C36) A stale report crashes the idle thread. If \<open>epoll\<close> reported both events of a descriptor
  but \<open>READ\<close> was removed before the report is handled and \<open>WRITE\<close> is still registered, then
  \<open>triggerEvent\<close> is called for \<open>READ\<close> all the same, only logs that something is wrong, and calls
  \<open>schedule\<close> through the null pointer of the context that was reset.
\<close>

theorem stale_event_crashes:
  assumes "io_inv_off x i w" and "w_scheds w i = Some (Io m)" and "ctx_ptr i fd w = Some a" and "0 \<le> fd"
    and "fd_mask i fd w = EV_WRITE" and "data_fd addr (DataPtr a) \<noteq> fst (m_tickleFds m)"
    and "\<forall>op evs. ctl op fd evs \<noteq> - 1"
  shows "handle_event env ctl addr i \<lparr>ep_events = EPOLLIN OR EPOLLOUT, ep_data = DataPtr a\<rparr> w = Inl NullDeref"
proof -
  have ok: "io_ok_off x i m w" using assms(1,2) by (auto simp: io_inv_def)
  have j: "nat fd < length (m_fdContexts m)" "m_fdContexts m ! nat fd = Some a"
    using assms(2,3) by (auto simp: ctx_ptr_def split: if_splits)
  obtain b c where s: "m_fdContexts m ! nat fd = Some b" "b < w_next w" "w_ctxs w b = Some c" "ctx_ok w (nat fd) c"
    by (rule slotE [OF io_ok_table [OF ok] j(1)])
  then have c: "w_ctxs w a = Some c" using j(2) by simp
  then have "c_events c = EV_WRITE" using assms(2,5) j by (simp add: fd_mask_ctx ctx_of_def)
  then have ev: "c_events c = 4" by (simp add: event_defs)
  have r: "c_read c = no_event"
    using ctx_okD(4) [OF s(4), of EV_READ] ev by (simp add: single_def event_defs ev_of_def)
  have trig: "triggerEvent env (Some a) 1 False v = Inl NullDeref" if "w_ctxs v a = Some c" for v
    using that r by (simp add: triggerEvent_def ctx_at_def getEventContext_def event_defs no_event_def schedule_to_def)
  show ?thesis
    using assms(2,4,6,7) c ev ctx_okD(1) [OF s(4)] trig
    by (simp add: handle_event_def iom_at_def ctx_at_def real_events_def event_defs Let_def)
qed

text \<open>
  \<open>triggerEvent\<close> takes the pending count of the calling thread's IO manager. On a thread
  whose scheduler is not an IO manager, or that has none, \<open>cancelEvent\<close> first hands the task to
  its scheduler and then dereferences a null pointer; the event stays registered.
\<close>

theorem cancelEvent_foreign_thread:
  assumes "io_inv_off x i w" and "0 \<le> fd" and "single e" and "fd_mask i fd w AND e \<noteq> 0"
    and "\<forall>s m. th_sched env = Some s \<longrightarrow> w_scheds w s \<noteq> Some (Io m)"
    and "accepts_removal ctl fd (fd_mask i fd w) e"
  shows "cancelEvent env ctl i fd e w = Inl NullDeref"
  using cancelEvent_null [OF assms(1-3,5), of ctl] assms(4,6) by simp

lemma length_fill_contexts: "length (fst (fill_contexts i ps hn)) = length ps"
  by (induction i ps hn rule: fill_contexts.induct) (auto split: prod.splits)

lemma contextResize_length:
  assumes "w_scheds w i = Some (Io m)"
  shows "\<exists>m' w'. contextResize i n w = Inr w' \<and> w_scheds w' i = Some (Io m')
    \<and> length (m_fdContexts m') = n"
proof -
  obtain qs h k where f: "fill_contexts 0 (vec_resize n None (m_fdContexts m)) (w_ctxs w, w_next w) = (qs, h, k)"
    by (metis prod_cases3)
  then have "length qs = n"
    using length_fill_contexts [of 0 "vec_resize n None (m_fdContexts m)" "(w_ctxs w, w_next w)"] by simp
  then show ?thesis using assms f by (simp add: contextResize_def iom_at_def put_iom_def)
qed

text \<open>
  \<open>addEvent\<close> does not look at the table's size again under the write lock. When two
  threads both found it too small, for descriptors \<open>a\<close> and \<open>b\<close> with \<open>b * 1.5 \<le> a\<close>, the resize
  for \<open>b\<close> that comes second shrinks the table that was grown for \<open>a\<close>: the context of \<open>a\<close>,
  in which its event is registered, is out of the table, and \<open>delEvent\<close>, \<open>cancelEvent\<close> and
  \<open>cancelAll\<close> for \<open>a\<close> no longer find it.
\<close>

theorem addEvent_grow_race:
  assumes "io_inv_off x i w" and "addEvent_find i a w = Inr None" and "addEvent_find i b w = Inr None"
    and "fd_range a" and "fd_range b" and "int (grow_size b) \<le> a"
  shows "\<exists>p w1 q w2. addEvent_grow i a w = Inr (Some p, w1) \<and> find_ctx i a w1 = Inr (Some (Some p))
    \<and> addEvent_grow i b w1 = Inr (q, w2) \<and> find_ctx i a w2 = Inr None"
proof -
  obtain m where m: "w_scheds w i = Some (Io m)" and ok: "io_ok_off x i m w" using assms(1) by (auto simp: io_inv_def)
  let ?n = "length (m_fdContexts m)"
  have n: "32 \<le> ?n" using ok by (simp add: io_ok_def)
  have fd: "0 \<le> a" "0 \<le> b" using assms(4,5) by (simp_all add: fd_range_def)
  have small: "int ?n \<le> a" "int ?n \<le> b"
    using assms(2,3) addEvent_find_eq [OF m ok] fd by (auto split: if_splits)
  have grow: "?n \<le> grow_size a" "grow_size a < 2 ^ 31" "grow_size b < 2 ^ 31"
    using event_table.grown_length [OF n small(1)] grow_size_bound assms(4,5) by (simp_all add: fd_range_def)
  obtain m1 w1 where g: "contextResize i (grow_size a) w = Inr w1" "w_scheds w1 = (w_scheds w)(i \<mapsto> Io m1)"
      "io_table_off x i m1 w1" "length (m_fdContexts m1) = grow_size a" "io_sched m1 = io_sched m"
      "\<forall>j. slot_mask w1 (m_fdContexts m1) j = slot_mask w (m_fdContexts m) j"
      "w_ctl w1 = w_ctl w" "m_tickleFds m1 = m_tickleFds m"
      "\<forall>j < grow_size a. \<exists>p. m_fdContexts m1 ! j = Some p \<and> w_ctxs w1 p = (if j < ?n
        then w_ctxs w (the (m_fdContexts m ! j)) else Some (FdContext_new (int j)))"
    by (rule contextResize_ok [OF m io_ok_table [OF ok] grow(1,2)])
  have m1: "w_scheds w1 i = Some (Io m1)" using g(2) by simp
  have a1: "nat a < length (m_fdContexts m1)" "a < int (length (m_fdContexts m1))"
    using event_table.grown_slot [OF n small(1)] fd g(4) by linarith+
  obtain p where p: "m_fdContexts m1 ! nat a = Some p" using g(4,9) a1(1) by auto
  have ok1: "io_ok_off x i m1 w1" using g(3,4) n grow(1) by (simp add: io_ok_def)
  have "find_ctx i a w1 = Inr (Some (Some p))" using find_ctx_eq [OF m1 ok1 fd(1)] a1 p by simp
  moreover have "addEvent_grow i a w = Inr (Some p, w1)"
    using g(1) m1 a1 fd p by (simp add: addEvent_grow_def iom_at_def)
  moreover obtain m2 w2 where r: "contextResize i (grow_size b) w1 = Inr w2" "w_scheds w2 i = Some (Io m2)"
    "length (m_fdContexts m2) = grow_size b" using contextResize_length [OF m1] by blast
  have "b < int (length (m_fdContexts m2))" using event_table.grown_slot [OF n small(2)] r(3) by simp
  then obtain q where "addEvent_grow i b w1 = Inr (q, w2)"
    using r(1,2) fd(2) by (simp add: addEvent_grow_def iom_at_def)
  moreover have "find_ctx i a w2 = Inr None"
    using r(2,3) assms(6) int_of_size_small [OF grow(3)] by (simp add: find_ctx_def iom_at_def)
  ultimately show ?thesis by blast
qed

section \<open>A concrete run\<close>

definition wit_world :: "'f world" where
  "wit_world = \<lparr>w_scheds = (\<lambda>k. None), w_ctxs = (\<lambda>a. None), w_next = 0, w_pipe = (\<lambda>k. 0), w_ctl = []\<rparr>"

definition wit_env :: thread_env where
  "wit_env = \<lparr>th_sched = Some 7, th_dor = Some 1\<rparr>"

abbreviation wit_ok :: "ep_op \<Rightarrow> int \<Rightarrow> u32 \<Rightarrow> int" where
  "wit_ok \<equiv> \<lambda>op fd evs. 0"

lemma wit_started:
  obtains w :: "'f world" and m where "io_started 7 w" and "w_scheds w 7 = Some (Io m)"
    and "m_tickleFds m = (3, 4)" and "io_timers m = TimerManager_new timers 0"
    and "length (m_fdContexts m) = 32" and "\<forall>fd. fd_mask 7 fd w = 0"
proof -
  fix run :: "'f fn" and alloc :: "u32 \<Rightarrow> nat option" and rt :: "'f fn thread_rt"
  define sch :: "'f fn Scheduler" where "sch = fst (Scheduler_new 7 1 False '''' 1 0 0 run alloc (None, rt))"
  define m0 :: "'f IOManager" where "m0 = \<lparr>io_sched = sch, io_timers = TimerManager_new timers 0, m_epfd = 2,
     m_tickleFds = (3, 4), m_pendingEventCount = 0, m_fdContexts = []\<rparr>"
  define w0 where "w0 = (put_iom 7 m0 wit_world)\<lparr>w_ctl := [(7, EPOLL_CTL_ADD, 3, EPOLLIN OR EPOLLET)]\<rparr>"
  have m0: "w_scheds w0 7 = Some (Io m0)" by (simp add: w0_def put_iom_def)
  have "io_table 7 m0 w0"
    by (simp add: io_table_def m0_def w0_def put_iom_def registered_def slot_mask_def interest_def)
  moreover have "length (m_fdContexts m0) \<le> 32" "(32 :: nat) < 2 ^ 31" by (simp_all add: m0_def)
  ultimately obtain m1 w1 where r: "contextResize 7 32 w0 = Inr w1" "w_scheds w1 = (w_scheds w0)(7 \<mapsto> Io m1)"
    "io_table 7 m1 w1" "length (m_fdContexts m1) = 32" "io_sched m1 = io_sched m0"
    "\<forall>j. slot_mask w1 (m_fdContexts m1) j = slot_mask w0 (m_fdContexts m0) j"
    "w_ctl w1 = w_ctl w0" "m_tickleFds m1 = m_tickleFds m0"
    "\<forall>j < 32. \<exists>a. m_fdContexts m1 ! j = Some a \<and> w_ctxs w1 a = (if j < length (m_fdContexts m0)
      then w_ctxs w0 (the (m_fdContexts m0 ! j)) else Some (FdContext_new (int j)))"
    by (rule contextResize_ok [OF m0])
  have t: "io_timers m1 = io_timers m0"
    using contextResize_keeps [OF r(1) m0] r(2) by auto
  have m1: "w_scheds w1 7 = Some (Io m1)" using r(2) by simp
  have "unat (m_threadCount sch) = 1" by (simp add: sch_def Scheduler_new_def)
  then obtain sch' where s: "start id sch = Inr sch'" by (simp add: start_def pool_max_size_def sch_def Scheduler_new_def)
  let ?w = "put_iom 7 (m1\<lparr>io_sched := sch'\<rparr>) w1"
  have sch: "Scheduler_new 7 1 False '''' 1 0 0 run alloc (None, rt) = (sch, None, rt)"
    by (simp add: sch_def Scheduler_new_def)
  have m0s: "io_sched m0 = sch" by (simp add: m0_def)
  have w0: "(put_iom 7 m0 wit_world)\<lparr>w_ctl := w_ctl (put_iom 7 m0 wit_world)
      @ [(7, EPOLL_CTL_ADD, fst (3, 4), EPOLLIN OR EPOLLET)]\<rparr> = w0"
    by (simp add: w0_def put_iom_def wit_world_def)
  have "IOManager_new 7 1 False '''' 1 0 0 run alloc timers 0 2 (3, 4) wit_ok id (None, rt) wit_world
    = Inr ((None, rt), ?w)"
    unfolding IOManager_new_def sch Let_def prod.case m0_def [symmetric]
    using r(1,5) m1 s by (simp add: w0 [simplified] m0s iom_at_def)
  then have "io_started 7 ?w" unfolding io_started_def
    by (intro exI conjI) (assumption, simp add: wit_world_def)
  moreover have "fd_mask 7 fd ?w = 0" for fd
    using r(6) by (simp add: fd_mask_put slot_mask_def m0_def)
  moreover have "w_scheds ?w 7 = Some (Io (m1\<lparr>io_sched := sch'\<rparr>))" by (simp add: put_iom_def)
  ultimately show thesis using r(4,8) t by (intro that) (assumption | simp add: m0_def)+
qed

text \<open>Descriptor 5 registered for reading (by the calling coroutine) on that manager.\<close>

lemma wit_registered:
  assumes "single e"
  obtains w0 w :: "'f world" and m a where "io_started 7 w0" and "addEvent wit_env wit_ok 7 5 e None rep w0 = Inr (0, w)"
    and "(io_step 7)\<^sup>*\<^sup>* (0, w0) (0, w)" and "io_inv 7 w0" and "fd_mask 7 5 w0 = 0" and "io_inv 7 w" and "fd_mask 7 5 w = e"
    and "w_scheds w 7 = Some (Io m)" and "m_tickleFds m = (3, 4)" and "ctx_ptr 7 5 w = Some a"
proof -
  obtain w0 :: "'f world" and m0 where s: "io_started 7 w0" "w_scheds w0 7 = Some (Io m0)"
    "m_tickleFds m0 = (3, 4)" "length (m_fdContexts m0) = 32" "\<forall>fd. fd_mask 7 fd w0 = 0"
    by (rule wit_started)
  have inv: "io_inv 7 w0" by (rule io_started_inv [OF s(1)])
  have fd: "fd_range 5" by (simp add: fd_range_def)
  have env: "env_of 7 (None :: 'f fn option) wit_env" by (simp add: env_of_def wit_env_def)
  have ok: "io_ok 7 m0 w0" using inv s(2) by (simp add: io_inv_def)
  obtain a c where j: "m_fdContexts m0 ! 5 = Some a" "a < w_next w0" "w_ctxs w0 a = Some c" "ctx_ok w0 5 c"
    by (rule slotE [OF io_ok_table [OF ok], of 5]) (simp add: s(4))
  obtain r w where a: "addEvent wit_env wit_ok 7 5 e None rep w0 = Inr (r, w)" "io_inv 7 w" "only_fd 7 5 w0 w"
    "r = 0 \<longrightarrow> ctx_of 7 5 w = Some (registered_ctx wit_env e None rep (ctx_or_new 7 5 w0))"
    using addEvent_ok [OF inv fd assms _ env, of wit_ok rep] s(5) by auto
  have find: "addEvent_find 7 5 w0 = Inr (Some (Some a))" using addEvent_find_eq [OF s(2) ok, of 5] s(4) j(1) by simp
  have r: "r = 0 \<and> (\<exists>m. w_scheds w 7 = Some (Io m) \<and> m_tickleFds m = (3, 4) \<and> ctx_ptr 7 5 w = Some a)"
    using a(1) s(2-4) j(1,3) find
    by (auto simp: get_ev [OF assms] addEvent_def addEvent_arm_def ctx_at_def iom_at_def Let_def put_ctx_def put_iom_def
      incPendingEventCount_def ctx_ptr_def rbind_eq_Inr wit_env_def)
  have F: "ev_of e (ctx_or_new 7 5 w0) = no_event" "c_events (ctx_or_new 7 5 w0) = fd_mask 7 5 w0"
    using fresh_event [OF inv _ assms, of 5] s(5) by simp_all
  have "fd_mask 7 5 w = e"
    using a(4) r registered_event(4) [OF F(1) assms] F(2) s(5) by (simp add: fd_mask_ctx)
  moreover have "io_step 7 (0, w0) (if r = 0 then 0 + again (fd_mask 7 5 w0) e else 0, w)"
    by (rule io_step.add [OF fd assms in_scheduler_own [OF env s(2)] a(1)])
  then have "(io_step 7)\<^sup>*\<^sup>* (0, w0) (0, w)" using r s(5) by (simp add: r_into_rtranclp)
  ultimately show thesis using a(1,2) s(1,5) inv r that by blast
qed

lemma idle_schedules_due_timers_witness:
  "\<exists>w w' :: nat world. run_timers 7 9 200 w = Inr w' \<and> queue_at 7 w' = queue_at 7 w
     @ [task_of (Cb (Some (Callback 7))) (- 1), task_of (Cb (Some (Callback 8))) (- 1),
        task_of (Cb (Some (Callback 9))) (- 1)]"
proof -
  obtain w :: "nat world" and m where s: "io_started 7 w" "w_scheds w 7 = Some (Io m)" by (rule wit_started)
  then have "io_ok 7 m w" using io_started_inv by (force simp: io_inv_def)
  then have inv: "io_inv 7 (put_iom 7 (m\<lparr>io_timers := sample_mgr\<rparr>) w)" by (intro io_inv_put [OF s(2)]) simp_all
  have m': "w_scheds (put_iom 7 (m\<lparr>io_timers := sample_mgr\<rparr>) w) 7 = Some (Io (m\<lparr>io_timers := sample_mgr\<rparr>))"
    by (simp add: put_iom_def)
  have "length (repeating sample_mgr (due_timers 200 sample_mgr)) \<le> 1" "9 \<notin> set (m_timers sample_mgr)"
    by (simp_all add: sample_due) (simp_all add: sample_defs)
  moreover have "somes (map (\<lambda>p. t_func (tobj sample_mgr p)) (due_timers 200 sample_mgr)) = [Callback 7, Callback 8, Callback 9]"
    by (simp add: sample_due somes_def) (simp add: sample_defs)
  ultimately obtain w' where "run_timers 7 9 200 (put_iom 7 (m\<lparr>io_timers := sample_mgr\<rparr>) w) = Inr w'"
    "queue_at 7 w' = queue_at 7 (put_iom 7 (m\<lparr>io_timers := sample_mgr\<rparr>) w)
       @ map (\<lambda>f. task_of (Cb (Some f)) (- 1)) [Callback 7, Callback 8, Callback 9]"
    using idle_schedules_due_timers [OF inv m', of 9 200] sample_inv sample_no_rollover by force
  then show ?thesis
    by (intro exI [of _ "put_iom 7 (m\<lparr>io_timers := sample_mgr\<rparr>) w"] exI [of _ w']) simp
qed

text \<open>Registered twice: one event, counted twice.\<close>

lemma io_events_account_witness:
  "\<exists>(w :: nat world) m. w_scheds w 7 = Some (Io m) \<and> fd_mask 7 5 w = EV_READ
     \<and> m_pendingEventCount m = of_nat ((\<Sum>j < length (m_fdContexts m). events_in (fd_mask 7 (int j) w)) + 1)
     \<and> interest 7 (w_ctl w) 5 = fd_mask 7 5 w"
proof -
  have e: "single EV_READ" by (simp add: single_def)
  then obtain w0 w :: "nat world" and m where s: "io_started 7 w0" "(io_step 7)\<^sup>*\<^sup>* (0, w0) (0, w)" "io_inv 7 w"
    "fd_mask 7 5 w = EV_READ" "w_scheds w 7 = Some (Io m)" "m_tickleFds m = (3, 4)" by (rule wit_registered)
  obtain w' where w': "addEvent wit_env wit_ok 7 5 EV_READ (None :: nat fn option) False w = Inr (0, w')"
    "w_scheds w' 7 = Some (Io (incPendingEventCount m))" "fd_mask 7 5 w' = fd_mask 7 5 w"
    using addEvent_again [OF s(3) _ e _ s(5), of 5 wit_ok wit_env None False] s(4) by (auto simp: event_defs)
  have "in_scheduler (None :: nat fn option) wit_env w" using s(5) by (simp add: in_scheduler_def wit_env_def)
  from io_step.add [OF _ e this w'(1), where n = 0] have "io_step 7 (0, w) (1, w')"
    using s(4) by (simp add: fd_range_def again_def event_defs)
  from io_events_account [OF s(1) rtranclp.rtrancl_into_rtrancl [OF s(2) this]] show ?thesis
    using s(4,6) w'(2,3)
    by (intro exI [of _ w'] exI [of _ "incPendingEventCount m"]) (simp add: incPendingEventCount_def del: of_nat_sum of_nat_add of_nat_Suc)
qed

lemma idle_ends_iff_witness:
  "\<exists>w :: nat world. idle_iter wit_env wit_ok (\<lambda>a. 0) (\<lambda>n t. Interrupted) 100 200 9 7 w = Some (Inr None)"
proof -
  obtain w :: "nat world" and m where s: "io_started 7 w" "w_scheds w 7 = Some (Io m)" "m_tickleFds m = (3, 4)"
    "io_timers m = TimerManager_new (\<lambda>p. undefined) 0" "length (m_fdContexts m) = 32" "\<forall>fd. fd_mask 7 fd w = 0"
    by (rule wit_started)
  let ?m = "m\<lparr>io_sched := (io_sched m)\<lparr>m_stopping := True, m_tasks := [], m_activeThreadCount := 0\<rparr>\<rparr>"
  let ?w = "put_iom 7 ?m w"
  have run: "(io_step 7)\<^sup>*\<^sup>* (0, w) (0, ?w)" by (rule r_into_rtranclp) (rule io_step.threads [OF s(2)])
  have m: "w_scheds ?w 7 = Some (Io ?m)" by (simp add: put_iom_def)
  have "fd_mask 7 fd ?w = 0" for fd
    unfolding fd_mask_put using s(2,6) by (simp add: fd_mask_def)
  moreover have "m_timers (io_timers ?m) = []" by (simp add: s(4) TimerManager_new_def)
  ultimately have "idle_iter wit_env wit_ok (\<lambda>a. 0) (\<lambda>n t. Interrupted) 100 200 9 7 ?w = Some (Inr None)"
    using idle_ends_iff [OF s(1) run _ m, of 100] by simp
  then show ?thesis by blast
qed

lemma io_operations_return_witness:
  "\<exists>(w :: nat world) r w'. fd_mask 7 5 w = EV_READ
     \<and> handle_event wit_env wit_ok (\<lambda>a. 0) 7 \<lparr>ep_events = EPOLLIN, ep_data = DataFd 3\<rparr> w = Inr w'
     \<and> delEvent wit_ok 7 5 EV_WRITE w = Inr (False, w)"
proof -
  have "single EV_READ" by (simp add: single_def)
  then obtain w0 w :: "nat world" and m where s: "io_started 7 w0" "(io_step 7)\<^sup>*\<^sup>* (0, w0) (0, w)" "io_inv 7 w" "fd_mask 7 5 w = EV_READ"
    "w_scheds w 7 = Some (Io m)" "m_tickleFds m = (3, 4)" by (rule wit_registered)
  have "live_event (\<lambda>a. 0) 7 \<lparr>ep_events = EPOLLIN, ep_data = DataFd 3\<rparr> w"
    using s(5,6) by (simp add: live_event_def)
  moreover have "fd_range 5" "single EV_WRITE" "env_of 7 (None :: nat fn option) wit_env"
    by (simp_all add: fd_range_def single_def env_of_def wit_env_def)
  ultimately show ?thesis
    using io_operations_return [OF s(1,2), of 5 EV_WRITE None wit_env "\<lambda>a. 0" _ wit_ok False] s(4)
      delEvent_ok [OF s(3), of 5 EV_WRITE wit_ok]
    by (auto simp: event_defs)
qed

lemma event_resumes_once_witness:
  "\<exists>w w1 w2 :: nat world. \<exists>a. addEvent wit_env wit_ok 7 5 EV_READ None False w = Inr (0, w1)
     \<and> handle_event wit_env wit_ok (\<lambda>a. 0) 7 \<lparr>ep_events = EV_READ, ep_data = DataPtr a\<rparr> w1 = Inr w2
     \<and> queue_at 7 w2 = queue_at 7 w @ [task_of (Dor (Some 1)) (- 1)]
     \<and> fd_mask 7 5 w2 = 0"
proof -
  have e: "single EV_READ" by (simp add: single_def)
  then obtain w0 w :: "nat world" and m a where s: "io_inv 7 w0" "fd_mask 7 5 w0 = 0"
    "addEvent wit_env wit_ok 7 5 EV_READ None False w0 = Inr (0, w)" "ctx_ptr 7 5 w = Some a"
    "w_scheds w 7 = Some (Io m)" "m_tickleFds m = (3, 4)" by (rule wit_registered)
  have "fd_range 5" "env_of 7 (None :: nat fn option) wit_env" "th_sched wit_env = Some 7"
    by (simp_all add: fd_range_def env_of_def wit_env_def)
  moreover have "requested (asked wit_env (None :: nat fn option)) = [task_of (Dor (Some 1)) (- 1)]"
    by (simp add: asked_def wit_env_def requested_def task_of_request_def Let_def has_work_def)
  ultimately obtain w2 where
    "handle_event wit_env wit_ok (\<lambda>a. 0) 7 \<lparr>ep_events = EV_READ, ep_data = DataPtr a\<rparr> w = Inr w2"
    "queue_at 7 w2 = queue_at 7 w0 @ [task_of (Dor (Some 1)) (- 1)]" "fd_mask 7 5 w2 = 0"
    using event_resumes_once [OF s(1) _ e _ _ s(3,4), of wit_env "\<lambda>a. 0" wit_ok] s(2,5,6) by auto
  with s(3) show ?thesis by blast
qed


lemma addEvent_twice_leaks_witness:
  "\<exists>w w' :: nat world. \<exists>m m'. w_scheds w 7 = Some (Io m)
     \<and> addEvent wit_env wit_ok 7 5 EV_READ None False w = Inr (0, w') \<and> w_scheds w' 7 = Some (Io m')
     \<and> m_pendingEventCount m' = m_pendingEventCount m + 1 \<and> fd_mask 7 5 w' = fd_mask 7 5 w"
proof -
  have e: "single EV_READ" by (simp add: single_def)
  then obtain w0 w :: "nat world" and m a where s: "io_inv 7 w" "fd_mask 7 5 w = EV_READ" "w_scheds w 7 = Some (Io m)"
    by (rule wit_registered)
  obtain w' m' where "addEvent wit_env wit_ok 7 5 EV_READ None False w = Inr (0, w')" "w_scheds w' 7 = Some (Io m')"
    "m_pendingEventCount m' = m_pendingEventCount m + 1" "fd_mask 7 5 w' = fd_mask 7 5 w"
    using addEvent_twice_leaks [OF s(1) _ e _ s(3), of 5 wit_ok wit_env None False] s(2) by (auto simp: event_defs)
  with s(3) show ?thesis by blast
qed

lemma stale_event_crashes_witness:
  "\<exists>(w :: nat world) a. fd_mask 7 5 w = EV_WRITE
     \<and> handle_event wit_env wit_ok (\<lambda>a. 0) 7 \<lparr>ep_events = EPOLLIN OR EPOLLOUT, ep_data = DataPtr a\<rparr> w = Inl NullDeref"
proof -
  have e: "single EV_WRITE" by (simp add: single_def)
  then obtain w0 w :: "nat world" and m a where s: "io_inv 7 w" "fd_mask 7 5 w = EV_WRITE" "w_scheds w 7 = Some (Io m)"
    "m_tickleFds m = (3, 4)" "ctx_ptr 7 5 w = Some a" by (rule wit_registered)
  show ?thesis using stale_event_crashes [OF s(1,3,5) _ s(2), of "\<lambda>a. 0" wit_ok wit_env] s(2,4) by auto
qed

lemma cancelEvent_foreign_thread_witness:
  "\<exists>w :: nat world. fd_mask 7 5 w = EV_READ
     \<and> cancelEvent \<lparr>th_sched = None, th_dor = None\<rparr> wit_ok 7 5 EV_READ w = Inl NullDeref"
proof -
  have e: "single EV_READ" by (simp add: single_def)
  then obtain w0 w :: "nat world" and m a where s: "io_inv 7 w" "fd_mask 7 5 w = EV_READ" by (rule wit_registered)
  have "accepts_removal wit_ok 5 EV_READ EV_READ" by (simp add: accepts_removal_def)
  then show ?thesis
    using cancelEvent_foreign_thread [OF s(1) _ e, of 5 "\<lparr>th_sched = None, th_dor = None\<rparr>" wit_ok] s(2)
    by (intro exI [of _ w]) (auto simp: event_defs)
qed

lemma addEvent_grow_race_witness:
  "\<exists>w w1 w2 :: nat world. \<exists>p q. addEvent_grow 7 100 w = Inr (Some p, w1) \<and> find_ctx 7 100 w1 = Inr (Some (Some p))
     \<and> addEvent_grow 7 40 w1 = Inr (q, w2) \<and> find_ctx 7 100 w2 = Inr None"
proof -
  obtain w :: "nat world" and m where s: "io_started 7 w" "w_scheds w 7 = Some (Io m)" "length (m_fdContexts m) = 32"
    by (rule wit_started)
  have inv: "io_inv 7 w" by (rule io_started_inv [OF s(1)])
  then have ok: "io_ok 7 m w" using s(2) by (simp add: io_inv_def)
  have "addEvent_find 7 100 w = Inr None" "addEvent_find 7 40 w = Inr None"
    using addEvent_find_eq [OF s(2) ok] s(3) by simp_all
  moreover have "fd_range 100" "fd_range 40" "int (grow_size 40) \<le> 100"
    by (simp_all add: fd_range_def grow_size_def)
  ultimately show ?thesis using addEvent_grow_race [OF inv, of 100 40] by blast
qed

end
