(* ===== verification/IORefine.thy ===== *)
theory IORefine
  imports IORuns
begin

text \<open>
  What the IO manager promises its users, without the table, the contexts, the counter and the
  kernel: a map from descriptors and events to what waits for them, and a queue of tasks. Every
  operation of the IO manager that returns is a step of this registry. A registration replaces
  what waited for the event, except that a function that waits stays when a coroutine registers.
\<close>

section \<open>The abstract registry\<close>

text \<open>What waits: the scheduler to resume on, what to resume, and whether it keeps waiting.\<close>

type_synonym 'f waiting = "nat option \<times> 'f fn DoroutineOrCb \<times> bool"
type_synonym 'f registry = "int \<Rightarrow> u32 \<Rightarrow> 'f waiting option"

definition answered :: "bool \<Rightarrow> u32 list \<Rightarrow> (u32 \<Rightarrow> 'f waiting option) \<Rightarrow> u32 \<Rightarrow> 'f waiting option" where
  "answered final es P e = (case P e of
     Some (s, r, keep) \<Rightarrow> if e \<in> set es \<and> (\<not> keep \<or> final) then None else Some (s, r, keep) | None \<Rightarrow> None)"

definition answers :: "nat \<Rightarrow> u32 list \<Rightarrow> (u32 \<Rightarrow> 'f waiting option) \<Rightarrow> 'f fn SchedulerTask list" where
  "answers i es P = concat (map (\<lambda>e. case P e of
     Some (s, r, _) \<Rightarrow> if s = Some i then requested r else [] | None \<Rightarrow> []) es)"

text \<open>
  What an operation did: registering something for an event, withdrawing it, cancelling one
  event or all events of a descriptor, reporting events of a descriptor, submitting tasks, the
  work of the threads on the queue, or nothing (it failed, or it concerned the timers only).
\<close>

datatype 'f io_op =
    Added int u32 "'f waiting"
  | Removed int u32
  | Cancelled int u32
  | CancelledAll int
  | Reported int "u32 list"
  | Submitted "'f fn SchedulerTask list"
  | Worked "'f fn SchedulerTask list"
  | Silent

definition waiting_events :: "(u32 \<Rightarrow> 'f waiting option) \<Rightarrow> u32 list" where
  "waiting_events P = filter (\<lambda>e. P e \<noteq> None) [EV_READ, EV_WRITE]"

definition answer ::
  "nat \<Rightarrow> bool \<Rightarrow> int \<Rightarrow> u32 list \<Rightarrow> 'f registry \<times> 'f fn SchedulerTask list
    \<Rightarrow> ('f registry \<times> 'f fn SchedulerTask list) option" where
  "answer i final fd es s = (let (P, q) = s in
     if distinct es \<and> list_all (\<lambda>e. P fd e \<noteq> None) es
     then Some (P(fd := answered final es (P fd)), q @ answers i es (P fd)) else None)"

text \<open>
  What waits after one more registration for an event: the new one takes the place of the old,
  except that a function that waits already stays when a coroutine registers, because
  \<open>addEvent\<close> then leaves \<open>func\<close> as it is and \<open>triggerEvent\<close> prefers the function.
\<close>

definition replacing :: "'f waiting option \<Rightarrow> 'f waiting \<Rightarrow> 'f waiting" where
  "replacing old new = (case (old, new) of
     (Some (_, Cb g, _), (s, Dor d, keep)) \<Rightarrow> (s, Cb g, keep)
   | _ \<Rightarrow> new)"

text \<open>
  The abstract effect, or \<open>None\<close> where the registry does not allow the operation: only what
  waits is withdrawn or answered, each event once; repeating registrations stay, except when
  they are cancelled; a registration for an event that is taken is no error and replaces.
\<close>

fun reg_apply ::
  "nat \<Rightarrow> 'f io_op \<Rightarrow> 'f registry \<times> 'f fn SchedulerTask list
    \<Rightarrow> ('f registry \<times> 'f fn SchedulerTask list) option" where
  "reg_apply i (Added fd e x) (P, q) = Some (P(fd := (P fd)(e \<mapsto> replacing (P fd e) x)), q)"
| "reg_apply i (Removed fd e) (P, q) = (if P fd e \<noteq> None then Some (P(fd := (P fd)(e := None)), q) else None)"
| "reg_apply i (Cancelled fd e) s = answer i True fd [e] s"
| "reg_apply i (CancelledAll fd) (P, q) = answer i True fd (waiting_events (P fd)) (P, q)"
| "reg_apply i (Reported fd es) s = answer i False fd es s"
| "reg_apply i (Submitted ts) (P, q) = Some (P, q @ ts)"
| "reg_apply i (Worked q') (P, q) = Some (P, q')"
| "reg_apply i Silent s = Some s"

fun reg_run ::
  "nat \<Rightarrow> 'f io_op list \<Rightarrow> 'f registry \<times> 'f fn SchedulerTask list
    \<Rightarrow> ('f registry \<times> 'f fn SchedulerTask list) option" where
  "reg_run i [] s = Some s"
| "reg_run i (op # ops) s = Option.bind (reg_apply i op s) (reg_run i ops)"

section \<open>The abstraction\<close>

definition waiting_of :: "'f FdContext \<Rightarrow> u32 \<Rightarrow> 'f waiting option" where
  "waiting_of c e = (if single e \<and> c_events c AND e \<noteq> 0
     then (let x = ev_of e c in Some (ev_scheduler x, ev_request x, ev_repeat x)) else None)"

definition registry :: "nat \<Rightarrow> 'f world \<Rightarrow> 'f registry" where
  "registry i w fd = (if 0 \<le> fd then waiting_of (ctx_or_new i fd w) else (\<lambda>e. None))"

definition io_abs :: "nat \<Rightarrow> 'f world \<Rightarrow> 'f registry \<times> 'f fn SchedulerTask list" where
  "io_abs i w = (registry i w, queue_at i w)"

lemma reg_run_append: "reg_run i (ops @ ops') s = Option.bind (reg_run i ops s) (reg_run i ops')"
  by (induction ops arbitrary: s) (auto split: bind_split)

lemma registry_at: "0 \<le> fd \<Longrightarrow> registry i w fd = waiting_of (ctx_or_new i fd w)"
  by (simp add: registry_def)

lemma registry_only:
  assumes "only_fd i fd w w'" and "0 \<le> fd" and "waiting_of (ctx_or_new i fd w') = f"
  shows "registry i w' = (registry i w)(fd := f)"
  using assms by (auto simp: registry_def only_fd_def fun_eq_iff)

lemma registry_same:
  assumes "\<And>k. 0 \<le> k \<Longrightarrow> ctx_or_new i k w' = ctx_or_new i k w"
  shows "registry i w' = registry i w"
  using assms by (simp add: registry_def fun_eq_iff)

lemma ctx_or_new_ok:
  assumes "io_inv_off x i w" and "0 \<le> fd"
  shows "ctx_ok w (nat fd) (ctx_or_new i fd w)"
proof -
  obtain m where m: "w_scheds w i = Some (Io m)" and ok: "io_ok_off x i m w" using assms(1) by (auto simp: io_inv_def)
  show ?thesis
  proof (cases "nat fd < length (m_fdContexts m)")
    case True
    obtain a c where "m_fdContexts m ! nat fd = Some a" "a < w_next w" "w_ctxs w a = Some c" "ctx_ok w (nat fd) c"
      by (rule slotE [OF io_ok_table [OF ok] True])
    then show ?thesis using m True by (simp add: ctx_or_new_def ctx_of_def)
  next
    case False
    then have "ctx_or_new i fd w = FdContext_new (int (nat fd))" using m assms(2) by (simp add: ctx_or_new_def ctx_of_def)
    then show ?thesis by (simp add: ctx_ok_def FdContext_new_def event_masks_def EV_NONE_def ev_of_def)
  qed
qed

section \<open>Triggering is answering\<close>

lemma waiting_after_trigger:
  assumes "c_events c \<in> event_masks" and "single e" and "c_events c AND e \<noteq> 0"
  shows "waiting_of (after_trigger e l c) = answered l [e] (waiting_of c)"
proof
  fix u
  show "waiting_of (after_trigger e l c) u = answered l [e] (waiting_of c) u"
  proof (cases "single u")
    case True
    show ?thesis
    proof (cases "u = e")
      case same: True
      have "(c_events c AND NOT e) AND e = 0" by (simp add: bit_eq_iff bit_simps)
      then show ?thesis using assms same
        by (auto simp: waiting_of_def answered_def after_trigger_def ev_of_put Let_def)
    next
      case False
      from after_trigger_other [OF assms(2) True False assms(1,3)] show ?thesis using False
        by (simp add: waiting_of_def answered_def Let_def)
    qed
  next
    case False
    then show ?thesis by (simp add: waiting_of_def answered_def)
  qed
qed

lemma answered_Nil: "answered l [] P = P"
  by (auto simp: answered_def fun_eq_iff split: option.split)

lemma answered_Cons: "answered l es (answered l [e] P) = answered l (e # es) P"
  by (auto simp: answered_def fun_eq_iff split: option.split)

lemma waiting_fold:
  assumes "ctx_ok w j c" and "distinct es" and "\<forall>e \<in> set es. single e \<and> c_events c AND e \<noteq> 0"
  shows "waiting_of (fold (\<lambda>e. after_trigger e l) es c) = answered l es (waiting_of c)"
  using assms
proof (induction es arbitrary: c)
  case (Cons e es)
  have e: "single e" "c_events c AND e \<noteq> 0" using Cons.prems(3) by simp_all
  note cc = ctx_okD(2) [OF Cons.prems(1)]
  have "\<forall>u \<in> set es. single u \<and> c_events (after_trigger e l c) AND u \<noteq> 0"
  proof
    fix u assume u: "u \<in> set es"
    then have "u \<noteq> e" "single u" "c_events c AND u \<noteq> 0" using Cons.prems(2,3) by auto
    then show "single u \<and> c_events (after_trigger e l c) AND u \<noteq> 0"
      using after_trigger_other(2) [OF e(1) _ _ cc e(2)] by simp
  qed
  from Cons.IH [OF after_trigger_ok [OF Cons.prems(1) e] _ this] Cons.prems(2)
  show ?case by (simp add: waiting_after_trigger [OF cc e] answered_Cons)
qed (simp add: answered_Nil)

lemma answers_resumed:
  assumes "\<forall>e \<in> set es. single e \<and> c_events c AND e \<noteq> 0"
  shows "concat (map (\<lambda>e. resumed i (ev_of e c)) es) = answers i es (waiting_of c)"
proof -
  have "resumed i (ev_of e c) = (case waiting_of c e of
      Some (s, r, _) \<Rightarrow> if s = Some i then requested r else [] | None \<Rightarrow> [])" if "e \<in> set es" for e
    using assms that by (simp add: waiting_of_def resumed_def Let_def)
  then show ?thesis unfolding answers_def by (intro arg_cong [of _ _ concat] map_cong refl)
qed

text \<open>An operation that triggers \<open>es\<close> of one descriptor is a step of the registry.\<close>

lemma answer_step:
  assumes inv: "io_inv_off x i w" and fd: "0 \<le> fd" and only: "only_fd i fd w w'"
    and es: "distinct es" "\<forall>e \<in> set es. single e \<and> c_events (ctx_or_new i fd w) AND e \<noteq> 0"
    and c': "ctx_or_new i fd w' = fold (\<lambda>e. after_trigger e l) es (ctx_or_new i fd w)"
    and q: "queue_at i w' = queue_at i w @ concat (map (\<lambda>e. resumed i (ev_of e (ctx_or_new i fd w))) es)"
  shows "answer i l fd es (io_abs i w) = Some (io_abs i w')"
proof -
  have "registry i w' = (registry i w)(fd := answered l es (registry i w fd))"
    unfolding registry_at [OF fd]
    by (rule registry_only [OF only fd]) (simp add: c' waiting_fold [OF ctx_or_new_ok [OF inv fd] es])
  moreover have "queue_at i w' = queue_at i w @ answers i es (registry i w fd)"
    unfolding registry_at [OF fd] by (simp add: q answers_resumed [OF es(2)])
  moreover have "\<forall>e \<in> set es. registry i w fd e \<noteq> None"
    using es(2) by (simp add: registry_at [OF fd] waiting_of_def Let_def)
  ultimately show ?thesis using es(1) by (simp add: io_abs_def answer_def list_all_iff)
qed

section \<open>The simulation\<close>

lemma waiting_registered:
  assumes "ctx_ok w j c" and "single e"
  shows "waiting_of (registered_ctx env e func rep c) =
    (waiting_of c)(e \<mapsto> replacing (waiting_of c e) (th_sched env, asked env func, rep))"
proof
  fix u
  note c = ctx_okD [OF assms(1)]
  note mk = mask_add [OF c(2) assms(2)]
  let ?d = "registered_ctx env e func rep c"
  have ce: "c_events ?d = c_events c OR e" by (simp add: registered_ctx_def ev_of_put)
  show "waiting_of ?d u = ((waiting_of c)(e \<mapsto> replacing (waiting_of c e) (th_sched env, asked env func, rep))) u"
  proof (cases "single u \<and> u \<noteq> e")
    case True
    then have "ev_of u ?d = ev_of u c"
      by (simp add: registered_ctx_def ev_of_put(2) [OF assms(2)] ev_of_put(5))
    then show ?thesis using True mk(4) ce by (simp add: waiting_of_def)
  next
    case False
    show ?thesis
    proof (cases "u = e")
      case same: True
      have "waiting_of ?d e = Some (th_sched env, ev_request (ev_of e ?d), rep)"
        using assms(2) mk(3) ce by (simp add: waiting_of_def registered_ctx_def ev_of_put Let_def)
      moreover have "(th_sched env, ev_request (ev_of e ?d), rep)
          = replacing (waiting_of c e) (th_sched env, asked env func, rep)"
      proof (cases "c_events c AND e = 0")
        case True
        then show ?thesis using c(4) [OF assms(2)]
          by (auto simp: waiting_of_def replacing_def registered_ctx_def ev_of_put ev_request_def asked_def
              no_event_def split: option.splits)
      next
        case False
        then show ?thesis using assms(2)
          by (auto simp: waiting_of_def replacing_def registered_ctx_def ev_of_put ev_request_def asked_def
              Let_def split: option.splits)
      qed
      ultimately show ?thesis using same by simp
    next
      case other: False
      then have "\<not> single u" using False by simp
      then show ?thesis using other by (simp add: waiting_of_def)
    qed
  qed
qed

lemma io_abs_same:
  assumes "\<And>k. 0 \<le> k \<Longrightarrow> ctx_or_new i k w' = ctx_or_new i k w" and "queue_at i w' = q"
  shows "io_abs i w' = (registry i w, q)"
  using registry_same [of i w' w, OF assms(1)] assms(2) by (simp add: io_abs_def)

text \<open>
  The operations with what they did, for the steps of \<open>io_step\<close>: by any thread, in any order,
  as far as they return.
\<close>

inductive io_does :: "nat \<Rightarrow> 'f world \<Rightarrow> 'f io_op \<Rightarrow> 'f world \<Rightarrow> bool" for i :: nat where
  add: "fd_range fd \<Longrightarrow> single e \<Longrightarrow> in_scheduler func env w \<Longrightarrow>
     addEvent env ctl i fd e func rep w = Inr (r, w') \<Longrightarrow>
     io_does i w (if r = 0 then Added fd e (th_sched env, asked env func, rep) else Silent) w'"
| del: "0 \<le> fd \<Longrightarrow> single e \<Longrightarrow> delEvent ctl i fd e w = Inr (b, w') \<Longrightarrow>
     io_does i w (if b then Removed fd e else Silent) w'"
| cancel: "0 \<le> fd \<Longrightarrow> single e \<Longrightarrow>
     cancelEvent env ctl i fd e w = Inr (b, w') \<Longrightarrow> io_does i w (if b then Cancelled fd e else Silent) w'"
| cancel_all: "0 \<le> fd \<Longrightarrow>
     cancelAll env ctl i fd w = Inr (b, w') \<Longrightarrow> io_does i w (if b then CancelledAll fd else Silent) w'"
| pipe: "th_sched env = Some i \<Longrightarrow> w_scheds w i = Some (Io m) \<Longrightarrow> data_fd addr (ep_data ev) = fst (m_tickleFds m) \<Longrightarrow>
     handle_event env ctl addr i ev w = Inr w' \<Longrightarrow> io_does i w Silent w'"
| event: "th_sched env = Some i \<Longrightarrow> w_scheds w i = Some (Io m) \<Longrightarrow> data_fd addr (ep_data ev) \<noteq> fst (m_tickleFds m) \<Longrightarrow>
     0 \<le> fd \<Longrightarrow> ctx_ptr i fd w = Some a \<Longrightarrow> ep_data ev = DataPtr a \<Longrightarrow>
     real = real_events (ctx_or_new i fd w) (ep_events ev) \<Longrightarrow>
     handle_event env ctl addr i ev w = Inr w' \<Longrightarrow>
     io_does i w (if accepts_report ctl (ctx_or_new i fd w) real then Reported fd (events_of real) else Silent) w'"
| timers: "w_scheds w i = Some (Io m) \<Longrightarrow> listExpiredFunc q now (io_timers m) = Inr (funcs, fronts, ts) \<Longrightarrow>
     run_timers i q now w = Inr w' \<Longrightarrow> io_does i w (Submitted (concat (map (\<lambda>f. requested (Cb f)) funcs))) w'"
| add_timer: "io_addTimer i p ms func rep now w = Inr w' \<Longrightarrow> io_does i w Silent w'"
| set_timers: "w_scheds w i = Some (Io m) \<Longrightarrow> io_does i w Silent (put_iom i (m\<lparr>io_timers := ts\<rparr>) w)"
| wake: "io_does i w Silent (w\<lparr>w_pipe := p\<rparr>)"
| schedule: "schedule_to (Some i) fc (- 1) w = Inr w' \<Longrightarrow> io_does i w (Submitted (requested fc)) w'"
| threads: "w_scheds w i = Some (Io m) \<Longrightarrow> io_does i w (Worked (m_tasks sch)) (put_iom i (m\<lparr>io_sched := sch\<rparr>) w)"

inductive io_trace :: "nat \<Rightarrow> 'f world \<Rightarrow> 'f io_op list \<Rightarrow> 'f world \<Rightarrow> bool" for i w0 where
  start: "io_trace i w0 [] w0"
| step: "io_trace i w0 ops w \<Longrightarrow> io_does i w op w' \<Longrightarrow> io_trace i w0 (ops @ [op]) w'"

lemma ctx_ptrE:
  assumes "io_inv_off x i w" and "w_scheds w i = Some (Io m)" and "ctx_ptr i fd w = Some a"
  obtains c where "io_ok_off x i m w" and "nat fd < length (m_fdContexts m)" and "m_fdContexts m ! nat fd = Some a"
    and "w_ctxs w a = Some c" and "ctx_ok w (nat fd) c" and "ctx_or_new i fd w = c"
proof -
  have ok: "io_ok_off x i m w" using assms(1,2) by (simp add: io_inv_def)
  have j: "nat fd < length (m_fdContexts m)" "m_fdContexts m ! nat fd = Some a"
    using assms(2,3) by (auto simp: ctx_ptr_def split: if_splits)
  obtain b c where s: "m_fdContexts m ! nat fd = Some b" "b < w_next w" "w_ctxs w b = Some c" "ctx_ok w (nat fd) c"
    by (rule slotE [OF io_ok_table [OF ok] j(1)])
  then show thesis using that [OF ok j, of c] j(2) assms(2) by (simp add: ctx_or_new_def ctx_of_def j(1))
qed

lemma io_does_step:
  assumes "io_does i w op w'" and "io_inv_off x i w"
  shows "\<exists>n'. io_step i (n, w) (n', w')"
  using assms
proof (induction rule: io_does.induct)
  case (event env w m addr ev fd a real ctl w')
  obtain c where c: "io_ok_off x i m w" "nat fd < length (m_fdContexts m)" "m_fdContexts m ! nat fd = Some a"
    by (rule ctx_ptrE [OF event(9,2,5)])
  have "Some a \<in> set (m_fdContexts m)" using c(2,3) by (metis nth_mem)
  then have "reported addr i ev w" unfolding reported_def using event(2,6) by blast
  from io_step.event [OF event(1) this event(8)] show ?case by blast
next
  case (pipe env w m addr ev ctl w')
  then have "reported addr i ev w" by (auto simp: reported_def)
  from io_step.event [OF pipe(1) this pipe(4)] show ?case by blast
qed (blast intro: io_step.intros)+

text \<open>So the invariant of the manager is kept, whatever the pending count is off by.\<close>

lemma io_does_inv:
  assumes "io_does i w op w'" and "io_inv_off x i w"
  shows "\<exists>x'. io_inv_off x' i w'"
proof -
  obtain n' where "io_step i (unat x, w) (n', w')" using io_does_step [OF assms] by blast
  from io_inv_step [OF this] assms(2) show ?thesis by auto
qed

lemma io_does_refines:
  assumes "io_does i w op w'" and "io_inv_off x i w"
  shows "reg_apply i op (io_abs i w) = Some (io_abs i w')"
  using assms
proof (induction rule: io_does.induct)
  case (add fd e func env w ctl rep r w')
  have fd: "0 \<le> fd" using add(1) by (simp add: fd_range_def)
  from addEvent_by [OF add(5,1-3), of ctl rep] add(4) have A: "only_fd i fd w w'"
    "queue_at i w' = queue_at i w" "r = - 1 \<and> ctx_or_new i fd w' = ctx_or_new i fd w
      \<or> r = 0 \<and> ctx_or_new i fd w' = registered_ctx env e func rep (ctx_or_new i fd w)"
    by (auto simp: ctx_or_new_def)
  from A(3) show ?case
  proof
    assume *: "r = - 1 \<and> ctx_or_new i fd w' = ctx_or_new i fd w"
    then have "ctx_or_new i k w' = ctx_or_new i k w" if "0 \<le> k" for k
      using A(1) that by (cases "k = fd") (simp_all add: only_fd_def)
    from io_abs_same [OF this A(2)] * show ?thesis by (simp add: io_abs_def)
  next
    assume *: "r = 0 \<and> ctx_or_new i fd w' = registered_ctx env e func rep (ctx_or_new i fd w)"
    have "registry i w' = (registry i w)(fd := (registry i w fd)
        (e \<mapsto> replacing (registry i w fd e) (th_sched env, asked env func, rep)))"
      unfolding registry_at [OF fd]
      by (rule registry_only [OF A(1) fd]) (simp add: * waiting_registered [OF ctx_or_new_ok [OF add(5) fd] add(2)])
    then show ?thesis using * by (simp add: io_abs_def A(2))
  qed
next
  case (del fd e ctl w b w')
  from delEvent_ok [OF del(4,1,2), of ctl] del(3) have D: "only_fd i fd w w'" "queue_at i w' = queue_at i w"
    "\<not> b \<longrightarrow> w' = w"
    "b \<longrightarrow> fd_mask i fd w AND e \<noteq> 0 \<and> ctx_or_new i fd w' = after_trigger e True (ctx_or_new i fd w)"
    by (auto simp: ctx_or_new_def)
  show ?case
  proof (cases b)
    case True
    have c: "c_events (ctx_or_new i fd w) AND e \<noteq> 0" using D(4) True by (simp add: ctx_or_new_events)
    note m = ctx_okD(2) [OF ctx_or_new_ok [OF del(4,1)]]
    have "answered True [e] P = P(e := None)" for P :: "u32 \<Rightarrow> 'a waiting option"
      by (auto simp: answered_def fun_eq_iff split: option.split)
    then have "registry i w' = (registry i w)(fd := (registry i w fd)(e := None))"
      unfolding registry_at [OF del(1)] using D(4) True
      by (intro registry_only [OF D(1) del(1)]) (simp add: waiting_after_trigger [OF m del(2) c])
    moreover have "registry i w fd e \<noteq> None" using c del(2) by (simp add: registry_at [OF del(1)] waiting_of_def Let_def)
    ultimately show ?thesis using True D(2) by (simp add: io_abs_def)
  qed (simp add: D(3))
next
  case (cancel fd e env ctl w b w')
  from cancelEvent_any [OF cancel(4,1,2,3)] have D: "only_fd i fd w w'" "\<not> b \<longrightarrow> w' = w"
    "b \<longrightarrow> fd_mask i fd w AND e \<noteq> 0 \<and> ctx_or_new i fd w' = after_trigger e True (ctx_or_new i fd w)
       \<and> queue_at i w' = queue_at i w @ resumed i (ev_of e (ctx_or_new i fd w))"
    by (auto simp: ctx_or_new_def)
  show ?case
  proof (cases b)
    case True
    have "answer i True fd [e] (io_abs i w) = Some (io_abs i w')"
      by (rule answer_step [OF cancel(4,1) D(1)])
        (use D(3) True cancel(2) in \<open>simp_all add: ctx_or_new_events\<close>)
    then show ?thesis using True by simp
  qed (simp add: D(2))
next
  case (cancel_all fd env ctl w b w')
  from cancelAll_any [OF cancel_all(3,1,2)] have D: "only_fd i fd w w'" "\<not> b \<longrightarrow> w' = w"
    "b \<longrightarrow> ctx_or_new i fd w' = fold (\<lambda>e. after_trigger e True) (events_of (fd_mask i fd w)) (ctx_or_new i fd w)
       \<and> queue_at i w' = queue_at i w @ concat (map (\<lambda>e. resumed i (ev_of e (ctx_or_new i fd w))) (events_of (fd_mask i fd w)))"
    by (auto simp: ctx_or_new_def)
  show ?case
  proof (cases b)
    case True
    have "waiting_events (registry i w fd) = events_of (fd_mask i fd w)"
      by (simp add: registry_at [OF cancel_all(1)] waiting_events_def events_of_def waiting_of_def Let_def
          single_def ctx_or_new_events)
    moreover have "answer i True fd (events_of (fd_mask i fd w)) (io_abs i w) = Some (io_abs i w')"
      by (rule answer_step [OF cancel_all(3,1) D(1)])
        (use D(3) True in \<open>simp_all add: ctx_or_new_events events_of_props\<close>)
    ultimately show ?thesis using True by (simp add: io_abs_def)
  qed (simp add: D(2))
next
  case (pipe env w m addr ev ctl w')
  then have "w' = w\<lparr>w_pipe := (w_pipe w)(i := 0)\<rparr>" using handle_event_pipe [OF pipe(2,3)] by simp
  then have "io_abs i w' = (registry i w, queue_at i w)"
    by (intro io_abs_same) (simp_all add: ctx_or_new_pipe queue_at_def)
  then show ?case by (simp add: io_abs_def)
next
  case (event env w m addr ev fd a real ctl w')
  obtain c where c: "io_ok_off x i m w" "nat fd < length (m_fdContexts m)" "m_fdContexts m ! nat fd = Some a"
    "w_ctxs w a = Some c" "ctx_ok w (nat fd) c" "ctx_or_new i fd w = c"
    by (rule ctx_ptrE [OF event(9,2,5)])
  have real: "real = real_events c (ep_events ev)" using event(7) c(6) by simp
  show ?case
  proof (cases "accepts_report ctl c real")
    case True
    with handled_live [OF event(2,1) c(4,5) event(6,3,8) real] have live: "real AND NOT (c_events c) = 0" by simp
    from handle_event_ctx [OF event(2) c(1) event(1) c(2-5) event(6,3) real live, of ctl] event(4,8) True
    have H: "only_fd i fd w w'" "ctx_of i fd w' = Some (fold (\<lambda>e. after_trigger e False) (events_of real) c)"
      "\<forall>k. queue_at k w' = queue_at k w @ concat (map (\<lambda>e. resumed k (ev_of e c)) (events_of real))" by auto
    have "answer i False fd (events_of real) (io_abs i w) = Some (io_abs i w')"
      by (rule answer_step [OF event(9,4) H(1) events_of_props(1)])
        (use H(2,3) c(6) live_mem [OF c(5) live [unfolded real]] in \<open>simp_all add: ctx_or_new_def real\<close>)
    then show ?thesis using True c(6) by simp
  next
    case False
    then have "w' = w" using handled_live [OF event(2,1) c(4,5) event(6,3,8) real] by simp
    then show ?thesis using False c(6) by simp
  qed
next
  case (timers w m q now funcs fronts ts w')
  from run_timers_ok [OF timers(4,1,2)] timers(3)
  have T: "\<forall>k. ctx_or_new i k w' = ctx_or_new i k w"
    "queue_at i w' = queue_at i w @ concat (map (\<lambda>f. requested (Cb f)) funcs)" by auto
  from io_abs_same [OF _ T(2)] T(1) show ?case by (simp add: io_abs_def)
next
  case (add_timer p ms func rep now w w')
  have "queue_at i w' = queue_at i w" by (rule io_addTimer_inv(3) [OF add_timer(2,1)])
  with io_abs_same [OF io_addTimer_inv(2) [OF add_timer(2,1)]] show ?case by (simp add: io_abs_def)
next
  case (set_timers w m ts)
  have "ctx_or_new i k (put_iom i (m\<lparr>io_timers := ts\<rparr>) w) = ctx_or_new i k w" for k
    by (rule ctx_or_new_cong [OF set_timers(1), of _ "m\<lparr>io_timers := ts\<rparr>"]) (simp_all add: put_iom_def)
  from io_abs_same [OF this refl] set_timers(1) show ?case
    by (simp add: io_abs_def queue_at_def put_iom_def)
next
  case (wake w p)
  have "io_abs i (w\<lparr>w_pipe := p\<rparr>) = (registry i w, queue_at i w)"
    by (intro io_abs_same) (simp_all add: ctx_or_new_pipe queue_at_def)
  then show ?case by (simp add: io_abs_def)
next
  case (schedule fc w w')
  have "w_scheds w i \<noteq> None" using schedule(2) by (auto simp: io_inv_def)
  then obtain w1 where w1: "schedule_to (Some i) fc (- 1) w = Inr w1" "sched_frame w w1"
    "queue_at i w1 = queue_at i w @ requested fc" "\<forall>k. k \<noteq> i \<longrightarrow> queue_at k w1 = queue_at k w"
    by (rule schedule_to_ok)
  then have "w1 = w'" using schedule(1) by simp
  with w1 io_abs_same [OF ctx_or_new_frame [OF schedule(2) w1(2)] w1(3)] show ?case by (simp add: io_abs_def)
next
  case (threads w m sch)
  have "ctx_or_new i k (put_iom i (m\<lparr>io_sched := sch\<rparr>) w) = ctx_or_new i k w" for k
    by (rule ctx_or_new_cong [OF threads(1), of _ "m\<lparr>io_sched := sch\<rparr>"]) (simp_all add: put_iom_def)
  from io_abs_same [OF this refl] show ?case
    by (simp add: io_abs_def queue_at_def put_iom_def)
qed

lemma registry_empty:
  assumes "\<And>fd. fd_mask i fd w = 0"
  shows "registry i w = (\<lambda>fd e. None)"
  using assms by (simp add: registry_def waiting_of_def ctx_or_new_events fun_eq_iff)

text \<open>
  (C2) The IO manager implements the registry. For every sequence of its operations from the
  constructor on that return (by any threads, in any order, with timers and submissions in
  between, whatever \<open>epoll_ctl\<close> answers, also when events are registered that are taken already
  and when stale reports are handled), the registry that starts empty allows what they did, and
  ends with exactly what waits in the contexts and with the manager's queue: a registration
  takes the place of what waited for the event (but a function that waits stays when a
  coroutine registers), what waits leaves only by being replaced, withdrawn or answered, an answer
  appends what waited, once, to the queue, and nothing that waits for another event changes,
  whatever happens to the table, the contexts and the \<open>epoll\<close> masks. Operations are atomic, on
  descriptors from 0 to \<open>2 ^ 30 - 1\<close> and the events \<open>READ\<close> and \<open>WRITE\<close>; threads that register
  belong to a scheduler; the reports are of contexts of the table and handled by threads of
  the manager; operations on other managers are not steps.
\<close>

theorem io_refines_registry:
  assumes "io_started i w0" and "io_trace i w0 ops w"
  shows "reg_run i ops (\<lambda>fd e. None, queue_at i w0) = Some (registry i w, queue_at i w)"
proof -
  have "reg_run i ops (io_abs i w0) = Some (io_abs i w) \<and> (\<exists>x. io_inv_off x i w)"
    using assms(2)
  proof induction
    case start
    show ?case using io_started_inv [OF assms(1)] by auto
  next
    case (step ops w op w')
    then obtain x where inv: "io_inv_off x i w" by blast
    with step io_does_inv [OF step(2) inv] io_does_refines [OF step(2) inv]
    show ?case by (simp add: reg_run_append)
  qed
  then show ?thesis by (simp add: io_abs_def registry_empty [OF io_started_none [OF assms(1)]])
qed

lemma io_refines_registry_witness:
  "\<exists>(w0 :: nat world) w. registry 7 w 5 EV_READ = Some (Some 7, Dor (Some 1), False)
     \<and> reg_run 7 [Added 5 EV_READ (Some 7, Dor (Some 1), False)] (\<lambda>fd e. None, queue_at 7 w0)
        = Some (registry 7 w, queue_at 7 w)"
proof -
  have e: "single EV_READ" by (simp add: single_def)
  then obtain w0 w :: "nat world" and m a where s: "io_started 7 w0"
    "addEvent wit_env wit_ok 7 5 EV_READ None False w0 = Inr (0, w)" "(io_step 7)\<^sup>*\<^sup>* (0, w0) (0, w)"
    "io_inv 7 w0" "fd_mask 7 5 w0 = 0" "io_inv 7 w" "fd_mask 7 5 w = EV_READ"
    "w_scheds w 7 = Some (Io m)" "m_tickleFds m = (3, 4)" "ctx_ptr 7 5 w = Some a"
    by (rule wit_registered)
  have "in_scheduler (None :: nat fn option) wit_env w0"
    using s(4) by (auto simp: in_scheduler_def wit_env_def io_inv_def)
  then have "io_does 7 w0 (if (0 :: int) = 0 then Added 5 EV_READ (th_sched wit_env, asked wit_env (None :: nat fn option), False) else Silent) w"
    by (intro io_does.add [OF _ e _ s(2)]) (simp add: fd_range_def)
  then have "io_does 7 w0 (Added 5 EV_READ (Some 7, Dor (Some 1), False)) w" by (simp add: asked_def wit_env_def)
  from io_trace.step [OF io_trace.start this]
  have "io_trace 7 w0 [Added 5 EV_READ (Some 7, Dor (Some 1), False)] w" by simp
  from io_refines_registry [OF s(1) this]
  have r: "reg_run 7 [Added 5 EV_READ (Some 7, Dor (Some 1), False)] (\<lambda>fd e. None, queue_at 7 w0)
      = Some (registry 7 w, queue_at 7 w)" .
  then have "registry 7 w = (\<lambda>fd e. None)(5 := (\<lambda>e. None)(EV_READ \<mapsto> (Some 7, Dor (Some 1), False)))"
    by (simp add: replacing_def)
  with r show ?thesis by (intro exI [of _ w0] exI [of _ w]) simp
qed

end
