(* ===== verification/IOPool.thy ===== *)
theory IOPool
  imports IOManager
begin

text \<open>
  Several threads in \<open>Scheduler::run\<close> of an IO manager, and what wakes the ones that sleep in
  \<open>epoll_wait\<close>: \<open>schedule\<close> and the scan of the queue call \<open>IOManager::tickle\<close>, which reads the
  count of idle threads and writes to a pipe. A step is one critical section, one atomic access
  or one system call; between two steps any other thread may run.
\<close>

section \<open>State\<close>

text \<open>
  Where a thread stands: at the scan of the queue; in \<open>tickle\<close> after the scan, before the test
  of \<open>hasIdleThreads\<close> and before the \<open>write\<close>, with what the scan took; at work on a task; with
  nothing taken and not yet counted idle; in \<open>idle\<close>, counted, before the test of \<open>stopping\<close>; in
  \<open>epoll_wait\<close> with its time-out; back from it with the report of the pipe, which it has still to
  read empty; back from it with nothing left to read, still counted; and out of the loop.
\<close>

datatype 'f pool_pc =
    Scans
  | Nudges "'f SchedulerTask option"
  | Rings "'f SchedulerTask option"
  | Works "'f SchedulerTask"
  | Empty_handed
  | Idles
  | Polls int
  | Drains
  | Awake
  | Gone_home

text \<open>
  \<open>q_ready\<close>: the pipe, registered with \<open>EPOLLIN | EPOLLET\<close>, is to be reported, which a \<open>write\<close>
  causes, and which ends with one report or when a thread has read the pipe empty. \<open>q_checks\<close> and \<open>q_rings\<close> count the callers of \<open>schedule\<close>,
  \<open>stop\<close> and \<open>addTimer\<close> inside \<open>tickle\<close>, before the test and before the \<open>write\<close>. \<open>q_missed\<close> records that a
  thread went idle over a queue that has not been empty since; nothing reads it.
\<close>

record 'f pool =
  q_iom :: "'f IOManager"
  q_state :: "nat \<Rightarrow> State"
  q_pc :: "int \<Rightarrow> 'f fn pool_pc"
  q_done :: "int \<Rightarrow> bool"
  q_ready :: bool
  q_checks :: nat
  q_rings :: nat
  q_missed :: bool

abbreviation pool_sched :: "'f pool \<Rightarrow> 'f fn Scheduler" where
  "pool_sched s \<equiv> io_sched (q_iom s)"

definition with_sched :: "'f fn Scheduler \<Rightarrow> 'f pool \<Rightarrow> 'f pool" where
  "with_sched sch s = s\<lparr>q_iom := (q_iom s)\<lparr>io_sched := sch\<rparr>\<rparr>"

definition goes :: "int \<Rightarrow> 'f fn pool_pc \<Rightarrow> 'f pool \<Rightarrow> 'f pool" where
  "goes tid p s = s\<lparr>q_pc := (q_pc s)(tid := p)\<rparr>"

fun after_scan :: "'f SchedulerTask option \<Rightarrow> 'f pool_pc" where
  "after_scan (Some t) = Works t"
| "after_scan None = Empty_handed"

text \<open>The operations of the steps.\<close>

definition pool_submit :: "'f fn DoroutineOrCb \<Rightarrow> int \<Rightarrow> 'f pool \<Rightarrow> 'f pool" where
  "pool_submit fc thr s =
     (let (needTickle, sch) = schedule fc thr (pool_sched s)
      in (with_sched sch s)\<lparr>q_checks := q_checks s + of_bool needTickle\<rparr>)"

definition pool_scan :: "int \<Rightarrow> 'f pool \<Rightarrow> 'f pool" where
  "pool_scan tid s =
     (let (task, tickleMe, sch) = take_task tid (q_state s) (pool_sched s)
      in (goes tid (if tickleMe then Nudges task else after_scan task) (with_sched sch s))
           \<lparr>q_missed := q_missed s \<and> m_tasks sch \<noteq> []\<rparr>)"

definition pool_count_idle :: "int \<Rightarrow> 'f pool \<Rightarrow> 'f pool" where
  "pool_count_idle tid s =
     (goes tid Idles (with_sched ((pool_sched s)\<lparr>m_idleThreadCount := m_idleThreadCount (pool_sched s) + 1\<rparr>) s))
       \<lparr>q_missed := q_missed s \<or> m_tasks (pool_sched s) \<noteq> []\<rparr>"

definition pool_idle_test :: "u64 \<Rightarrow> int \<Rightarrow> 'f pool \<Rightarrow> 'f pool" where
  "pool_idle_test now tid s =
     (let (stop, nextTimeout) = io_stopping now (q_iom s)
      in if stop then (goes tid Awake s)\<lparr>q_done := (q_done s)(tid := True)\<rparr>
         else goes tid (Polls (sint (ucast (poll_timeout nextTimeout) :: u32))) s)"

definition pool_idle_out :: "int \<Rightarrow> 'f pool \<Rightarrow> 'f pool" where
  "pool_idle_out tid s =
     goes tid Scans (with_sched ((pool_sched s)\<lparr>m_idleThreadCount := m_idleThreadCount (pool_sched s) - 1\<rparr>) s)"

definition pool_task_done :: "int \<Rightarrow> 'f pool \<Rightarrow> 'f pool" where
  "pool_task_done tid s =
     goes tid Scans (with_sched ((pool_sched s)\<lparr>m_activeThreadCount := m_activeThreadCount (pool_sched s) - 1\<rparr>) s)"

text \<open>
  \<open>stop\<close> until it resumes the root coroutine or joins the threads. Its test and its assignment
  are one step, and the calls of \<open>tickle\<close> are left to do.
\<close>

definition pool_stop :: "u64 \<Rightarrow> 'f pool \<Rightarrow> 'f pool" where
  "pool_stop now s =
     (if IOManager_stopping now (q_iom s) then s
      else let sch = pool_sched s
           in (with_sched (sch\<lparr>m_stopping := True\<rparr>) s)\<lparr>q_checks := q_checks s + unat (m_threadCount sch)
                + (if m_rootDoroutine sch \<noteq> None then 1 else 0)\<rparr>)"

section \<open>Steps\<close>

text \<open>
  \<open>T\<close> are the threads, \<open>may s t\<close> says which submissions are made (by anybody: other threads,
  running tasks, or the thread back from \<open>epoll_wait\<close> for what it has to resume). A thread in
  \<open>epoll_wait\<close> returns when the pipe is reported to it, and then reads the pipe until it is empty,
  with what others wrote since the report; or it returns for its time-out or another event.
  Coroutines change their states, but one that is queued and not running is not set to run
  except by the scan that takes it. Timers and events change at any time; the first timer that
  comes to the front has \<open>onTimerInsertedAtFront\<close> call \<open>tickle\<close> (\<open>m_isTickled\<close> stays set).
\<close>

definition switch_ok :: "'f pool \<Rightarrow> (nat \<Rightarrow> State) \<Rightarrow> bool" where
  "switch_ok s st \<longleftrightarrow> (\<forall>t \<in> set (m_tasks (pool_sched s)). \<forall>d. task_doroutine t = Some d
     \<longrightarrow> q_state s d \<noteq> RUNNING \<longrightarrow> st d \<noteq> RUNNING)"

inductive pool_step ::
  "int set \<Rightarrow> ('f pool \<Rightarrow> 'f fn SchedulerTask \<Rightarrow> bool) \<Rightarrow> 'f pool \<Rightarrow> 'f pool \<Rightarrow> bool"
  for T :: "int set" and may :: "'f pool \<Rightarrow> 'f fn SchedulerTask \<Rightarrow> bool"
where
  submit: "may s (task_of fc thr) \<Longrightarrow> pool_step T may s (pool_submit fc thr s)"
| check: "0 < q_checks s \<Longrightarrow>
     pool_step T may s (s\<lparr>q_checks := q_checks s - 1, q_rings := q_rings s + of_bool (hasIdleThreads (pool_sched s))\<rparr>)"
| ring: "0 < q_rings s \<Longrightarrow> pool_step T may s (s\<lparr>q_rings := q_rings s - 1, q_ready := True\<rparr>)"
| request_stop: "pool_step T may s (pool_stop now s)"
| scan: "tid \<in> T \<Longrightarrow> q_pc s tid = Scans \<Longrightarrow> pool_step T may s (pool_scan tid s)"
| nudge: "tid \<in> T \<Longrightarrow> q_pc s tid = Nudges x \<Longrightarrow>
     pool_step T may s (goes tid (if hasIdleThreads (pool_sched s) then Rings x else after_scan x) s)"
| nudge_ring: "tid \<in> T \<Longrightarrow> q_pc s tid = Rings x \<Longrightarrow>
     pool_step T may s ((goes tid (after_scan x) s)\<lparr>q_ready := True\<rparr>)"
| task_done: "tid \<in> T \<Longrightarrow> q_pc s tid = Works t \<Longrightarrow> pool_step T may s (pool_task_done tid s)"
| count_idle: "tid \<in> T \<Longrightarrow> q_pc s tid = Empty_handed \<Longrightarrow> \<not> q_done s tid \<Longrightarrow>
     pool_step T may s (pool_count_idle tid s)"
| leave: "tid \<in> T \<Longrightarrow> q_pc s tid = Empty_handed \<Longrightarrow> q_done s tid \<Longrightarrow> pool_step T may s (goes tid Gone_home s)"
| idle_test: "tid \<in> T \<Longrightarrow> q_pc s tid = Idles \<Longrightarrow> pool_step T may s (pool_idle_test now tid s)"
| wake: "tid \<in> T \<Longrightarrow> q_pc s tid = Polls t \<Longrightarrow> pool_step T may s (goes tid Awake s)"
| wake_pipe: "tid \<in> T \<Longrightarrow> q_pc s tid = Polls t \<Longrightarrow> q_ready s \<Longrightarrow>
     pool_step T may s ((goes tid Drains s)\<lparr>q_ready := False\<rparr>)"
| drain: "tid \<in> T \<Longrightarrow> q_pc s tid = Drains \<Longrightarrow> pool_step T may s ((goes tid Awake s)\<lparr>q_ready := False\<rparr>)"
| idle_out: "tid \<in> T \<Longrightarrow> q_pc s tid = Awake \<Longrightarrow> pool_step T may s (pool_idle_out tid s)"
| switch: "switch_ok s st \<Longrightarrow> pool_step T may s (s\<lparr>q_state := st\<rparr>)"
| timer_front: "io_sched m = pool_sched s \<Longrightarrow> \<not> m_isTickled (io_timers (q_iom s)) \<Longrightarrow> m_isTickled (io_timers m) \<Longrightarrow>
     pool_step T may s (s\<lparr>q_iom := m, q_checks := q_checks s + 1\<rparr>)"
| other: "io_sched m = pool_sched s \<Longrightarrow> pool_step T may s (s\<lparr>q_iom := m\<rparr>)"

definition pool_start :: "int set \<Rightarrow> 'f pool \<Rightarrow> bool" where
  "pool_start T s \<longleftrightarrow> m_tasks (pool_sched s) = [] \<and> m_idleThreadCount (pool_sched s) = 0
     \<and> m_activeThreadCount (pool_sched s) = 0 \<and> \<not> m_stopping (pool_sched s)
     \<and> (\<forall>tid \<in> T. q_pc s tid = Scans \<and> \<not> q_done s tid)
     \<and> \<not> q_ready s \<and> q_checks s = 0 \<and> q_rings s = 0 \<and> \<not> q_missed s"

lemma pool_simps [simp]:
  "q_iom (with_sched sch s) = (q_iom s)\<lparr>io_sched := sch\<rparr>" "q_pc (with_sched sch s) = q_pc s"
  "q_state (with_sched sch s) = q_state s" "q_done (with_sched sch s) = q_done s" "q_ready (with_sched sch s) = q_ready s"
  "q_checks (with_sched sch s) = q_checks s" "q_rings (with_sched sch s) = q_rings s" "q_missed (with_sched sch s) = q_missed s"
  "q_iom (goes tid p s) = q_iom s" "q_pc (goes tid p s) = (q_pc s)(tid := p)"
  "q_state (goes tid p s) = q_state s" "q_done (goes tid p s) = q_done s" "q_ready (goes tid p s) = q_ready s"
  "q_checks (goes tid p s) = q_checks s" "q_rings (goes tid p s) = q_rings s" "q_missed (goes tid p s) = q_missed s"
  by (simp_all add: with_sched_def goes_def)

text \<open>
  Test and \<open>write\<close> one after the other are \<open>tickle\<close>.
\<close>

lemma tickle_cut:
  assumes "w_scheds w i = Some (Io (q_iom s))" and "0 < q_checks s" and "q_rings s = 0"
  shows "\<exists>w' s' s''. tickle i w = Inr w' \<and> pool_step T may s s' \<and> q_checks s' = q_checks s - 1
    \<and> (if hasIdleThreads (pool_sched s)
       then w_pipe w' i = w_pipe w i + 1 \<and> pool_step T may s' s'' \<and> q_ready s'' \<and> q_rings s'' = 0
       else w' = w \<and> q_ready s' = q_ready s \<and> q_rings s' = 0)"
proof -
  let ?s = "s\<lparr>q_checks := q_checks s - 1, q_rings := q_rings s + of_bool (hasIdleThreads (pool_sched s))\<rparr>"
  have c: "pool_step T may s ?s" by (rule pool_step.check [OF assms(2)])
  show ?thesis
  proof (cases "hasIdleThreads (pool_sched s)")
    case True
    then have "pool_step T may ?s (?s\<lparr>q_rings := q_rings ?s - 1, q_ready := True\<rparr>)" by (intro pool_step.ring) simp
    then show ?thesis using c True assms(1,3)
      by (intro exI [of _ "w\<lparr>w_pipe := (w_pipe w)(i := w_pipe w i + 1)\<rparr>"] exI [of _ ?s]
          exI [of _ "?s\<lparr>q_rings := q_rings ?s - 1, q_ready := True\<rparr>"]) (simp add: tickle_def iom_at_def)
  next
    case False
    then show ?thesis using c assms(1,3)
      by (intro exI [of _ w] exI [of _ ?s]) (simp add: tickle_def iom_at_def)
  qed
qed

section \<open>The count of idle threads\<close>

fun counted :: "'f pool_pc \<Rightarrow> bool" where
  "counted Idles = True"
| "counted (Polls t) = True"
| "counted Drains = True"
| "counted Awake = True"
| "counted _ = False"

definition idle_counted :: "int set \<Rightarrow> 'f pool \<Rightarrow> bool" where
  "idle_counted T s \<longleftrightarrow> m_idleThreadCount (pool_sched s) = threads_at T counted (q_pc s)"

lemma counted_after_scan [simp]: "\<not> counted (after_scan x)"
  by (cases x) simp_all

lemma take_task_idle:
  "take_task tid st sch = (x, tick, sch') \<Longrightarrow> m_idleThreadCount sch' = m_idleThreadCount sch"
  by (auto simp: take_task_def split: prod.splits option.splits)

lemma idle_counted_step:
  assumes "finite T" and "pool_step T may s s'" and "idle_counted T s"
  shows "idle_counted T s'"
  using assms(2,3)
proof (induction rule: pool_step.induct)
  case (submit s fc thr)
  then show ?case by (simp add: idle_counted_def pool_submit_def schedule_frame split_beta)
next
  case (request_stop s now)
  then show ?case by (simp add: idle_counted_def pool_stop_def Let_def)
next
  case (scan tid s)
  obtain x tick sch where tk: "take_task tid (q_state s) (pool_sched s) = (x, tick, sch)" by (metis prod_cases3)
  show ?case using scan take_task_idle [OF tk]
    by (simp add: idle_counted_def pool_scan_def tk threads_at_upd [OF assms(1)])
next
  case (idle_test tid s now)
  then show ?case
    by (auto simp: idle_counted_def pool_idle_test_def threads_at_upd [OF assms(1)] split: prod.split)
qed (simp_all add: idle_counted_def pool_count_idle_def pool_idle_out_def pool_task_done_def
    threads_at_upd [OF assms(1)])

lemma counted_has_idle:
  assumes "finite T" and "card T < 2 ^ 64" and "idle_counted T s" and "tid \<in> T" and "counted (q_pc s tid)"
  shows "hasIdleThreads (pool_sched s)"
  using threads_at_zero [OF assms(1,2) _ assms(4), of counted "q_pc s"] assms(3,5)
  by (auto simp: idle_counted_def hasIdleThreads_def word_gt_0)

section \<open>Who is called when work comes\<close>

text \<open>
  The discipline: tasks are for any thread, and coroutines are not submitted while they run.
\<close>

definition open_task :: "(nat \<Rightarrow> State) \<Rightarrow> 'f SchedulerTask \<Rightarrow> bool" where
  "open_task st t \<longleftrightarrow> task_thread t = - 1 \<and> (\<forall>d. task_doroutine t = Some d \<longrightarrow> st d \<noteq> RUNNING)"

definition open_only :: "'f pool \<Rightarrow> 'f fn SchedulerTask \<Rightarrow> bool" where
  "open_only s t \<longleftrightarrow> open_task (q_state s) t"

text \<open>A thread that goes to sleep or sleeps; one that will scan or call others before that.\<close>

fun dozes :: "'f pool_pc \<Rightarrow> bool" where
  "dozes Idles = True"
| "dozes (Polls t) = True"
| "dozes _ = False"

fun alert :: "'f pool_pc \<Rightarrow> bool" where
  "alert Scans = True"
| "alert (Nudges x) = True"
| "alert (Rings x) = True"
| "alert Drains = True"
| "alert Awake = True"
| "alert _ = False"

definition called :: "int set \<Rightarrow> 'f pool \<Rightarrow> bool" where
  "called T s \<longleftrightarrow> q_ready s \<or> 0 < q_checks s \<or> 0 < q_rings s \<or> (\<exists>tid \<in> T. alert (q_pc s tid))"

definition pool_inv :: "int set \<Rightarrow> 'f pool \<Rightarrow> bool" where
  "pool_inv T s \<longleftrightarrow> idle_counted T s \<and> (\<forall>t \<in> set (m_tasks (pool_sched s)). open_task (q_state s) t)
     \<and> (m_tasks (pool_sched s) \<noteq> [] \<longrightarrow> \<not> q_missed s \<longrightarrow> (\<exists>tid \<in> T. dozes (q_pc s tid)) \<longrightarrow> called T s)"

text \<open>The scan of a queue of open tasks takes the first one, and asks for a \<open>tickle\<close> when others are left.\<close>

lemma scan_open:
  assumes "\<forall>t \<in> set (m_tasks sch). open_task st t" and "take_task tid st sch = (x, tick, sch')"
  shows "tick = (m_tasks sch' \<noteq> [])" and "set (m_tasks sch') \<subseteq> set (m_tasks sch)"
proof -
  have "tick = (m_tasks sch' \<noteq> []) \<and> set (m_tasks sch') \<subseteq> set (m_tasks sch)"
  proof (cases "m_tasks sch")
    case Nil
    then show ?thesis using assms(2) by (simp add: take_task_def scan_tasks.simps)
  next
    case (Cons t ts)
    then have "eligible tid st t" using assms(1) by (simp add: open_task_def eligible_def)
    then have "sch' = sch\<lparr>m_tasks := ts, m_activeThreadCount := m_activeThreadCount sch + 1\<rparr> \<and> tick = (ts \<noteq> [])"
      using assms(2) Cons by (auto simp: take_task_def scan_Cons)
    then show ?thesis using Cons by auto
  qed
  then show "tick = (m_tasks sch' \<noteq> [])" "set (m_tasks sch') \<subseteq> set (m_tasks sch)" by blast+
qed

lemma calledI:
  "q_ready s \<Longrightarrow> called T s" "0 < q_checks s \<Longrightarrow> called T s" "0 < q_rings s \<Longrightarrow> called T s"
  "tid \<in> T \<Longrightarrow> alert (q_pc s tid) \<Longrightarrow> called T s"
  by (auto simp: called_def)


lemma dozes_counted: "dozes p \<Longrightarrow> counted p"
  by (cases p) simp_all

text \<open>Steps that leave the queue alone and give somebody something to do.\<close>

lemma pool_inv_called:
  assumes "pool_inv T s" and "idle_counted T s'" and "called T s'"
    and "m_tasks (pool_sched s') = m_tasks (pool_sched s)" and "q_state s' = q_state s"
  shows "pool_inv T s'"
  using assms by (simp add: pool_inv_def)

lemma pool_stop_simps:
  "q_pc (pool_stop now s) = q_pc s" "m_tasks (pool_sched (pool_stop now s)) = m_tasks (pool_sched s)"
  "q_state (pool_stop now s) = q_state s" "q_missed (pool_stop now s) = q_missed s" "q_ready (pool_stop now s) = q_ready s"
  "q_rings (pool_stop now s) = q_rings s" "0 < q_checks s \<Longrightarrow> 0 < q_checks (pool_stop now s)"
  by (simp_all add: pool_stop_def Let_def)

lemma pool_inv_keeps:
  assumes "pool_inv T s" and "idle_counted T s'" and "called T s \<Longrightarrow> called T s'"
    and "m_tasks (pool_sched s') = m_tasks (pool_sched s)" and "q_state s' = q_state s" and "q_missed s' = q_missed s"
    and "\<And>tid. tid \<in> T \<Longrightarrow> dozes (q_pc s' tid) \<Longrightarrow> \<exists>tid \<in> T. dozes (q_pc s tid)"
  shows "pool_inv T s'"
  using assms unfolding pool_inv_def by fastforce

lemma pool_inv_step:
  assumes fin: "finite T" "card T < 2 ^ 64" and st: "pool_step T open_only s s'" and inv: "pool_inv T s"
  shows "pool_inv T s'"
proof -
  have ic: "idle_counted T s" and op: "\<forall>t \<in> set (m_tasks (pool_sched s)). open_task (q_state s) t"
    and call: "m_tasks (pool_sched s) \<noteq> [] \<Longrightarrow> \<not> q_missed s \<Longrightarrow> \<exists>tid \<in> T. dozes (q_pc s tid) \<Longrightarrow> called T s"
    using inv by (auto simp: pool_inv_def)
  have nobody: "\<not> dozes (q_pc s tid)" if "\<not> hasIdleThreads (pool_sched s)" "tid \<in> T" for tid
    using counted_has_idle [OF fin ic that(2)] that(1) dozes_counted by blast
  have ic': "idle_counted T s'" by (rule idle_counted_step [OF fin(1) st ic])
  from st show ?thesis
  proof cases
    case (submit fc thr)
    show ?thesis
    proof (cases "m_tasks (pool_sched s) = []")
      case True
      then have "called T s'" by (intro calledI(2)) (simp add: submit pool_submit_def schedule_def scheduleNoLock_def Let_def)
      then show ?thesis using ic' op submit(2) True
        by (auto simp: pool_inv_def submit(1) pool_submit_def schedule_def scheduleNoLock_def Let_def open_only_def)
    next
      case False
      then have "q_checks s' = q_checks s" "q_pc s' = q_pc s" "q_ready s' = q_ready s" "q_rings s' = q_rings s" "q_missed s' = q_missed s"
        "q_state s' = q_state s" by (simp_all add: submit pool_submit_def schedule_def scheduleNoLock_def Let_def)
      moreover have "set (m_tasks (pool_sched s')) \<subseteq> insert (task_of fc thr) (set (m_tasks (pool_sched s)))"
        by (auto simp: submit pool_submit_def schedule_def scheduleNoLock_def Let_def)
      ultimately show ?thesis using ic' op submit(2) call False by (auto simp: pool_inv_def called_def open_only_def)
    qed
  next
    case check
    show ?thesis
    proof (cases "hasIdleThreads (pool_sched s)")
      case True
      then show ?thesis by (intro pool_inv_called [OF inv ic'] calledI(3)) (simp_all add: check)
    next
      case False
      then show ?thesis using ic' op nobody by (simp add: pool_inv_def check)
    qed
  next
    case ring
    then show ?thesis by (intro pool_inv_called [OF inv ic'] calledI(1)) simp_all
  next
    case (request_stop now)
    show ?thesis
      by (rule pool_inv_keeps [OF inv ic'])
        (use pool_stop_simps(7) [of s now] in \<open>auto simp: called_def request_stop pool_stop_simps(1-6)\<close>)
  next
    case (scan tid)
    obtain x tick sch where tk: "take_task tid (q_state s) (pool_sched s) = (x, tick, sch)" by (metis prod_cases3)
    note S = scan_open [OF op tk]
    have "called T s'" if "m_tasks sch \<noteq> []"
      using scan(2) S(1) that by (intro calledI(4) [of tid]) (simp_all add: scan(1) pool_scan_def tk)
    then show ?thesis using ic' op S(2) by (auto simp: pool_inv_def scan(1) pool_scan_def tk)
  next
    case (nudge tid x)
    show ?thesis
    proof (cases "hasIdleThreads (pool_sched s)")
      case True
      then show ?thesis by (intro pool_inv_called [OF inv ic'] calledI(4) [of tid]) (simp_all add: nudge)
    next
      case False
      have "\<not> dozes (after_scan x)" by (cases x) simp_all
      then show ?thesis using ic' op nobody False by (auto simp: pool_inv_def nudge)
    qed
  next
    case (nudge_ring tid x)
    then show ?thesis by (intro pool_inv_called [OF inv ic'] calledI(1)) simp_all
  next
    case (task_done tid t)
    then show ?thesis by (intro pool_inv_called [OF inv ic'] calledI(4) [of tid]) (simp_all add: pool_task_done_def)
  next
    case (count_idle tid)
    then show ?thesis using ic' op by (auto simp: pool_inv_def pool_count_idle_def)
  next
    case (leave tid)
    show ?thesis
      by (rule pool_inv_keeps [OF inv ic']) (use leave in \<open>fastforce simp: called_def split: if_splits\<close>)+
  next
    case (idle_test tid now)
    obtain stop nt where n: "io_stopping now (q_iom s) = (stop, nt)" by (cases "io_stopping now (q_iom s)")
    show ?thesis
    proof (rule pool_inv_keeps [OF inv ic'])
      show "called T s \<Longrightarrow> called T s'" using idle_test(2,3) by (cases stop) (fastforce simp: called_def idle_test(1) pool_idle_test_def n)+
      show "\<exists>tid \<in> T. dozes (q_pc s tid)" using idle_test(2,3) by (auto intro!: bexI [of _ tid])
    qed (simp_all add: idle_test(1) pool_idle_test_def n)
  next
    case (wake tid t)
    then show ?thesis by (intro pool_inv_called [OF inv ic'] calledI(4) [of tid]) simp_all
  next
    case (wake_pipe tid t)
    then show ?thesis by (intro pool_inv_called [OF inv ic'] calledI(4) [of tid]) simp_all
  next
    case (drain tid)
    then show ?thesis by (intro pool_inv_called [OF inv ic'] calledI(4) [of tid]) simp_all
  next
    case (idle_out tid)
    then show ?thesis by (intro pool_inv_called [OF inv ic'] calledI(4) [of tid]) (simp_all add: pool_idle_out_def)
  next
    case (switch st)
    have "called T s \<Longrightarrow> called T s'" by (simp add: called_def switch)
    then show ?thesis using ic' op call switch(2) by (auto simp: pool_inv_def switch(1) switch_ok_def open_task_def)
  next
    case (timer_front m)
    then show ?thesis by (intro pool_inv_called [OF inv ic'] calledI(2)) simp_all
  next
    case (other m)
    then show ?thesis by (intro pool_inv_keeps [OF inv ic']) (auto simp: called_def)
  qed
qed


interpretation pool_calls: step_invariant
  "\<lambda>s. finite T \<and> card T < 2 ^ 64 \<and> pool_start T s" "pool_step T open_only"
  "\<lambda>s. finite T \<and> card T < 2 ^ 64 \<and> pool_inv T s" for T :: "int set"
proof unfold_locales
  fix s :: "'a pool" assume s: "finite T \<and> card T < 2 ^ 64 \<and> pool_start T s"
  then have "threads_at T counted (q_pc s) = 0" by (intro threads_at_none) (simp add: pool_start_def)
  then show "finite T \<and> card T < 2 ^ 64 \<and> pool_inv T s" using s by (simp add: pool_inv_def idle_counted_def pool_start_def)
qed (use pool_inv_step in blast)

section \<open>Falling asleep\<close>

text \<open>
  From the scan that took nothing: counted idle, not stopping, no timers, so it polls for five seconds.
\<close>

definition asleep :: "int \<Rightarrow> 'f pool \<Rightarrow> 'f pool" where
  "asleep tid s = (goes tid (Polls 5000)
     (with_sched ((pool_sched s)\<lparr>m_idleThreadCount := m_idleThreadCount (pool_sched s) + 1\<rparr>) s))
       \<lparr>q_missed := q_missed s \<or> m_tasks (pool_sched s) \<noteq> []\<rparr>"

lemma falls_asleep:
  assumes "tid \<in> T" and "q_pc s tid = Empty_handed" and "\<not> q_done s tid"
    and "m_timers (io_timers (q_iom s)) = []" and "\<not> m_stopping (pool_sched s)"
  shows "(pool_step T may)\<^sup>*\<^sup>* s (asleep tid s)"
proof -
  have 1: "pool_step T may s (pool_count_idle tid s)" by (rule pool_step.count_idle [OF assms(1-3)])
  have "pool_step T may (pool_count_idle tid s) (pool_idle_test 0 tid (pool_count_idle tid s))"
    by (rule pool_step.idle_test) (simp_all add: assms(1) pool_count_idle_def)
  moreover have "pool_idle_test 0 tid (pool_count_idle tid s) = asleep tid s"
    using assms(4,5) by (simp add: pool_idle_test_def pool_count_idle_def asleep_def io_stopping_def getNextTimer_def
        stopping_def poll_timeout_value MAX_TIMEOUT_def goes_def with_sched_def Let_def)
  ultimately show ?thesis using 1 by (simp add: rtranclp.rtrancl_into_rtrancl)
qed

lemma scan_empty:
  assumes "tid \<in> T" and "q_pc s tid = Scans" and "m_tasks (pool_sched s) = []"
  shows "pool_step T may s ((goes tid Empty_handed s)\<lparr>q_missed := False\<rparr>)"
proof -
  have "pool_scan tid s = (goes tid Empty_handed s)\<lparr>q_missed := False\<rparr>"
    using assms(3) by (simp add: pool_scan_def take_task_def scan_tasks.simps goes_def with_sched_def)
  then show ?thesis using pool_step.scan [OF assms(1,2), of may] by simp
qed

lemma asleep_simps [simp]:
  "q_pc (asleep tid s) = (q_pc s)(tid := Polls 5000)" "m_tasks (pool_sched (asleep tid s)) = m_tasks (pool_sched s)"
  "q_ready (asleep tid s) = q_ready s" "q_checks (asleep tid s) = q_checks s" "q_rings (asleep tid s) = q_rings s"
  "q_done (asleep tid s) = q_done s" "m_stopping (pool_sched (asleep tid s)) = m_stopping (pool_sched s)"
  "q_state (asleep tid s) = q_state s" "io_timers (q_iom (asleep tid s)) = io_timers (q_iom s)"
  "m_idleThreadCount (pool_sched (asleep tid s)) = m_idleThreadCount (pool_sched s) + 1"
  by (simp_all add: asleep_def)

text \<open>
  (C6) No thread sleeps over work that nobody looks at, except through one window. Tasks are for
  any thread, and coroutines are not submitted while they run. Then in every state the threads
  reach, when a thread sleeps in \<open>epoll_wait\<close> and a task is queued: the pipe is to be reported,
  or a caller is still in \<open>tickle\<close>, or a thread is awake and will scan the
  queue (one that still reads the pipe empty among them); unless, since the queue was last
  empty, some thread counted itself idle after a task had come in behind its scan.
\<close>

theorem sleeper_is_called:
  assumes "finite T" and "card T < 2 ^ 64" and "pool_start T s" and "(pool_step T open_only)\<^sup>*\<^sup>* s s'"
    and "tid \<in> T" and "q_pc s' tid = Polls t" and "m_tasks (pool_sched s') \<noteq> []" and "\<not> q_missed s'"
  shows "q_ready s' \<or> 0 < q_checks s' \<or> 0 < q_rings s' \<or> (\<exists>u \<in> T. alert (q_pc s' u))"
proof -
  have "pool_inv T s'" using pool_calls.good_reachable [of T s s'] assms(1-4) by simp
  moreover have "\<exists>tid \<in> T. dozes (q_pc s' tid)" using assms(5,6) by (auto intro!: bexI [of _ tid])
  ultimately show ?thesis using assms(7,8) by (simp add: pool_inv_def called_def)
qed

section \<open>A pool to run\<close>

definition wit_pool :: "nat pool" where
  "wit_pool = \<lparr>q_iom = \<lparr>io_sched = \<lparr>m_name = ''io'', m_threadPool = [0, 1], m_tasks = [], m_threadIds = [],
       m_threadCount = 2, m_activeThreadCount = 0, m_idleThreadCount = 0, m_useCaller = False,
       m_rootDoroutine = None, m_rootThreadId = - 1, m_stopping = False\<rparr>,
     io_timers = TimerManager_new (\<lambda>p. \<lparr>t_repeat = False, t_periodInMs = 0, t_next = 0, t_func = None, t_manager = True\<rparr>) 0,
     m_epfd = 3, m_tickleFds = (4, 5), m_pendingEventCount = 0, m_fdContexts = []\<rparr>,
   q_state = (\<lambda>d. READY), q_pc = (\<lambda>tid. Scans), q_done = (\<lambda>tid. False), q_ready = False,
   q_checks = 0, q_rings = 0, q_missed = False\<rparr>"

lemma wit_pool_start: "pool_start T wit_pool"
  by (simp add: pool_start_def wit_pool_def)

lemma wit_pool_timers: "m_timers (io_timers (q_iom wit_pool)) = []"
  by (simp add: wit_pool_def TimerManager_new_def)

text \<open>Its thread 7 asleep, and a function submitted.\<close>

definition wit_asleep :: "nat pool" where
  "wit_asleep = asleep 7 ((goes 7 Empty_handed wit_pool)\<lparr>q_missed := False\<rparr>)"

definition wit_called :: "nat pool" where
  "wit_called = pool_submit (Cb (Some (Callback 3))) (- 1) wit_asleep"

lemma wit_called_reach: "(pool_step {7} open_only)\<^sup>*\<^sup>* wit_pool wit_called"
proof -
  have "pool_step {7} open_only wit_pool ((goes 7 Empty_handed wit_pool)\<lparr>q_missed := False\<rparr>)"
    by (rule scan_empty) (simp_all add: wit_pool_def)
  moreover have "(pool_step {7} open_only)\<^sup>*\<^sup>* ((goes 7 Empty_handed wit_pool)\<lparr>q_missed := False\<rparr>) wit_asleep"
    unfolding wit_asleep_def by (rule falls_asleep) (simp_all add: wit_pool_def TimerManager_new_def)
  moreover have "pool_step {7} open_only wit_asleep wit_called"
    unfolding wit_called_def by (rule pool_step.submit) (simp add: open_only_def open_task_def)
  ultimately show ?thesis by (meson converse_rtranclp_into_rtranclp rtranclp.rtrancl_into_rtrancl)
qed

lemma sleeper_is_called_witness:
  "q_pc wit_called 7 = Polls 5000 \<and> m_tasks (pool_sched wit_called) \<noteq> []
   \<and> (q_ready wit_called \<or> 0 < q_checks wit_called \<or> 0 < q_rings wit_called \<or> (\<exists>u \<in> {7}. alert (q_pc wit_called u)))"
proof -
  have c: "q_pc wit_called 7 = Polls 5000" "m_tasks (pool_sched wit_called) \<noteq> []" "\<not> q_missed wit_called"
    by (simp_all add: wit_called_def wit_asleep_def asleep_def pool_submit_def schedule_def scheduleNoLock_def wit_pool_def Let_def)
  show ?thesis
    using sleeper_is_called [OF _ _ wit_pool_start wit_called_reach _ c(1,2,3)] c(1,2) by simp
qed

end
