(* ===== verification/IOPoolLosses.thy ===== *)
theory IOPoolLosses
  imports IOPool
begin

text \<open>
  Runs of the threads of an IO manager in which a queued task waits for the time-out of
  \<open>epoll_wait\<close>: a task that comes in between a thread's scan and its \<open>++m_idleThreadCount\<close>, and
  tasks that come in behind one that waits for a busy thread.
\<close>

section \<open>States nobody is called in\<close>

definition unheard :: "int set \<Rightarrow> 'f pool \<Rightarrow> bool" where
  "unheard T s \<longleftrightarrow> m_tasks (pool_sched s) \<noteq> [] \<and> \<not> q_ready s \<and> q_checks s = 0 \<and> q_rings s = 0
     \<and> (\<forall>tid \<in> T. (\<exists>t. q_pc s tid = Polls t) \<or> (\<exists>t. q_pc s tid = Works t))"

text \<open>
  Runs in which no thread of \<open>T\<close> moves, \<open>stop\<close> is not called and no first timer comes to the
  front; tasks are still submitted, and coroutines, events and other timers change.
\<close>

definition pool_wait ::
  "int set \<Rightarrow> ('f pool \<Rightarrow> 'f fn SchedulerTask \<Rightarrow> bool) \<Rightarrow> 'f pool \<Rightarrow> 'f pool \<Rightarrow> bool" where
  "pool_wait T may s s' \<longleftrightarrow> pool_step T may s s' \<and> q_pc s' = q_pc s \<and> \<not> m_stopping (pool_sched s')
     \<and> m_isTickled (io_timers (q_iom s')) = m_isTickled (io_timers (q_iom s))"

lemma unheard_step:
  assumes "unheard T s" and "pool_wait T may s s'"
  shows "unheard T s'"
proof -
  have st: "pool_step T may s s'" and pc: "q_pc s' = q_pc s" and run: "\<not> m_stopping (pool_sched s')"
    using assms(2) by (auto simp: pool_wait_def)
  have at: "(\<exists>t. q_pc s tid = Polls t) \<or> (\<exists>t. q_pc s tid = Works t)" if "tid \<in> T" for tid
    using assms(1) that by (simp add: unheard_def)
  from st show ?thesis
  proof cases
    case (submit fc thr)
    then show ?thesis using assms(1)
      by (simp add: unheard_def pool_submit_def schedule_def scheduleNoLock_def Let_def)
  next
    case (request_stop now)
    then show ?thesis using assms(1) run by (simp add: pool_stop_def Let_def split: if_splits)
  next
    case (task_done tid t)
    then show ?thesis using fun_cong [OF pc, of tid] by (simp add: pool_task_done_def)
  next
    case (wake tid t)
    then show ?thesis using fun_cong [OF pc, of tid] by simp
  next
    case (timer_front m)
    then show ?thesis using assms(2) by (simp add: pool_wait_def)
  next
    case (other m)
    then show ?thesis using assms(1) by (simp add: unheard_def)
  qed (use assms(1) at in \<open>fastforce simp: unheard_def\<close>)+
qed

text \<open>
  Whatever is submitted, the threads sleep on until a time-out, another event, a task's end, a
  first timer at the front or \<open>stop\<close>.
\<close>

definition left_asleep :: "int set \<Rightarrow> 'f pool \<Rightarrow> bool" where
  "left_asleep T s \<longleftrightarrow> (\<forall>s'. (pool_wait T (\<lambda>s t. True))\<^sup>*\<^sup>* s s' \<longrightarrow> m_tasks (pool_sched s') \<noteq> [] \<and> \<not> called T s')"

interpretation unheard_runs: step_invariant "unheard T" "pool_wait T may" "unheard T"
  for T :: "int set" and may :: "'f pool \<Rightarrow> 'f fn SchedulerTask \<Rightarrow> bool"
  by unfold_locales (auto intro: unheard_step)

lemma unheard_asleep:
  assumes "unheard T s"
  shows "left_asleep T s"
proof -
  have "m_tasks (pool_sched s') \<noteq> [] \<and> \<not> called T s'" if "(pool_wait T (\<lambda>s t. True))\<^sup>*\<^sup>* s s'" for s'
    using unheard_runs.good_steps [OF that assms] by (fastforce simp: unheard_def called_def)
  then show ?thesis by (simp add: left_asleep_def)
qed

section \<open>Runs that end so\<close>

text \<open>What \<open>tickle\<close> of a submission does while no thread is counted idle: nothing.\<close>

lemma unheeded:
  assumes "may s (task_of fc thr)" and "m_tasks (pool_sched s) = []" and "\<not> hasIdleThreads (pool_sched s)"
    and "task_doroutine (task_of fc thr) \<noteq> None \<or> task_func (task_of fc thr) \<noteq> None"
  shows "(pool_step T may)\<^sup>*\<^sup>* s (with_sched ((pool_sched s)\<lparr>m_tasks := [task_of fc thr]\<rparr>) s)"
proof -
  have 1: "pool_step T may s (pool_submit fc thr s)" by (rule pool_step.submit [of may s fc thr, OF assms(1)])
  let ?s = "pool_submit fc thr s"
  have "pool_step T may ?s (?s\<lparr>q_checks := q_checks ?s - 1, q_rings := q_rings ?s + of_bool (hasIdleThreads (pool_sched ?s))\<rparr>)"
    by (rule pool_step.check) (simp add: pool_submit_def schedule_def scheduleNoLock_def assms(2) Let_def)
  moreover have "?s\<lparr>q_checks := q_checks ?s - 1, q_rings := q_rings ?s + of_bool (hasIdleThreads (pool_sched ?s))\<rparr>
      = with_sched ((pool_sched s)\<lparr>m_tasks := [task_of fc thr]\<rparr>) s"
    using assms(2-4) by (simp add: pool_submit_def schedule_def scheduleNoLock_def with_sched_def hasIdleThreads_def Let_def)
  ultimately show ?thesis using 1 by (simp add: rtranclp.rtrancl_into_rtrancl)
qed

text \<open>
  (C26) A lost wake-up: the only thread scans the empty queue; a function is submitted, and
  \<open>tickle\<close> does not write to the pipe because no thread is counted idle yet; then the thread
  counts itself idle and sleeps in \<open>epoll_wait\<close> for five seconds over the queued task. Nor do
  later submissions wake it: they see a queue that is not empty and do not call \<open>tickle\<close>.
\<close>

theorem wakeup_lost:
  assumes "pool_start {tid} s" and "m_timers (io_timers (q_iom s)) = []"
  shows "\<exists>s'. (pool_step {tid} open_only)\<^sup>*\<^sup>* s s' \<and> q_pc s' tid = Polls 5000
    \<and> m_tasks (pool_sched s') = [task_of (Cb (Some f)) (- 1)] \<and> left_asleep {tid} s'"
proof -
  have s: "m_tasks (pool_sched s) = []" "m_idleThreadCount (pool_sched s) = 0" "\<not> m_stopping (pool_sched s)"
    "q_pc s tid = Scans" "\<not> q_done s tid" "\<not> q_ready s" "q_checks s = 0" "q_rings s = 0"
    using assms(1) by (auto simp: pool_start_def)
  let ?t = "task_of (Cb (Some f)) (- 1)"
  define s1 where "s1 = (goes tid Empty_handed s)\<lparr>q_missed := False\<rparr>"
  define s2 where "s2 = with_sched ((pool_sched s1)\<lparr>m_tasks := [?t]\<rparr>) s1"
  have 1: "pool_step {tid} open_only s s1" unfolding s1_def by (rule scan_empty) (simp_all add: s)
  have 2: "(pool_step {tid} open_only)\<^sup>*\<^sup>* s1 s2" unfolding s2_def
    by (rule unheeded) (simp_all add: s1_def s open_only_def open_task_def hasIdleThreads_def)
  have 3: "(pool_step {tid} open_only)\<^sup>*\<^sup>* s2 (asleep tid s2)"
    by (rule falls_asleep) (simp_all add: s2_def s1_def s assms(2))
  have "unheard {tid} (asleep tid s2)" by (simp add: unheard_def s2_def s1_def s)
  moreover have "m_tasks (pool_sched (asleep tid s2)) = [?t]" by (simp add: s2_def)
  ultimately show ?thesis using 1 2 3 unheard_asleep
    by (intro exI [of _ "asleep tid s2"]) (auto intro: converse_rtranclp_into_rtranclp rtranclp_trans)
qed

text \<open>
  (C27) A task pinned to a busy thread silences the ones that come after it. Two threads, no
  timers: \<open>a\<close> works, a task for \<open>a\<close> is queued, and \<open>b\<close> skips it in its scan and polls for five
  seconds. A function submitted now, which \<open>b\<close> could run, wakes nobody, and neither do
  later ones: \<open>schedule\<close> calls \<open>tickle\<close> only when the queue was empty.
\<close>

theorem pinned_blocks_wakeup:
  assumes "pool_start {a, b} s" and "a \<noteq> b" and "a \<noteq> - 1" and "m_timers (io_timers (q_iom s)) = []"
  shows "\<exists>s' x. (pool_step {a, b} (\<lambda>s t. True))\<^sup>*\<^sup>* s s' \<and> q_pc s' a = Works x \<and> q_pc s' b = Polls 5000
    \<and> m_tasks (pool_sched s') = [task_of (Cb (Some g)) a, task_of (Cb (Some f)) (- 1)]
    \<and> eligible b (q_state s') (task_of (Cb (Some f)) (- 1)) \<and> hasIdleThreads (pool_sched s') \<and> left_asleep {a, b} s'"
proof -
  have s: "m_tasks (pool_sched s) = []" "m_idleThreadCount (pool_sched s) = 0" "\<not> m_stopping (pool_sched s)"
    "q_pc s a = Scans" "q_pc s b = Scans" "\<not> q_done s b" "\<not> q_ready s" "q_checks s = 0" "q_rings s = 0"
    using assms(1) by (auto simp: pool_start_def)
  let ?R = "pool_step {a, b} (\<lambda>s t. True)"
  let ?t = "task_of (Cb (Some g)) a" and ?u = "task_of (Cb (Some f)) (- 1)"
  have trans: "?R\<^sup>*\<^sup>* x y \<Longrightarrow> ?R y z \<Longrightarrow> ?R\<^sup>*\<^sup>* x z" for x y z by (rule rtranclp.rtrancl_into_rtrancl)
  \<comment> \<open>\<open>a\<close> takes \<open>f\<close>.\<close>
  define s1 where "s1 = with_sched ((pool_sched s)\<lparr>m_tasks := [?u]\<rparr>) s"
  define s2 where "s2 = (goes a (Works ?u) (with_sched ((pool_sched s)\<lparr>m_tasks := [],
      m_activeThreadCount := m_activeThreadCount (pool_sched s) + 1\<rparr>) s))\<lparr>q_missed := False\<rparr>"
  have 1: "?R\<^sup>*\<^sup>* s s1" unfolding s1_def by (rule unheeded) (simp_all add: s hasIdleThreads_def)
  have "?R s1 (pool_scan a s1)" by (rule pool_step.scan) (simp_all add: s1_def s)
  moreover have "pool_scan a s1 = s2"
    by (simp add: s1_def s2_def pool_scan_def take_task_def scan_Cons eligible_def goes_def with_sched_def)
  ultimately have 2: "?R\<^sup>*\<^sup>* s s2" using trans [OF 1] by simp
  \<comment> \<open>The task for \<open>a\<close> comes before \<open>b\<close> is counted idle, and \<open>b\<close> skips it.\<close>
  define s3 where "s3 = with_sched ((pool_sched s2)\<lparr>m_tasks := [?t]\<rparr>) s2"
  define s4 where "s4 = (goes b (Nudges None) s3)\<lparr>q_missed := False\<rparr>"
  have 3: "?R\<^sup>*\<^sup>* s2 s3" unfolding s3_def by (rule unheeded) (simp_all add: s2_def s hasIdleThreads_def)
  have "pool_scan b s3 = s4" using assms(2,3)
    by (simp add: s4_def s3_def s2_def pool_scan_def take_task_def scan_Cons scan_tasks.simps eligible_def goes_def with_sched_def)
  moreover have "?R s3 (pool_scan b s3)" by (rule pool_step.scan) (use assms(2) in \<open>simp_all add: s3_def s2_def s\<close>)
  ultimately have "?R\<^sup>*\<^sup>* s s4" using trans [OF rtranclp_trans [OF 2 3]] by simp
  moreover have "?R s4 (goes b Empty_handed s4)"
    using pool_step.nudge [of b "{a, b}" s4 None "\<lambda>s t. True"] by (simp add: s4_def s3_def s2_def s hasIdleThreads_def)
  moreover have "?R\<^sup>*\<^sup>* (goes b Empty_handed s4) (asleep b (goes b Empty_handed s4))"
    by (rule falls_asleep) (use assms(2,4) in \<open>simp_all add: s4_def s3_def s2_def s\<close>)
  ultimately have 4: "?R\<^sup>*\<^sup>* s (asleep b (goes b Empty_handed s4))" using trans rtranclp_trans by metis
  \<comment> \<open>Now \<open>f\<close> again.\<close>
  define s5 where "s5 = asleep b (goes b Empty_handed s4)"
  define s6 where "s6 = pool_submit (Cb (Some f)) (- 1) s5"
  have "?R s5 s6" unfolding s6_def by (rule pool_step.submit) simp
  then have 6: "?R\<^sup>*\<^sup>* s s6" using 4 trans by (simp add: s5_def)
  have q: "m_tasks (pool_sched s6) = [?t, ?u]" "q_pc s6 a = Works ?u" "q_pc s6 b = Polls 5000" "q_checks s6 = 0"
    "q_rings s6 = 0" "\<not> q_ready s6" "hasIdleThreads (pool_sched s6)" using assms(2)
    by (simp_all add: s6_def s5_def s4_def s3_def s2_def s pool_submit_def schedule_def scheduleNoLock_def hasIdleThreads_def Let_def)
  then have "unheard {a, b} s6" by (simp add: unheard_def)
  moreover have "eligible b (q_state s6) ?u" by (simp add: eligible_def)
  ultimately show ?thesis using 6 q unheard_asleep by blast
qed

section \<open>A timer that is not announced\<close>

text \<open>
  \<open>m_isTickled\<close> is set for good by the first timer that came to the front. From then on a new
  timer, however soon it is due, does not wake the thread that sleeps for five seconds.
\<close>

theorem timer_unannounced:
  assumes "pool_start {tid} s" and "m_timers (io_timers (q_iom s)) = []" and "m_isTickled (io_timers (q_iom s))"
    and "now < now + ms"
  shows "\<exists>s' mgr. (pool_step {tid} open_only)\<^sup>*\<^sup>* s s' \<and> q_pc s' tid = Polls 5000
    \<and> addTimer p ms func repeat now (io_timers (q_iom s)) = Inr (False, mgr) \<and> io_timers (q_iom s') = mgr
    \<and> getNextTimer now mgr = ms \<and> \<not> called {tid} s'"
proof -
  have s: "m_tasks (pool_sched s) = []" "\<not> m_stopping (pool_sched s)" "q_pc s tid = Scans" "\<not> q_done s tid"
    "\<not> q_ready s" "q_checks s = 0" "q_rings s = 0"
    using assms(1) by (auto simp: pool_start_def)
  define s1 where "s1 = (goes tid Empty_handed s)\<lparr>q_missed := False\<rparr>"
  have "pool_step {tid} open_only s s1" unfolding s1_def by (rule scan_empty) (simp_all add: s)
  moreover have "(pool_step {tid} open_only)\<^sup>*\<^sup>* s1 (asleep tid s1)"
    by (rule falls_asleep) (simp_all add: s1_def s assms(2))
  ultimately have run: "(pool_step {tid} open_only)\<^sup>*\<^sup>* s (asleep tid s1)" by (rule converse_rtranclp_into_rtranclp)
  obtain mgr where mgr: "addTimer p ms func repeat now (io_timers (q_iom s)) = Inr (False, mgr)"
    "m_timers mgr = [p]" "t_next (tobj mgr p) = now + ms"
    using assms(2,3) by (simp add: addTimer_def addTimer_lck_def set_insert_def Timer_new_def Let_def)
  define s' where "s' = (asleep tid s1)\<lparr>q_iom := (q_iom (asleep tid s1))\<lparr>io_timers := mgr\<rparr>\<rparr>"
  have "pool_step {tid} open_only (asleep tid s1) s'" unfolding s'_def by (rule pool_step.other) simp
  then have "(pool_step {tid} open_only)\<^sup>*\<^sup>* s s'" using run by (rule rtranclp.rtrancl_into_rtrancl [rotated])
  moreover have "getNextTimer now mgr = ms" using mgr(2,3) assms(4) by (simp add: getNextTimer_def)
  moreover have "\<not> called {tid} s'" by (simp add: called_def s'_def s1_def s)
  ultimately show ?thesis using mgr(1) by (intro exI [of _ s'] exI [of _ mgr]) (simp add: s'_def)
qed

section \<open>Instances\<close>

lemma wakeup_lost_witness:
  "\<exists>s'. (pool_step {7} open_only)\<^sup>*\<^sup>* wit_pool s' \<and> q_pc s' 7 = Polls 5000
    \<and> m_tasks (pool_sched s') = [task_of (Cb (Some (Callback 3))) (- 1)] \<and> left_asleep {7} s'"
  by (rule wakeup_lost [OF wit_pool_start wit_pool_timers])

lemma pinned_blocks_wakeup_witness:
  "\<exists>s' x. (pool_step {7, 8} (\<lambda>s t. True))\<^sup>*\<^sup>* wit_pool s' \<and> q_pc s' 7 = Works x \<and> q_pc s' 8 = Polls 5000
    \<and> m_tasks (pool_sched s') = [task_of (Cb (Some (Callback 1))) 7, task_of (Cb (Some (Callback 2))) (- 1)]
    \<and> eligible 8 (q_state s') (task_of (Cb (Some (Callback (2 :: nat)))) (- 1)) \<and> hasIdleThreads (pool_sched s') \<and> left_asleep {7, 8} s'"
  by (rule pinned_blocks_wakeup [OF wit_pool_start _ _ wit_pool_timers]) simp_all

text \<open>The manager had a timer before, which is gone.\<close>

lemma timer_unannounced_witness:
  "\<exists>s' mgr. (pool_step {7} open_only)\<^sup>*\<^sup>* (wit_pool\<lparr>q_iom := (q_iom wit_pool)\<lparr>io_timers :=
        (io_timers (q_iom wit_pool))\<lparr>m_isTickled := True\<rparr>\<rparr>\<rparr>) s'
    \<and> q_pc s' 7 = Polls 5000 \<and> io_timers (q_iom s') = mgr \<and> getNextTimer 1000 mgr = 10 \<and> \<not> called {7} s'"
proof -
  let ?s = "wit_pool\<lparr>q_iom := (q_iom wit_pool)\<lparr>io_timers := (io_timers (q_iom wit_pool))\<lparr>m_isTickled := True\<rparr>\<rparr>\<rparr>"
  have "pool_start {7} ?s" "m_timers (io_timers (q_iom ?s)) = []" "m_isTickled (io_timers (q_iom ?s))"
    using wit_pool_start [of "{7}"] wit_pool_timers by (simp_all add: pool_start_def)
  from timer_unannounced [OF this, of 1000 10 0 None False] show ?thesis by auto
qed

end
