(* ===== verification/Hook.thy ===== *)
theory Hook
  imports FdManager IORuns "HOL-Library.Signed_Division"
begin

text \<open>
  The hooked system calls (\<open>include/hook.h\<close>, \<open>src/hook.cpp\<close>). A call made by a coroutine that
  would block registers the descriptor with the IO manager of the thread and yields; what
  happens until the coroutine is resumed is a parameter (a function of the state, so a yield always
  comes back here; the composed system cuts the calls at their yield instead), as are the original
  functions (\<open>read_f\<close> and the others, which \<open>dlsym\<close> finds) on an abstract kernel state.
\<close>

section \<open>Data\<close>

text \<open>An original function with its arguments: the result, \<open>errno\<close> if it failed, and the kernel.\<close>

type_synonym 'k syscall = "'k \<Rightarrow> int \<times> int \<times> 'k"

datatype va_arg = NoArg | IntArg u32 | PtrArg nat

text \<open>The arguments of pointer type are addresses; what lies there is part of the kernel state.\<close>

record 'k orig_funs =
  sleep_f :: "u32 \<Rightarrow> 'k syscall"
  usleep_f :: "u32 \<Rightarrow> 'k syscall"
  nanosleep_f :: "int \<times> int \<Rightarrow> nat \<Rightarrow> 'k syscall"
  socket_f :: "int \<Rightarrow> int \<Rightarrow> int \<Rightarrow> 'k syscall"
  connect_f :: "int \<Rightarrow> nat \<Rightarrow> u32 \<Rightarrow> 'k syscall"
  accept_f :: "int \<Rightarrow> nat \<Rightarrow> nat \<Rightarrow> 'k syscall"
  read_f :: "int \<Rightarrow> nat \<Rightarrow> u64 \<Rightarrow> 'k syscall"
  readv_f :: "int \<Rightarrow> nat \<Rightarrow> int \<Rightarrow> 'k syscall"
  recv_f :: "int \<Rightarrow> nat \<Rightarrow> u64 \<Rightarrow> int \<Rightarrow> 'k syscall"
  recvfrom_f :: "int \<Rightarrow> nat \<Rightarrow> u64 \<Rightarrow> int \<Rightarrow> nat \<Rightarrow> nat \<Rightarrow> 'k syscall"
  recvmsg_f :: "int \<Rightarrow> nat \<Rightarrow> int \<Rightarrow> 'k syscall"
  write_f :: "int \<Rightarrow> nat \<Rightarrow> u64 \<Rightarrow> 'k syscall"
  writev_f :: "int \<Rightarrow> nat \<Rightarrow> int \<Rightarrow> 'k syscall"
  send_f :: "int \<Rightarrow> nat \<Rightarrow> u64 \<Rightarrow> int \<Rightarrow> 'k syscall"
  sendto_f :: "int \<Rightarrow> nat \<Rightarrow> u64 \<Rightarrow> int \<Rightarrow> nat \<Rightarrow> u32 \<Rightarrow> 'k syscall"
  sendmsg_f :: "int \<Rightarrow> nat \<Rightarrow> int \<Rightarrow> 'k syscall"
  close_f :: "int \<Rightarrow> 'k syscall"
  fcntl_f :: "int \<Rightarrow> int \<Rightarrow> va_arg \<Rightarrow> 'k syscall"
  ioctl_f :: "int \<Rightarrow> u64 \<Rightarrow> nat \<Rightarrow> 'k syscall"
  getsockopt_f :: "int \<Rightarrow> int \<Rightarrow> int \<Rightarrow> 'k \<Rightarrow> (int \<times> int) \<times> int \<times> 'k"
  setsockopt_f :: "int \<Rightarrow> int \<Rightarrow> int \<Rightarrow> nat \<Rightarrow> u32 \<Rightarrow> 'k syscall"
  fstat_f :: "int \<Rightarrow> 'k \<Rightarrow> u32 option"
  int_at :: "nat \<Rightarrow> 'k \<Rightarrow> int"
  timeval_at :: "nat \<Rightarrow> 'k \<Rightarrow> int \<times> int"
  clock_ms :: "'k \<Rightarrow> u64"

definition EINTR :: int where "EINTR = 4"
definition EBADF :: int where "EBADF = 9"
definition EAGAIN :: int where "EAGAIN = 11"
definition ETIMEDOUT :: int where "ETIMEDOUT = 110"
definition EINPROGRESS :: int where "EINPROGRESS = 115"

text \<open>
  The closures the hooks store in timers and queues: the time-out callback of \<open>do_io\<close> and
  \<open>connect_with_timeout\<close> (with the address of the \<open>timerInfo\<close> it refers to weakly, the
  descriptor, the IO manager and the event), \<open>schedule\<close> bound to an IO manager and a
  coroutine, and functions of the user.
\<close>

datatype 'u hook_fn = TimeoutFn nat int nat u32 | WakeFn nat "nat option" | UserFn 'u

text \<open>
  The state a hooked call works on: the thread-local flag, the IO managers, the descriptor
  contexts, the \<open>cancelled\<close> fields of the live \<open>timerInfo\<close> objects, the next free address,
  \<open>errno\<close> and the kernel.
\<close>

record ('u, 'k) hook_state =
  st_hookEnable :: bool
  h_world :: "'u hook_fn world"
  h_fds :: FdManager
  h_tinfo :: "nat \<Rightarrow> int option"
  h_next :: nat
  h_errno :: int
  h_kernel :: 'k

text \<open>
  The surroundings of a call: the thread-locals, what \<open>epoll_ctl\<close> answers and the \<open>errno\<close> it
  leaves when it fails, the original functions, what happens during a \<open>yield\<close>, and what
  functions of the user do.
\<close>

record ('u, 'k) hook_env =
  he_thread :: thread_env
  he_ctl :: "ep_op \<Rightarrow> int \<Rightarrow> u32 \<Rightarrow> int"
  he_ctl_errno :: int
  he_orig :: "'k orig_funs"
  he_yield :: "('u, 'k) hook_state \<Rightarrow> fault + ('u, 'k) hook_state"
  he_user :: "'u \<Rightarrow> ('u, 'k) hook_state \<Rightarrow> fault + ('u, 'k) hook_state"

definition isHookEnable :: "('u, 'k) hook_state \<Rightarrow> bool" where
  "isHookEnable s = st_hookEnable s"

definition setHookEnable :: "bool \<Rightarrow> ('u, 'k) hook_state \<Rightarrow> ('u, 'k) hook_state" where
  "setHookEnable flag s = s\<lparr>st_hookEnable := flag\<rparr>"

section \<open>Access to the other components\<close>

definition call :: "'k syscall \<Rightarrow> ('u, 'k) hook_state \<Rightarrow> int \<times> ('u, 'k) hook_state" where
  "call f s = (let (n, err, k) = f (h_kernel s)
     in (n, s\<lparr>h_kernel := k, h_errno := (if n = - 1 then err else h_errno s)\<rparr>))"

definition F_GETFL :: int where "F_GETFL = 3"
definition F_SETFL :: int where "F_SETFL = 4"

text \<open>The system calls \<open>FdCtx::init\<close> makes.\<close>

definition fd_calls_of :: "'k orig_funs \<Rightarrow> 'k fd_calls" where
  "fd_calls_of orig = \<lparr>sys_fstat = fstat_f orig,
     sys_getfl = (\<lambda>fd k. word_of_int (fst (fcntl_f orig fd F_GETFL (IntArg 0) k))),
     sys_setfl = (\<lambda>fd v k. snd (snd (fcntl_f orig fd F_SETFL (IntArg v) k)))\<rparr>"

definition fd_get ::
  "('u, 'k) hook_env \<Rightarrow> int \<Rightarrow> bool \<Rightarrow> ('u, 'k) hook_state \<Rightarrow> fault + nat option \<times> ('u, 'k) hook_state" where
  "fd_get env fd autoCreate s =
     rbind (get (h_next s) (fd_calls_of (he_orig env)) fd autoCreate (h_fds s, h_kernel s)) (\<lambda>(c, mgr, k).
       Inr (c, s\<lparr>h_fds := mgr, h_kernel := k, h_next := (if autoCreate then h_next s + 1 else h_next s)\<rparr>))"

text \<open>\<open>IOManager::GetThis()\<close>, dereferenced.\<close>

definition this_iom :: "('u, 'k) hook_env \<Rightarrow> ('u, 'k) hook_state \<Rightarrow> fault + nat" where
  "this_iom env s = (case GetThis (he_thread env) (h_world s) of None \<Rightarrow> Inl NullDeref | Some i \<Rightarrow> Inr i)"

definition put_fd_ctx :: "nat \<Rightarrow> FdCtx \<Rightarrow> ('u, 'k) hook_state \<Rightarrow> ('u, 'k) hook_state" where
  "put_fd_ctx c x s = s\<lparr>h_fds := (h_fds s)\<lparr>fobj := (fobj (h_fds s))(c := x)\<rparr>\<rparr>"

text \<open>A new timer of an IO manager; the result holds the address of the timer.\<close>

definition add_timer ::
  "('u, 'k) hook_env \<Rightarrow> nat \<Rightarrow> u64 \<Rightarrow> 'u hook_fn fn \<Rightarrow> ('u, 'k) hook_state \<Rightarrow> fault + nat \<times> ('u, 'k) hook_state" where
  "add_timer env i ms cb s =
     rbind (io_addTimer i (h_next s) ms (Some cb) False (clock_ms (he_orig env) (h_kernel s)) (h_world s)) (\<lambda>w.
       Inr (h_next s, s\<lparr>h_world := w, h_next := h_next s + 1\<rparr>))"

text \<open>\<open>if (timer) timer->cancel()\<close> for a timer of the IO manager \<open>i\<close>.\<close>

definition cancel_timer ::
  "nat \<Rightarrow> nat option \<Rightarrow> ('u, 'k) hook_state \<Rightarrow> fault + ('u, 'k) hook_state" where
  "cancel_timer i timer s =
     (case timer of None \<Rightarrow> Inr s
      | Some p \<Rightarrow> rbind (iom_at i (h_world s)) (\<lambda>m.
          rbind (cancel p (io_timers m)) (\<lambda>(_, ts).
            Inr (s\<lparr>h_world := put_iom i (m\<lparr>io_timers := ts\<rparr>) (h_world s)\<rparr>))))"

section \<open>Blocking calls\<close>

text \<open>The loop that repeats a call as long as it is interrupted by a signal.\<close>

partial_function (option) call_eintr ::
  "'k syscall \<Rightarrow> ('u, 'k) hook_state \<Rightarrow> (int \<times> ('u, 'k) hook_state) option" where
  "call_eintr f s =
     (let (n, s1) = call f s
      in if n = - 1 \<and> h_errno s1 = EINTR then call_eintr f s1 else Some (n, s1))"

text \<open>
  What \<open>do_io\<close> does on \<open>EAGAIN\<close>: it arms the timer, registers the coroutine, yields, and after
  the coroutine was resumed either starts over (\<open>None\<close>) or returns a value.
\<close>

definition wait_event ::
  "('u, 'k) hook_env \<Rightarrow> int \<Rightarrow> u32 \<Rightarrow> u64 \<Rightarrow> nat \<Rightarrow> ('u, 'k) hook_state
    \<Rightarrow> fault + int option \<times> ('u, 'k) hook_state" where
  "wait_event env fd event to t s =
     rbind (this_iom env s) (\<lambda>i.
     rbind (if to \<noteq> - 1
            then rbind (add_timer env i to (OnTimerBind t (Some (TimeoutFn t fd i event))) s)
                   (\<lambda>(p, s1). Inr (Some p, s1))
            else Inr (None, s)) (\<lambda>(timer, s1).
     rbind (addEvent (he_thread env) (he_ctl env) i fd event None False (h_world s1)) (\<lambda>(rt, w).
     let s2 = s1\<lparr>h_world := w\<rparr>
     in if rt = 0 then
          rbind (he_yield env s2) (\<lambda>s3.
          rbind (cancel_timer i timer s3) (\<lambda>s4.
            case h_tinfo s4 t of
              None \<Rightarrow> Inl Undefined
            | Some cancelled \<Rightarrow>
                if cancelled \<noteq> 0 then Inr (Some (- 1), s4\<lparr>h_errno := cancelled\<rparr>)
                else Inr (None, s4)))
        else rbind (cancel_timer i timer s2) (\<lambda>s3.
               Inr (Some (- 1), s3\<lparr>h_errno := he_ctl_errno env\<rparr>)))))"

partial_function (option) do_io_loop ::
  "('u, 'k) hook_env \<Rightarrow> 'k syscall \<Rightarrow> int \<Rightarrow> u32 \<Rightarrow> u64 \<Rightarrow> nat \<Rightarrow> ('u, 'k) hook_state
    \<Rightarrow> (fault + int \<times> ('u, 'k) hook_state) option" where
  "do_io_loop env f fd event to t s =
     (case call_eintr f s of
        None \<Rightarrow> None
      | Some (n, s1) \<Rightarrow>
          if n = - 1 \<and> h_errno s1 = EAGAIN then
            (case wait_event env fd event to t s1 of
               Inl e \<Rightarrow> Some (Inl e)
             | Inr (Some r, s2) \<Rightarrow> Some (Inr (r, s2))
             | Inr (None, s2) \<Rightarrow> do_io_loop env f fd event to t s2)
          else Some (Inr (n, s1)))"

text \<open>The \<open>timerInfo\<close> of a call is destroyed when the call returns.\<close>

definition drop_tinfo ::
  "nat \<Rightarrow> fault + int \<times> ('u, 'k) hook_state \<Rightarrow> fault + int \<times> ('u, 'k) hook_state" where
  "drop_tinfo t r = rbind r (\<lambda>(n, s). Inr (n, s\<lparr>h_tinfo := (h_tinfo s)(t := None)\<rparr>))"

definition new_tinfo :: "('u, 'k) hook_state \<Rightarrow> ('u, 'k) hook_state" where
  "new_tinfo s = s\<lparr>h_tinfo := (h_tinfo s)(h_next s \<mapsto> 0), h_next := h_next s + 1\<rparr>"

definition do_io ::
  "('u, 'k) hook_env \<Rightarrow> int \<Rightarrow> 'k syscall \<Rightarrow> u32 \<Rightarrow> int \<Rightarrow> ('u, 'k) hook_state
    \<Rightarrow> (fault + int \<times> ('u, 'k) hook_state) option" where
  "do_io env fd f event timeout_so s =
     (if \<not> st_hookEnable s then Some (Inr (call f s))
      else case fd_get env fd False s of
        Inl e \<Rightarrow> Some (Inl e)
      | Inr (None, s1) \<Rightarrow> Some (Inr (call f s1))
      | Inr (Some c, s1) \<Rightarrow>
          (let ctx = fobj (h_fds s1) c
           in if isClose ctx then Some (Inr (- 1, s1\<lparr>h_errno := EBADF\<rparr>))
              else if \<not> isSocket ctx \<or> getUserNonblock ctx then Some (Inr (call f s1))
              else map_option (drop_tinfo (h_next s1))
                (do_io_loop env f fd event (getTimeout timeout_so ctx) (h_next s1) (new_tinfo s1))))"

text \<open>The callback of the time-out timer, and every function the scheduler takes from its queue.\<close>

definition timeout_fn ::
  "('u, 'k) hook_env \<Rightarrow> nat \<Rightarrow> int \<Rightarrow> nat \<Rightarrow> u32 \<Rightarrow> ('u, 'k) hook_state \<Rightarrow> fault + ('u, 'k) hook_state" where
  "timeout_fn env winfo fd iom event s =
     (case h_tinfo s winfo of
        None \<Rightarrow> Inr s
      | Some cancelled \<Rightarrow>
          if cancelled \<noteq> 0 then Inr s
          else rbind (cancelEvent (he_thread env) (he_ctl env) iom fd event (h_world s)) (\<lambda>(_, w).
            Inr (s\<lparr>h_tinfo := (h_tinfo s)(winfo \<mapsto> ETIMEDOUT), h_world := w\<rparr>)))"

definition run_fn ::
  "('u, 'k) hook_env \<Rightarrow> 'u hook_fn fn \<Rightarrow> ('u, 'k) hook_state \<Rightarrow> fault + ('u, 'k) hook_state" where
  "run_fn env cb s =
     rbind (run_callback (\<lambda>t. h_tinfo s t \<noteq> None) cb) (\<lambda>r.
     case r of
       None \<Rightarrow> Inr s
     | Some (TimeoutFn t fd i event) \<Rightarrow> timeout_fn env t fd i event s
     | Some (WakeFn i d) \<Rightarrow> rbind (schedule_to (Some i) (Dor d) (- 1) (h_world s)) (\<lambda>w. Inr (s\<lparr>h_world := w\<rparr>))
     | Some (UserFn u) \<Rightarrow> he_user env u s)"

text \<open>The calls that are \<open>do_io\<close> of an original function.\<close>

definition read where
  "read env fd buf nbytes = do_io env fd (read_f (he_orig env) fd buf nbytes) EV_READ SO_RCVTIMEO"

definition readv where
  "readv env fd iov iovcnt = do_io env fd (readv_f (he_orig env) fd iov iovcnt) EV_READ SO_RCVTIMEO"

definition recv where
  "recv env sockfd buf len flags = do_io env sockfd (recv_f (he_orig env) sockfd buf len flags) EV_READ SO_RCVTIMEO"

definition recvfrom where
  "recvfrom env sockfd buf len flags src_addr addrlen =
     do_io env sockfd (recvfrom_f (he_orig env) sockfd buf len flags src_addr addrlen) EV_READ SO_RCVTIMEO"

definition recvmsg where
  "recvmsg env sockfd msg flags = do_io env sockfd (recvmsg_f (he_orig env) sockfd msg flags) EV_READ SO_RCVTIMEO"

definition write_io where
  "write_io env fd buf nbytes = do_io env fd (write_f (he_orig env) fd buf nbytes) EV_WRITE SO_SNDTIMEO"

definition writev where
  "writev env fd iov iovcnt = do_io env fd (writev_f (he_orig env) fd iov iovcnt) EV_WRITE SO_SNDTIMEO"

definition send where
  "send env s msg len flags = do_io env s (send_f (he_orig env) s msg len flags) EV_WRITE SO_SNDTIMEO"

definition sendto where
  "sendto env s msg len flags to tolen =
     do_io env s (sendto_f (he_orig env) s msg len flags to tolen) EV_WRITE SO_SNDTIMEO"

definition sendmsg where
  "sendmsg env s msg flags = do_io env s (sendmsg_f (he_orig env) s msg flags) EV_WRITE SO_SNDTIMEO"

text \<open>\<open>accept\<close> creates a context for the descriptor it returns, also when hooks are disabled.\<close>

definition accept ::
  "('u, 'k) hook_env \<Rightarrow> int \<Rightarrow> nat \<Rightarrow> nat \<Rightarrow> ('u, 'k) hook_state
    \<Rightarrow> (fault + int \<times> ('u, 'k) hook_state) option" where
  "accept env s addr addrlen st =
     map_option (\<lambda>r. rbind r (\<lambda>(fd, s1).
       if fd \<ge> 0 then rbind (fd_get env fd True s1) (\<lambda>(_, s2). Inr (fd, s2)) else Inr (fd, s1)))
     (do_io env s (accept_f (he_orig env) s addr addrlen) EV_READ SO_RCVTIMEO st)"

section \<open>Sleeping\<close>

text \<open>What the three hooks share: a timer of the thread's IO manager wakes the coroutine.\<close>

definition sleep_ms ::
  "('u, 'k) hook_env \<Rightarrow> u64 \<Rightarrow> ('u, 'k) hook_state \<Rightarrow> fault + int \<times> ('u, 'k) hook_state" where
  "sleep_ms env ms s =
     rbind (this_iom env s) (\<lambda>i.
     rbind (add_timer env i ms (Callback (WakeFn i (th_dor (he_thread env)))) s) (\<lambda>(_, s1).
     rbind (he_yield env s1) (\<lambda>s2. Inr (0, s2))))"

definition sleep ::
  "('u, 'k) hook_env \<Rightarrow> u32 \<Rightarrow> ('u, 'k) hook_state \<Rightarrow> fault + int \<times> ('u, 'k) hook_state" where
  "sleep env seconds s =
     (if \<not> st_hookEnable s then Inr (call (sleep_f (he_orig env) seconds) s)
      else sleep_ms env (ucast (seconds * 1000)) s)"

definition usleep ::
  "('u, 'k) hook_env \<Rightarrow> u32 \<Rightarrow> ('u, 'k) hook_state \<Rightarrow> fault + int \<times> ('u, 'k) hook_state" where
  "usleep env usec s =
     (if \<not> st_hookEnable s then Inr (call (usleep_f (he_orig env) usec) s)
      else sleep_ms env (ucast (usec div 1000)) s)"

text \<open>
  The sum is computed in \<open>long\<close> (its overflow is undefined), truncated to \<open>int\<close> and converted
  to the \<open>uint64_t\<close> parameter of \<open>addTimer\<close>.
\<close>

definition nanosleep ::
  "('u, 'k) hook_env \<Rightarrow> int \<times> int \<Rightarrow> nat \<Rightarrow> ('u, 'k) hook_state \<Rightarrow> fault + int \<times> ('u, 'k) hook_state" where
  "nanosleep env req rem s =
     (if \<not> st_hookEnable s then Inr (call (nanosleep_f (he_orig env) req rem) s)
      else
        (let (tv_sec, tv_nsec) = req;
             total = tv_sec * 1000 + tv_nsec sdiv 1000 sdiv 1000
         in if tv_sec * 1000 < - (2 ^ 63) \<or> 2 ^ 63 \<le> tv_sec * 1000 \<or> total < - (2 ^ 63) \<or> 2 ^ 63 \<le> total
            then Inl Undefined
            else sleep_ms env (word_of_int (sint (word_of_int total :: u32))) s))"

section \<open>Sockets\<close>

definition socket ::
  "('u, 'k) hook_env \<Rightarrow> int \<Rightarrow> int \<Rightarrow> int \<Rightarrow> ('u, 'k) hook_state \<Rightarrow> fault + int \<times> ('u, 'k) hook_state" where
  "socket env domain type protocol s =
     (if \<not> st_hookEnable s then Inr (call (socket_f (he_orig env) domain type protocol) s)
      else
        (let (fd, s1) = call (socket_f (he_orig env) domain type protocol) s
         in if fd = - 1 then Inr (fd, s1)
            else rbind (fd_get env fd True s1) (\<lambda>(_, s2). Inr (fd, s2))))"

definition SOL_SOCKET :: int where "SOL_SOCKET = 1"
definition SO_ERROR :: int where "SO_ERROR = 4"

definition getsockopt ::
  "('u, 'k) hook_env \<Rightarrow> int \<Rightarrow> int \<Rightarrow> int \<Rightarrow> ('u, 'k) hook_state \<Rightarrow> (int \<times> int) \<times> ('u, 'k) hook_state" where
  "getsockopt env sockfd level optname s =
     (let ((rt, v), err, k) = getsockopt_f (he_orig env) sockfd level optname (h_kernel s)
      in ((rt, v), s\<lparr>h_kernel := k, h_errno := (if rt = - 1 then err else h_errno s)\<rparr>))"

text \<open>
  The part of \<open>connect_with_timeout\<close> from \<open>EINPROGRESS\<close> to the read of \<open>SO_ERROR\<close>: \<open>Some r\<close> when it
  returns. The variable \<open>timer\<close> is never assigned, so nothing is cancelled at the end.
\<close>

definition connect_wait ::
  "('u, 'k) hook_env \<Rightarrow> int \<Rightarrow> u64 \<Rightarrow> nat \<Rightarrow> ('u, 'k) hook_state
    \<Rightarrow> fault + int option \<times> ('u, 'k) hook_state" where
  "connect_wait env fd timeout_ms t s =
     rbind (this_iom env s) (\<lambda>i.
     rbind (if timeout_ms \<noteq> - 1
            then rbind (add_timer env i timeout_ms (OnTimerBind t (Some (TimeoutFn t fd i EV_WRITE))) s)
                   (\<lambda>(_, s1). Inr s1)
            else Inr s) (\<lambda>s1.
     rbind (addEvent (he_thread env) (he_ctl env) i fd EV_WRITE None False (h_world s1)) (\<lambda>(rt, w).
     let s2 = s1\<lparr>h_world := w\<rparr>
     in if rt = 0 then
          rbind (he_yield env s2) (\<lambda>s3.
          rbind (cancel_timer i None s3) (\<lambda>s4.
            case h_tinfo s4 t of
              None \<Rightarrow> Inl Undefined
            | Some cancelled \<Rightarrow>
                if cancelled \<noteq> 0 then Inr (Some (- 1), s4\<lparr>h_errno := cancelled\<rparr>) else Inr (None, s4)))
        else rbind (cancel_timer i None s2) (\<lambda>s3. Inr (None, s3)))))"

definition connect_result ::
  "('u, 'k) hook_env \<Rightarrow> int \<Rightarrow> ('u, 'k) hook_state \<Rightarrow> int \<times> ('u, 'k) hook_state" where
  "connect_result env fd s =
     (let ((rt, error), s1) = getsockopt env fd SOL_SOCKET SO_ERROR s
      in if rt = - 1 then (- 1, s1)
         else if error = 0 then (0, s1)
         else (- 1, s1\<lparr>h_errno := error\<rparr>))"

definition connect_with_timeout ::
  "('u, 'k) hook_env \<Rightarrow> int \<Rightarrow> nat \<Rightarrow> u32 \<Rightarrow> u64 \<Rightarrow> ('u, 'k) hook_state
    \<Rightarrow> fault + int \<times> ('u, 'k) hook_state" where
  "connect_with_timeout env fd addr addrlen timeout_ms s =
     (if \<not> st_hookEnable s then Inr (call (connect_f (he_orig env) fd addr addrlen) s)
      else rbind (fd_get env fd False s) (\<lambda>(c, s1).
        case c of
          None \<Rightarrow> Inr (- 1, s1\<lparr>h_errno := EBADF\<rparr>)
        | Some p \<Rightarrow>
            (let ctx = fobj (h_fds s1) p
             in if isClose ctx then Inr (- 1, s1\<lparr>h_errno := EBADF\<rparr>)
                else if \<not> isSocket ctx then Inr (call (connect_f (he_orig env) fd addr addrlen) s1)
                else if getUserNonblock ctx then Inr (call (connect_f (he_orig env) fd addr addrlen) s1)
                else
                  (let (n, s2) = call (connect_f (he_orig env) fd addr addrlen) s1
                   in if n = 0 then Inr (0, s2)
                      else if n \<noteq> - 1 \<or> h_errno s2 \<noteq> EINPROGRESS then Inr (n, s2)
                      else drop_tinfo (h_next s2)
                        (rbind (connect_wait env fd timeout_ms (h_next s2) (new_tinfo s2)) (\<lambda>(r, s3).
                           case r of Some v \<Rightarrow> Inr (v, s3) | None \<Rightarrow> Inr (connect_result env fd s3)))))))"

definition s_connect_timeout :: u64 where "s_connect_timeout = 5000"

definition connect ::
  "('u, 'k) hook_env \<Rightarrow> int \<Rightarrow> nat \<Rightarrow> u32 \<Rightarrow> ('u, 'k) hook_state \<Rightarrow> fault + int \<times> ('u, 'k) hook_state" where
  "connect env sockfd addr addrlen s = connect_with_timeout env sockfd addr addrlen s_connect_timeout s"

section \<open>Descriptors\<close>

definition close ::
  "('u, 'k) hook_env \<Rightarrow> int \<Rightarrow> ('u, 'k) hook_state \<Rightarrow> fault + int \<times> ('u, 'k) hook_state" where
  "close env fd s =
     (if \<not> st_hookEnable s then Inr (call (close_f (he_orig env) fd) s)
      else rbind (fd_get env fd False s) (\<lambda>(c, s1).
        rbind (case c of
            None \<Rightarrow> Inr s1
          | Some _ \<Rightarrow>
              rbind (case GetThis (he_thread env) (h_world s1) of
                  None \<Rightarrow> Inr s1
                | Some i \<Rightarrow> rbind (cancelAll (he_thread env) (he_ctl env) i fd (h_world s1))
                    (\<lambda>(_, w). Inr (s1\<lparr>h_world := w\<rparr>))) (\<lambda>s2.
              rbind (delFd fd (h_fds s2)) (\<lambda>mgr. Inr (s2\<lparr>h_fds := mgr\<rparr>))))
          (\<lambda>s3. Inr (call (close_f (he_orig env) fd) s3))))"

definition int_of_flags :: "u32 \<Rightarrow> int" where "int_of_flags v = sint v"

text \<open>The context of a descriptor when it is an open socket: what \<open>fcntl\<close> and \<open>ioctl\<close> look at.\<close>

definition socket_ctx ::
  "('u, 'k) hook_env \<Rightarrow> int \<Rightarrow> ('u, 'k) hook_state \<Rightarrow> fault + (nat \<times> FdCtx) option \<times> ('u, 'k) hook_state" where
  "socket_ctx env fd s = rbind (fd_get env fd False s) (\<lambda>(c, s1).
     case c of None \<Rightarrow> Inr (None, s1)
     | Some p \<Rightarrow> (let ctx = fobj (h_fds s1) p
         in Inr (if isClose ctx \<or> \<not> isSocket ctx then None else Some (p, ctx), s1)))"

definition fcntl_setfl ::
  "('u, 'k) hook_env \<Rightarrow> int \<Rightarrow> u32 \<Rightarrow> ('u, 'k) hook_state \<Rightarrow> fault + int \<times> ('u, 'k) hook_state" where
  "fcntl_setfl env fd arg s = rbind (socket_ctx env fd s) (\<lambda>(c, s1).
     case c of
       None \<Rightarrow> Inr (call (fcntl_f (he_orig env) fd F_SETFL (IntArg arg)) s1)
     | Some (p, ctx) \<Rightarrow>
         (let ctx1 = setUserNonblock (arg AND O_NONBLOCK \<noteq> 0) ctx;
              arg1 = (if getSysNonblock ctx1 then arg OR O_NONBLOCK else arg AND NOT O_NONBLOCK)
          in Inr (call (fcntl_f (he_orig env) fd F_SETFL (IntArg arg1)) (put_fd_ctx p ctx1 s1))))"

definition fcntl_getfl ::
  "('u, 'k) hook_env \<Rightarrow> int \<Rightarrow> ('u, 'k) hook_state \<Rightarrow> fault + int \<times> ('u, 'k) hook_state" where
  "fcntl_getfl env fd s =
     (let (arg, s0) = call (fcntl_f (he_orig env) fd F_GETFL NoArg) s
      in rbind (socket_ctx env fd s0) (\<lambda>(c, s1).
           case c of
             None \<Rightarrow> Inr (arg, s1)
           | Some (p, ctx) \<Rightarrow>
               Inr (if getUserNonblock ctx then int_of_flags (word_of_int arg OR O_NONBLOCK)
                    else int_of_flags (word_of_int arg AND NOT O_NONBLOCK), s1)))"

text \<open>The commands of the other branches; the ones left out fall into \<open>default\<close>, like any unknown one.\<close>

definition fcntl_int_cmds :: "int list" where
  "fcntl_int_cmds = [0, 1030, 2, 8, 10, 1024, 1026, 1031]"

definition fcntl_void_cmds :: "int list" where
  "fcntl_void_cmds = [1, 9, 11, 1025, 1032]"

definition fcntl_lock_cmds :: "int list" where
  "fcntl_lock_cmds = [6, 7, 5]"

definition fcntl_owner_cmds :: "int list" where
  "fcntl_owner_cmds = [16, 15]"

text \<open>\<open>va_arg\<close> with a type that is not the one of the argument passed is undefined.\<close>

definition va_int :: "va_arg \<Rightarrow> fault + u32" where
  "va_int a = (case a of IntArg v \<Rightarrow> Inr v | _ \<Rightarrow> Inl Undefined)"

definition va_ptr :: "va_arg \<Rightarrow> fault + nat" where
  "va_ptr a = (case a of PtrArg v \<Rightarrow> Inr v | _ \<Rightarrow> Inl Undefined)"

definition fcntl ::
  "('u, 'k) hook_env \<Rightarrow> int \<Rightarrow> int \<Rightarrow> va_arg \<Rightarrow> ('u, 'k) hook_state \<Rightarrow> fault + int \<times> ('u, 'k) hook_state" where
  "fcntl env fd cmd va s =
     (if cmd = F_SETFL then rbind (va_int va) (\<lambda>arg. fcntl_setfl env fd arg s)
      else if cmd = F_GETFL then fcntl_getfl env fd s
      else if cmd \<in> set fcntl_int_cmds then
        rbind (va_int va) (\<lambda>arg. Inr (call (fcntl_f (he_orig env) fd cmd (IntArg arg)) s))
      else if cmd \<in> set fcntl_void_cmds then Inr (call (fcntl_f (he_orig env) fd cmd NoArg) s)
      else if cmd \<in> set fcntl_lock_cmds \<or> cmd \<in> set fcntl_owner_cmds then
        rbind (va_ptr va) (\<lambda>arg. Inr (call (fcntl_f (he_orig env) fd cmd (PtrArg arg)) s))
      else Inr (call (fcntl_f (he_orig env) fd cmd NoArg) s))"

definition FIONBIO :: u64 where "FIONBIO = 0x5421"

definition ioctl ::
  "('u, 'k) hook_env \<Rightarrow> int \<Rightarrow> u64 \<Rightarrow> nat \<Rightarrow> ('u, 'k) hook_state \<Rightarrow> fault + int \<times> ('u, 'k) hook_state" where
  "ioctl env d request arg s =
     (if FIONBIO = request then
        (let user_nonblock = (int_at (he_orig env) arg (h_kernel s) \<noteq> 0)
         in rbind (socket_ctx env d s) (\<lambda>(c, s1).
              case c of
                None \<Rightarrow> Inr (call (ioctl_f (he_orig env) d request arg) s1)
              | Some (p, ctx) \<Rightarrow> Inr (call (ioctl_f (he_orig env) d request arg)
                  (put_fd_ctx p (setUserNonblock user_nonblock ctx) s1))))
      else Inr (call (ioctl_f (he_orig env) d request arg) s))"

definition setsockopt ::
  "('u, 'k) hook_env \<Rightarrow> int \<Rightarrow> int \<Rightarrow> int \<Rightarrow> nat \<Rightarrow> u32 \<Rightarrow> ('u, 'k) hook_state
    \<Rightarrow> fault + int \<times> ('u, 'k) hook_state" where
  "setsockopt env sockfd level optname optval optlen s =
     (if \<not> st_hookEnable s then Inr (call (setsockopt_f (he_orig env) sockfd level optname optval optlen) s)
      else rbind (if level = SOL_SOCKET \<and> (optname = SO_RCVTIMEO \<or> optname = SO_SNDTIMEO)
          then rbind (fd_get env sockfd False s) (\<lambda>(c, s1).
            case c of
              None \<Rightarrow> Inr s1
            | Some p \<Rightarrow>
                (let (tv_sec, tv_usec) = timeval_at (he_orig env) optval (h_kernel s1);
                     v = tv_sec * 1000 + tv_usec sdiv 1000
                 in if tv_sec * 1000 < - (2 ^ 63) \<or> 2 ^ 63 \<le> tv_sec * 1000 \<or> v < - (2 ^ 63) \<or> 2 ^ 63 \<le> v
                    then Inl Undefined
                    else Inr (put_fd_ctx p (setTimeout optname (word_of_int v) (fobj (h_fds s1) p)) s1)))
          else Inr s)
        (\<lambda>s2. Inr (call (setsockopt_f (he_orig env) sockfd level optname optval optlen) s2)))"

end
