(* ===== verification/HookCalls.thy ===== *)
theory HookCalls
  imports Hook
begin

text \<open>
  Facts about the hooked calls: when they are the original call, what a hooked call can return,
  that the loop around an interrupted call ends, and what the time-out of a wait does.
\<close>

section \<open>Access to the other components\<close>

lemma call_frame [simp]:
  "st_hookEnable (snd (call f s)) = st_hookEnable s"
  "h_world (snd (call f s)) = h_world s"
  "h_fds (snd (call f s)) = h_fds s"
  "h_tinfo (snd (call f s)) = h_tinfo s"
  "h_next (snd (call f s)) = h_next s"
  by (simp_all add: call_def split: prod.splits)

lemma call_cases:
  obtains n err k where "f (h_kernel s) = (n, err, k)"
    and "call f s = (n, s\<lparr>h_kernel := k, h_errno := (if n = - 1 then err else h_errno s)\<rparr>)"
proof -
  obtain n err k where f: "f (h_kernel s) = (n, err, k)" by (cases "f (h_kernel s)")
  show thesis by (rule that [OF f]) (simp add: call_def f)
qed

lemma fd_get_eq [simp]:
  assumes "valid_fd fd" and "fdm_inv (h_fds s)"
  shows "fd_get env fd False s = Inr (slot fd (h_fds s), s)"
  by (simp add: fd_get_def get_eq [OF assms])

lemma slot_open:
  assumes "fdm_inv mgr" and "slot fd mgr = Some c"
  shows "\<not> isClose (fobj mgr c)"
  using assms by (auto simp: fdm_inv_def slot_def isClose_def split: if_splits)

lemma this_iom_eq: "this_iom env s = Inr i \<longleftrightarrow> GetThis (he_thread env) (h_world s) = Some i"
  by (simp add: this_iom_def split: option.split)

text \<open>The call is one that waits in user space: a socket, not made non-blocking by the user.\<close>

definition hooked :: "int \<Rightarrow> ('u, 'k) hook_state \<Rightarrow> bool" where
  "hooked fd s \<longleftrightarrow> st_hookEnable s \<and> (case slot fd (h_fds s) of None \<Rightarrow> False
     | Some c \<Rightarrow> isSocket (fobj (h_fds s) c) \<and> \<not> getUserNonblock (fobj (h_fds s) c))"

lemma do_io_hooked:
  assumes "valid_fd fd" and "fdm_inv (h_fds s)" and "hooked fd s"
  shows "do_io env fd f event so s = map_option (drop_tinfo (h_next s))
    (do_io_loop env f fd event (getTimeout so (fobj (h_fds s) (the (slot fd (h_fds s))))) (h_next s) (new_tinfo s))"
proof -
  obtain c where c: "slot fd (h_fds s) = Some c" using assms(3) by (auto simp: hooked_def split: option.splits)
  show ?thesis
    using fd_get_eq [OF assms(1,2), of env] c slot_open [OF assms(2) c] assms(3)
    by (simp add: do_io_def hooked_def Let_def)
qed

text \<open>
  (C7) Every other call is transparent: with hooks disabled, on a descriptor without a context, on
  one that is not a socket and on one the user made non-blocking, the hooked call makes exactly
  the original call once and changes nothing else. This is of the calls that are \<open>do_io\<close>, on
  descriptors from 0 to \<open>2 ^ 30 - 1\<close>; a hooked \<open>connect\<close> on a descriptor without a context fails with
  \<open>EBADF\<close> instead.
\<close>

theorem do_io_transparent:
  assumes "valid_fd fd" and "fdm_inv (h_fds s)" and "\<not> hooked fd s"
  shows "do_io env fd f event so s = Some (Inr (call f s))"
proof (cases "st_hookEnable s")
  case False
  then show ?thesis by (simp add: do_io_def)
next
  case True
  show ?thesis
  proof (cases "slot fd (h_fds s)")
    case None
    with True fd_get_eq [OF assms(1,2), of env] show ?thesis by (simp add: do_io_def)
  next
    case (Some c)
    with True fd_get_eq [OF assms(1,2), of env] slot_open [OF assms(2) Some] assms(3)
    show ?thesis by (auto simp: do_io_def hooked_def Let_def)
  qed
qed

section \<open>What a call can return\<close>

lemma call_eintr_outcome:
  assumes "call_eintr f s = Some (n, s1)"
  shows "\<exists>k err k'. f k = (n, err, k') \<and> h_kernel s1 = k' \<and> (n = - 1 \<longrightarrow> h_errno s1 = err \<and> err \<noteq> EINTR)
    \<and> s1 = s\<lparr>h_kernel := h_kernel s1, h_errno := h_errno s1\<rparr>"
proof -
  let ?P = "\<lambda>f s (n, s1). \<exists>k err k'. f k = (n, err, k') \<and> h_kernel s1 = k'
    \<and> (n = - 1 \<longrightarrow> h_errno s1 = err \<and> err \<noteq> EINTR) \<and> s1 = s\<lparr>h_kernel := h_kernel s1, h_errno := h_errno s1\<rparr>"
  have "?P f s (n, s1)"
  proof (rule call_eintr.raw_induct [where P = ?P, OF _ assms])
    fix rec f s r
    assume IH: "\<And>f s r. rec f s = Some r \<Longrightarrow> ?P f s r"
      and r: "(let (n, s1) = call f s in if n = - 1 \<and> h_errno s1 = EINTR then rec f s1 else Some (n, s1)) = Some r"
    obtain n err k where c: "f (h_kernel s) = (n, err, k)"
      "call f s = (n, s\<lparr>h_kernel := k, h_errno := (if n = - 1 then err else h_errno s)\<rparr>)" by (rule call_cases)
    show "?P f s r"
    proof (cases "n = - 1 \<and> err = EINTR")
      case True
      then have "rec f (s\<lparr>h_kernel := k, h_errno := err\<rparr>) = Some r" using r c(2) by simp
      from IH [OF this] show ?thesis by (cases r) simp
    next
      case False
      then have "r = (n, s\<lparr>h_kernel := k, h_errno := (if n = - 1 then err else h_errno s)\<rparr>)"
        using r c(2) by (auto split: if_splits)
      then show ?thesis using c(1) False by auto
    qed
  qed
  then show ?thesis by simp
qed

text \<open>The values \<open>cancelled\<close> can have.\<close>

definition tinfo_ok :: "('u, 'k) hook_state \<Rightarrow> bool" where
  "tinfo_ok s \<longleftrightarrow> (\<forall>t. h_tinfo s t \<in> {None, Some 0, Some ETIMEDOUT})"

definition keeps_tinfo :: "(('u, 'k) hook_state \<Rightarrow> fault + ('u, 'k) hook_state) \<Rightarrow> bool" where
  "keeps_tinfo act \<longleftrightarrow> (\<forall>s s'. act s = Inr s' \<and> tinfo_ok s \<longrightarrow> tinfo_ok s')"

lemma keeps_tinfoD: "keeps_tinfo act \<Longrightarrow> act s = Inr s' \<Longrightarrow> tinfo_ok s \<Longrightarrow> tinfo_ok s'"
  unfolding keeps_tinfo_def by blast

text \<open>The callbacks of the hooks respect it, so it holds as long as functions of the user do.\<close>

lemma run_fn_keeps_tinfo:
  assumes "\<And>u. keeps_tinfo (he_user env u)"
  shows "keeps_tinfo (run_fn env cb)"
  unfolding keeps_tinfo_def
proof (intro allI impI, elim conjE)
  fix s s' assume run: "run_fn env cb s = Inr s'" and ok: "tinfo_ok s"
  obtain r where r: "run_callback (\<lambda>t. h_tinfo s t \<noteq> None) cb = Inr r"
    using run by (cases "run_callback (\<lambda>t. h_tinfo s t \<noteq> None) cb") (auto simp: run_fn_def)
  show "tinfo_ok s'"
  proof (cases r)
    case None
    then show ?thesis using run r ok by (simp add: run_fn_def)
  next
    case (Some g)
    show ?thesis
    proof (cases g)
      case (UserFn u)
      then have "he_user env u s = Inr s'" using run r Some by (simp add: run_fn_def)
      then show ?thesis using keeps_tinfoD [OF assms _ ok] by blast
    next
      case (WakeFn i d)
      then have "h_tinfo s' = h_tinfo s" using run r Some by (auto simp: run_fn_def rbind_eq_Inr)
      then show ?thesis using ok by (simp add: tinfo_ok_def)
    next
      case (TimeoutFn t fd i e)
      then have "timeout_fn env t fd i e s = Inr s'" using run r Some by (simp add: run_fn_def)
      then have "h_tinfo s' = h_tinfo s \<or> h_tinfo s' = (h_tinfo s)(t \<mapsto> ETIMEDOUT)"
        by (auto simp: timeout_fn_def rbind_eq_Inr split: option.splits if_splits)
      then show ?thesis using ok by (elim disjE) (simp_all add: tinfo_ok_def)
    qed
  qed
qed

lemma cancel_timer_frame:
  assumes "cancel_timer i timer s = Inr s'"
  shows "h_tinfo s' = h_tinfo s" and "h_kernel s' = h_kernel s" and "h_errno s' = h_errno s"
    and "h_next s' = h_next s" and "h_fds s' = h_fds s" and "st_hookEnable s' = st_hookEnable s"
  using assms by (auto simp: cancel_timer_def rbind_eq_Inr split: option.splits)

lemma add_timer_frame:
  assumes "add_timer env i ms cb s = Inr (p, s')"
  shows "h_tinfo s' = h_tinfo s" and "h_kernel s' = h_kernel s" and "h_fds s' = h_fds s" and "p = h_next s"
    and "st_hookEnable s' = st_hookEnable s"
  using assms by (auto simp: add_timer_def rbind_eq_Inr)

lemma addEvent_arm_refused:
  assumes "addEvent_arm env ctl i p fd event func rep w = Inr (r, w')" and "r \<noteq> 0"
  shows "\<exists>op evs. ctl op fd evs = - 1"
  using assms by (auto simp: addEvent_arm_def rbind_eq_Inr Let_def split: if_splits)

lemma addEvent_refused:
  assumes "addEvent env ctl i fd event func rep w = Inr (r, w')" and "r \<noteq> 0"
  shows "\<exists>op evs. ctl op fd evs = - 1"
  using assms addEvent_arm_refused by (fastforce simp: addEvent_def rbind_eq_Inr split: option.splits)

text \<open>The steps of a wait that does not fault.\<close>

lemma wait_eventE:
  assumes "wait_event env fd event to t s = Inr (r, s')"
  obtains i timer s1 rt w where "this_iom env s = Inr i"
    and "h_tinfo s1 = h_tinfo s" and "h_kernel s1 = h_kernel s"
    and "addEvent (he_thread env) (he_ctl env) i fd event None False (h_world s1) = Inr (rt, w)"
    and "rt \<noteq> 0 \<and> r = Some (- 1) \<and> h_errno s' = he_ctl_errno env \<and> h_tinfo s' = h_tinfo s
      \<or> (\<exists>s3 s4 c. rt = 0 \<and> he_yield env (s1\<lparr>h_world := w\<rparr>) = Inr s3 \<and> cancel_timer i timer s3 = Inr s4
          \<and> h_tinfo s3 t = Some c \<and> (c = 0 \<and> r = None \<and> s' = s4
            \<or> c \<noteq> 0 \<and> r = Some (- 1) \<and> s' = s4\<lparr>h_errno := c\<rparr>))"
proof -
  obtain i where i: "this_iom env s = Inr i" using assms by (auto simp: wait_event_def rbind_eq_Inr)
  obtain timer s1 where a: "(if to \<noteq> - 1
            then rbind (add_timer env i to (OnTimerBind t (Some (TimeoutFn t fd i event))) s)
                   (\<lambda>(p, s1). Inr (Some p, s1))
            else Inr (None, s)) = Inr (timer, s1)"
    using assms i by (auto simp: wait_event_def rbind_eq_Inr)
  obtain rt w where e: "addEvent (he_thread env) (he_ctl env) i fd event None False (h_world s1) = Inr (rt, w)"
    using assms i a by (auto simp: wait_event_def rbind_eq_Inr)
  have f: "h_tinfo s1 = h_tinfo s" "h_kernel s1 = h_kernel s"
    using a add_timer_frame(1,2) by (auto simp: rbind_eq_Inr split: if_splits)
  let ?s2 = "s1\<lparr>h_world := w\<rparr>"
  have rest: "(if rt = 0 then
          rbind (he_yield env ?s2) (\<lambda>s3.
          rbind (cancel_timer i timer s3) (\<lambda>s4.
            case h_tinfo s4 t of
              None \<Rightarrow> Inl Undefined
            | Some cancelled \<Rightarrow>
                if cancelled \<noteq> 0 then Inr (Some (- 1), s4\<lparr>h_errno := cancelled\<rparr>)
                else Inr (None, s4)))
        else rbind (cancel_timer i timer ?s2) (\<lambda>s3.
               Inr (Some (- 1), s3\<lparr>h_errno := he_ctl_errno env\<rparr>))) = Inr (r, s')"
    using assms unfolding wait_event_def i rbind_simps a prod.case e Let_def .
  show thesis
  proof (rule that [OF i f e])
    show "rt \<noteq> 0 \<and> r = Some (- 1) \<and> h_errno s' = he_ctl_errno env \<and> h_tinfo s' = h_tinfo s
      \<or> (\<exists>s3 s4 c. rt = 0 \<and> he_yield env (s1\<lparr>h_world := w\<rparr>) = Inr s3 \<and> cancel_timer i timer s3 = Inr s4
          \<and> h_tinfo s3 t = Some c \<and> (c = 0 \<and> r = None \<and> s' = s4
            \<or> c \<noteq> 0 \<and> r = Some (- 1) \<and> s' = s4\<lparr>h_errno := c\<rparr>))"
    proof (cases "rt = 0")
      case True
      then obtain s3 s4 where y: "he_yield env ?s2 = Inr s3" "cancel_timer i timer s3 = Inr s4"
        and q: "(case h_tinfo s4 t of None \<Rightarrow> Inl Undefined | Some cancelled \<Rightarrow>
                if cancelled \<noteq> 0 then Inr (Some (- 1), s4\<lparr>h_errno := cancelled\<rparr>)
                else Inr (None, s4)) = Inr (r, s')"
        using rest by (auto simp: rbind_eq_Inr)
      have "h_tinfo s4 = h_tinfo s3" by (rule cancel_timer_frame(1) [OF y(2)])
      with True y q show ?thesis by (auto split: option.splits if_splits)
    next
      case False
      then obtain s3 where y: "cancel_timer i timer ?s2 = Inr s3"
        "r = Some (- 1)" "s' = s3\<lparr>h_errno := he_ctl_errno env\<rparr>" using rest by (auto simp: rbind_eq_Inr)
      with False cancel_timer_frame(1) [OF y(1)] f(1) show ?thesis by simp
    qed
  qed
qed

text \<open>
  The answers a hooked call gives: that of one call of the original function, neither \<open>EAGAIN\<close>
  nor \<open>EINTR\<close>; the time-out; or, when \<open>epoll_ctl\<close> refused the descriptor, its error.
\<close>

definition io_answer ::
  "('u, 'k) hook_env \<Rightarrow> 'k syscall \<Rightarrow> int \<Rightarrow> int \<times> ('u, 'k) hook_state \<Rightarrow> bool" where
  "io_answer env f fd r \<longleftrightarrow>
     (\<exists>k err k'. f k = (fst r, err, k') \<and> (fst r = - 1 \<longrightarrow> h_errno (snd r) = err \<and> err \<noteq> EINTR \<and> err \<noteq> EAGAIN))
     \<or> fst r = - 1 \<and> h_errno (snd r) = ETIMEDOUT
     \<or> fst r = - 1 \<and> h_errno (snd r) = he_ctl_errno env \<and> (\<exists>op evs. he_ctl env op fd evs = - 1)"

lemma wait_event_answer:
  assumes w: "wait_event env fd event to t s = Inr (r, s')" and ok: "tinfo_ok s" and y: "keeps_tinfo (he_yield env)"
  shows "case r of None \<Rightarrow> tinfo_ok s' | Some n \<Rightarrow> io_answer env f fd (n, s')"
proof (rule wait_eventE [OF w])
  fix i timer s1 rt wo
  assume f: "h_tinfo s1 = h_tinfo s"
    and e: "addEvent (he_thread env) (he_ctl env) i fd event None False (h_world s1) = Inr (rt, wo)"
    and d: "rt \<noteq> 0 \<and> r = Some (- 1) \<and> h_errno s' = he_ctl_errno env \<and> h_tinfo s' = h_tinfo s
      \<or> (\<exists>s3 s4 c. rt = 0 \<and> he_yield env (s1\<lparr>h_world := wo\<rparr>) = Inr s3 \<and> cancel_timer i timer s3 = Inr s4
          \<and> h_tinfo s3 t = Some c \<and> (c = 0 \<and> r = None \<and> s' = s4
            \<or> c \<noteq> 0 \<and> r = Some (- 1) \<and> s' = s4\<lparr>h_errno := c\<rparr>))"
  from d show ?thesis
  proof (rule disjE; (elim exE conjE)?)
    assume "rt \<noteq> 0" "r = Some (- 1)" "h_errno s' = he_ctl_errno env"
    then show ?thesis using addEvent_refused [OF e] by (simp add: io_answer_def)
  next
    fix s3 s4 c
    assume s: "he_yield env (s1\<lparr>h_world := wo\<rparr>) = Inr s3" "cancel_timer i timer s3 = Inr s4" "h_tinfo s3 t = Some c"
    have "tinfo_ok (s1\<lparr>h_world := wo\<rparr>)" using ok f by (simp add: tinfo_ok_def)
    from keeps_tinfoD [OF y s(1) this] have ok3: "tinfo_ok s3" .
    assume "(c = 0 \<and> r = None \<and> s' = s4 \<or> c \<noteq> 0 \<and> r = Some (- 1) \<and> s' = s4\<lparr>h_errno := c\<rparr>)"
    moreover have "c = 0 \<or> c = ETIMEDOUT" using ok3 s(3) by (auto simp: tinfo_ok_def dest: spec [of _ t])
    moreover have "tinfo_ok s4" using ok3 cancel_timer_frame(1) [OF s(2)] by (simp add: tinfo_ok_def)
    ultimately show ?thesis by (auto simp: io_answer_def)
  qed
qed

lemma do_io_loop_answer:
  assumes "do_io_loop env f fd event to t s = Some r" and "tinfo_ok s" and "keeps_tinfo (he_yield env)"
  shows "\<forall>x. r = Inr x \<longrightarrow> io_answer env f fd x"
proof -
  let ?P = "\<lambda>env f fd s r. tinfo_ok s \<longrightarrow> keeps_tinfo (he_yield env) \<longrightarrow> (\<forall>x. r = Inr x \<longrightarrow> io_answer env f fd x)"
  have "?P env f fd s r"
  proof (rule do_io_loop.raw_induct [where P = "\<lambda>env f fd event to t s r. ?P env f fd s r", OF _ assms(1)])
    fix rec env f fd event to t s r
    assume IH: "\<And>env f fd event to t s r. rec env f fd event to t s = Some r \<Longrightarrow> ?P env f fd s r"
      and r: "(case call_eintr f s of None \<Rightarrow> None
        | Some (n, s1) \<Rightarrow>
            if n = - 1 \<and> h_errno s1 = EAGAIN
            then case wait_event env fd event to t s1 of
                 Inl e \<Rightarrow> Some (Inl e)
                 | Inr (None, s2) \<Rightarrow> rec env f fd event to t s2
                 | Inr (Some r, s2) \<Rightarrow> Some (Inr (r, s2))
            else Some (Inr (n, s1))) = Some r"
    show "?P env f fd s r"
    proof (intro impI)
      assume ok: "tinfo_ok s" and y: "keeps_tinfo (he_yield env)"
      obtain n s1 where c: "call_eintr f s = Some (n, s1)" using r by (auto split: option.splits)
      from call_eintr_outcome [OF c] obtain k err k' where o: "f k = (n, err, k')"
        "n = - 1 \<longrightarrow> h_errno s1 = err \<and> err \<noteq> EINTR" "s1 = s\<lparr>h_kernel := h_kernel s1, h_errno := h_errno s1\<rparr>"
        by blast
      have "h_tinfo s1 = h_tinfo s" using o(3) by (cases s1; cases s; simp)
      then have ok1: "tinfo_ok s1" using ok by (simp add: tinfo_ok_def)
      show "\<forall>x. r = Inr x \<longrightarrow> io_answer env f fd x"
      proof (cases "n = - 1 \<and> h_errno s1 = EAGAIN")
        case False
        then have "r = Inr (n, s1)" using r c by auto
        moreover have "f k = (fst (n, s1), err, k')" "fst (n, s1) = - 1 \<longrightarrow> h_errno (snd (n, s1)) = err \<and> err \<noteq> EINTR \<and> err \<noteq> EAGAIN"
            using o False by auto
          ultimately show ?thesis unfolding io_answer_def by blast
      next
        case True
        show ?thesis
        proof (cases "wait_event env fd event to t s1")
          case (Inl e)
          then show ?thesis using r c True by auto
        next
          case (Inr q)
          obtain v s2 where q: "q = (v, s2)" by (cases q)
          note A = wait_event_answer [OF Inr [unfolded q] ok1 y, of f]
          show ?thesis
          proof (cases v)
            case None
            then have "rec env f fd event to t s2 = Some r" using r c True Inr q by simp
            from IH [OF this] A None y show ?thesis by simp
          next
            case (Some m)
            then show ?thesis using r c True Inr q A by auto
          qed
        qed
      qed
    qed
  qed
  with assms show ?thesis by blast
qed

text \<open>
  (C37) A coroutine that makes a hooked \<open>read\<close>, \<open>write\<close>, \<open>accept\<close> or other \<open>do_io\<close> call (not \<open>connect\<close>,
  which passes on every \<open>errno\<close> but \<open>EINPROGRESS\<close>) on a socket it did not make non-blocking never sees
  \<open>EAGAIN\<close> or \<open>EINTR\<close> of the original function: what the call returns is the answer of one call of the original function
  that was neither, or -1 with \<open>ETIMEDOUT\<close>, or, if \<open>epoll_ctl\<close> refused the descriptor, -1 with
  that error. The hypothesis is that other tasks leave the \<open>cancelled\<close> fields alone, which
  \<open>run_fn_keeps_tinfo\<close> shows of the callbacks of the library.
\<close>

theorem do_io_never_would_block:
  assumes "valid_fd fd" and "fdm_inv (h_fds s)" and "hooked fd s" and "tinfo_ok s"
    and "keeps_tinfo (he_yield env)" and "do_io env fd f event so s = Some (Inr (n, s'))"
  shows "(\<exists>k err k'. f k = (n, err, k') \<and> (n = - 1 \<longrightarrow> h_errno s' = err \<and> err \<noteq> EINTR \<and> err \<noteq> EAGAIN))
    \<or> n = - 1 \<and> h_errno s' = ETIMEDOUT
    \<or> n = - 1 \<and> h_errno s' = he_ctl_errno env \<and> (\<exists>op evs. he_ctl env op fd evs = - 1)"
proof -
  obtain to s1 where l: "do_io_loop env f fd event to (h_next s) (new_tinfo s) = Some (Inr (n, s1))"
    and e: "h_errno s' = h_errno s1"
    using assms(6) unfolding do_io_hooked [OF assms(1-3)]
    by (auto simp: drop_tinfo_def rbind_eq_Inr)
  have "tinfo_ok (new_tinfo s)" using assms(4) by (auto simp: tinfo_ok_def new_tinfo_def)
  from do_io_loop_answer [OF l this assms(5)] show ?thesis by (simp add: io_answer_def e)
qed

section \<open>When an interrupted call returns\<close>

text \<open>A measure of the kernel drops with every answer that says to try again.\<close>

definition gets_ready :: "'k syscall \<Rightarrow> ('k \<Rightarrow> nat) \<Rightarrow> bool" where
  "gets_ready f pending \<longleftrightarrow>
     (\<forall>k err k'. f k = (- 1, err, k') \<and> (err = EINTR \<or> err = EAGAIN) \<longrightarrow> pending k' < pending k)"

lemma gets_readyD:
  "gets_ready f pending \<Longrightarrow> f k = (- 1, err, k') \<Longrightarrow> err = EINTR \<or> err = EAGAIN \<Longrightarrow> pending k' < pending k"
  unfolding gets_ready_def by blast

lemma call_eintr_returns:
  fixes pending :: "'k \<Rightarrow> nat"
  assumes "gets_ready f pending"
  shows "\<exists>n s1. call_eintr f s = Some (n, s1)
    \<and> (n = - 1 \<and> h_errno s1 = EAGAIN \<longrightarrow> pending (h_kernel s1) < pending (h_kernel s))"
proof (induction "pending (h_kernel s)" arbitrary: s rule: less_induct)
  case less
  obtain n err k where c: "f (h_kernel s) = (n, err, k)"
    "call f s = (n, s\<lparr>h_kernel := k, h_errno := (if n = - 1 then err else h_errno s)\<rparr>)" by (rule call_cases)
  show ?case
  proof (cases "n = - 1 \<and> err = EINTR")
    case True
    then have lt: "pending k < pending (h_kernel s)" using gets_readyD [OF assms, of "h_kernel s" err k] c(1) True by simp
    have eq: "call_eintr f s = call_eintr f (s\<lparr>h_kernel := k, h_errno := err\<rparr>)"
      using c(2) True by (subst call_eintr.simps) simp
    have "pending (h_kernel (s\<lparr>h_kernel := k, h_errno := err\<rparr>)) < pending (h_kernel s)" using lt by simp
    from less [OF this] obtain n' s' where "call_eintr f (s\<lparr>h_kernel := k, h_errno := err\<rparr>) = Some (n', s')"
      "n' = - 1 \<and> h_errno s' = EAGAIN \<longrightarrow> pending (h_kernel s') < pending k" by auto
    with lt eq show ?thesis by auto
  next
    case False
    then have "call_eintr f s = Some (n, s\<lparr>h_kernel := k, h_errno := (if n = - 1 then err else h_errno s)\<rparr>)"
      using c(2) by (subst call_eintr.simps) auto
    moreover have "pending k < pending (h_kernel s)" if "n = - 1" "err = EAGAIN"
      using gets_readyD [OF assms, of "h_kernel s" err k] c(1) that by simp
    ultimately show ?thesis by auto
  qed
qed

section \<open>The time-out\<close>

text \<open>
  The time-out of a wait resumes the coroutine once. When the coroutine \<open>d\<close> registered for
  an event and its \<open>timerInfo\<close> is alive, the callback of the timer sets \<open>cancelled\<close>, removes the
  registration and appends the coroutine to the queue of the IO manager; running it again
  changes nothing, and so does running it after the call returned.
\<close>

theorem timeout_resumes_once:
  assumes "io_inv i (h_world s)" and "fd_range fd" and "single e" and "fd_mask i fd (h_world s) AND e = 0"
    and "th_sched (he_thread env) = Some i" and "th_dor (he_thread env) = Some d"
    and "addEvent (he_thread env) (he_ctl env) i fd e None False (h_world s) = Inr (0, w1)"
    and "h_tinfo s t = Some 0" and "\<forall>op evs. he_ctl env op fd evs \<noteq> - 1"
  shows "\<exists>s2. run_fn env (OnTimerBind t (Some (TimeoutFn t fd i e))) (s\<lparr>h_world := w1\<rparr>) = Inr s2
    \<and> queue_at i (h_world s2) = queue_at i (h_world s) @ [task_of (Dor (Some d)) (- 1)]
    \<and> fd_mask i fd (h_world s2) = fd_mask i fd (h_world s) \<and> io_inv i (h_world s2)
    \<and> h_tinfo s2 t = Some ETIMEDOUT
    \<and> run_fn env (OnTimerBind t (Some (TimeoutFn t fd i e))) s2 = Inr s2
    \<and> (\<forall>u. h_tinfo u t = None \<longrightarrow> run_fn env (OnTimerBind t (Some (TimeoutFn t fd i e))) u = Inr u)"
proof -
  let ?w = "h_world s"
  have fd: "0 \<le> fd" using assms(2) by (simp add: fd_range_def)
  have envok: "env_of i (None :: 'a hook_fn fn option) (he_thread env)" using assms(5,6) by (simp add: env_of_def)
  note F = fresh_event [OF assms(1) fd assms(3,4)]
  let ?c = "registered_ctx (he_thread env) e None False (ctx_or_new i fd ?w)"
  from addEvent_ok [OF assms(1-4) envok, of "he_ctl env" False] assms(7) have A: "io_inv i w1"
    "\<forall>k. queue_at k w1 = queue_at k ?w" "ctx_of i fd w1 = Some ?c" by auto
  note R = registered_event [OF F(1) assms(3), of "he_thread env" None False]
  have mk: "fd_mask i fd w1 = fd_mask i fd ?w OR e" using A(3) R(4) F(2) by (simp add: fd_mask_ctx)
  have bits: "(fd_mask i fd ?w OR e) AND e \<noteq> 0" "(fd_mask i fd ?w OR e) AND NOT e = fd_mask i fd ?w"
    using assms(3,4) F(3) by (auto elim!: event_masks_cases simp: single_def event_defs)
  obtain b w2 where c: "cancelEvent (he_thread env) (he_ctl env) i fd e w1 = Inr (b, w2)" "io_inv i w2"
    "b = (fd_mask i fd w1 AND e \<noteq> 0 \<and> accepts_removal (he_ctl env) fd (fd_mask i fd w1) e)"
    "b \<longrightarrow> ctx_of i fd w2 = Some (after_trigger e True (ctx_or_new i fd w1))
         \<and> (\<forall>k. queue_at k w2 = queue_at k w1 @ resumed k (ev_of e (ctx_or_new i fd w1)))"
    using cancelEvent_ok [OF A(1) fd assms(3,5), of "he_ctl env"] by blast
  have b: b using c(3) mk bits(1) assms(9) by (simp add: accepts_removal_def)
  have cn: "ctx_or_new i fd w1 = ?c" using A(3) by (simp add: ctx_or_new_def)
  let ?s2 = "s\<lparr>h_tinfo := (h_tinfo s)(t \<mapsto> ETIMEDOUT), h_world := w2\<rparr>"
  have run: "run_fn env (OnTimerBind t (Some (TimeoutFn t fd i e))) (s\<lparr>h_world := w1\<rparr>) = Inr ?s2"
    using assms(8) c(1) by (simp add: run_fn_def OnTimer_def timeout_fn_def)
  have "resumed i (ev_of e ?c) = requested (asked (he_thread env) None)"
    using R(1,2) assms(5) by (simp add: resumed_def)
  then have "resumed i (ev_of e ?c) = [task_of (Dor (Some d)) (- 1)]"
    using assms(6) by (simp add: asked_def requested_def task_of_request_def Let_def has_work_def)
  then have q: "queue_at i w2 = queue_at i ?w @ [task_of (Dor (Some d)) (- 1)]" using c(4) b cn A(2) by simp
  have m: "fd_mask i fd w2 = fd_mask i fd ?w"
    using c(4) b cn mk bits(2) A(3) by (simp add: fd_mask_ctx after_trigger_events)
  have again: "run_fn env (OnTimerBind t (Some (TimeoutFn t fd i e))) ?s2 = Inr ?s2"
    by (simp add: run_fn_def OnTimer_def timeout_fn_def ETIMEDOUT_def)
  have gone: "run_fn env (OnTimerBind t (Some (TimeoutFn t fd i e))) u = Inr u" if "h_tinfo u t = None" for u
    using that by (simp add: run_fn_def OnTimer_def)
  show ?thesis
    using run q m c(2) again gone by (intro exI [of _ ?s2] conjI allI impI) simp_all
qed

end
