(* ===== verification/HookFds.thy ===== *)
theory HookFds
  imports HookCalls
begin

text \<open>
  Facts about the other hooked calls, \<open>fcntl\<close>, the sleeping calls, \<open>connect\<close> and \<open>close\<close>; and, with what
  they show of the timers of the IO manager, a wait of \<open>do_io\<close> from the first answer to the last, and
  when a \<open>do_io\<close> call returns.
\<close>

section \<open>Flags\<close>

lemma flag_bits:
  fixes v :: u32
  shows "(v OR O_NONBLOCK) AND O_NONBLOCK = O_NONBLOCK"
    and "(v AND NOT O_NONBLOCK) AND O_NONBLOCK = 0"
    and "v AND O_NONBLOCK \<noteq> 0 \<Longrightarrow> v AND O_NONBLOCK = O_NONBLOCK"
proof -
  show "(v OR O_NONBLOCK) AND O_NONBLOCK = O_NONBLOCK" "(v AND NOT O_NONBLOCK) AND O_NONBLOCK = 0"
    by (rule bit_word_eqI; auto simp: bit_simps)+
  assume "v AND O_NONBLOCK \<noteq> 0"
  then obtain n where "bit (v AND O_NONBLOCK) n" by (metis bit_0_eq bit_word_eqI bot_apply bot_bool_def)
  then have "bit v 11" by (auto simp: bit_and_iff bit_O_NONBLOCK)
  then show "v AND O_NONBLOCK = O_NONBLOCK" by (intro bit_word_eqI) (auto simp: bit_and_iff bit_O_NONBLOCK)
qed

text \<open>
  The documented behaviour of the original \<open>fcntl\<close>: after a successful \<open>F_SETFL\<close> the next
  \<open>F_GETFL\<close> succeeds and reports the \<open>O_NONBLOCK\<close> bit that was set.
\<close>

definition flags_law :: "'k orig_funs \<Rightarrow> bool" where
  "flags_law orig \<longleftrightarrow> (\<forall>fd v k n err k'. fcntl_f orig fd F_SETFL (IntArg v) k = (n, err, k') \<and> n \<noteq> - 1 \<longrightarrow>
     fst (fcntl_f orig fd F_GETFL NoArg k') \<noteq> - 1
     \<and> (word_of_int (fst (fcntl_f orig fd F_GETFL NoArg k')) :: u32) AND O_NONBLOCK = v AND O_NONBLOCK)"

lemma socket_ctx_eq:
  assumes "valid_fd fd" and "fdm_inv (h_fds s)" and "slot fd (h_fds s) = Some c"
    and "isSocket (fobj (h_fds s) c)"
  shows "socket_ctx env fd s = Inr (Some (c, fobj (h_fds s) c), s)"
  using fd_get_eq [OF assms(1,2), of env] assms(3,4) slot_open [OF assms(2,3)]
  by (simp add: socket_ctx_def Let_def)

lemma user_view:
  "(word_of_int (if b then int_of_flags (x OR O_NONBLOCK) else int_of_flags (x AND NOT O_NONBLOCK)) :: u32)
     AND O_NONBLOCK = (if b then O_NONBLOCK else 0)"
  by (simp add: int_of_flags_def flag_bits)

text \<open>
  (C39) On a socket the user sees the flag he set, and the library keeps its own: after
  \<open>fcntl(fd, F_SETFL, v)\<close> succeeded, \<open>fcntl(fd, F_GETFL)\<close> reports the \<open>O_NONBLOCK\<close> bit of \<open>v\<close>,
  while the descriptor stays non-blocking in the kernel; and the calls on it wait in user
  space exactly when \<open>v\<close> does not have the bit.
\<close>

theorem fcntl_flags_roundtrip:
  assumes "valid_fd fd" and "fdm_inv (h_fds s)" and "slot fd (h_fds s) = Some c"
    and "isSocket (fobj (h_fds s) c)" and "getSysNonblock (fobj (h_fds s) c)" and "flags_law (he_orig env)"
    and "fcntl env fd F_SETFL (IntArg v) s = Inr (n, s1)" and "n \<noteq> - 1"
  shows "\<exists>r s2. fcntl env fd F_GETFL NoArg s1 = Inr (r, s2)
    \<and> (word_of_int r :: u32) AND O_NONBLOCK = v AND O_NONBLOCK
    \<and> (word_of_int (fst (fcntl_f (he_orig env) fd F_GETFL NoArg (h_kernel s1))) :: u32) AND O_NONBLOCK = O_NONBLOCK
    \<and> hooked fd s1 = (st_hookEnable s \<and> v AND O_NONBLOCK = 0) \<and> h_fds s2 = h_fds s1"
proof -
  let ?c1 = "setUserNonblock (v AND O_NONBLOCK \<noteq> 0) (fobj (h_fds s) c)"
  let ?set = "fcntl_f (he_orig env) fd F_SETFL (IntArg (v OR O_NONBLOCK))"
  have "getSysNonblock ?c1" using assms(5) by (simp add: setUserNonblock_def getSysNonblock_def)
  then have "fcntl env fd F_SETFL (IntArg v) s = Inr (call ?set (put_fd_ctx c ?c1 s))"
    using socket_ctx_eq [OF assms(1-4), of env]
    by (simp add: fcntl_def va_int_def fcntl_setfl_def Let_def)
  then have s1: "call ?set (put_fd_ctx c ?c1 s) = (n, s1)" using assms(7) by simp
  obtain err k where k: "?set (h_kernel s) = (n, err, k)" "h_kernel s1 = k"
    using s1 by (auto simp: call_def put_fd_ctx_def split: prod.splits)
  let ?g = "fst (fcntl_f (he_orig env) fd F_GETFL NoArg k)"
  have "?g \<noteq> - 1 \<and> (word_of_int ?g :: u32) AND O_NONBLOCK = (v OR O_NONBLOCK) AND O_NONBLOCK"
    using assms(6,8) k(1) unfolding flags_law_def by blast
  then have g: "(word_of_int ?g :: u32) AND O_NONBLOCK = O_NONBLOCK" by (simp add: flag_bits)
  have s1': "s1 = snd (call ?set (put_fd_ctx c ?c1 s))" using s1 by simp
  then have fds: "h_fds s1 = (h_fds s)\<lparr>fobj := (fobj (h_fds s))(c := ?c1)\<rparr>" "st_hookEnable s1 = st_hookEnable s"
    by (simp_all add: put_fd_ctx_def)
  have inv: "fdm_inv (h_fds s1)" unfolding fds(1)
    by (rule fdm_inv_frame [OF assms(2)]) (simp_all add: setUserNonblock_def)
  have sl: "slot fd (h_fds s1) = Some c" using assms(3) by (auto simp: fds(1) slot_def split: if_splits)
  have ctx: "fobj (h_fds s1) c = ?c1" by (simp add: fds(1))
  have sock: "isSocket (fobj (h_fds s1) c)" using assms(4) by (simp add: ctx isSocket_def setUserNonblock_def)
  have un: "getUserNonblock ?c1 = (v AND O_NONBLOCK \<noteq> 0)" by (simp add: getUserNonblock_def setUserNonblock_def)
  obtain arg s0 where a: "call (fcntl_f (he_orig env) fd F_GETFL NoArg) s1 = (arg, s0)" by (cases "call (fcntl_f (he_orig env) fd F_GETFL NoArg) s1")
  then have s0: "h_fds s0 = h_fds s1" by (metis call_frame(3) snd_conv)
  let ?r = "if v AND O_NONBLOCK \<noteq> 0 then int_of_flags (word_of_int arg OR O_NONBLOCK)
    else int_of_flags (word_of_int arg AND NOT O_NONBLOCK)"
  have "socket_ctx env fd s0 = Inr (Some (c, ?c1), s0)"
    using socket_ctx_eq [OF assms(1), of s0 c env] inv sl sock s0 ctx by simp
  then have get: "fcntl env fd F_GETFL NoArg s1 = Inr (?r, s0)"
    using a un by (simp add: fcntl_def fcntl_getfl_def F_GETFL_def F_SETFL_def)
  have "(word_of_int ?r :: u32) AND O_NONBLOCK = v AND O_NONBLOCK"
    unfolding user_view using flag_bits(3) [of v] by auto
  moreover have "hooked fd s1 = (st_hookEnable s \<and> v AND O_NONBLOCK = 0)"
    using sl sock fds(2) un by (simp add: hooked_def ctx)
  ultimately show ?thesis using get g k(2) s0 by (intro exI [of _ ?r] exI [of _ s0]) simp
qed

text \<open>
  \<open>fcntl(fd, F_GETFL)\<close> changes also an error: when the original call fails on a socket the user
  left blocking, the result is -2049, which a caller that tests for -1 takes for flags.
\<close>

theorem fcntl_getfl_error:
  assumes "valid_fd fd" and "fdm_inv (h_fds s)" and "slot fd (h_fds s) = Some c"
    and "isSocket (fobj (h_fds s) c)" and "\<not> getUserNonblock (fobj (h_fds s) c)"
    and "fcntl_f (he_orig env) fd F_GETFL NoArg (h_kernel s) = (- 1, err, k)"
  shows "\<exists>s1. fcntl env fd F_GETFL NoArg s = Inr (- 2049, s1) \<and> h_errno s1 = err"
proof -
  let ?s0 = "s\<lparr>h_kernel := k, h_errno := err\<rparr>"
  have a: "call (fcntl_f (he_orig env) fd F_GETFL NoArg) s = (- 1, ?s0)" using assms(6) by (simp add: call_def)
  have "socket_ctx env fd ?s0 = Inr (Some (c, fobj (h_fds s) c), ?s0)"
    using socket_ctx_eq [OF assms(1), of ?s0 c env] assms(2-4) by simp
  moreover have "int_of_flags (word_of_int (- 1) AND NOT O_NONBLOCK) = - 2049"
    by (simp add: int_of_flags_def O_NONBLOCK_def)
  ultimately show ?thesis
    using a assms(5) by (simp add: fcntl_def fcntl_getfl_def F_GETFL_def F_SETFL_def)
qed

section \<open>Timers of the hooks\<close>

lemma io_addTimer_ok:
  assumes m: "w_scheds w i = Some (Io m)" and tm: "tm_inv (io_timers m)" and p: "p \<notin> set (m_timers (io_timers m))"
  obtains m' w' where "io_addTimer i p ms func rep now w = Inr w'" and "w_scheds w' = (w_scheds w)(i \<mapsto> Io m')"
    and "w_ctxs w' = w_ctxs w" and "io_sched m' = io_sched m" and "m_fdContexts m' = m_fdContexts m"
    and "tm_inv (io_timers m')" and "set (m_timers (io_timers m')) = insert p (set (m_timers (io_timers m)))"
    and "tobj (io_timers m') = (tobj (io_timers m))(p := Timer_new ms func rep now)"
proof -
  obtain b ts where t: "addTimer p ms func rep now (io_timers m) = Inr (b, ts)" "tm_inv ts"
    "tobj ts = (tobj (io_timers m))(p := Timer_new ms func rep now)"
    "set (m_timers ts) = insert p (set (m_timers (io_timers m)))"
    using tm_inv_addTimer [OF tm p, of ms func rep now] by blast
  let ?m' = "m\<lparr>io_timers := ts\<rparr>"
  let ?w1 = "put_iom i ?m' w"
  have "w_scheds ?w1 i = Some (Io ?m')" by (simp add: put_iom_def)
  from tickle_ok [OF this] obtain n where n: "tickle i ?w1 = Inr (?w1\<lparr>w_pipe := n\<rparr>)" by blast
  have r: "io_addTimer i p ms func rep now w = Inr (if b then ?w1\<lparr>w_pipe := n\<rparr> else ?w1)"
    using m t(1) n by (simp add: io_addTimer_def iom_at_def onTimerInsertedAtFront_def)
  show thesis by (rule that [OF r, of ?m']) (use t in \<open>simp_all add: put_iom_def\<close>)
qed

text \<open>The timer \<open>p\<close> of the IO manager \<open>i\<close> is set, and to this value.\<close>

definition has_timer :: "nat \<Rightarrow> nat \<Rightarrow> 'u hook_fn Timer \<Rightarrow> ('u, 'k) hook_state \<Rightarrow> bool" where
  "has_timer i p t s \<longleftrightarrow> (\<exists>m. w_scheds (h_world s) i = Some (Io m)
     \<and> p \<in> set (m_timers (io_timers m)) \<and> tobj (io_timers m) p = t)"

text \<open>The timers of the IO manager are in order and \<open>h_next\<close> is a fresh address.\<close>

definition timers_ok :: "nat \<Rightarrow> ('u, 'k) hook_state \<Rightarrow> bool" where
  "timers_ok i s \<longleftrightarrow> (\<exists>m. w_scheds (h_world s) i = Some (Io m) \<and> tm_inv (io_timers m)
     \<and> (\<forall>p \<in> set (m_timers (io_timers m)). p < h_next s))"

lemma add_timer_ok:
  assumes "timers_ok i s"
  obtains s1 where "add_timer env i ms cb s = Inr (h_next s, s1)"
    and "has_timer i (h_next s) (Timer_new ms (Some cb) False (clock_ms (he_orig env) (h_kernel s))) s1"
    and "timers_ok i s1" and "h_next s1 = h_next s + 1" and "h_tinfo s1 = h_tinfo s"
    and "h_kernel s1 = h_kernel s" and "h_fds s1 = h_fds s" and "st_hookEnable s1 = st_hookEnable s"
    and "GetThis te (h_world s1) = GetThis te (h_world s)"
proof -
  obtain m where m: "w_scheds (h_world s) i = Some (Io m)" "tm_inv (io_timers m)"
    "\<forall>p \<in> set (m_timers (io_timers m)). p < h_next s" using assms by (auto simp: timers_ok_def)
  then have "h_next s \<notin> set (m_timers (io_timers m))" by auto
  from io_addTimer_ok [OF m(1,2) this] obtain m' w' where
    a: "io_addTimer i (h_next s) ms (Some cb) False (clock_ms (he_orig env) (h_kernel s)) (h_world s) = Inr w'"
    "w_scheds w' = (w_scheds (h_world s))(i \<mapsto> Io m')" "tm_inv (io_timers m')"
    "set (m_timers (io_timers m')) = insert (h_next s) (set (m_timers (io_timers m)))"
    "tobj (io_timers m') = (tobj (io_timers m))(h_next s := Timer_new ms (Some cb) False (clock_ms (he_orig env) (h_kernel s)))"
    by metis
  have "GetThis te w' = GetThis te (h_world s)"
    using a(2) m(1) by (auto simp: GetThis_def split: option.splits sched_obj.splits)
  with a m(3) show thesis
    by (intro that [of "s\<lparr>h_world := w', h_next := h_next s + 1\<rparr>"])
      (auto simp: add_timer_def has_timer_def timers_ok_def)
qed

lemma unat_ms: "unat (ucast (seconds * 1000 :: u32) :: u64) = unat seconds * 1000 mod 2 ^ 32"
  by (simp add: unat_word_ariths unsigned_ucast_eq take_bit_eq_mod)

text \<open>
  (C40) \<open>sleep\<close> suspends the coroutine under a timer of the thread's IO manager, whose callback
  appends exactly this coroutine to the queue. The delay is computed in 32 bits: it is the
  number of seconds exactly up to 4294967 seconds (49 days) and wraps beyond.
\<close>

theorem sleep_timer:
  assumes "st_hookEnable s" and "this_iom env s = Inr i" and "timers_ok i s"
    and "th_dor (he_thread env) = Some d"
  shows "\<exists>s1. sleep env seconds s = rbind (he_yield env s1) (\<lambda>s2. Inr (0, s2))
    \<and> has_timer i (h_next s) (Timer_new (of_nat (unat seconds * 1000 mod 2 ^ 32))
        (Some (Callback (WakeFn i (Some d)))) False (clock_ms (he_orig env) (h_kernel s))) s1
    \<and> (unat seconds * 1000 mod 2 ^ 32 = unat seconds * 1000 \<longleftrightarrow> unat seconds \<le> 4294967)
    \<and> (\<forall>u. w_scheds (h_world u) i \<noteq> None \<longrightarrow> (\<exists>u'. run_fn env (Callback (WakeFn i (Some d))) u = Inr u'
         \<and> queue_at i (h_world u') = queue_at i (h_world u) @ [task_of (Dor (Some d)) (- 1)]))"
proof -
  let ?cb = "Callback (WakeFn i (Some d)) :: 'a hook_fn fn"
  let ?ms = "ucast (seconds * 1000 :: u32) :: u64"
  obtain s1 where a: "add_timer env i ?ms ?cb s = Inr (h_next s, s1)"
    "has_timer i (h_next s) (Timer_new ?ms (Some ?cb) False (clock_ms (he_orig env) (h_kernel s))) s1"
    by (rule add_timer_ok [OF assms(3)])
  have ms: "?ms = of_nat (unat seconds * 1000 mod 2 ^ 32)"
  proof -
    have "of_nat (unat ?ms) = ?ms" by simp
    then show ?thesis by (simp only: unat_ms)
  qed
  have "sleep env seconds s = rbind (he_yield env s1) (\<lambda>s2. Inr (0, s2))"
    using assms(1,2,4) a(1) by (simp add: sleep_def sleep_ms_def)
  moreover have "\<exists>u'. run_fn env ?cb u = Inr u'
         \<and> queue_at i (h_world u') = queue_at i (h_world u) @ [task_of (Dor (Some d)) (- 1)]"
    if u: "w_scheds (h_world u) i \<noteq> None" for u
  proof -
    obtain w' where w: "schedule_to (Some i) (Dor (Some d)) (- 1) (h_world u) = Inr w'"
      "queue_at i w' = queue_at i (h_world u) @ requested (Dor (Some d))" by (rule schedule_to_ok [OF u])
    then show ?thesis
      by (intro exI [of _ "u\<lparr>h_world := w'\<rparr>"])
        (simp add: run_fn_def requested_def task_of_request_def Let_def has_work_def)
  qed
  moreover have "unat seconds * 1000 mod 2 ^ 32 = unat seconds * 1000 \<longleftrightarrow> unat seconds \<le> 4294967"
    by (simp add: mod_eq_self_iff_div_eq_0 div_eq_0_iff) arith
  ultimately show ?thesis using a(2) ms by (intro exI [of _ s1]) simp
qed

section \<open>More about the IO manager's operations\<close>

lemma cancelAll_returns:
  assumes inv: "io_inv i w" and fd: "0 \<le> fd" and env: "th_sched env = Some i"
    and run: "cancelAll env ctl i fd w = Inr (b, w')" and ctl: "\<forall>op evs. ctl op fd evs \<noteq> - 1"
  shows "b = (fd_mask i fd w \<noteq> 0)"
proof (cases "fd_mask i fd w = 0")
  case True
  then show ?thesis using cancelAll_ok [OF inv fd env, of ctl] run by auto
next
  case False
  then obtain m a c where s: "w_ctxs w a = Some c" "find_ctx i fd w = Inr (Some (Some a))" "ctx_of i fd w = Some c"
    by (rule registeredE [OF inv fd])
  then have "c_events c \<noteq> 0" using False by (simp add: fd_mask_ctx)
  then show ?thesis using run s(1,2) False ctl by (auto simp: cancelAll_def ctx_at_def rbind_eq_Inr)
qed

lemma addEvent_arm_timers:
  assumes "addEvent_arm env ctl i p fd e func rep w = Inr (r, w')" and "w_scheds w k = Some (Io m)"
  shows "\<exists>m'. w_scheds w' k = Some (Io m') \<and> io_timers m' = io_timers m"
  using assms
  by (auto simp: addEvent_arm_def rbind_eq_Inr Let_def put_ctx_def put_iom_def iom_at_def incPendingEventCount_def
    split: if_splits option.splits sched_obj.splits)

lemma contextResize_timers:
  assumes "contextResize i n w = Inr w'" and "w_scheds w k = Some (Io m)"
  shows "\<exists>m'. w_scheds w' k = Some (Io m') \<and> io_timers m' = io_timers m"
  using assms
  by (auto simp: contextResize_def rbind_eq_Inr put_iom_def iom_at_def split: option.splits sched_obj.splits prod.splits)

lemma addEvent_timers:
  assumes "addEvent env ctl i fd e func rep w = Inr (r, w')" and "w_scheds w k = Some (Io m)"
  shows "\<exists>m'. w_scheds w' k = Some (Io m') \<and> io_timers m' = io_timers m"
proof -
  obtain q where q: "addEvent_find i fd w = Inr q" using assms(1) by (auto simp: addEvent_def rbind_eq_Inr)
  show ?thesis
  proof (cases q)
    case (Some p)
    then show ?thesis using assms q addEvent_arm_timers by (auto simp: addEvent_def)
  next
    case None
    obtain p w1 where g: "addEvent_grow i fd w = Inr (p, w1)"
      "addEvent_arm env ctl i p fd e func rep w1 = Inr (r, w')"
      using assms(1) q None by (auto simp: addEvent_def rbind_eq_Inr)
    obtain w0 where "contextResize i (grow_size fd) w = Inr w0" "w1 = w0"
      using g(1) by (auto simp: addEvent_grow_def rbind_eq_Inr)
    then obtain m1 where "w_scheds w1 k = Some (Io m1)" "io_timers m1 = io_timers m"
      using contextResize_timers assms(2) by blast
    then show ?thesis using addEvent_arm_timers [OF g(2)] by fastforce
  qed
qed

section \<open>Closing\<close>

lemma slot_delFd:
  assumes "valid_fd fd" and "fdm_inv mgr" and "delFd fd mgr = Inr mgr'" and "valid_fd e"
  shows "slot e mgr' = (if e = fd then None else slot e mgr)"
proof -
  have "mgr' = (if nat fd < length (m_fds mgr) then mgr\<lparr>m_fds := (m_fds mgr)[nat fd := None]\<rparr> else mgr)"
    using delFd_eq [OF assms(1,2)] assms(3) by simp
  moreover have "nat e = nat fd \<longleftrightarrow> e = fd" using assms(1,4) by (simp add: valid_fd_def eq_nat_nat_iff)
  ultimately show ?thesis by (auto simp: slot_def nth_list_update split: if_splits)
qed

text \<open>
  (C38) \<open>close\<close> of a descriptor the library knows: the coroutines that wait for it are resumed
  once each, its events are unregistered, its context is forgotten while every other one is
  kept, and the original \<open>close\<close> is called once, after that; a later hooked call on the
  descriptor is the original call. The setting: hooks are enabled, the thread belongs to the IO
  manager the coroutines wait at, and \<open>epoll_ctl\<close> accepts that the events are taken back; the later
  call is one of the \<open>do_io\<close> calls.
\<close>

theorem close_forgets:
  assumes "st_hookEnable s" and "fd_range fd" and "fdm_inv (h_fds s)" and "slot fd (h_fds s) = Some c"
    and "io_inv i (h_world s)" and "th_sched (he_thread env) = Some i"
    and "\<forall>op evs. he_ctl env op fd evs \<noteq> - 1"
  shows "\<exists>n s1. close env fd s = Inr (n, s1)
    \<and> n = fst (close_f (he_orig env) fd (h_kernel s)) \<and> h_kernel s1 = snd (snd (close_f (he_orig env) fd (h_kernel s)))
    \<and> io_inv i (h_world s1) \<and> fd_mask i fd (h_world s1) = 0
    \<and> queue_at i (h_world s1) = queue_at i (h_world s) @ concat (map
        (\<lambda>e. resumed i (ev_of e (ctx_or_new i fd (h_world s)))) (events_of (fd_mask i fd (h_world s))))
    \<and> (\<forall>e. valid_fd e \<longrightarrow> slot e (h_fds s1) = (if e = fd then None else slot e (h_fds s)))
    \<and> (\<forall>f event so. do_io env fd f event so s1 = Some (Inr (call f s1)))"
proof -
  have fd: "0 \<le> fd" "valid_fd fd" using assms(2) by (simp_all add: fd_range_def valid_fd_def)
  have gt: "GetThis (he_thread env) (h_world s) = Some i"
    using assms(5,6) by (auto simp: GetThis_def io_inv_def)
  obtain b w' where c: "cancelAll (he_thread env) (he_ctl env) i fd (h_world s) = Inr (b, w')" "io_inv i w'"
    "\<not> b \<longrightarrow> w' = h_world s"
    "b \<longrightarrow> fd_mask i fd w' = 0 \<and> queue_at i w' = queue_at i (h_world s) @ concat (map
        (\<lambda>e. resumed i (ev_of e (ctx_or_new i fd (h_world s)))) (events_of (fd_mask i fd (h_world s))))"
    using cancelAll_ok [OF assms(5) fd(1) assms(6), of "he_ctl env"] by blast
  have b: "b = (fd_mask i fd (h_world s) \<noteq> 0)"
    using cancelAll_returns [OF assms(5) fd(1) assms(6)] c(1) assms(7) by auto
  have W: "fd_mask i fd w' = 0 \<and> queue_at i w' = queue_at i (h_world s) @ concat (map
        (\<lambda>e. resumed i (ev_of e (ctx_or_new i fd (h_world s)))) (events_of (fd_mask i fd (h_world s))))"
    using b c(3,4) by (cases b) (simp_all add: events_of_def)
  obtain mgr where d: "delFd fd (h_fds s) = Inr mgr" using delFd_eq [OF fd(2) assms(3)] by auto
  let ?s3 = "s\<lparr>h_world := w', h_fds := mgr\<rparr>"
  let ?s1 = "snd (call (close_f (he_orig env) fd) ?s3)"
  have run: "close env fd s = Inr (fst (call (close_f (he_orig env) fd) ?s3), ?s1)"
    using fd_get_eq [OF fd(2) assms(3), of env] assms(1,4) gt c(1) d by (simp add: close_def)
  have sl: "slot e (h_fds ?s1) = (if e = fd then None else slot e (h_fds s))" if "valid_fd e" for e
    using slot_delFd [OF fd(2) assms(3) d that] by simp
  have inv: "fdm_inv (h_fds ?s1)" using delFd_inv [OF fd(2) assms(3) d] by simp
  have "\<not> hooked fd ?s1" using sl [OF fd(2)] by (simp add: hooked_def)
  then have io: "do_io env fd f event so ?s1 = Some (Inr (call f ?s1))" for f event so
    using fd_get_eq [OF fd(2) inv, of env] sl [OF fd(2)] assms(1) by (simp add: do_io_def)
  have "fst (call (close_f (he_orig env) fd) ?s3) = fst (close_f (he_orig env) fd (h_kernel s))"
    "h_kernel ?s1 = snd (snd (close_f (he_orig env) fd (h_kernel s)))"
    by (simp_all add: call_def split: prod.splits)
  then show ?thesis using run W c(2) sl io
    by (intro exI [of _ "fst (call (close_f (he_orig env) fd) ?s3)"] exI [of _ ?s1]) simp
qed

lemma addEvent_keeps_timers:
  assumes "addEvent te ctl i fd e func rep (h_world s) = Inr (r, w')"
  shows "has_timer j p t s \<Longrightarrow> has_timer j p t (s\<lparr>h_world := w'\<rparr>)"
    and "timers_ok j s \<Longrightarrow> timers_ok j (s\<lparr>h_world := w'\<rparr>)"
proof -
  assume "has_timer j p t s"
  then obtain m where m: "w_scheds (h_world s) j = Some (Io m)" "p \<in> set (m_timers (io_timers m))"
      "tobj (io_timers m) p = t" by (auto simp: has_timer_def)
  from addEvent_timers [OF assms m(1)] m show "has_timer j p t (s\<lparr>h_world := w'\<rparr>)" by (auto simp: has_timer_def)
next
  assume "timers_ok j s"
  then obtain m where m: "w_scheds (h_world s) j = Some (Io m)" "tm_inv (io_timers m)"
    "\<forall>p \<in> set (m_timers (io_timers m)). p < h_next s" by (auto simp: timers_ok_def)
  from addEvent_timers [OF assms m(1)] obtain m' where "w_scheds w' j = Some (Io m')" "io_timers m' = io_timers m"
    by blast
  with m show "timers_ok j (s\<lparr>h_world := w'\<rparr>)" by (simp add: timers_ok_def)
qed

section \<open>Connecting\<close>

text \<open>What other tasks leave alone while the coroutine waits.\<close>

definition keeps_timers :: "nat \<Rightarrow> ('u, 'k) hook_env \<Rightarrow> bool" where
  "keeps_timers i env \<longleftrightarrow> (\<forall>u u' p t. he_yield env u = Inr u' \<longrightarrow>
     (has_timer i p t u \<longrightarrow> has_timer i p t u') \<and> h_tinfo u' = h_tinfo u)"

text \<open>
  \<open>connect\<close> leaves its timer behind. The timer it adds is not assigned to the variable that is
  tested afterwards, so it is never cancelled: when the connection succeeds in time, the timer
  is still set when the call returns. Until it is due it keeps the IO manager from stopping;
  then its callback does nothing.
\<close>

theorem connect_leaves_timer:
  assumes "hooked fd s" and "valid_fd fd" and "fdm_inv (h_fds s)" and "this_iom env s = Inr i"
    and "timers_ok i s" and "connect_f (he_orig env) fd addr addrlen (h_kernel s) = (- 1, EINPROGRESS, k)"
    and "timeout_ms \<noteq> - 1" and "keeps_timers i env"
    and "connect_with_timeout env fd addr addrlen timeout_ms s = Inr (n, s')"
    and "\<forall>op evs. he_ctl env op fd evs \<noteq> - 1"
  shows "has_timer i (h_next s + 1) (Timer_new timeout_ms
      (Some (OnTimerBind (h_next s) (Some (TimeoutFn (h_next s) fd i EV_WRITE)))) False
      (clock_ms (he_orig env) k)) s'
    \<and> run_fn env (OnTimerBind (h_next s) (Some (TimeoutFn (h_next s) fd i EV_WRITE))) s' = Inr s'"
proof -
  obtain c where c: "slot fd (h_fds s) = Some c" "isSocket (fobj (h_fds s) c)"
    "\<not> getUserNonblock (fobj (h_fds s) c)" "st_hookEnable s"
    using assms(1) by (auto simp: hooked_def split: option.splits)
  let ?t = "h_next s" and ?p = "h_next s + 1"
  let ?cb = "OnTimerBind ?t (Some (TimeoutFn ?t fd i EV_WRITE))"
  let ?tm = "Timer_new timeout_ms (Some ?cb) False (clock_ms (he_orig env) k)"
  let ?s2 = "s\<lparr>h_kernel := k, h_errno := EINPROGRESS\<rparr>"
  have call: "call (connect_f (he_orig env) fd addr addrlen) s = (- 1, ?s2)"
    using assms(6) by (simp add: call_def)
  have "drop_tinfo ?t (rbind (connect_wait env fd timeout_ms ?t (new_tinfo ?s2)) (\<lambda>(r, s3).
      case r of Some v \<Rightarrow> Inr (v, s3) | None \<Rightarrow> Inr (connect_result env fd s3))) = Inr (n, s')"
    using assms(9) fd_get_eq [OF assms(2,3), of env] c slot_open [OF assms(3) c(1)] call
    by (simp add: connect_with_timeout_def Let_def)
  then obtain q where q: "rbind (connect_wait env fd timeout_ms ?t (new_tinfo ?s2)) (\<lambda>(r, s3).
      case r of Some v \<Rightarrow> Inr (v, s3) | None \<Rightarrow> Inr (connect_result env fd s3)) = Inr q"
    "s' = (snd q)\<lparr>h_tinfo := (h_tinfo (snd q))(?t := None)\<rparr>"
    by (auto simp: drop_tinfo_def rbind_eq_Inr)
  then obtain r s3 where w: "connect_wait env fd timeout_ms ?t (new_tinfo ?s2) = Inr (r, s3)"
    "(case r of Some v \<Rightarrow> (v, s3) | None \<Rightarrow> connect_result env fd s3) = q"
    by (auto simp: rbind_eq_Inr split: option.splits)
  have it: "this_iom env (new_tinfo ?s2) = Inr i" using assms(4) by (simp add: this_iom_def new_tinfo_def)
  have tm: "timers_ok i (new_tinfo ?s2)" using assms(5) by (fastforce simp: timers_ok_def new_tinfo_def)
  have nx: "h_next (new_tinfo ?s2) = ?p" "h_kernel (new_tinfo ?s2) = k" by (simp_all add: new_tinfo_def)
  obtain s1 where a: "add_timer env i timeout_ms ?cb (new_tinfo ?s2) = Inr (?p, s1)" "has_timer i ?p ?tm s1"
    by (rule add_timer_ok [OF tm, of env timeout_ms ?cb, unfolded nx])
  obtain rt wo where e: "addEvent (he_thread env) (he_ctl env) i fd EV_WRITE None False (h_world s1) = Inr (rt, wo)"
    using w(1) it a(1) assms(7) by (auto simp: connect_wait_def rbind_eq_Inr)
  have rt: "rt = 0" using addEvent_refused [OF e] assms(10) by blast
  have t2: "has_timer i ?p ?tm (s1\<lparr>h_world := wo\<rparr>)"
    by (rule addEvent_keeps_timers(1) [OF e a(2)])
  obtain s3' where y: "he_yield env (s1\<lparr>h_world := wo\<rparr>) = Inr s3'" "h_world s3 = h_world s3'"
    using w(1) it a(1) assms(7) e rt
    by (auto simp: connect_wait_def cancel_timer_def rbind_eq_Inr split: option.splits if_splits)
  have "has_timer i ?p ?tm s3'" using assms(8) y(1) t2 unfolding keeps_timers_def by blast
  then have "has_timer i ?p ?tm s3" using y(2) by (simp add: has_timer_def)
  moreover have "h_world (snd q) = h_world s3"
    using w(2) by (auto simp: connect_result_def getsockopt_def Let_def split: option.splits prod.splits if_splits)
  ultimately have "has_timer i ?p ?tm s'" using q(2) by (simp add: has_timer_def)
  moreover have "run_fn env ?cb s' = Inr s'" using q(2) by (simp add: run_fn_def OnTimer_def)
  ultimately show ?thesis by simp
qed

section \<open>A wait that is answered\<close>

lemma add_timer_inv:
  assumes "add_timer env i ms cb s = Inr (p, s1)" and "io_inv_off x i (h_world s)"
  shows "io_inv_off x i (h_world s1)" and "fd_mask i fd (h_world s1) = fd_mask i fd (h_world s)"
proof -
  obtain w where w: "io_addTimer i (h_next s) ms (Some cb) False (clock_ms (he_orig env) (h_kernel s)) (h_world s) = Inr w"
    "h_world s1 = w" using assms(1) by (auto simp: add_timer_def rbind_eq_Inr)
  show "io_inv_off x i (h_world s1)" using io_addTimer_inv [OF assms(2) w(1)] w(2) by simp
  obtain m where m: "w_scheds (h_world s) i = Some (Io m)" using assms(2) by (auto simp: io_inv_def)
  obtain m' where m': "w_scheds w i = Some (Io m')" "m_fdContexts m' = m_fdContexts m" "w_ctxs w = w_ctxs (h_world s)"
    using w(1) m by (auto simp: io_addTimer_def iom_at_def rbind_eq_Inr put_iom_def onTimerInsertedAtFront_def tickle_def
      Let_def split: if_splits)
  have "mask_at w q = mask_at (h_world s) q" for q by (cases q) (simp_all add: mask_at_def m'(3))
  then have "slot_mask w ps j = slot_mask (h_world s) ps j" for ps j by (simp add: slot_mask_def)
  then show "fd_mask i fd (h_world s1) = fd_mask i fd (h_world s)"
    using m m' w(2) by (simp add: fd_mask_def)
qed

text \<open>
  Other tasks, while the coroutine is suspended: the kernel ends in the state \<open>k\<close>, and timers
  and \<open>cancelled\<close> fields are left alone, as when the descriptor becomes ready in time.
\<close>

definition ready_at :: "nat \<Rightarrow> ('u, 'k) hook_env \<Rightarrow> 'k \<Rightarrow> bool" where
  "ready_at i env k \<longleftrightarrow> (\<forall>u. \<exists>u'. he_yield env u = Inr u' \<and> h_kernel u' = k \<and> h_tinfo u' = h_tinfo u
     \<and> (timers_ok i u \<longrightarrow> timers_ok i u') \<and> (\<forall>p t. has_timer i p t u \<longrightarrow> has_timer i p t u'))"

lemma cancel_timer_removes:
  assumes "timers_ok i s" and "has_timer i p t s" and "t_manager t" and "t_func t \<noteq> None"
  obtains s' where "cancel_timer i (Some p) s = Inr s'" and "\<And>x. \<not> has_timer i p x s'"
proof -
  obtain m where m: "w_scheds (h_world s) i = Some (Io m)" "tm_inv (io_timers m)"
    "p \<in> set (m_timers (io_timers m))" "tobj (io_timers m) p = t"
    using assms(1,2) by (auto simp: timers_ok_def has_timer_def)
  from cancel_ok [OF m(2), of p] m(4) assms(3) obtain b ts where c: "cancel p (io_timers m) = Inr (b, ts)"
    "ts = (if t_func t = None then io_timers m else (io_timers m)\<lparr>tobj := (tobj (io_timers m))(p := t\<lparr>t_func := None\<rparr>),
       m_timers := removeAll p (m_timers (io_timers m))\<rparr>)" by simp
  let ?s = "s\<lparr>h_world := put_iom i (m\<lparr>io_timers := ts\<rparr>) (h_world s)\<rparr>"
  have run: "cancel_timer i (Some p) s = Inr ?s" using m(1) c(1) by (simp add: cancel_timer_def iom_at_def)
  have "\<not> has_timer i p x ?s" for x using c(2) assms(4) by (simp add: has_timer_def put_iom_def)
  with run show thesis by (rule that)
qed

text \<open>
  (C13) The common case of a hooked call with a time-out: the descriptor is not ready, the coroutine
  registers, arms the timer and yields, the descriptor becomes ready, and the second call of the
  original function is answered. The hooked call returns that answer, its timer is cancelled and
  its \<open>timerInfo\<close> is gone. The setting: the coroutine runs on a thread of the IO manager, nobody else
  waits for the event, \<open>epoll_ctl\<close> accepts the socket, the first call is not interrupted by a signal,
  and while the coroutine waits its timer and its \<open>timerInfo\<close> are left alone.
\<close>

theorem do_io_one_wait:
  assumes "valid_fd fd" and "fdm_inv (h_fds s)" and "hooked fd s"
    and "io_inv i (h_world s)" and "single event" and "fd_mask i fd (h_world s) AND event = 0"
    and "th_sched (he_thread env) = Some i" and "th_dor (he_thread env) = Some d"
    and "\<forall>op evs. he_ctl env op fd evs \<noteq> - 1" and "timers_ok i s"
    and "getTimeout so (fobj (h_fds s) (the (slot fd (h_fds s)))) = to" and "to \<noteq> - 1"
    and "f (h_kernel s) = (- 1, EAGAIN, k1)" and "ready_at i env k2"
    and "f k2 = (n, err, k3)" and "n \<noteq> - 1 \<or> err \<noteq> EAGAIN \<and> err \<noteq> EINTR"
  shows "\<exists>s'. do_io env fd f event so s = Some (Inr (n, s')) \<and> h_kernel s' = k3
    \<and> (n = - 1 \<longrightarrow> h_errno s' = err) \<and> h_tinfo s' (h_next s) = None
    \<and> (\<forall>t. \<not> has_timer i (h_next s + 1) t s')"
proof -
  let ?t = "h_next s" and ?p = "h_next s + 1"
  let ?cb = "OnTimerBind ?t (Some (TimeoutFn ?t fd i event))"
  let ?s0 = "(new_tinfo s)\<lparr>h_kernel := k1, h_errno := EAGAIN\<rparr>"
  have gt: "GetThis (he_thread env) (h_world s) = Some i"
    using assms(4,7) by (auto simp: GetThis_def io_inv_def)
  have c1: "call_eintr f (new_tinfo s) = Some (- 1, ?s0)"
    using assms(13) by (subst call_eintr.simps) (simp add: call_def new_tinfo_def EAGAIN_def EINTR_def)
  have it: "this_iom env ?s0 = Inr i" using gt by (simp add: this_iom_def new_tinfo_def)
  have tm: "timers_ok i ?s0" using assms(10) by (fastforce simp: timers_ok_def new_tinfo_def)
  have nx: "h_next ?s0 = ?p" "h_tinfo ?s0 = (h_tinfo s)(?t \<mapsto> 0)" "h_world ?s0 = h_world s"
    "h_kernel ?s0 = k1" by (simp_all add: new_tinfo_def)
  obtain s1 where a: "add_timer env i to ?cb ?s0 = Inr (?p, s1)"
    "has_timer i ?p (Timer_new to (Some ?cb) False (clock_ms (he_orig env) k1)) s1" "timers_ok i s1"
    "h_tinfo s1 = (h_tinfo s)(?t \<mapsto> 0)"
    by (rule add_timer_ok [OF tm, of env to ?cb, unfolded nx])
  have inv1: "io_inv i (h_world s1)" "fd_mask i fd (h_world s1) = fd_mask i fd (h_world s)"
    using add_timer_inv [OF a(1)] assms(4) by (simp_all add: nx)
  have fr: "fd_range fd" using assms(1) by (simp add: fd_range_def valid_fd_def)
  have eo: "env_of i (None :: 'a hook_fn fn option) (he_thread env)" using assms(7,8) by (simp add: env_of_def)
  obtain rt wo where e: "addEvent (he_thread env) (he_ctl env) i fd event None False (h_world s1) = Inr (rt, wo)"
    using addEvent_ok [OF inv1(1) fr assms(5) _ eo, of "he_ctl env" False] assms(6) inv1(2) by auto
  have rt: "rt = 0" using addEvent_refused [OF e] assms(9) by blast
  let ?tm = "Timer_new to (Some ?cb) False (clock_ms (he_orig env) k1)"
  have t2: "has_timer i ?p ?tm (s1\<lparr>h_world := wo\<rparr>)" "timers_ok i (s1\<lparr>h_world := wo\<rparr>)"
    using addEvent_keeps_timers [OF e] a(2,3) by simp_all
  obtain s3 where y: "he_yield env (s1\<lparr>h_world := wo\<rparr>) = Inr s3" "h_kernel s3 = k2"
    "h_tinfo s3 = (h_tinfo s)(?t \<mapsto> 0)" "timers_ok i s3" "has_timer i ?p ?tm s3"
    using assms(14) t2 a(4) unfolding ready_at_def by (auto dest!: spec [of _ "s1\<lparr>h_world := wo\<rparr>"])
  obtain s4 where c: "cancel_timer i (Some ?p) s3 = Inr s4" "\<And>x. \<not> has_timer i ?p x s4"
    by (rule cancel_timer_removes [OF y(4,5)]) (simp_all add: Timer_new_def)
  note cf = cancel_timer_frame [OF c(1)]
  have "wait_event env fd event to ?t ?s0 = Inr (None, s4)"
    unfolding wait_event_def using it a(1) e rt y(1,3) c(1) cf(1) assms(12) by simp
  then have l1: "do_io_loop env f fd event to ?t (new_tinfo s) = do_io_loop env f fd event to ?t s4"
    using c1 by (subst do_io_loop.simps) simp
  let ?s5 = "s4\<lparr>h_kernel := k3, h_errno := (if n = - 1 then err else h_errno s4)\<rparr>"
  have "call_eintr f s4 = Some (n, ?s5)"
    using assms(15,16) y(2) cf(2) by (subst call_eintr.simps) (auto simp: call_def)
  then have "do_io_loop env f fd event to ?t s4 = Some (Inr (n, ?s5))"
    using assms(16) by (subst do_io_loop.simps) auto
  then have "do_io env fd f event so s = Some (Inr (n, ?s5\<lparr>h_tinfo := (h_tinfo ?s5)(?t := None)\<rparr>))"
    unfolding do_io_hooked [OF assms(1-3)] assms(11) l1 by (simp add: drop_tinfo_def)
  then show ?thesis using c(2) by (simp add: has_timer_def)
qed

section \<open>When a call returns\<close>

text \<open>
  What a wait needs of the IO manager \<open>i\<close>: its table and its timers are in order (any number of
  pending events may have been counted twice), and what it keeps for the call: its
  \<open>timerInfo\<close>, and that a timer object belongs to the manager.
\<close>

definition can_wait :: "nat \<Rightarrow> ('u, 'k) hook_state \<Rightarrow> bool" where
  "can_wait i s \<longleftrightarrow> (\<exists>x. io_inv_off x i (h_world s)) \<and> timers_ok i s"

definition managed :: "nat \<Rightarrow> nat \<Rightarrow> ('u, 'k) hook_state \<Rightarrow> bool" where
  "managed i p s \<longleftrightarrow> (\<exists>m. w_scheds (h_world s) i = Some (Io m) \<and> t_manager (tobj (io_timers m) p))"

text \<open>
  The yield of a call whose \<open>timerInfo\<close> is \<open>t\<close> comes back: the coroutine is resumed, whatever the
  other tasks did meanwhile to queues, events, timers and other calls, with the IO manager in
  order, this \<open>timerInfo\<close> alive (set by the time-out or not) and the measure not raised.
\<close>

definition comes_back ::
  "nat \<Rightarrow> nat \<Rightarrow> (('u, 'k) hook_state \<Rightarrow> fault + ('u, 'k) hook_state) \<Rightarrow> ('k \<Rightarrow> nat) \<Rightarrow> bool" where
  "comes_back i t act pending \<longleftrightarrow> (\<forall>u. can_wait i u \<and> h_tinfo u t \<noteq> None \<longrightarrow>
     (\<exists>u'. act u = Inr u' \<and> can_wait i u' \<and> h_tinfo u' t \<noteq> None \<and> pending (h_kernel u') \<le> pending (h_kernel u)
       \<and> (\<forall>p. managed i p u \<longrightarrow> managed i p u')))"

lemma comes_backE:
  assumes "comes_back i t act pending" and "can_wait i u" and "h_tinfo u t \<noteq> None"
  obtains u' where "act u = Inr u'" and "can_wait i u'" and "h_tinfo u' t \<noteq> None"
    and "pending (h_kernel u') \<le> pending (h_kernel u)" and "\<And>p. managed i p u \<Longrightarrow> managed i p u'"
  using assms unfolding comes_back_def by blast

lemma can_wait_GetThis:
  assumes "can_wait i s" and "th_sched te = Some i"
  shows "GetThis te (h_world s) = Some i"
  using assms by (auto simp: can_wait_def timers_ok_def GetThis_def)

lemma can_wait_frame:
  assumes "can_wait i s" and "h_world s' = h_world s" and "h_next s \<le> h_next s'"
  shows "can_wait i s'"
  using assms by (fastforce simp: can_wait_def timers_ok_def)

lemma add_timer_managed:
  assumes "can_wait i s"
  obtains s1 where "add_timer env i ms cb s = Inr (h_next s, s1)" and "can_wait i s1"
    and "managed i (h_next s) s1" and "h_tinfo s1 = h_tinfo s" and "h_kernel s1 = h_kernel s"
proof -
  obtain x where x: "io_inv_off x i (h_world s)" and t: "timers_ok i s" using assms by (auto simp: can_wait_def)
  obtain s1 where a: "add_timer env i ms cb s = Inr (h_next s, s1)"
    "has_timer i (h_next s) (Timer_new ms (Some cb) False (clock_ms (he_orig env) (h_kernel s))) s1"
    "timers_ok i s1" "h_tinfo s1 = h_tinfo s" "h_kernel s1 = h_kernel s"
    by (rule add_timer_ok [OF t, of env ms cb])
  show thesis
  proof (rule that [OF a(1) _ _ a(4,5)])
    show "can_wait i s1" using add_timer_inv(1) [OF a(1) x] a(3) by (auto simp: can_wait_def)
    show "managed i (h_next s) s1" using a(2) by (auto simp: has_timer_def managed_def Timer_new_def)
  qed
qed

lemma addEvent_can_wait:
  assumes w: "can_wait i s" and fd: "fd_range fd" and e: "single e"
    and te: "th_sched te = Some i" "th_dor te = Some d"
  obtains r w' where "addEvent te ctl i fd e None False (h_world s) = Inr (r, w')"
    and "can_wait i (s\<lparr>h_world := w'\<rparr>)" and "\<And>p. managed i p s \<Longrightarrow> managed i p (s\<lparr>h_world := w'\<rparr>)"
proof -
  obtain x where x: "io_inv_off x i (h_world s)" using w by (auto simp: can_wait_def)
  have env: "in_scheduler None te (h_world s)"
    using x te by (auto simp: in_scheduler_def io_inv_def)
  obtain r w' where a: "addEvent te ctl i fd e None False (h_world s) = Inr (r, w')"
    "\<exists>y. io_inv_off y i w'" using addEvent_by [OF x fd e env, of ctl False] by blast
  have "can_wait i (s\<lparr>h_world := w'\<rparr>)"
    using a(2) addEvent_keeps_timers(2) [OF a(1)] w by (auto simp: can_wait_def)
  moreover have "managed i p (s\<lparr>h_world := w'\<rparr>)" if "managed i p s" for p
    using that addEvent_timers [OF a(1)] by (fastforce simp: managed_def)
  ultimately show thesis using a(1) that by blast
qed

lemma cancel_timer_returns:
  assumes w: "can_wait i s" and p: "\<And>p. timer = Some p \<Longrightarrow> managed i p s"
  obtains s' where "cancel_timer i timer s = Inr s'" and "can_wait i s'"
proof (cases timer)
  case None
  then show thesis using w that by (simp add: cancel_timer_def)
next
  case (Some p)
  obtain x m where x: "io_inv_off x i (h_world s)" and m: "w_scheds (h_world s) i = Some (Io m)" "io_ok_off x i m (h_world s)"
    using w by (auto simp: can_wait_def io_inv_def)
  have tm: "tm_inv (io_timers m)" "\<forall>q \<in> set (m_timers (io_timers m)). q < h_next s"
    using w m(1) by (auto simp: can_wait_def timers_ok_def)
  have "t_manager (tobj (io_timers m) p)" using p [OF Some] m(1) by (simp add: managed_def)
  from cancel_ok [OF tm(1) this] obtain b ts where c: "cancel p (io_timers m) = Inr (b, ts)"
    "set (m_timers ts) \<subseteq> set (m_timers (io_timers m))" by (auto split: if_splits)
  let ?s = "s\<lparr>h_world := put_iom i (m\<lparr>io_timers := ts\<rparr>) (h_world s)\<rparr>"
  have "cancel_timer i timer s = Inr ?s" using Some m(1) c(1) by (simp add: cancel_timer_def iom_at_def)
  moreover have "io_inv_off x i (h_world ?s)" using io_inv_put [OF m] by simp
  moreover have "timers_ok i ?s"
    using tm_inv_cancel [OF tm(1) c(1)] tm(2) c(2) by (auto simp: timers_ok_def put_iom_def)
  ultimately show thesis using that unfolding can_wait_def by blast
qed

lemma wait_event_returns:
  assumes w: "can_wait i s" "h_tinfo s t \<noteq> None" and fd: "fd_range fd" and e: "single event"
    and te: "th_sched (he_thread env) = Some i" "th_dor (he_thread env) = Some d"
    and y: "comes_back i t (he_yield env) pending"
  obtains r s' where "wait_event env fd event to t s = Inr (r, s')"
    and "r = None \<Longrightarrow> can_wait i s' \<and> h_tinfo s' t \<noteq> None \<and> pending (h_kernel s') \<le> pending (h_kernel s)"
proof -
  have it: "this_iom env s = Inr i" using can_wait_GetThis [OF w(1) te(1)] by (simp add: this_iom_def)
  obtain timer s1 where a: "(if to \<noteq> - 1
            then rbind (add_timer env i to (OnTimerBind t (Some (TimeoutFn t fd i event))) s)
                   (\<lambda>(p, s1). Inr (Some p, s1))
            else Inr (None, s)) = Inr (timer, s1)"
      "can_wait i s1" "\<And>p. timer = Some p \<Longrightarrow> managed i p s1" "h_tinfo s1 = h_tinfo s" "h_kernel s1 = h_kernel s"
  proof (cases "to = - 1")
    case True
    then show thesis using w(1) that [of None s] by simp
  next
    case False
    obtain s1 where s1: "add_timer env i to (OnTimerBind t (Some (TimeoutFn t fd i event))) s = Inr (h_next s, s1)"
      "can_wait i s1" "managed i (h_next s) s1" "h_tinfo s1 = h_tinfo s" "h_kernel s1 = h_kernel s"
      by (rule add_timer_managed [OF w(1)])
    show thesis by (rule that [of "Some (h_next s)" s1]) (use s1 False in auto)
  qed
  obtain rt wo where b: "addEvent (he_thread env) (he_ctl env) i fd event None False (h_world s1) = Inr (rt, wo)"
      "can_wait i (s1\<lparr>h_world := wo\<rparr>)" "\<And>p. managed i p s1 \<Longrightarrow> managed i p (s1\<lparr>h_world := wo\<rparr>)"
    by (rule addEvent_can_wait [OF a(2) fd e te, of "he_ctl env"]) blast
  let ?s2 = "s1\<lparr>h_world := wo\<rparr>"
  note run = wait_event_def it a(1) b(1) rbind_simps prod.case Let_def
  show thesis
  proof (cases "rt = 0")
    case True
    have "h_tinfo ?s2 t \<noteq> None" using w(2) a(4) by simp
    from comes_backE [OF y b(2) this] obtain s3 where s3: "he_yield env ?s2 = Inr s3" "can_wait i s3"
      "h_tinfo s3 t \<noteq> None" "pending (h_kernel s3) \<le> pending (h_kernel ?s2)" "\<And>p. managed i p ?s2 \<Longrightarrow> managed i p s3"
      by blast
    have "managed i p s3" if "timer = Some p" for p using s3(5) b(3) a(3) that by blast
    from cancel_timer_returns [OF s3(2) this] obtain s4 where s4: "cancel_timer i timer s3 = Inr s4" "can_wait i s4"
      by blast
    obtain c where c: "h_tinfo s4 t = Some c" using s3(3) cancel_timer_frame(1) [OF s4(1)] by auto
    have "pending (h_kernel s4) \<le> pending (h_kernel s)"
      using s3(4) cancel_timer_frame(2) [OF s4(1)] a(5) by simp
    then show thesis using True s3(1) s4 c that unfolding run by (cases "c = 0") simp_all
  next
    case False
    have "managed i p ?s2" if "timer = Some p" for p using b(3) a(3) that by blast
    from cancel_timer_returns [OF b(2) this] obtain s3 where "cancel_timer i timer ?s2 = Inr s3" by blast
    then show thesis using False that unfolding run by simp
  qed
qed

lemma do_io_loop_returns:
  fixes pending :: "'k \<Rightarrow> nat"
  assumes f: "gets_ready f pending" and fd: "fd_range fd" and e: "single event"
    and te: "th_sched (he_thread env) = Some i" "th_dor (he_thread env) = Some d"
    and y: "comes_back i t (he_yield env) pending"
  shows "can_wait i s \<Longrightarrow> h_tinfo s t \<noteq> None \<Longrightarrow> \<exists>n s'. do_io_loop env f fd event to t s = Some (Inr (n, s'))"
proof (induction "pending (h_kernel s)" arbitrary: s rule: less_induct)
  case less
  obtain n s1 where c: "call_eintr f s = Some (n, s1)"
    "n = - 1 \<and> h_errno s1 = EAGAIN \<longrightarrow> pending (h_kernel s1) < pending (h_kernel s)"
    using call_eintr_returns [OF f, of s] by blast
  have s1: "s1 = s\<lparr>h_kernel := h_kernel s1, h_errno := h_errno s1\<rparr>" using call_eintr_outcome [OF c(1)] by blast
  have eq: "h_world s1 = h_world s" "h_next s1 = h_next s" "h_tinfo s1 = h_tinfo s" by (subst s1, simp)+
  have w: "can_wait i s1" by (rule can_wait_frame [OF less.prems(1)]) (simp_all add: eq)
  have t: "h_tinfo s1 t \<noteq> None" using less.prems(2) eq(3) by simp
  show ?case
  proof (cases "n = - 1 \<and> h_errno s1 = EAGAIN")
    case False
    then show ?thesis using c(1) by (subst do_io_loop.simps) auto
  next
    case True
    obtain r s2 where v: "wait_event env fd event to t s1 = Inr (r, s2)"
      "r = None \<Longrightarrow> can_wait i s2 \<and> h_tinfo s2 t \<noteq> None \<and> pending (h_kernel s2) \<le> pending (h_kernel s1)"
      by (rule wait_event_returns [OF w t fd e te y, of to]) blast
    show ?thesis
    proof (cases r)
      case None
      then have "pending (h_kernel s2) < pending (h_kernel s)" using v(2) c(2) True by linarith
      from less.hyps [OF this] v None c(1) True show ?thesis by (subst do_io_loop.simps) simp
    next
      case (Some m)
      then show ?thesis using c(1) True v(1) by (subst do_io_loop.simps) simp
    qed
  qed
qed

text \<open>
  (C21) A hooked call returns with a value, never with a fault, if it does not find the
  descriptor unready for ever: some measure of the kernel drops with every answer \<open>EINTR\<close> or
  \<open>EAGAIN\<close>. The setting: the descriptor is valid, the call is made by a coroutine on a thread of an
  IO manager whose table and timers are in order, and each of its yields comes back
  (\<open>comes_back\<close>), the measure not raised meanwhile; the descriptor may have other waiters and
  \<open>epoll_ctl\<close> may refuse it. A coroutine that is suspended and never resumed does not return
  from its call: that case is excluded here by the hypothesis on the yield (the composed
  system, where coroutines stay suspended until something resumes them, has its own
  properties), and outside an IO manager a call that has to wait dereferences a null pointer.
\<close>

theorem do_io_returns:
  fixes pending :: "'k \<Rightarrow> nat"
  assumes "valid_fd fd" and "fdm_inv (h_fds s)" and "single event"
    and "th_sched (he_thread env) = Some i" and "th_dor (he_thread env) = Some d" and "can_wait i s"
    and "gets_ready f pending" and "comes_back i (h_next s) (he_yield env) pending"
  shows "\<exists>n s'. do_io env fd f event so s = Some (Inr (n, s'))"
proof (cases "hooked fd s")
  case True
  have fr: "fd_range fd" using assms(1) by (simp add: fd_range_def valid_fd_def)
  let ?to = "getTimeout so (fobj (h_fds s) (the (slot fd (h_fds s))))"
  have "can_wait i (new_tinfo s)" by (rule can_wait_frame [OF assms(6)]) (simp_all add: new_tinfo_def)
  from do_io_loop_returns [OF assms(7) fr assms(3-5,8) this, of ?to]
  obtain n s' where "do_io_loop env f fd event ?to (h_next s) (new_tinfo s) = Some (Inr (n, s'))"
    by (auto simp: new_tinfo_def)
  then show ?thesis unfolding do_io_hooked [OF assms(1,2) True] by (simp add: drop_tinfo_def)
next
  case False
  have "do_io env fd f event so s = Some (Inr (call f s))"
  proof (cases "slot fd (h_fds s)")
    case None
    with fd_get_eq [OF assms(1,2), of env] show ?thesis by (simp add: do_io_def)
  next
    case (Some c)
    with fd_get_eq [OF assms(1,2), of env] slot_open [OF assms(2) Some] False
    show ?thesis by (auto simp: do_io_def hooked_def Let_def)
  qed
  then show ?thesis by (cases "call f s") simp
qed

end
