(* ===== verification/HookExamples.thy ===== *)
theory HookExamples
  imports HookFds
begin

text \<open>
  A concrete kernel, IO manager and descriptor table on which the properties of the hooked
  calls are applied: descriptor 5 is a socket with a time-out of 100 ms for reading.
\<close>

text \<open>The kernel: how often a read finds nothing, and the flags of the descriptor.\<close>

type_synonym wit_kernel = "nat \<times> u32"

definition wit_orig :: "wit_kernel orig_funs" where
  "wit_orig = \<lparr>sleep_f = \<lambda>_ k. (0, 0, k), usleep_f = \<lambda>_ k. (0, 0, k), nanosleep_f = \<lambda>_ _ k. (0, 0, k),
     socket_f = \<lambda>_ _ _ k. (5, 0, k), connect_f = \<lambda>_ _ _ k. (- 1, EINPROGRESS, k), accept_f = \<lambda>_ _ _ k. (6, 0, k),
     read_f = \<lambda>_ _ _ (c, fl). (if c = 0 then (3, 0, (0, fl)) else (- 1, EAGAIN, (c - 1, fl))),
     readv_f = \<lambda>_ _ _ k. (0, 0, k), recv_f = \<lambda>_ _ _ _ k. (0, 0, k), recvfrom_f = \<lambda>_ _ _ _ _ _ k. (0, 0, k),
     recvmsg_f = \<lambda>_ _ _ k. (0, 0, k), write_f = \<lambda>_ _ _ k. (0, 0, k), writev_f = \<lambda>_ _ _ k. (0, 0, k),
     send_f = \<lambda>_ _ _ _ k. (0, 0, k), sendto_f = \<lambda>_ _ _ _ _ _ k. (0, 0, k), sendmsg_f = \<lambda>_ _ _ k. (0, 0, k),
     close_f = \<lambda>_ k. (0, 0, k),
     fcntl_f = \<lambda>_ cmd va (c, fl). (if cmd = F_SETFL
       then (case va of IntArg v \<Rightarrow> (0, 0, (c, v AND 0xC00)) | _ \<Rightarrow> (- 1, 22, (c, fl))) else (sint fl, 0, (c, fl))),
     ioctl_f = \<lambda>_ _ _ k. (0, 0, k), getsockopt_f = \<lambda>_ _ _ k. ((0, 0), 0, k), setsockopt_f = \<lambda>_ _ _ _ _ k. (0, 0, k),
     fstat_f = \<lambda>_ k. Some 0xC1FF, int_at = \<lambda>_ k. 0, timeval_at = \<lambda>_ k. (0, 0), clock_ms = \<lambda>k. 1000\<rparr>"

definition wit_hook_env :: "(nat, wit_kernel) hook_env" where
  "wit_hook_env = \<lparr>he_thread = wit_env, he_ctl = wit_ok, he_ctl_errno = 0, he_orig = wit_orig,
     he_yield = (\<lambda>u. Inr (u\<lparr>h_kernel := (0, 0)\<rparr>)), he_user = (\<lambda>u s. Inr s)\<rparr>"

definition wit_fds :: FdManager where
  "wit_fds = \<lparr>fobj = (\<lambda>p. wit_ctx\<lparr>m_isSocket := True, m_sysNoBlock := True, m_fd := 5,
     m_recvTimeout := 100, m_sendTimeout := - 1\<rparr>),
     m_fds = (replicate 64 None)[5 := Some 8]\<rparr>"

definition wit_state :: "nat hook_fn world \<Rightarrow> (nat, wit_kernel) hook_state" where
  "wit_state w = \<lparr>st_hookEnable = True, h_world = w, h_fds = wit_fds, h_tinfo = (\<lambda>t. None), h_next = 10,
     h_errno = 0, h_kernel = (1, 0x800)\<rparr>"

lemma wit_fds_ok:
  "fdm_inv wit_fds" "slot 5 wit_fds = Some 8" "isSocket (fobj wit_fds 8)" "\<not> getUserNonblock (fobj wit_fds 8)"
  "getSysNonblock (fobj wit_fds 8)" "getTimeout SO_RCVTIMEO (fobj wit_fds 8) = 100"
proof -
  have "m_fds wit_fds ! i = Some p \<Longrightarrow> i < 64 \<Longrightarrow> i = 5" for i p
    by (auto simp: wit_fds_def nth_list_update split: if_splits)
  then show "fdm_inv wit_fds" by (fastforce simp: fdm_inv_def wit_fds_def wit_ctx_def)
qed (simp_all add: slot_def wit_fds_def wit_ctx_def isSocket_def getUserNonblock_def getSysNonblock_def getTimeout_def)

lemma wit_state_simps [simp]:
  "st_hookEnable (wit_state w)" "h_world (wit_state w) = w" "h_fds (wit_state w) = wit_fds"
  "h_tinfo (wit_state w) = (\<lambda>t. None)" "h_next (wit_state w) = 10" "h_kernel (wit_state w) = (1, 0x800)"
  by (simp_all add: wit_state_def)

lemma wit_hook_env_simps [simp]:
  "he_thread wit_hook_env = wit_env" "he_ctl wit_hook_env = wit_ok" "he_orig wit_hook_env = wit_orig"
  "he_yield wit_hook_env = (\<lambda>u. Inr (u\<lparr>h_kernel := (0, 0)\<rparr>))"
  by (simp_all add: wit_hook_env_def)

lemma wit_hooked: "valid_fd 5" "fdm_inv (h_fds (wit_state w))" "hooked 5 (wit_state w)"
  by (simp_all add: valid_fd_def wit_fds_ok hooked_def)

lemma wit_thread: "th_sched wit_env = Some 7" "th_dor wit_env = Some 1"
  by (simp_all add: wit_env_def)

lemma wit_io:
  obtains w :: "nat hook_fn world" where "io_inv 7 w" and "\<forall>fd. fd_mask 7 fd w = 0" and "timers_ok 7 (wit_state w)"
    and "GetThis wit_env w = Some 7" and "w_scheds w 7 \<noteq> None"
proof -
  obtain w :: "nat hook_fn world" and m where s: "io_started 7 w" "w_scheds w 7 = Some (Io m)"
    "io_timers m = TimerManager_new (\<lambda>p. Timer_at 0) 0" "\<forall>fd. fd_mask 7 fd w = 0" by (rule wit_started)
  have "tm_inv (io_timers m)" unfolding s(3) by (rule tm_inv_new) (simp add: Timer_at_def)
  moreover have "m_timers (io_timers m) = []" by (simp add: s(3) TimerManager_new_def)
  ultimately have "timers_ok 7 (wit_state w)" using s(2) by (simp add: timers_ok_def)
  then show thesis using that s(2,4) io_started_inv [OF s(1)] by (simp add: GetThis_def wit_env_def)
qed

lemma wit_flags_law: "flags_law wit_orig"
proof -
  have "sint (v AND 0xC00 :: u32) \<noteq> - 1" for v
  proof
    assume "sint (v AND 0xC00 :: u32) = - 1"
    then have "(v AND 0xC00 :: u32) = - 1" by (metis sint_n1 signed_word_eqI)
    then have "bit (v AND 0xC00 :: u32) 0" by simp
    then show False by (simp add: bit_and_iff)
  qed
  moreover have "(v AND 0xC00) AND O_NONBLOCK = v AND O_NONBLOCK" for v :: u32
    by (simp add: O_NONBLOCK_def and.assoc)
  ultimately show ?thesis by (auto simp: flags_law_def wit_orig_def F_GETFL_def F_SETFL_def)
qed

lemma do_io_transparent_witness:
  "do_io wit_hook_env 6 (read_f wit_orig 6 0 4) EV_READ SO_RCVTIMEO (wit_state wit_world)
    = Some (Inr (call (read_f wit_orig 6 0 4) (wit_state wit_world)))"
  by (rule do_io_transparent) (simp_all add: valid_fd_def wit_fds_ok hooked_def slot_def, simp add: wit_fds_def)

lemma wit_keeps_tinfo: "keeps_tinfo (he_yield wit_hook_env)"
  by (simp add: keeps_tinfo_def tinfo_ok_def)

lemma wit_gets_ready: "gets_ready (read_f wit_orig fd b n) fst" "comes_back i t (he_yield wit_hook_env) fst"
proof -
  show "gets_ready (read_f wit_orig fd b n) fst" by (auto simp: gets_ready_def wit_orig_def split: if_splits)
  have "can_wait i (u\<lparr>h_kernel := k\<rparr>) = can_wait i u" for k and u :: "(nat, wit_kernel) hook_state"
    by (simp add: can_wait_def timers_ok_def)
  then show "comes_back i t (he_yield wit_hook_env) fst" by (simp add: comes_back_def managed_def)
qed

lemma do_io_returns_witness:
  "\<exists>w n s'. do_io wit_hook_env 5 (read_f wit_orig 5 0 4) EV_READ SO_RCVTIMEO (wit_state w) = Some (Inr (n, s'))"
proof -
  obtain w :: "nat hook_fn world" where w: "io_inv 7 w" "timers_ok 7 (wit_state w)" by (rule wit_io)
  then have "can_wait 7 (wit_state w)" by (auto simp: can_wait_def)
  then have "\<exists>n s'. do_io wit_hook_env 5 (read_f wit_orig 5 0 4) EV_READ SO_RCVTIMEO (wit_state w) = Some (Inr (n, s'))"
    using wit_hooked by (intro do_io_returns [OF _ _ _ _ _ _ wit_gets_ready, where i = 7 and d = 1])
      (simp_all add: wit_thread single_def)
  then show ?thesis by blast
qed

lemma do_io_one_wait_witness:
  "\<exists>w s'. do_io wit_hook_env 5 (read_f wit_orig 5 0 4) EV_READ SO_RCVTIMEO (wit_state w) = Some (Inr (3, s'))
     \<and> h_tinfo s' 10 = None"
proof -
  obtain w :: "nat hook_fn world" where w: "io_inv 7 w" "\<forall>fd. fd_mask 7 fd w = 0" "timers_ok 7 (wit_state w)"
    by (rule wit_io)
  have "ready_at 7 wit_hook_env (0, 0)"
    by (simp add: ready_at_def timers_ok_def has_timer_def)
  moreover have "single EV_READ" by (simp add: single_def)
  ultimately have "\<exists>s'. do_io wit_hook_env 5 (read_f wit_orig 5 0 4) EV_READ SO_RCVTIMEO (wit_state w) = Some (Inr (3, s'))
    \<and> h_kernel s' = (0, 0) \<and> (3 = (- 1 :: int) \<longrightarrow> h_errno s' = 0) \<and> h_tinfo s' (h_next (wit_state w)) = None
    \<and> (\<forall>t. \<not> has_timer 7 (h_next (wit_state w) + 1) t s')"
    using w wit_hooked
    by (intro do_io_one_wait [where d = 1 and to = 100 and ?k1.0 = "(0, 0x800)" and ?k2.0 = "(0, 0)"])
      (simp_all add: wit_thread wit_fds_ok wit_orig_def)
  then show ?thesis by auto
qed

lemma do_io_never_would_block_witness:
  "\<exists>s' k err k'. do_io wit_hook_env 5 (read_f wit_orig 5 0 4) EV_READ SO_RCVTIMEO ((wit_state wit_world)\<lparr>h_kernel := (0, 0)\<rparr>)
       = Some (Inr (3, s')) \<and> read_f wit_orig 5 0 4 k = (3, err, k')"
proof -
  let ?s = "(wit_state wit_world)\<lparr>h_kernel := (0, 0)\<rparr>" and ?f = "read_f wit_orig 5 0 4"
  have h: "fdm_inv (h_fds ?s)" "hooked 5 ?s" by (simp_all add: hooked_def wit_fds_ok)
  let ?s1 = "new_tinfo ?s"
  have "call_eintr ?f ?s1 = Some (3, ?s1\<lparr>h_kernel := (0, 0), h_errno := h_errno ?s1\<rparr>)"
    by (subst call_eintr.simps) (simp add: call_def wit_orig_def new_tinfo_def)
  then have "do_io_loop wit_hook_env ?f 5 EV_READ to t ?s1
      = Some (Inr (3, ?s1\<lparr>h_kernel := (0, 0), h_errno := h_errno ?s1\<rparr>))" for to t
    by (subst do_io_loop.simps) simp
  then have run: "\<exists>s'. do_io wit_hook_env 5 ?f EV_READ SO_RCVTIMEO ?s = Some (Inr (3, s'))"
    unfolding do_io_hooked [OF wit_hooked(1) h] by (simp add: drop_tinfo_def)
  then obtain s' where s': "do_io wit_hook_env 5 ?f EV_READ SO_RCVTIMEO ?s = Some (Inr (3, s'))" by blast
  have "tinfo_ok ?s" by (simp add: tinfo_ok_def)
  from do_io_never_would_block [OF wit_hooked(1) h this wit_keeps_tinfo s'] s' show ?thesis by auto
qed

lemma timeout_resumes_once_witness:
  "\<exists>(w :: nat hook_fn world) w1 s2. addEvent wit_env wit_ok 7 5 EV_READ None False w = Inr (0, w1)
     \<and> run_fn wit_hook_env (OnTimerBind 9 (Some (TimeoutFn 9 5 7 EV_READ)))
         ((wit_state w)\<lparr>h_tinfo := (\<lambda>t. None)(9 \<mapsto> 0), h_world := w1\<rparr>) = Inr s2
     \<and> queue_at 7 (h_world s2) = queue_at 7 w @ [task_of (Dor (Some 1)) (- 1)]
     \<and> h_tinfo s2 9 = Some ETIMEDOUT"
proof -
  have e: "single EV_READ" by (simp add: single_def)
  then obtain w0 w :: "nat hook_fn world" and m a where s: "io_inv 7 w0" "fd_mask 7 5 w0 = 0"
    "addEvent wit_env wit_ok 7 5 EV_READ None False w0 = Inr (0, w)" by (rule wit_registered)
  have "fd_range 5" by (simp add: fd_range_def)
  then obtain s2 where "run_fn wit_hook_env (OnTimerBind 9 (Some (TimeoutFn 9 5 7 EV_READ)))
         ((wit_state w0)\<lparr>h_tinfo := (\<lambda>t. None)(9 \<mapsto> 0), h_world := w\<rparr>) = Inr s2"
     "queue_at 7 (h_world s2) = queue_at 7 w0 @ [task_of (Dor (Some 1)) (- 1)]" "h_tinfo s2 9 = Some ETIMEDOUT"
    using timeout_resumes_once [of 7 "(wit_state w0)\<lparr>h_tinfo := (\<lambda>t. None)(9 \<mapsto> 0)\<rparr>" 5 EV_READ wit_hook_env 1 w 9]
      s e by (auto simp: wit_thread)
  with s(3) show ?thesis by blast
qed

lemma fcntl_flags_roundtrip_witness:
  "\<exists>s1 r s2. fcntl wit_hook_env 5 F_SETFL (IntArg 0x800) (wit_state wit_world) = Inr (0, s1)
     \<and> fcntl wit_hook_env 5 F_GETFL NoArg s1 = Inr (r, s2)
     \<and> (word_of_int r :: u32) AND O_NONBLOCK = 0x800 AND O_NONBLOCK"
proof -
  have "socket_ctx wit_hook_env 5 (wit_state wit_world) = Inr (Some (8, fobj wit_fds 8), wit_state wit_world)"
    using socket_ctx_eq [of 5 "wit_state wit_world" 8 wit_hook_env] by (simp add: wit_fds_ok valid_fd_def)
  then have "\<exists>s1. fcntl wit_hook_env 5 F_SETFL (IntArg 0x800) (wit_state wit_world) = Inr (0, s1)"
    by (simp add: fcntl_def va_int_def fcntl_setfl_def Let_def call_def put_fd_ctx_def wit_orig_def)
  then obtain s1 where s1: "fcntl wit_hook_env 5 F_SETFL (IntArg 0x800) (wit_state wit_world) = Inr (0, s1)" by blast
  have "flags_law (he_orig wit_hook_env)" by (simp add: wit_flags_law)
  from fcntl_flags_roundtrip [OF wit_hooked(1,2) _ _ _ this s1, of 8] s1 show ?thesis
    by (simp add: wit_fds_ok) blast
qed

lemma fcntl_getfl_error_witness:
  "\<exists>s1. fcntl (wit_hook_env\<lparr>he_orig := wit_orig\<lparr>fcntl_f := \<lambda>_ _ _ k. (- 1, EBADF, k)\<rparr>\<rparr>) 5 F_GETFL NoArg
     (wit_state wit_world) = Inr (- 2049, s1) \<and> h_errno s1 = EBADF"
  by (rule fcntl_getfl_error [OF wit_hooked(1,2), of _ 8]) (simp_all add: wit_fds_ok)

lemma sleep_timer_witness:
  "\<exists>w s1. sleep wit_hook_env 2 (wit_state w) = rbind (he_yield wit_hook_env s1) (\<lambda>s2. Inr (0, s2))
     \<and> has_timer 7 10 (Timer_new 2000 (Some (Callback (WakeFn 7 (Some 1)))) False 1000) s1"
proof -
  obtain w :: "nat hook_fn world" where w: "timers_ok 7 (wit_state w)" "GetThis wit_env w = Some 7" by (rule wit_io)
  have "this_iom wit_hook_env (wit_state w) = Inr 7" using w(2) by (simp add: this_iom_def)
  from sleep_timer [OF _ this w(1), of 1 2] show ?thesis
    by (intro exI [of _ w]) (auto simp: wit_thread wit_orig_def)
qed

lemma close_forgets_witness:
  "\<exists>w s1. close wit_hook_env 5 (wit_state w) = Inr (0, s1) \<and> slot 5 (h_fds s1) = None
     \<and> queue_at 7 (h_world s1) = queue_at 7 w @ [task_of (Dor (Some 1)) (- 1)]"
proof -
  have e: "single EV_READ" by (simp add: single_def)
  then obtain w0 w :: "nat hook_fn world" and m a where s: "io_inv 7 w" "fd_mask 7 5 w = EV_READ"
    "io_inv 7 w0" "fd_mask 7 5 w0 = 0" "addEvent wit_env wit_ok 7 5 EV_READ None False w0 = Inr (0, w)"
    by (rule wit_registered)
  have fr: "fd_range 5" by (simp add: fd_range_def)
  have eo: "env_of 7 (None :: nat hook_fn fn option) wit_env" by (simp add: env_of_def wit_env_def)
  have "ctx_of 7 5 w = Some (registered_ctx wit_env EV_READ None False (ctx_or_new 7 5 w0))"
    using addEvent_ok [OF s(3) fr e _ eo, of wit_ok False] s(4,5) by auto
  then have "ev_request (ev_of EV_READ (ctx_or_new 7 5 w)) = Dor (Some 1)"
    "ev_scheduler (ev_of EV_READ (ctx_or_new 7 5 w)) = Some 7"
    using registered_event(1,2) [OF fresh_event(1) [OF s(3) _ e] e, of 5 wit_env None False] s(4)
    by (simp_all add: ctx_or_new_def asked_def wit_thread)
  then have res: "resumed 7 (ev_of EV_READ (ctx_or_new 7 5 w)) = [task_of (Dor (Some 1)) (- 1)]"
    by (simp add: resumed_def requested_def task_of_request_def Let_def has_work_def)
  have "events_of (fd_mask 7 5 w) = [EV_READ]" using s(2) by (simp add: events_of_def event_defs)
  with res obtain n s1 where "close wit_hook_env 5 (wit_state w) = Inr (n, s1)"
    "n = fst (close_f wit_orig 5 (1, 0x800))" "slot 5 (h_fds s1) = None"
    "queue_at 7 (h_world s1) = queue_at 7 w @ [task_of (Dor (Some 1)) (- 1)]"
    using close_forgets [OF _ fr wit_hooked(2), of w 8 7 wit_hook_env] s(1)
    by (auto simp: wit_fds_ok wit_thread valid_fd_def)
  then show ?thesis by (auto simp: wit_orig_def)
qed

lemma connect_leaves_timer_witness:
  "\<exists>w n s'. connect_with_timeout wit_hook_env 5 0 16 5000 (wit_state w) = Inr (n, s')
     \<and> has_timer 7 11 (Timer_new 5000 (Some (OnTimerBind 10 (Some (TimeoutFn 10 5 7 EV_WRITE)))) False 1000) s'"
proof -
  obtain w :: "nat hook_fn world" where w: "io_inv 7 w" "\<forall>fd. fd_mask 7 fd w = 0" "timers_ok 7 (wit_state w)"
    "GetThis wit_env w = Some 7" by (rule wit_io)
  have it: "this_iom wit_hook_env (wit_state w) = Inr 7" using w(4) by (simp add: this_iom_def)
  let ?s2 = "(wit_state w)\<lparr>h_kernel := (1, 0x800), h_errno := EINPROGRESS\<rparr>"
  let ?cb = "OnTimerBind 10 (Some (TimeoutFn 10 5 7 EV_WRITE)) :: nat hook_fn fn"
  have tm: "timers_ok 7 (new_tinfo ?s2)" using w(3) by (fastforce simp: timers_ok_def new_tinfo_def)
  obtain s1 where a: "add_timer wit_hook_env 7 5000 ?cb (new_tinfo ?s2) = Inr (11, s1)"
    "h_tinfo s1 = (\<lambda>t. None)(10 \<mapsto> 0)"
    by (rule add_timer_ok [OF tm, of wit_hook_env 5000 ?cb]) (simp_all add: new_tinfo_def)
  have inv: "io_inv 7 (h_world s1)" "fd_mask 7 5 (h_world s1) = 0"
    using add_timer_inv [OF a(1)] w(1,2) by (simp_all add: new_tinfo_def)
  have fr: "fd_range 5" "single EV_WRITE" by (simp_all add: fd_range_def single_def)
  have eo: "env_of 7 (None :: nat hook_fn fn option) wit_env" by (simp add: env_of_def wit_env_def)
  obtain rt wo where e: "addEvent wit_env wit_ok 7 5 EV_WRITE None False (h_world s1) = Inr (rt, wo)"
    using addEvent_ok [OF inv(1) fr _ eo, of wit_ok False] inv(2) by auto
  have rt: "rt = 0" using addEvent_refused [OF e] by auto
  let ?s3 = "s1\<lparr>h_world := wo, h_kernel := (0, 0)\<rparr>"
  have it2: "this_iom wit_hook_env (new_tinfo ?s2) = Inr 7" using w(4) by (simp add: this_iom_def new_tinfo_def)
  have "connect_wait wit_hook_env 5 5000 10 (new_tinfo ?s2) = Inr (None, ?s3)"
    unfolding connect_wait_def using it2 a e rt by (simp add: cancel_timer_def)
  moreover have "call (connect_f wit_orig 5 0 16) (wit_state w) = (- 1, ?s2)"
    by (simp add: call_def wit_orig_def)
  ultimately have "\<exists>n s'. connect_with_timeout wit_hook_env 5 0 16 5000 (wit_state w) = Inr (n, s')"
    using fd_get_eq [OF wit_hooked(1,2), of wit_hook_env w] slot_open [OF wit_fds_ok(1,2)] wit_fds_ok(2-4)
    by (simp add: connect_with_timeout_def drop_tinfo_def connect_result_def getsockopt_def wit_orig_def Let_def)
  then obtain n s' where run: "connect_with_timeout wit_hook_env 5 0 16 5000 (wit_state w) = Inr (n, s')" by blast
  have kt: "keeps_timers 7 wit_hook_env" by (simp add: keeps_timers_def has_timer_def)
  from connect_leaves_timer [OF wit_hooked(3,1,2) it w(3) _ _ kt run, of "(1, 0x800)"] run show ?thesis
    by (auto simp: wit_orig_def)
qed

end
