(* ===== verification/HookStart.thy ===== *)
theory HookStart
  imports HookExamples
begin

text \<open>
  Before and beside the hooks: the variables of the original functions and \<open>hookInit\<close>, which
  fills them; and a descriptor that is closed on a thread without hooks, whose context stays in
  the table.
\<close>

section \<open>The variables of the original functions\<close>

definition HOOK_FUN :: "string list" where
  "HOOK_FUN = [''sleep'', ''usleep'', ''nanosleep'', ''socket'', ''connect'', ''accept'', ''read'', ''readv'', ''recv'',
     ''recvfrom'', ''recvmsg'', ''write'', ''writev'', ''send'', ''sendto'', ''sendmsg'', ''close'', ''fcntl'', ''ioctl'',
     ''getsockopt'', ''setsockopt'']"

text \<open>The variable of a name is there or not; it holds a null pointer or a function's address.\<close>

type_synonym fun_vars = "string \<rightharpoonup> nat option"

definition hook_vars :: fun_vars where
  "hook_vars = map_of (map (\<lambda>name. (name, None)) HOOK_FUN)"

text \<open>
  \<open>dlsym\<close> gives the address of the next function of a name; \<open>is_inited\<close> is a static local. The
  constructor of the static object \<open>s_hookIniter\<close> makes the first call.
\<close>

definition hookInit :: "(string \<Rightarrow> nat option) \<Rightarrow> bool \<times> fun_vars \<Rightarrow> bool \<times> fun_vars" where
  "hookInit dlsym iv =
     (let (is_inited, vars) = iv
      in if is_inited then (is_inited, vars)
         else (is_inited, foldl (\<lambda>v name. v(name \<mapsto> dlsym name)) vars HOOK_FUN))"

definition s_hookIniter :: "(string \<Rightarrow> nat option) \<Rightarrow> bool \<times> fun_vars" where
  "s_hookIniter dlsym = hookInit dlsym (False, hook_vars)"

definition call_through :: "string \<Rightarrow> fun_vars \<Rightarrow> fault + nat" where
  "call_through name vars = (case vars name of Some (Some p) \<Rightarrow> Inr p | _ \<Rightarrow> Inl NullDeref)"

lemma foldl_vars: "foldl (\<lambda>v n. v(n \<mapsto> g n)) vars ns = (\<lambda>n. if n \<in> set ns then Some (g n) else vars n)"
  by (induction ns arbitrary: vars) (auto simp: fun_eq_iff)

lemma hookInit_eq: "hookInit dlsym (False, vars) = (False, \<lambda>n. if n \<in> set HOOK_FUN then Some (dlsym n) else vars n)"
  by (simp add: hookInit_def foldl_vars)

lemma dom_hook_vars: "dom hook_vars = set HOOK_FUN"
  by (simp add: hook_vars_def dom_map_of_conv_image_fst image_comp o_def)

lemma null_before_init: "call_through name hook_vars = Inl NullDeref"
  by (auto simp: call_through_def hook_vars_def split: option.split dest: map_of_SomeD)

text \<open>
  The initialisation at load time fills every variable, and no others. The guard does not guard:
  a second call looks all names up again.
\<close>

lemma hookInit_fills:
  assumes "s_hookIniter dlsym = (i, vars)" and "\<forall>name \<in> set HOOK_FUN. dlsym name \<noteq> None"
  shows "dom vars = set HOOK_FUN" and "name \<in> set HOOK_FUN \<Longrightarrow> call_through name vars = Inr (the (dlsym name))"
proof -
  have "vars = (\<lambda>n. if n \<in> set HOOK_FUN then Some (dlsym n) else hook_vars n)" using assms(1) by (simp add: s_hookIniter_def hookInit_eq)
  then show "dom vars = set HOOK_FUN" "name \<in> set HOOK_FUN \<Longrightarrow> call_through name vars = Inr (the (dlsym name))"
    using assms(2) dom_hook_vars by (auto simp: call_through_def split: if_splits)
qed

lemma hookInit_again:
  "hookInit dlsym2 (s_hookIniter dlsym) = s_hookIniter dlsym2"
  by (simp add: s_hookIniter_def hookInit_eq fun_eq_iff)

section \<open>A context that outlives its descriptor\<close>

text \<open>
  A descriptor closed on a thread whose hooks are off keeps its context. When the kernel
  gives the number to a new socket, made with hooks, the old context is used for it: with the
  time-outs and the user's non-blocking mode of the old socket, and without a call that makes
  the new one non-blocking, so that a hooked call on it waits in the kernel.
\<close>

theorem stale_context:
  fixes s :: "('u, 'k) hook_state"
  assumes "\<not> st_hookEnable s" and "valid_fd fd" and "fdm_inv (h_fds s)" and "slot fd (h_fds s) = Some c"
    and "close_f (he_orig env) fd (h_kernel s) = (r, e, k1)"
    and "socket_f (he_orig env) domain type protocol k1 = (fd, e', k2)"
  shows "\<exists>s1 s2. close env fd s = Inr (r, s1) \<and> socket env domain type protocol (setHookEnable True s1) = Inr (fd, s2)
    \<and> slot fd (h_fds s2) = Some c \<and> fobj (h_fds s2) c = fobj (h_fds s) c \<and> h_kernel s2 = k2
    \<and> (isSocket (fobj (h_fds s) c) \<and> \<not> getUserNonblock (fobj (h_fds s) c) \<longrightarrow> hooked fd s2)"
proof -
  define s1 where "s1 = snd (call (close_f (he_orig env) fd) s)"
  have s1: "close env fd s = Inr (r, s1)" "h_fds s1 = h_fds s" "h_kernel s1 = k1"
    using assms(1,5) by (simp_all add: close_def s1_def call_def)
  define s2 where "s2 = snd (call (socket_f (he_orig env) domain type protocol) (setHookEnable True s1))"
  have s2: "h_fds s2 = h_fds s" "h_kernel s2 = k2" "st_hookEnable s2"
    "call (socket_f (he_orig env) domain type protocol) (setHookEnable True s1) = (fd, s2)"
    using assms(6) s1(2,3) by (simp_all add: s2_def call_def setHookEnable_def)
  have fd: "fd \<noteq> - 1" using assms(2) by (simp add: valid_fd_def)
  have "fd_get env fd True s2 = Inr (Some c, s2\<lparr>h_next := h_next s2 + 1\<rparr>)"
    using get_eq [OF assms(2,3), of "h_next s2" "fd_calls_of (he_orig env)" True "h_kernel s2"] assms(4) s2(1) [symmetric]
    by (simp add: fd_get_def)
  then have "socket env domain type protocol (setHookEnable True s1) = Inr (fd, s2\<lparr>h_next := h_next s2 + 1\<rparr>)"
    using s2(4) fd by (simp add: socket_def setHookEnable_def)
  then show ?thesis using s1(1) s2(1-3) assms(4)
    by (intro exI [of _ s1] exI [of _ "s2\<lparr>h_next := h_next s2 + 1\<rparr>"]) (simp add: hooked_def)
qed

lemma stale_context_witness:
  "\<exists>s1 s2. close wit_hook_env 5 ((wit_state w)\<lparr>st_hookEnable := False\<rparr>) = Inr (0, s1)
    \<and> socket wit_hook_env 2 1 0 (setHookEnable True s1) = Inr (5, s2) \<and> slot 5 (h_fds s2) = Some 8
    \<and> h_kernel s2 = (1, 0x800)"
proof -
  have "close_f (he_orig wit_hook_env) 5 (h_kernel ((wit_state w)\<lparr>st_hookEnable := False\<rparr>)) = (0, 0, (1, 0x800))"
    "socket_f (he_orig wit_hook_env) 2 1 0 (1, 0x800) = (5, 0, (1, 0x800))" by (simp_all add: wit_orig_def)
  from stale_context [of "(wit_state w)\<lparr>st_hookEnable := False\<rparr>" 5 8 wit_hook_env, OF _ _ _ _ this]
  show ?thesis using wit_fds_ok wit_hooked(1) by auto
qed

end
