(* ===== verification/Runtime.thy ===== *)
theory Runtime
  imports HookFds
begin

text \<open>
  The parts put together: one thread in \<open>Scheduler::run\<close> of an IO manager, and coroutines whose
  code makes hooked calls. The hooked calls of \<open>hook.cpp\<close> are cut where they yield, so that what
  happens until a coroutine is resumed is no longer a parameter but steps of the same system:
  other coroutines, the callbacks of timers, the idle coroutine, and the kernel.
\<close>

section \<open>The hooked calls cut at their \<open>yield\<close>\<close>

text \<open>The wait of \<open>do_io\<close> and \<open>connect_with_timeout\<close> before and after its \<open>yield\<close>.\<close>

definition wait_begin ::
  "('u, 'k) hook_env \<Rightarrow> int \<Rightarrow> u32 \<Rightarrow> u64 \<Rightarrow> nat \<Rightarrow> ('u, 'k) hook_state
    \<Rightarrow> fault + nat \<times> nat option \<times> int \<times> ('u, 'k) hook_state" where
  "wait_begin env fd event to t s =
     rbind (this_iom env s) (\<lambda>i.
     rbind (if to \<noteq> - 1
            then rbind (add_timer env i to (OnTimerBind t (Some (TimeoutFn t fd i event))) s)
                   (\<lambda>(p, s1). Inr (Some p, s1))
            else Inr (None, s)) (\<lambda>(timer, s1).
     rbind (addEvent (he_thread env) (he_ctl env) i fd event None False (h_world s1)) (\<lambda>(rt, w).
       Inr (i, timer, rt, s1\<lparr>h_world := w\<rparr>))))"

definition wait_end ::
  "nat \<Rightarrow> nat option \<Rightarrow> nat \<Rightarrow> ('u, 'k) hook_state \<Rightarrow> fault + int option \<times> ('u, 'k) hook_state" where
  "wait_end i timer t s =
     rbind (cancel_timer i timer s) (\<lambda>s1.
       case h_tinfo s1 t of
         None \<Rightarrow> Inl Undefined
       | Some cancelled \<Rightarrow>
           if cancelled \<noteq> 0 then Inr (Some (- 1), s1\<lparr>h_errno := cancelled\<rparr>) else Inr (None, s1))"

lemma wait_event_cut:
  "wait_event env fd event to t s = rbind (wait_begin env fd event to t s) (\<lambda>(i, timer, rt, s2).
     if rt = 0 then rbind (he_yield env s2) (wait_end i timer t)
     else rbind (cancel_timer i timer s2) (\<lambda>s3. Inr (Some (- 1), s3\<lparr>h_errno := he_ctl_errno env\<rparr>)))"
  by (auto simp: wait_event_def wait_begin_def wait_end_def Let_def rbind_def split: sum.splits)

lemma connect_wait_cut:
  "connect_wait env fd to t s = rbind (wait_begin env fd EV_WRITE to t s) (\<lambda>(i, timer, rt, s2).
     if rt = 0 then rbind (he_yield env s2) (wait_end i None t) else Inr (None, s2))"
  by (auto simp: connect_wait_def wait_begin_def wait_end_def cancel_timer_def Let_def rbind_def split: sum.splits)

text \<open>
  What comes before the wait: the call is answered at once, or goes on with the given time-out
  and \<open>timerInfo\<close>.
\<close>

datatype ('u, 'k) entry = Answered int "('u, 'k) hook_state" | Going u64 nat "('u, 'k) hook_state"

definition do_io_enter ::
  "('u, 'k) hook_env \<Rightarrow> int \<Rightarrow> 'k syscall \<Rightarrow> int \<Rightarrow> ('u, 'k) hook_state \<Rightarrow> fault + ('u, 'k) entry" where
  "do_io_enter env fd f timeout_so s =
     (if \<not> st_hookEnable s then Inr (case_prod Answered (call f s))
      else rbind (fd_get env fd False s) (\<lambda>(c, s1).
        case c of
          None \<Rightarrow> Inr (case_prod Answered (call f s1))
        | Some p \<Rightarrow>
            (let ctx = fobj (h_fds s1) p
             in if isClose ctx then Inr (Answered (- 1) (s1\<lparr>h_errno := EBADF\<rparr>))
                else if \<not> isSocket ctx \<or> getUserNonblock ctx then Inr (case_prod Answered (call f s1))
                else Inr (Going (getTimeout timeout_so ctx) (h_next s1) (new_tinfo s1)))))"

definition connect_enter ::
  "('u, 'k) hook_env \<Rightarrow> int \<Rightarrow> nat \<Rightarrow> u32 \<Rightarrow> u64 \<Rightarrow> ('u, 'k) hook_state \<Rightarrow> fault + ('u, 'k) entry" where
  "connect_enter env fd addr addrlen timeout_ms s =
     (let f = connect_f (he_orig env) fd addr addrlen
      in if \<not> st_hookEnable s then Inr (case_prod Answered (call f s))
         else rbind (fd_get env fd False s) (\<lambda>(c, s1).
           case c of
             None \<Rightarrow> Inr (Answered (- 1) (s1\<lparr>h_errno := EBADF\<rparr>))
           | Some p \<Rightarrow>
               (let ctx = fobj (h_fds s1) p
                in if isClose ctx then Inr (Answered (- 1) (s1\<lparr>h_errno := EBADF\<rparr>))
                   else if \<not> isSocket ctx \<or> getUserNonblock ctx then Inr (case_prod Answered (call f s1))
                   else (let (n, s2) = call f s1
                     in if n = - 1 \<and> h_errno s2 = EINPROGRESS
                        then Inr (Going timeout_ms (h_next s2) (new_tinfo s2))
                        else Inr (Answered n s2)))))"

definition forget_tinfo :: "nat \<Rightarrow> ('u, 'k) hook_state \<Rightarrow> ('u, 'k) hook_state" where
  "forget_tinfo t s = s\<lparr>h_tinfo := (h_tinfo s)(t := None)\<rparr>"

lemma drop_tinfo_forget: "drop_tinfo t r = rbind r (\<lambda>(n, s). Inr (n, forget_tinfo t s))"
  by (simp add: drop_tinfo_def forget_tinfo_def)


lemma do_io_cut:
  "do_io env fd f event so s = (case do_io_enter env fd f so s of
     Inl e \<Rightarrow> Some (Inl e)
   | Inr (Answered n s1) \<Rightarrow> Some (Inr (n, s1))
   | Inr (Going to t s1) \<Rightarrow> map_option (drop_tinfo t) (do_io_loop env f fd event to t s1))"
  by (auto simp: do_io_def do_io_enter_def Let_def rbind_def split: sum.splits option.splits prod.splits)

lemma connect_cut:
  "connect_with_timeout env fd addr addrlen to s = rbind (connect_enter env fd addr addrlen to s) (\<lambda>r. case r of
     Answered n s1 \<Rightarrow> Inr (n, s1)
   | Going to t s1 \<Rightarrow> drop_tinfo t (rbind (connect_wait env fd to t s1) (\<lambda>(r, s2).
       case r of Some v \<Rightarrow> Inr (v, s2) | None \<Rightarrow> Inr (connect_result env fd s2))))"
  by (auto simp: connect_with_timeout_def connect_enter_def Let_def rbind_def split: sum.splits option.splits prod.splits)

section \<open>The system\<close>

text \<open>
  The code of a coroutine, as what it does next: it ends; makes a hooked call on a descriptor
  (with the original function, the event and the time-out option of the call), connects,
  closes, or sleeps; gives way after scheduling itself; schedules a function or puts one on a
  timer; or does something that involves neither the IO manager nor a wait. What follows a call
  depends on its result and \<open>errno\<close>.
\<close>

codatatype ('u, 'k) prog =
    PEnd
  | PIo int "'k syscall" u32 int "int \<Rightarrow> int \<Rightarrow> ('u, 'k) prog"
  | PConnect int nat u32 u64 "int \<Rightarrow> int \<Rightarrow> ('u, 'k) prog"
  | PClose int "int \<Rightarrow> int \<Rightarrow> ('u, 'k) prog"
  | PSleep u64 "('u, 'k) prog"
  | PYield "('u, 'k) prog"
  | PSchedule 'u "('u, 'k) prog"
  | PAfter u64 'u "('u, 'k) prog"
  | PLocal "('u, 'k) hook_state \<Rightarrow> fault + int \<times> ('u, 'k) hook_state" "int \<Rightarrow> int \<Rightarrow> ('u, 'k) prog"

type_synonym ('u, 'k) cont = "int \<Rightarrow> int \<Rightarrow> ('u, 'k) prog"

text \<open>
  Where a coroutine stands: running (with the \<open>timerInfo\<close> of the call it is in); suspended in
  \<open>do_io\<close>, in \<open>connect_with_timeout\<close>, or to go on with its code; or at its end.
\<close>

datatype ('u, 'k) strand =
    Current "nat option"
  | InIo int "'k syscall" u32 u64 nat "nat option" "('u, 'k) cont"
  | InConnect int nat "('u, 'k) cont"
  | Asleep "('u, 'k) prog"
  | Over

text \<open>
  Where the thread stands: at the scan of the queue, in a coroutine, in the loop of a \<open>do_io\<close>
  call of a coroutine, after the loop of \<open>run\<close>, or stopped by a fault.
\<close>

datatype ('u, 'k) thread_pc =
    Scanning
  | Exec nat "('u, 'k) prog"
  | Trying nat int "'k syscall" u32 u64 nat "('u, 'k) cont"
  | Gone
  | Crashed fault

record ('u, 'k) runtime =
  r_hook :: "('u, 'k) hook_state"
  r_dors :: "nat \<Rightarrow> ('u, 'k) strand option"
  r_pc :: "('u, 'k) thread_pc"
  r_idle_done :: bool

fun strand_state :: "('u, 'k) strand option \<Rightarrow> State" where
  "strand_state (Some (Current t)) = RUNNING"
| "strand_state (Some Over) = TERM'"
| "strand_state _ = READY"

definition at_thread :: "('u, 'k) hook_env \<Rightarrow> nat \<Rightarrow> nat \<Rightarrow> ('u, 'k) hook_env" where
  "at_thread env i d = env\<lparr>he_thread := \<lparr>th_sched = Some i, th_dor = Some d\<rparr>\<rparr>"

text \<open>An update of the scheduler inside the IO manager.\<close>

definition upd_sched ::
  "nat \<Rightarrow> ('u hook_fn fn Scheduler \<Rightarrow> 'u hook_fn fn Scheduler) \<Rightarrow> ('u, 'k) hook_state \<Rightarrow> ('u, 'k) hook_state" where
  "upd_sched i g s = (case w_scheds (h_world s) i of
     Some (Io m) \<Rightarrow> s\<lparr>h_world := put_iom i (m\<lparr>io_sched := g (io_sched m)\<rparr>) (h_world s)\<rparr> | _ \<Rightarrow> s)"

definition settle :: "('u, 'k) runtime \<Rightarrow> fault + ('u, 'k) runtime \<Rightarrow> ('u, 'k) runtime" where
  "settle r res = (case res of Inl f \<Rightarrow> r\<lparr>r_pc := Crashed f\<rparr> | Inr r' \<Rightarrow> r')"

text \<open>The scan of \<open>run\<close>, with the \<open>tickle\<close> it may ask for.\<close>

definition scan_queue ::
  "nat \<Rightarrow> int \<Rightarrow> ('u, 'k) runtime \<Rightarrow> fault + 'u hook_fn fn SchedulerTask option \<times> ('u, 'k) hook_state" where
  "scan_queue i tid r = rbind (iom_at i (h_world (r_hook r))) (\<lambda>m.
     case take_task tid (\<lambda>d. strand_state (r_dors r d)) (io_sched m) of (t, tickleMe, sch) \<Rightarrow>
       let w = put_iom i (m\<lparr>io_sched := sch\<rparr>) (h_world (r_hook r))
       in rbind (if tickleMe then tickle i w else Inr w) (\<lambda>w1. Inr (t, (r_hook r)\<lparr>h_world := w1\<rparr>)))"

text \<open>Back from the coroutine: the count of active threads goes down and \<open>run\<close> scans again.\<close>

definition give_back :: "nat \<Rightarrow> ('u, 'k) hook_state \<Rightarrow> ('u, 'k) runtime \<Rightarrow> ('u, 'k) runtime" where
  "give_back i s r = r\<lparr>r_pc := Scanning,
     r_hook := upd_sched i (\<lambda>sch. sch\<lparr>m_activeThreadCount := m_activeThreadCount sch - 1\<rparr>) s\<rparr>"

definition suspend ::
  "nat \<Rightarrow> nat \<Rightarrow> ('u, 'k) strand \<Rightarrow> ('u, 'k) hook_state \<Rightarrow> ('u, 'k) runtime \<Rightarrow> ('u, 'k) runtime" where
  "suspend i d st s r = give_back i s (r\<lparr>r_dors := (r_dors r)(d \<mapsto> st)\<rparr>)"

definition continue ::
  "nat \<Rightarrow> ('u, 'k) prog \<Rightarrow> ('u, 'k) hook_state \<Rightarrow> ('u, 'k) runtime \<Rightarrow> ('u, 'k) runtime" where
  "continue d p s r = r\<lparr>r_hook := s, r_dors := (r_dors r)(d \<mapsto> Current None), r_pc := Exec d p\<rparr>"

definition try_again ::
  "nat \<Rightarrow> int \<Rightarrow> 'k syscall \<Rightarrow> u32 \<Rightarrow> u64 \<Rightarrow> nat \<Rightarrow> ('u, 'k) cont \<Rightarrow> ('u, 'k) hook_state \<Rightarrow> ('u, 'k) runtime
    \<Rightarrow> ('u, 'k) runtime" where
  "try_again d fd f event to t k s r =
     r\<lparr>r_hook := s, r_dors := (r_dors r)(d \<mapsto> Current (Some t)), r_pc := Trying d fd f event to t k\<rparr>"

text \<open>A call has returned \<open>n\<close>.\<close>

definition answer ::
  "nat \<Rightarrow> ('u, 'k) cont \<Rightarrow> int \<Rightarrow> ('u, 'k) hook_state \<Rightarrow> ('u, 'k) runtime \<Rightarrow> ('u, 'k) runtime" where
  "answer d k n s r = continue d (k n (h_errno s)) s r"

section \<open>What the thread does\<close>

text \<open>\<open>resume\<close> of the coroutine a task names; to resume one that has ended is undefined.\<close>

definition resume_task ::
  "('u, 'k) hook_env \<Rightarrow> nat \<Rightarrow> nat \<Rightarrow> ('u, 'k) hook_state \<Rightarrow> ('u, 'k) runtime \<Rightarrow> fault + ('u, 'k) runtime" where
  "resume_task env i d s r =
     (case r_dors r d of
        Some (Asleep p) \<Rightarrow> Inr (continue d p s r)
      | Some (InIo fd f event to t timer k) \<Rightarrow>
          rbind (wait_end i timer t s) (\<lambda>(res, s1).
            case res of
              Some n \<Rightarrow> Inr (answer d k n (forget_tinfo t s1) r)
            | None \<Rightarrow> Inr (try_again d fd f event to t k s1 r))
      | Some (InConnect fd t k) \<Rightarrow>
          rbind (wait_end i None t s) (\<lambda>(res, s1).
            case res of
              Some n \<Rightarrow> Inr (answer d k n (forget_tinfo t s1) r)
            | None \<Rightarrow> (let (n, s2) = connect_result env fd s1 in Inr (answer d k n (forget_tinfo t s2) r)))
      | _ \<Rightarrow> Inl Undefined)"

text \<open>
  A function taken from the queue runs in a new coroutine. A function of the user, called
  directly or by \<open>OnTimer\<close>, is code (\<open>body\<close>); the callbacks of the hooks run to their end.
\<close>

definition run_func ::
  "('u, 'k) hook_env \<Rightarrow> nat \<Rightarrow> ('u \<Rightarrow> ('u, 'k) prog) \<Rightarrow> 'u hook_fn fn \<Rightarrow> ('u, 'k) hook_state \<Rightarrow> ('u, 'k) runtime
    \<Rightarrow> fault + ('u, 'k) runtime" where
  "run_func env i body cb s r =
     (let d = h_next s; s0 = s\<lparr>h_next := h_next s + 1\<rparr>
      in case run_callback (\<lambda>t. h_tinfo s t \<noteq> None) cb of
           Inr (Some (UserFn u)) \<Rightarrow> Inr (continue d (body u) s0 r)
         | _ \<Rightarrow> rbind (run_fn (at_thread env i d) cb s0) (\<lambda>s1. Inr (suspend i d Over s1 r)))"

definition run_task ::
  "('u, 'k) hook_env \<Rightarrow> nat \<Rightarrow> ('u \<Rightarrow> ('u, 'k) prog) \<Rightarrow> 'u hook_fn fn SchedulerTask \<Rightarrow> ('u, 'k) hook_state
    \<Rightarrow> ('u, 'k) runtime \<Rightarrow> fault + ('u, 'k) runtime" where
  "run_task env i body task s r =
     (case task_doroutine task of
        Some d \<Rightarrow> resume_task env i d s r
      | None \<Rightarrow> (case task_func task of
          Some cb \<Rightarrow> run_func env i body cb s r
        | None \<Rightarrow> Inl Undefined))"

text \<open>One turn of the loop of \<open>do_io\<close>, after the original call returned \<open>n\<close> uninterrupted.\<close>

definition do_io_turn ::
  "('u, 'k) hook_env \<Rightarrow> nat \<Rightarrow> nat \<Rightarrow> int \<Rightarrow> 'k syscall \<Rightarrow> u32 \<Rightarrow> u64 \<Rightarrow> nat \<Rightarrow> ('u, 'k) cont \<Rightarrow> int
    \<Rightarrow> ('u, 'k) hook_state \<Rightarrow> ('u, 'k) runtime \<Rightarrow> fault + ('u, 'k) runtime" where
  "do_io_turn env i d fd f event to t k n s r =
     (if n = - 1 \<and> h_errno s = EAGAIN then
        rbind (wait_begin (at_thread env i d) fd event to t s) (\<lambda>(j, timer, rt, s1).
          if rt = 0 then Inr (suspend i d (InIo fd f event to t timer k) s1 r)
          else rbind (cancel_timer j timer s1) (\<lambda>s2.
                 Inr (answer d k (- 1) (forget_tinfo t (s2\<lparr>h_errno := he_ctl_errno env\<rparr>)) r)))
      else Inr (answer d k n (forget_tinfo t s) r))"

definition begin_io ::
  "('u, 'k) hook_env \<Rightarrow> nat \<Rightarrow> nat \<Rightarrow> int \<Rightarrow> 'k syscall \<Rightarrow> u32 \<Rightarrow> int \<Rightarrow> ('u, 'k) cont
    \<Rightarrow> ('u, 'k) runtime \<Rightarrow> fault + ('u, 'k) runtime" where
  "begin_io env i d fd f event so k r =
     rbind (do_io_enter (at_thread env i d) fd f so (r_hook r)) (\<lambda>e. case e of
       Answered n s \<Rightarrow> Inr (answer d k n s r)
     | Going to t s \<Rightarrow> Inr (try_again d fd f event to t k s r))"

definition begin_connect ::
  "('u, 'k) hook_env \<Rightarrow> nat \<Rightarrow> nat \<Rightarrow> int \<Rightarrow> nat \<Rightarrow> u32 \<Rightarrow> u64 \<Rightarrow> ('u, 'k) cont
    \<Rightarrow> ('u, 'k) runtime \<Rightarrow> fault + ('u, 'k) runtime" where
  "begin_connect env i d fd addr addrlen timeout_ms k r =
     rbind (connect_enter (at_thread env i d) fd addr addrlen timeout_ms (r_hook r)) (\<lambda>e. case e of
       Answered n s \<Rightarrow> Inr (answer d k n s r)
     | Going to t s \<Rightarrow>
         rbind (wait_begin (at_thread env i d) fd EV_WRITE to t s) (\<lambda>(j, timer, rt, s1).
           if rt = 0 then Inr (suspend i d (InConnect fd t k) s1 r)
           else (let (n, s2) = connect_result env fd s1 in Inr (answer d k n (forget_tinfo t s2) r))))"

definition begin_sleep ::
  "('u, 'k) hook_env \<Rightarrow> nat \<Rightarrow> nat \<Rightarrow> u64 \<Rightarrow> ('u, 'k) prog \<Rightarrow> ('u, 'k) runtime \<Rightarrow> fault + ('u, 'k) runtime" where
  "begin_sleep env i d ms p r =
     rbind (this_iom (at_thread env i d) (r_hook r)) (\<lambda>j.
     rbind (add_timer (at_thread env i d) j ms (Callback (WakeFn j (Some d))) (r_hook r)) (\<lambda>(_, s).
       Inr (suspend i d (Asleep p) s r)))"

definition schedule_in ::
  "nat \<Rightarrow> 'u hook_fn fn DoroutineOrCb \<Rightarrow> ('u, 'k) hook_state \<Rightarrow> fault + ('u, 'k) hook_state" where
  "schedule_in i fc s = rbind (schedule_to (Some i) fc (- 1) (h_world s)) (\<lambda>w. Inr (s\<lparr>h_world := w\<rparr>))"

text \<open>The idle coroutine, from its resumption to its \<open>yield\<close> or its end, is counted as an idle thread.\<close>

definition idle_up :: "'f Scheduler \<Rightarrow> 'f Scheduler" where
  "idle_up sch = sch\<lparr>m_idleThreadCount := m_idleThreadCount sch + 1\<rparr>"

definition idle_down :: "'f Scheduler \<Rightarrow> 'f Scheduler" where
  "idle_down sch = sch\<lparr>m_idleThreadCount := m_idleThreadCount sch - 1\<rparr>"

definition run_idle ::
  "('u, 'k) hook_env \<Rightarrow> (nat \<Rightarrow> u64) \<Rightarrow> (nat \<Rightarrow> int \<Rightarrow> wait_result) \<Rightarrow> u64 \<Rightarrow> u64 \<Rightarrow> nat
    \<Rightarrow> ('u, 'k) hook_state \<Rightarrow> ('u, 'k) runtime \<Rightarrow> (fault + ('u, 'k) runtime) option" where
  "run_idle env addr wait now0 now1 i s r =
     (let s1 = upd_sched i idle_up s
      in case idle_iter (he_thread env) (he_ctl env) addr wait now0 now1 (h_next s1) i (h_world s1) of
           None \<Rightarrow> None
         | Some (Inl f) \<Rightarrow> Some (Inl f)
         | Some (Inr None) \<Rightarrow> Some (Inr (r\<lparr>r_hook := upd_sched i idle_down s1, r_idle_done := True\<rparr>))
         | Some (Inr (Some w)) \<Rightarrow> Some (Inr (r\<lparr>r_hook := upd_sched i idle_down (s1\<lparr>h_world := w\<rparr>)\<rparr>)))"

text \<open>
  \<open>stop\<close> of an IO manager until it waits for its threads: \<open>stopping\<close> and \<open>tickle\<close> are the
  virtual functions of the IO manager. The result holds the number of \<open>tickle\<close>s asked for and
  whether the root coroutine is resumed.
\<close>

definition io_stop_begin :: "u64 \<Rightarrow> 'f IOManager \<Rightarrow> (nat \<times> bool \<times> 'f IOManager) option" where
  "io_stop_begin now m =
     (if IOManager_stopping now m then None
      else let sch = io_sched m; root = (m_rootDoroutine sch \<noteq> None)
           in Some (unat (m_threadCount sch) + (if root then 1 else 0), root,
                m\<lparr>io_sched := sch\<lparr>m_stopping := True\<rparr>\<rparr>))"

section \<open>The steps\<close>

text \<open>
  What \<open>epoll_wait\<close> may report: the wake-up of the pipe, and registered events, each context at
  most once.
\<close>

definition epoll_report :: "(nat \<Rightarrow> u64) \<Rightarrow> nat \<Rightarrow> 'f world \<Rightarrow> epoll_event list \<Rightarrow> bool" where
  "epoll_report addr i w evs \<longleftrightarrow> distinct (map ep_data evs) \<and> (\<forall>ev \<in> set evs. live_event addr i ev w)"

definition epoll_reports :: "(nat \<Rightarrow> u64) \<Rightarrow> nat \<Rightarrow> (nat \<Rightarrow> int \<Rightarrow> wait_result) \<Rightarrow> 'f world \<Rightarrow> bool" where
  "epoll_reports addr i wait w \<longleftrightarrow> (\<forall>n t evs. wait n t = Ready evs \<longrightarrow> epoll_report addr i w evs)"

text \<open>What a coroutine asks for when it uses a descriptor, and when it waits for one.\<close>

datatype use = Use int | WaitFor int u32

text \<open>Code that involves neither the IO manager nor a wait.\<close>

definition quiet :: "('u, 'k) hook_state \<Rightarrow> ('u, 'k) hook_state \<Rightarrow> bool" where
  "quiet s s' \<longleftrightarrow> h_world s' = h_world s \<and> h_tinfo s' = h_tinfo s \<and> h_next s \<le> h_next s'
     \<and> (fdm_inv (h_fds s) \<longrightarrow> fdm_inv (h_fds s'))"

text \<open>
  The thread \<open>tid\<close> runs the IO manager \<open>i\<close>; its idle coroutine is at \<open>idle\<close>; \<open>may\<close> says which
  uses of descriptors are made. Besides the thread, the kernel state changes at any time, and
  other threads submit functions until somebody requests the stop.
\<close>

inductive runtime_step ::
  "('u, 'k) hook_env \<Rightarrow> nat \<Rightarrow> int \<Rightarrow> nat \<Rightarrow> ('u \<Rightarrow> ('u, 'k) prog) \<Rightarrow> (('u, 'k) hook_state \<Rightarrow> use \<Rightarrow> bool)
    \<Rightarrow> ('u, 'k) runtime \<Rightarrow> ('u, 'k) runtime \<Rightarrow> bool"
  for env :: "('u, 'k) hook_env" and i :: nat and tid :: int and idle :: nat
    and body :: "'u \<Rightarrow> ('u, 'k) prog" and may :: "('u, 'k) hook_state \<Rightarrow> use \<Rightarrow> bool"
where
  take: "r_pc r = Scanning \<Longrightarrow> scan_queue i tid r = Inr (Some task, s) \<Longrightarrow>
     runtime_step env i tid idle body may r (settle r (run_task env i body task s r))"
| idle: "r_pc r = Scanning \<Longrightarrow> scan_queue i tid r = Inr (None, s) \<Longrightarrow> \<not> r_idle_done r \<Longrightarrow>
     0 < now0 \<Longrightarrow> epoll_reports addr i wait (h_world s) \<Longrightarrow>
     run_idle (at_thread env i idle) addr wait now0 now1 i s r = Some res \<Longrightarrow>
     runtime_step env i tid idle body may r (settle r res)"
| leave: "r_pc r = Scanning \<Longrightarrow> scan_queue i tid r = Inr (None, s) \<Longrightarrow> r_idle_done r \<Longrightarrow>
     runtime_step env i tid idle body may r (r\<lparr>r_hook := s, r_pc := Gone\<rparr>)"
| scan_fault: "r_pc r = Scanning \<Longrightarrow> scan_queue i tid r = Inl f \<Longrightarrow>
     runtime_step env i tid idle body may r (r\<lparr>r_pc := Crashed f\<rparr>)"
| io: "r_pc r = Exec d (PIo fd f event so k) \<Longrightarrow> may (r_hook r) (Use fd) \<Longrightarrow>
     runtime_step env i tid idle body may r (settle r (begin_io env i d fd f event so k r))"
| io_turn: "r_pc r = Trying d fd f event to t k \<Longrightarrow> call_eintr f (r_hook r) = Some (n, s) \<Longrightarrow>
     (n = - 1 \<and> h_errno s = EAGAIN \<longrightarrow> may s (WaitFor fd event)) \<Longrightarrow>
     runtime_step env i tid idle body may r (settle r (do_io_turn env i d fd f event to t k n s r))"
| connect: "r_pc r = Exec d (PConnect fd a len to k) \<Longrightarrow> may (r_hook r) (WaitFor fd EV_WRITE) \<Longrightarrow>
     runtime_step env i tid idle body may r (settle r (begin_connect env i d fd a len to k r))"
| close: "r_pc r = Exec d (PClose fd k) \<Longrightarrow> may (r_hook r) (Use fd) \<Longrightarrow>
     runtime_step env i tid idle body may r (settle r
       (rbind (close (at_thread env i d) fd (r_hook r)) (\<lambda>(n, s). Inr (answer d k n s r))))"
| sleep: "r_pc r = Exec d (PSleep ms p) \<Longrightarrow>
     runtime_step env i tid idle body may r (settle r (begin_sleep env i d ms p r))"
| yield: "r_pc r = Exec d (PYield p) \<Longrightarrow>
     runtime_step env i tid idle body may r (settle r
       (rbind (schedule_in i (Dor (Some d)) (r_hook r)) (\<lambda>s. Inr (suspend i d (Asleep p) s r))))"
| schedule: "r_pc r = Exec d (PSchedule u p) \<Longrightarrow>
     runtime_step env i tid idle body may r (settle r
       (rbind (schedule_in i (Cb (Some (Callback (UserFn u)))) (r_hook r)) (\<lambda>s. Inr (continue d p s r))))"
| after: "r_pc r = Exec d (PAfter ms u p) \<Longrightarrow>
     runtime_step env i tid idle body may r (settle r
       (rbind (add_timer (at_thread env i d) i ms (Callback (UserFn u)) (r_hook r)) (\<lambda>(_, s). Inr (continue d p s r))))"
| local: "r_pc r = Exec d (PLocal act k) \<Longrightarrow> act (r_hook r) = Inr (n, s) \<Longrightarrow> quiet (r_hook r) s \<Longrightarrow>
     runtime_step env i tid idle body may r (answer d k n s r)"
| finish: "r_pc r = Exec d PEnd \<Longrightarrow>
     runtime_step env i tid idle body may r (suspend i d Over (r_hook r) r)"
| kernel: "runtime_step env i tid idle body may r (r\<lparr>r_hook := (r_hook r)\<lparr>h_kernel := k\<rparr>\<rparr>)"
| submit: "w_scheds (h_world (r_hook r)) i = Some (Io m) \<Longrightarrow> \<not> m_stopping (io_sched m) \<Longrightarrow>
     schedule_in i (Cb (Some (Callback (UserFn u)))) (r_hook r) = Inr s \<Longrightarrow>
     runtime_step env i tid idle body may r (r\<lparr>r_hook := s\<rparr>)"
| request_stop: "w_scheds (h_world (r_hook r)) i = Some (Io m) \<Longrightarrow>
     io_stop_begin now m = Some (n, root, m') \<Longrightarrow>
     repeat_fault n (tickle i) (put_iom i m' (h_world (r_hook r))) = Inr w \<Longrightarrow>
     runtime_step env i tid idle body may r (r\<lparr>r_hook := (r_hook r)\<lparr>h_world := w\<rparr>\<rparr>)"

text \<open>
  The system: what \<open>epoll_ctl\<close> and the original functions (the clock among them) answer may differ
  from step to step, among the environments \<open>envs\<close>.
\<close>

definition system_step ::
  "('u, 'k) hook_env set \<Rightarrow> nat \<Rightarrow> int \<Rightarrow> nat \<Rightarrow> ('u \<Rightarrow> ('u, 'k) prog) \<Rightarrow> (('u, 'k) hook_state \<Rightarrow> use \<Rightarrow> bool)
    \<Rightarrow> ('u, 'k) runtime \<Rightarrow> ('u, 'k) runtime \<Rightarrow> bool" where
  "system_step envs i tid idle body may r r' \<longleftrightarrow> (\<exists>env \<in> envs. runtime_step env i tid idle body may r r')"

lemma system_step_one: "system_step {env} i tid idle body may = runtime_step env i tid idle body may"
  by (simp add: system_step_def fun_eq_iff)

text \<open>
  The discipline: descriptors are in range, and no two coroutines wait for the same event of
  the same descriptor.
\<close>

fun one_waiter :: "nat \<Rightarrow> ('u, 'k) hook_state \<Rightarrow> use \<Rightarrow> bool" where
  "one_waiter i s (Use fd) = fd_range fd"
| "one_waiter i s (WaitFor fd event) =
     (fd_range fd \<and> single event \<and> fd_mask i fd (h_world s) AND event = 0)"

end
