(* ===== verification/RuntimeInv.thy ===== *)
theory RuntimeInv
  imports Runtime
begin

text \<open>
  The accounting of wake-ups. A suspended coroutine goes on when somebody resumes it; what will
  do so is an event registered for it, a timer whose callback schedules it, or an entry of the
  queue. This theory defines the multiset of these wake-ups and shows for every operation of the
  IO manager, the timers and the hooks which of them it moves, adds and uses up.
\<close>

section \<open>Wake-ups\<close>

definition dor_mset :: "nat option \<Rightarrow> nat multiset" where
  "dor_mset d = (case d of None \<Rightarrow> {#} | Some x \<Rightarrow> {#x#})"

lemma dor_mset_simps [simp]: "dor_mset None = {#}" "dor_mset (Some d) = {#d#}"
  by (simp_all add: dor_mset_def)

fun fn_wakes :: "'u hook_fn fn option \<Rightarrow> nat multiset" where
  "fn_wakes (Some (Callback (WakeFn k d))) = dor_mset d"
| "fn_wakes _ = {#}"

definition task_wakes :: "'u hook_fn fn SchedulerTask \<Rightarrow> nat multiset" where
  "task_wakes t = dor_mset (task_doroutine t) + fn_wakes (task_func t)"

definition queue_wakes :: "'u hook_fn fn SchedulerTask list \<Rightarrow> nat multiset" where
  "queue_wakes ts = (\<Sum>t \<in># mset ts. task_wakes t)"

lemma queue_wakes_simps [simp]:
  "queue_wakes [] = {#}" "queue_wakes (t # ts) = task_wakes t + queue_wakes ts"
  "queue_wakes (ts @ us) = queue_wakes ts + queue_wakes us"
  by (simp_all add: queue_wakes_def)

definition ctx_wakes :: "'u hook_fn FdContext \<Rightarrow> nat multiset" where
  "ctx_wakes c = dor_mset (ev_doroutine (c_read c)) + dor_mset (ev_doroutine (c_write c))"

text \<open>Descriptors are below \<open>2 ^ 31\<close>.\<close>

definition fd_limit :: nat where "fd_limit = 2 ^ 31"

definition event_wakes :: "nat \<Rightarrow> 'u hook_fn world \<Rightarrow> nat multiset" where
  "event_wakes i w = (\<Sum>j < fd_limit. ctx_wakes (ctx_or_new i (int j) w))"

definition timer_wakes :: "'u hook_fn TimerManager \<Rightarrow> nat multiset" where
  "timer_wakes ts = (\<Sum>p \<in> set (m_timers ts). fn_wakes (t_func (tobj ts p)))"

definition wakes :: "nat \<Rightarrow> 'u hook_fn world \<Rightarrow> nat multiset" where
  "wakes i w = (case w_scheds w i of
     Some (Io m) \<Rightarrow> event_wakes i w + timer_wakes (io_timers m) + queue_wakes (m_tasks (io_sched m))
   | _ \<Rightarrow> {#})"

lemma wakes_eq:
  "w_scheds w i = Some (Io m) \<Longrightarrow>
    wakes i w = event_wakes i w + timer_wakes (io_timers m) + queue_wakes (m_tasks (io_sched m))"
  by (simp add: wakes_def)

section \<open>What the system keeps in order\<close>

text \<open>The functions in timers and in the queue are the callbacks of the hooks for this IO manager, or the user's.\<close>

fun fn_ok :: "nat \<Rightarrow> 'u hook_fn fn \<Rightarrow> bool" where
  "fn_ok i (Callback (WakeFn k d)) = (k = i)"
| "fn_ok i (Callback (UserFn u)) = True"
| "fn_ok i (OnTimerBind t (Some (TimeoutFn t' fd k e))) = (k = i \<and> fd_range fd \<and> single e)"
| "fn_ok i _ = False"

definition plain_event :: "nat \<Rightarrow> 'f EventContext \<Rightarrow> bool" where
  "plain_event i x \<longleftrightarrow> ev_func x = None \<and> \<not> ev_repeat x \<and> (ev_doroutine x \<noteq> None \<longrightarrow> ev_scheduler x = Some i)"

definition plain_ctx :: "nat \<Rightarrow> 'f FdContext \<Rightarrow> bool" where
  "plain_ctx i c \<longleftrightarrow> plain_event i (c_read c) \<and> plain_event i (c_write c)"

definition task_good :: "nat \<Rightarrow> 'u hook_fn fn SchedulerTask \<Rightarrow> bool" where
  "task_good i t \<longleftrightarrow> task_thread t = - 1 \<and> (case task_func t of
     None \<Rightarrow> task_doroutine t \<noteq> None | Some f \<Rightarrow> task_doroutine t = None \<and> fn_ok i f)"

definition timer_good :: "nat \<Rightarrow> 'u hook_fn Timer \<Rightarrow> bool" where
  "timer_good i t \<longleftrightarrow> \<not> t_repeat t \<and> (\<forall>f. t_func t = Some f \<longrightarrow> fn_ok i f)"

definition timers_good :: "nat \<Rightarrow> nat \<Rightarrow> 'u hook_fn TimerManager \<Rightarrow> bool" where
  "timers_good i n ts \<longleftrightarrow> tm_inv ts \<and> (\<forall>p \<in> set (m_timers ts). p < n \<and> timer_good i (tobj ts p))"

definition plain_events :: "nat \<Rightarrow> 'f world \<Rightarrow> bool" where
  "plain_events i w \<longleftrightarrow> (\<forall>fd \<ge> 0. plain_ctx i (ctx_or_new i fd w))"

definition world_good :: "nat \<Rightarrow> nat \<Rightarrow> 'u hook_fn world \<Rightarrow> bool" where
  "world_good i n w \<longleftrightarrow> io_inv i w \<and> plain_events i w
     \<and> (\<exists>m. w_scheds w i = Some (Io m) \<and> timers_good i n (io_timers m)
          \<and> (\<forall>t \<in> set (m_tasks (io_sched m)). task_good i t))"

lemma world_goodE:
  assumes "world_good i n w"
  obtains m where "w_scheds w i = Some (Io m)" and "io_ok i m w" and "io_inv i w" and "plain_events i w"
    and "timers_good i n (io_timers m)" and "\<forall>t \<in> set (m_tasks (io_sched m)). task_good i t"
proof -
  obtain m where m: "w_scheds w i = Some (Io m)" "timers_good i n (io_timers m)"
    "\<forall>t \<in> set (m_tasks (io_sched m)). task_good i t" "io_inv i w" "plain_events i w"
    using assms by (auto simp: world_good_def)
  moreover have "io_ok i m w" using m(1,4) by (auto simp: io_inv_def)
  ultimately show thesis using that by blast
qed

lemma world_goodI:
  assumes "w_scheds w i = Some (Io m)" and "io_inv i w" and "plain_events i w"
    and "timers_good i n (io_timers m)" and "\<forall>t \<in> set (m_tasks (io_sched m)). task_good i t"
  shows "world_good i n w"
  using assms by (auto simp: world_good_def)

lemma timers_good_mono: "timers_good i n ts \<Longrightarrow> n \<le> n' \<Longrightarrow> timers_good i n' ts"
  by (auto simp: timers_good_def)

lemma world_good_mono: "world_good i n w \<Longrightarrow> n \<le> n' \<Longrightarrow> world_good i n' w"
  using timers_good_mono by (auto simp: world_good_def)

text \<open>
  The IO manager over an operation: the counts of the scheduler stay, and a timer that existed
  before keeps its manager and its function, or has none any more.
\<close>

definition timers_age :: "nat \<Rightarrow> 'u TimerManager \<Rightarrow> 'u TimerManager \<Rightarrow> bool" where
  "timers_age n ts ts' \<longleftrightarrow> (\<forall>p < n. (t_manager (tobj ts p) \<longrightarrow> t_manager (tobj ts' p))
     \<and> (t_func (tobj ts' p) = None \<or> t_func (tobj ts' p) = t_func (tobj ts p)))"

definition ages :: "nat \<Rightarrow> nat \<Rightarrow> 'f world \<Rightarrow> 'f world \<Rightarrow> bool" where
  "ages i n w w' \<longleftrightarrow> (\<forall>m. w_scheds w i = Some (Io m) \<longrightarrow> (\<exists>m'. w_scheds w' i = Some (Io m')
     \<and> timers_age n (io_timers m) (io_timers m')
     \<and> m_activeThreadCount (io_sched m') = m_activeThreadCount (io_sched m)
     \<and> m_stopping (io_sched m') = m_stopping (io_sched m)))"

text \<open>An operation that leaves the timers alone.\<close>

definition calm :: "nat \<Rightarrow> 'f world \<Rightarrow> 'f world \<Rightarrow> bool" where
  "calm i w w' \<longleftrightarrow> (\<forall>m. w_scheds w i = Some (Io m) \<longrightarrow> (\<exists>m'. w_scheds w' i = Some (Io m')
     \<and> io_timers m' = io_timers m
     \<and> m_activeThreadCount (io_sched m') = m_activeThreadCount (io_sched m)
     \<and> m_stopping (io_sched m') = m_stopping (io_sched m)))"

lemma timers_age_refl [simp]: "timers_age n ts ts"
  by (simp add: timers_age_def)

lemma calm_refl [simp]: "calm i w w"
  by (simp add: calm_def)

lemma calm_trans: "calm i w w' \<Longrightarrow> calm i w' w'' \<Longrightarrow> calm i w w''"
  unfolding calm_def by fastforce

lemma calm_ages: "calm i w w' \<Longrightarrow> ages i n w w'"
  unfolding calm_def ages_def by fastforce

lemma ages_refl [simp]: "ages i n w w"
  by (simp add: calm_ages)

lemma ages_trans:
  assumes "ages i n w w'" and "ages i n' w' w''" and "n \<le> n'"
  shows "ages i n w w''"
  unfolding ages_def
proof (intro allI impI)
  fix m assume "w_scheds w i = Some (Io m)"
  then obtain m1 where m1: "w_scheds w' i = Some (Io m1)" "timers_age n (io_timers m) (io_timers m1)"
    "m_activeThreadCount (io_sched m1) = m_activeThreadCount (io_sched m)"
    "m_stopping (io_sched m1) = m_stopping (io_sched m)" using assms(1) unfolding ages_def by blast
  then obtain m2 where m2: "w_scheds w'' i = Some (Io m2)" "timers_age n' (io_timers m1) (io_timers m2)"
    "m_activeThreadCount (io_sched m2) = m_activeThreadCount (io_sched m1)"
    "m_stopping (io_sched m2) = m_stopping (io_sched m1)" using assms(2) unfolding ages_def by blast
  have "timers_age n (io_timers m) (io_timers m2)"
    using m1(2) m2(2) assms(3) unfolding timers_age_def by (metis order_less_le_trans)
  then show "\<exists>m'. w_scheds w'' i = Some (Io m') \<and> timers_age n (io_timers m) (io_timers m')
     \<and> m_activeThreadCount (io_sched m') = m_activeThreadCount (io_sched m)
     \<and> m_stopping (io_sched m') = m_stopping (io_sched m)" using m1(3,4) m2 by auto
qed

section \<open>Events\<close>

lemma event_wakes_only_fd:
  assumes "only_fd i fd w w'" and "0 \<le> fd" and "fd < 2 ^ 31"
  shows "event_wakes i w' + ctx_wakes (ctx_or_new i fd w) = event_wakes i w + ctx_wakes (ctx_or_new i fd w')"
proof -
  let ?A = "{..< fd_limit}" and ?f = "\<lambda>v j. ctx_wakes (ctx_or_new i (int j) v)"
  have j: "nat fd \<in> ?A" "int (nat fd) = fd" using assms(2,3) by (simp_all add: fd_limit_def nat_less_iff)
  have e: "event_wakes i v = ctx_wakes (ctx_or_new i fd v) + (\<Sum>j \<in> ?A - {nat fd}. ?f v j)" for v
    unfolding event_wakes_def using sum.remove [OF _ j(1), of "?f v"] j(2) by simp
  have "(\<Sum>j \<in> ?A - {nat fd}. ?f w' j) = (\<Sum>j \<in> ?A - {nat fd}. ?f w j)"
  proof (rule sum.cong [OF refl])
    fix j assume "j \<in> ?A - {nat fd}"
    then have "int j \<noteq> fd" using assms(2) by auto
    then show "?f w' j = ?f w j" using assms(1) by (simp add: only_fd_def)
  qed
  then show ?thesis by (simp add: e)
qed

lemma event_wakes_cong:
  assumes "\<And>k. ctx_or_new i k w' = ctx_or_new i k w"
  shows "event_wakes i w' = event_wakes i w"
  unfolding event_wakes_def using assms by simp

lemma plain_events_cong:
  "(\<And>k. ctx_or_new i k w' = ctx_or_new i k w) \<Longrightarrow> plain_events i w \<Longrightarrow> plain_events i w'"
  by (simp add: plain_events_def)

lemma plain_events_only_fd:
  assumes "only_fd i fd w w'" and "plain_events i w" and "plain_ctx i (ctx_or_new i fd w')"
  shows "plain_events i w'"
  using assms unfolding plain_events_def only_fd_def by metis

lemma requested_wakes:
  "requested (Dor (Some d)) = [task_of (Dor (Some d)) (- 1)]" "requested (Dor None) = []"
  "requested (Cb (Some f)) = [task_of (Cb (Some f)) (- 1)]" "requested (Cb None) = []"
  by (simp_all add: requested_def task_of_request_def Let_def has_work_def)

lemma resumed_wakes:
  assumes "plain_event i x"
  shows "queue_wakes (resumed i x) = dor_mset (ev_doroutine x)" and "\<forall>t \<in> set (resumed i x). task_good i t"
proof -
  have "resumed i x = (case ev_doroutine x of None \<Rightarrow> [] | Some d \<Rightarrow> [task_of (Dor (Some d)) (- 1)])"
    using assms by (auto simp: resumed_def plain_event_def ev_request_def requested_wakes split: option.splits)
  then show "queue_wakes (resumed i x) = dor_mset (ev_doroutine x)" "\<forall>t \<in> set (resumed i x). task_good i t"
    by (auto simp: task_wakes_def task_good_def split: option.splits)
qed

lemma plain_no_event [simp]: "plain_event i no_event" "ev_doroutine no_event = None"
  by (simp_all add: plain_event_def no_event_def)

lemma plain_ev_of: "plain_ctx i c \<Longrightarrow> plain_event i (ev_of e c)"
  by (simp add: plain_ctx_def ev_of_def)

lemma trigger_wakes:
  assumes "plain_ctx i c" and "single e"
  shows "ctx_wakes c = ctx_wakes (after_trigger e l c) + dor_mset (ev_doroutine (ev_of e c))"
    and "plain_ctx i (after_trigger e l c)"
    and "single u \<Longrightarrow> u \<noteq> e \<Longrightarrow> ev_of u (after_trigger e l c) = ev_of u c"
proof -
  have r: "\<not> ev_repeat (ev_of e c)" using plain_ev_of [OF assms(1)] by (simp add: plain_event_def)
  show "ctx_wakes c = ctx_wakes (after_trigger e l c) + dor_mset (ev_doroutine (ev_of e c))"
    "plain_ctx i (after_trigger e l c)"
    using assms r
    by (auto simp: after_trigger_def ctx_wakes_def single_def ev_of_def putEventContext_def plain_ctx_def event_defs)
  assume "single u" "u \<noteq> e"
  then show "ev_of u (after_trigger e l c) = ev_of u c" using r by (simp add: after_trigger_def ev_of_put(2) [OF assms(2)] ev_of_put)
qed

lemma fold_trigger_wakes:
  assumes "plain_ctx i c" and "distinct es" and "\<forall>e \<in> set es. single e"
  shows "ctx_wakes c = ctx_wakes (fold (\<lambda>e. after_trigger e l) es c)
      + queue_wakes (concat (map (\<lambda>e. resumed i (ev_of e c)) es))"
    and "plain_ctx i (fold (\<lambda>e. after_trigger e l) es c)"
    and "\<forall>t \<in> set (concat (map (\<lambda>e. resumed i (ev_of e c)) es)). task_good i t"
proof -
  have *: "ctx_wakes c = ctx_wakes (fold (\<lambda>e. after_trigger e l) es c)
      + queue_wakes (concat (map (\<lambda>e. resumed i (ev_of e c)) es)) \<and> plain_ctx i (fold (\<lambda>e. after_trigger e l) es c)"
    using assms
  proof (induction es arbitrary: c)
    case (Cons e es)
    let ?c = "after_trigger e l c"
    have e: "single e" using Cons.prems(3) by simp
    note T = trigger_wakes [where l = l, OF Cons.prems(1) e]
    have "map (\<lambda>e. resumed i (ev_of e ?c)) es = map (\<lambda>e. resumed i (ev_of e c)) es"
      using Cons.prems(2,3) T(3) by (intro map_cong [OF refl]) (metis distinct.simps(2) list.set_intros(2))
    moreover have "ctx_wakes ?c = ctx_wakes (fold (\<lambda>e. after_trigger e l) es ?c)
      + queue_wakes (concat (map (\<lambda>e. resumed i (ev_of e ?c)) es)) \<and> plain_ctx i (fold (\<lambda>e. after_trigger e l) es ?c)"
      using Cons.prems T(2) by (intro Cons.IH) simp_all
    moreover have "queue_wakes (resumed i (ev_of e c)) = dor_mset (ev_doroutine (ev_of e c))"
      by (rule resumed_wakes [OF plain_ev_of [OF Cons.prems(1)]])
    ultimately show ?case using T(1) by (simp add: add_ac cong: map_cong)
  qed simp
  then show "ctx_wakes c = ctx_wakes (fold (\<lambda>e. after_trigger e l) es c)
      + queue_wakes (concat (map (\<lambda>e. resumed i (ev_of e c)) es))"
    "plain_ctx i (fold (\<lambda>e. after_trigger e l) es c)" by blast+
  show "\<forall>t \<in> set (concat (map (\<lambda>e. resumed i (ev_of e c)) es)). task_good i t"
    using resumed_wakes(2) [OF plain_ev_of [OF assms(1)]] by auto
qed

section \<open>Operations that leave the timers alone\<close>

lemma calm_scheds: "w_scheds w' = w_scheds w \<Longrightarrow> calm j w w'"
  by (simp add: calm_def)

lemma calm_put_ctx: "calm j w (put_ctx p c w)"
  by (rule calm_scheds) (simp add: put_ctx_def split: option.split)

lemma calm_put_iom:
  assumes "w_scheds w k = Some (Io m)" and "io_timers m' = io_timers m"
    and "m_activeThreadCount (io_sched m') = m_activeThreadCount (io_sched m)"
    and "m_stopping (io_sched m') = m_stopping (io_sched m)"
  shows "calm j w (put_iom k m' w)"
  using assms by (simp add: calm_def put_iom_def)

lemma calm_tickle: "tickle k w = Inr w' \<Longrightarrow> calm j w w'"
  by (rule calm_scheds) (auto simp: tickle_def rbind_eq_Inr split: if_splits)

lemma calm_tickles: "repeat_fault n (tickle k) w = Inr w' \<Longrightarrow> calm j w w'"
  by (induction n arbitrary: w) (auto simp: rbind_eq_Inr intro: calm_trans dest: calm_tickle)

lemma calm_schedule_to:
  assumes "schedule_to s fc thr w = Inr w'"
  shows "calm j w w'"
proof -
  obtain k where k: "s = Some k" using assms by (cases s) (auto simp: schedule_to_def)
  obtain ob where ob: "w_scheds w k = Some ob" using assms k by (cases "w_scheds w k") (auto simp: schedule_to_def)
  show ?thesis
  proof (cases ob)
    case (Plain sch)
    then show ?thesis using assms k ob by (auto simp: schedule_to_def calm_def)
  next
    case (Io m)
    obtain b sch where b: "schedule fc thr (io_sched m) = (b, sch)" by (cases "schedule fc thr (io_sched m)")
    have "calm j w (put_iom k (m\<lparr>io_sched := sch\<rparr>) w)"
      using ob Io schedule_frame [of fc thr "io_sched m"] b by (intro calm_put_iom) simp_all
    then show ?thesis using assms k ob Io b
      by (auto simp: schedule_to_def Let_def split: if_splits intro: calm_trans dest!: calm_tickle [where j = j])
  qed
qed

lemma calm_triggerEvent:
  assumes "triggerEvent env p e l w = Inr w'"
  shows "calm j w w'"
proof -
  obtain c x w1 where c: "ctx_at p w = Inr c" "getEventContext e c = Inr x"
    and s: "(case ev_func x of Some f \<Rightarrow> schedule_to (ev_scheduler x) (Cb (Some f)) (- 1) w
            | None \<Rightarrow> schedule_to (ev_scheduler x) (Dor (ev_doroutine x)) (- 1) w) = Inr w1"
    using assms by (auto simp: triggerEvent_def rbind_eq_Inr)
  have w1: "calm j w w1" using s by (auto split: option.splits intro: calm_schedule_to)
  show ?thesis
  proof (cases "\<not> ev_repeat x \<or> l")
    case False
    then show ?thesis using assms c s w1 by (simp add: triggerEvent_def)
  next
    case True
    obtain k m where m: "w_scheds w1 k = Some (Io m)"
      "w' = put_ctx p (putEventContext e (resetEventContext x) (c\<lparr>c_events := c_events c AND NOT e\<rparr>))
        (put_iom k (decPendingEventCount m) w1)"
      using assms c s True by (auto simp: triggerEvent_def rbind_eq_Inr iom_at_Inr split: option.splits)
    have "calm j w1 (put_iom k (decPendingEventCount m) w1)"
      by (rule calm_put_iom [OF m(1)]) (simp_all add: decPendingEventCount_def)
    then show ?thesis using calm_trans [OF w1 calm_trans [OF _ calm_put_ctx]] m(2) by blast
  qed
qed

lemma calm_log: "calm j (w\<lparr>w_ctl := cs\<rparr>) w' \<Longrightarrow> calm j w w'"
  using calm_trans calm_scheds [of "w\<lparr>w_ctl := cs\<rparr>" w] by fastforce

lemma calm_handle_event:
  assumes "handle_event env ctl addr k ev w = Inr w'"
  shows "calm j w w'"
proof -
  obtain m where m: "iom_at k w = Inr m" using assms by (auto simp: handle_event_def rbind_eq_Inr)
  show ?thesis
  proof (cases "data_fd addr (ep_data ev) = fst (m_tickleFds m)")
    case True
    then show ?thesis using assms m by (auto simp: handle_event_def intro: calm_scheds)
  next
    case False
    then obtain a where a: "ep_data ev = DataPtr a"
      using assms m by (cases "ep_data ev") (auto simp: handle_event_def)
    then show ?thesis using assms m False
      by (auto simp: handle_event_def rbind_eq_Inr Let_def split: if_splits
          intro!: calm_log [where w = w] dest!: calm_triggerEvent [where j = j] intro: calm_trans calm_scheds)
  qed
qed

lemma calm_cancelEvent:
  assumes "cancelEvent env ctl k fd e w = Inr (b, w')"
  shows "calm j w w'"
  using assms by (auto simp: cancelEvent_def rbind_eq_Inr Let_def split: if_splits option.splits
    dest!: calm_triggerEvent [where j = j] calm_log)

lemma calm_trigger_if: "trigger_if env p e w = Inr w' \<Longrightarrow> calm j w w'"
  by (auto simp: trigger_if_def rbind_eq_Inr split: if_splits intro: calm_triggerEvent)

lemma calm_cancelAll:
  assumes "cancelAll env ctl k fd w = Inr (b, w')"
  shows "calm j w w'"
  using assms by (auto simp: cancelAll_def rbind_eq_Inr Let_def split: if_splits option.splits
    dest!: calm_trigger_if [where j = j] calm_log intro: calm_trans)

lemma calm_addEvent_arm:
  assumes "addEvent_arm env ctl k p fd e func rep w = Inr (r, w')"
  shows "calm j w w'"
proof -
  have "w' = w \<or> (\<exists>m cs c. w_scheds w k = Some (Io m)
      \<and> w' = put_ctx p c (put_iom k (incPendingEventCount m) (w\<lparr>w_ctl := cs\<rparr>)))"
    using assms by (auto simp: addEvent_arm_def rbind_eq_Inr iom_at_Inr Let_def split: if_splits)
  then show ?thesis
  proof (elim disjE exE conjE)
    fix m cs c assume m: "w_scheds w k = Some (Io m)"
      and w': "w' = put_ctx p c (put_iom k (incPendingEventCount m) (w\<lparr>w_ctl := cs\<rparr>))"
    have "calm j (w\<lparr>w_ctl := cs\<rparr>) (put_iom k (incPendingEventCount m) (w\<lparr>w_ctl := cs\<rparr>))"
      using m by (intro calm_put_iom) (simp_all add: incPendingEventCount_def)
    then show "calm j w w'" unfolding w' by (intro calm_log [OF calm_trans [OF _ calm_put_ctx]])
  qed simp
qed

lemma calm_addEvent:
  assumes "addEvent env ctl k fd e func rep w = Inr (r, w')"
  shows "calm j w w'"
proof -
  have "calm j w w1" if g: "contextResize k n w = Inr w1" for n w1
  proof -
    obtain m where m: "w_scheds w k = Some (Io m)" using g by (auto simp: contextResize_def rbind_eq_Inr iom_at_Inr)
    show ?thesis
      using g m by (cases "fill_contexts 0 (vec_resize n None (m_fdContexts m)) (w_ctxs w, w_next w)")
        (auto simp: contextResize_def iom_at_def calm_def put_iom_def)
  qed
  then show ?thesis using assms
    by (fastforce simp: addEvent_def addEvent_grow_def rbind_eq_Inr split: option.splits
      intro: calm_trans calm_addEvent_arm)
qed

lemma calm_schedule_all: "schedule_all k fs w = Inr w' \<Longrightarrow> calm j w w'"
  by (induction fs arbitrary: w) (auto simp: rbind_eq_Inr intro: calm_trans dest: calm_schedule_to)

section \<open>Operations on events\<close>

lemma queue_at_iom: "w_scheds w i = Some (Io m) \<Longrightarrow> queue_at i w = m_tasks (io_sched m)"
  by (simp add: queue_at_def)

text \<open>An operation on one descriptor that changes its context and appends to the queue.\<close>

lemma world_event_step:
  assumes good: "world_good i n w" and inv: "io_inv i w'" and calm: "calm i w w'"
    and fd: "only_fd i fd w w'" "0 \<le> fd" "fd < 2 ^ 31" "plain_ctx i (ctx_or_new i fd w')"
    and q: "queue_at i w' = queue_at i w @ new" "\<forall>t \<in> set new. task_good i t"
    and c: "ctx_wakes (ctx_or_new i fd w') + queue_wakes new = ctx_wakes (ctx_or_new i fd w) + X"
  shows "world_good i n w'" and "wakes i w' = wakes i w + X"
proof -
  obtain m where m: "w_scheds w i = Some (Io m)" and ok: "io_ok i m w" and "io_inv i w" and pe: "plain_events i w"
    and tg: "timers_good i n (io_timers m)" and qg: "\<forall>t \<in> set (m_tasks (io_sched m)). task_good i t"
    by (rule world_goodE [OF good])
  obtain m' where m': "w_scheds w' i = Some (Io m')" "io_timers m' = io_timers m"
    using calm m unfolding calm_def by blast
  have tasks: "m_tasks (io_sched m') = m_tasks (io_sched m) @ new"
    using q(1) by (simp add: queue_at_iom [OF m] queue_at_iom [OF m'(1)])
  have pe': "plain_events i w'" by (rule plain_events_only_fd [OF fd(1) pe fd(4)])
  have "\<forall>t \<in> set (m_tasks (io_sched m')). task_good i t" using tasks qg q(2) by auto
  then show "world_good i n w'" using world_goodI [OF m'(1) inv pe'] tg m'(2) by simp
  have "event_wakes i w' + ctx_wakes (ctx_or_new i fd w) = event_wakes i w + ctx_wakes (ctx_or_new i fd w')"
    by (rule event_wakes_only_fd [OF fd(1-3)])
  then have "event_wakes i w' + queue_wakes new + (ctx_wakes (ctx_or_new i fd w) + ctx_wakes (ctx_or_new i fd w'))
      = event_wakes i w + X + (ctx_wakes (ctx_or_new i fd w) + ctx_wakes (ctx_or_new i fd w'))"
    using c by (metis (no_types, lifting) add.assoc add.commute add.left_commute)
  then have "event_wakes i w' + queue_wakes new = event_wakes i w + X" by (metis add_right_cancel)
  then show "wakes i w' = wakes i w + X"
    using m'(2) by (simp add: wakes_eq [OF m] wakes_eq [OF m'(1)] tasks)
qed

lemma world_event_none:
  assumes "world_good i n w" and "w' = w"
  shows "world_good i n w' \<and> wakes i w' = wakes i w \<and> calm i w w'"
  using assms by simp

lemma ctx_at_plain: "plain_events i w \<Longrightarrow> 0 \<le> fd \<Longrightarrow> plain_ctx i (ctx_or_new i fd w)"
  by (simp add: plain_events_def)

text \<open>Triggering events of one descriptor moves its wake-ups to the queue.\<close>

lemma world_trigger_step:
  assumes good: "world_good i n w" and inv: "io_inv i w'" and calm: "calm i w w'"
    and fd: "only_fd i fd w w'" "0 \<le> fd" "fd < 2 ^ 31"
    and es: "distinct es" "\<forall>e \<in> set es. single e"
    and c: "ctx_of i fd w' = Some (fold (\<lambda>e. after_trigger e l) es (ctx_or_new i fd w))"
    and q: "queue_at i w' = queue_at i w @ concat (map (\<lambda>e. resumed i (ev_of e (ctx_or_new i fd w))) es)"
  shows "world_good i n w'" and "wakes i w' = wakes i w"
proof -
  have "plain_ctx i (ctx_or_new i fd w)" using good fd(2) by (simp add: world_good_def ctx_at_plain)
  note T = fold_trigger_wakes [OF this es]
  have c': "ctx_or_new i fd w' = fold (\<lambda>e. after_trigger e l) es (ctx_or_new i fd w)"
    using c by (simp add: ctx_or_new_def)
  note S = world_event_step [OF good inv calm fd _ q T(3), where X = "{#}"]
  show "world_good i n w'" by (rule S) (simp_all add: c' T(2) T(1) [of l, symmetric])
  have "wakes i w' = wakes i w + {#}" by (rule S) (simp_all add: c' T(2) T(1) [of l, symmetric])
  then show "wakes i w' = wakes i w" by simp
qed

lemma cancelEvent_wakes:
  assumes good: "world_good i n w" and fd: "fd_range fd" and e: "single e" and env: "th_sched env = Some i"
  shows "\<exists>b w'. cancelEvent env ctl i fd e w = Inr (b, w') \<and> world_good i n w'
    \<and> wakes i w' = wakes i w \<and> calm i w w'"
proof -
  have inv: "io_inv i w" using good by (simp add: world_good_def)
  have fd': "0 \<le> fd" "fd < 2 ^ 31" using fd by (simp_all add: fd_range_def)
  obtain b w' where r: "cancelEvent env ctl i fd e w = Inr (b, w')" "io_inv i w'" "only_fd i fd w w'"
    "\<not> b \<longrightarrow> w' = w"
    "b \<longrightarrow> ctx_of i fd w' = Some (after_trigger e True (ctx_or_new i fd w))
       \<and> (\<forall>k. queue_at k w' = queue_at k w @ resumed k (ev_of e (ctx_or_new i fd w)))"
    using cancelEvent_ok [OF inv fd'(1) e env, of ctl] by blast
  have cm: "calm i w w'" by (rule calm_cancelEvent [OF r(1)])
  have "world_good i n w' \<and> wakes i w' = wakes i w"
  proof (cases b)
    case True
    then show ?thesis
      using world_trigger_step [OF good r(2) cm r(3) fd', of "[e]" True] r(5) e by simp
  qed (use r(4) good in simp)
  with r(1) cm show ?thesis by blast
qed

lemma cancelAll_wakes:
  assumes good: "world_good i n w" and fd: "fd_range fd" and env: "th_sched env = Some i"
  shows "\<exists>b w'. cancelAll env ctl i fd w = Inr (b, w') \<and> world_good i n w'
    \<and> wakes i w' = wakes i w \<and> calm i w w'"
proof -
  have inv: "io_inv i w" using good by (simp add: world_good_def)
  have fd': "0 \<le> fd" "fd < 2 ^ 31" using fd by (simp_all add: fd_range_def)
  let ?es = "events_of (fd_mask i fd w)"
  obtain b w' where r: "cancelAll env ctl i fd w = Inr (b, w')" "io_inv i w'" "only_fd i fd w w'"
    "\<not> b \<longrightarrow> w' = w"
    "b \<longrightarrow> ctx_of i fd w' = Some (fold (\<lambda>e. after_trigger e True) ?es (ctx_or_new i fd w))
       \<and> (\<forall>k. queue_at k w' = queue_at k w @ concat (map (\<lambda>e. resumed k (ev_of e (ctx_or_new i fd w))) ?es))"
    using cancelAll_ok [OF inv fd'(1) env, of ctl] by blast
  have cm: "calm i w w'" by (rule calm_cancelAll [OF r(1)])
  have "world_good i n w' \<and> wakes i w' = wakes i w"
  proof (cases b)
    case True
    then show ?thesis
      using world_trigger_step [OF good r(2) cm r(3) fd' events_of_props(1), of "fd_mask i fd w" True] r(5)
      by (simp add: events_of_props(2))
  qed (use r(4) good in simp)
  with r(1) cm show ?thesis by blast
qed

text \<open>What handling one event leaves of the tables, and of every other context.\<close>

definition table_kept :: "nat \<Rightarrow> 'f world \<Rightarrow> 'f world \<Rightarrow> bool" where
  "table_kept i w w' \<longleftrightarrow> (\<forall>m. w_scheds w i = Some (Io m) \<longrightarrow> (\<exists>m'. w_scheds w' i = Some (Io m')
     \<and> m_fdContexts m' = m_fdContexts m \<and> m_tickleFds m' = m_tickleFds m))"

lemma table_kept_refl [simp]: "table_kept i w w"
  by (simp add: table_kept_def)

lemma table_kept_trans: "table_kept i w w' \<Longrightarrow> table_kept i w' w'' \<Longrightarrow> table_kept i w w''"
  unfolding table_kept_def by fastforce

lemma schedule_to_frame:
  assumes "schedule_to s fc (- 1) w = Inr w'"
  shows "sched_frame w w'"
proof -
  obtain k where k: "s = Some k" "w_scheds w k \<noteq> None"
    using assms by (auto simp: schedule_to_def split: option.splits)
  obtain w1 where "schedule_to (Some k) fc (- 1) w = Inr w1" "sched_frame w w1"
    "queue_at k w1 = queue_at k w @ requested fc" "\<forall>j. j \<noteq> k \<longrightarrow> queue_at j w1 = queue_at j w"
    by (rule schedule_to_ok [OF k(2)])
  then show ?thesis using assms k(1) by simp
qed

lemma sched_frame_table:
  assumes "sched_frame w w'"
  shows "table_kept i w w'"
  unfolding table_kept_def
proof (intro allI impI)
  fix m assume "w_scheds w i = Some (Io m)"
  with assms obtain sch where "w_scheds w' i = Some (Io (m\<lparr>io_sched := sch\<rparr>))" by (rule sched_frame_Io)
  then show "\<exists>m'. w_scheds w' i = Some (Io m') \<and> m_fdContexts m' = m_fdContexts m \<and> m_tickleFds m' = m_tickleFds m"
    by auto
qed

lemma triggerEvent_table:
  assumes "triggerEvent env (Some a) e l w = Inr w'"
  shows "table_kept i w w'" and "b \<noteq> a \<Longrightarrow> w_ctxs w' b = w_ctxs w b"
proof -
  obtain c x w1 where c: "ctx_at (Some a) w = Inr c" "getEventContext e c = Inr x"
    and s: "(case ev_func x of Some f \<Rightarrow> schedule_to (ev_scheduler x) (Cb (Some f)) (- 1) w
            | None \<Rightarrow> schedule_to (ev_scheduler x) (Dor (ev_doroutine x)) (- 1) w) = Inr w1"
    using assms by (auto simp: triggerEvent_def rbind_eq_Inr)
  have "sched_frame w w1" using s by (auto split: option.splits intro: schedule_to_frame)
  then have w1: "table_kept i w w1" "w_ctxs w1 = w_ctxs w"
    by (simp_all add: sched_frame_table sched_frameD)
  have "table_kept i w w' \<and> (b \<noteq> a \<longrightarrow> w_ctxs w' b = w_ctxs w b)"
  proof (cases "\<not> ev_repeat x \<or> l")
    case False
    then show ?thesis using assms c s w1 by (simp add: triggerEvent_def)
  next
    case True
    obtain k m where m: "w_scheds w1 k = Some (Io m)"
      "w' = put_ctx (Some a) (putEventContext e (resetEventContext x) (c\<lparr>c_events := c_events c AND NOT e\<rparr>))
        (put_iom k (decPendingEventCount m) w1)"
      using assms c s True by (auto simp: triggerEvent_def rbind_eq_Inr iom_at_Inr split: option.splits)
    have "table_kept i w1 w'" unfolding m(2) table_kept_def
      using m(1) by (simp add: put_iom_def put_ctx_def decPendingEventCount_def)
    moreover have "b \<noteq> a \<longrightarrow> w_ctxs w' b = w_ctxs w1 b" by (simp add: m(2) put_iom_def put_ctx_def)
    ultimately show ?thesis using w1 table_kept_trans by metis
  qed
  then show "table_kept i w w'" "b \<noteq> a \<Longrightarrow> w_ctxs w' b = w_ctxs w b" by blast+
qed

lemma handle_event_table:
  assumes "handle_event env ctl addr k ev w = Inr w'"
  shows "table_kept i w w'" and "ep_data ev \<noteq> DataPtr b \<Longrightarrow> w_ctxs w' b = w_ctxs w b"
proof -
  have log: "table_kept i w (w\<lparr>w_ctl := cs\<rparr>)" for cs by (simp add: table_kept_def)
  obtain m where m: "iom_at k w = Inr m" using assms by (auto simp: handle_event_def rbind_eq_Inr)
  have "table_kept i w w' \<and> (ep_data ev \<noteq> DataPtr b \<longrightarrow> w_ctxs w' b = w_ctxs w b)"
  proof (cases "data_fd addr (ep_data ev) = fst (m_tickleFds m)")
    case True
    then have "w' = w\<lparr>w_pipe := (w_pipe w)(k := 0)\<rparr>" using assms m by (simp add: handle_event_def)
    then show ?thesis by (simp add: table_kept_def)
  next
    case False
    then obtain a where a: "ep_data ev = DataPtr a"
      using assms m by (cases "ep_data ev") (auto simp: handle_event_def)
    obtain c where c: "ctx_at (Some a) w = Inr c"
      using assms m False a by (auto simp: handle_event_def rbind_eq_Inr)
    show ?thesis
    proof (cases "w' = w")
      case True
      then show ?thesis by simp
    next
      case ne: False
      obtain cs w1 where w1: "w1 = w\<lparr>w_ctl := cs\<rparr> \<or> triggerEvent env (Some a) EV_READ False (w\<lparr>w_ctl := cs\<rparr>) = Inr w1"
        "w' = w1 \<or> triggerEvent env (Some a) EV_WRITE False w1 = Inr w'"
        using assms m False a c ne
        by (simp add: handle_event_def rbind_eq_Inr Let_def split: if_splits) blast+
      have "table_kept i w w1 \<and> (b \<noteq> a \<longrightarrow> w_ctxs w1 b = w_ctxs w b)"
        using w1(1) log table_kept_trans [OF log] triggerEvent_table [of env a EV_READ False "w\<lparr>w_ctl := cs\<rparr>" w1]
        by auto
      moreover have "table_kept i w1 w' \<and> (b \<noteq> a \<longrightarrow> w_ctxs w' b = w_ctxs w1 b)"
        using w1(2) triggerEvent_table [of env a EV_WRITE False w1 w'] by auto
      ultimately show ?thesis using table_kept_trans a by auto
    qed
  qed
  then show "table_kept i w w'" "ep_data ev \<noteq> DataPtr b \<Longrightarrow> w_ctxs w' b = w_ctxs w b" by blast+
qed

lemma live_event_kept:
  assumes "table_kept i w w'" and "\<And>a. ep_data ev = DataPtr a \<Longrightarrow> w_ctxs w' a = w_ctxs w a"
    and "live_event addr i ev w"
  shows "live_event addr i ev w'"
  using assms unfolding live_event_def table_kept_def by fastforce

lemma handle_event_wakes:
  assumes good: "world_good i n w" and env: "th_sched env = Some i" and live: "live_event addr i ev w"
  shows "\<exists>w'. handle_event env ctl addr i ev w = Inr w' \<and> world_good i n w' \<and> wakes i w' = wakes i w
    \<and> calm i w w' \<and> table_kept i w w' \<and> (\<forall>a. ep_data ev \<noteq> DataPtr a \<longrightarrow> w_ctxs w' a = w_ctxs w a)"
proof -
  have inv: "io_inv i w" using good by (simp add: world_good_def)
  have "\<exists>w'. handle_event env ctl addr i ev w = Inr w' \<and> world_good i n w' \<and> wakes i w' = wakes i w"
    using inv live
  proof (cases rule: live_eventE)
    case (pipe m)
    let ?w = "w\<lparr>w_pipe := (w_pipe w)(i := 0)\<rparr>"
    have cm: "calm i w ?w" by (simp add: calm_scheds)
    have fd: "only_fd i 0 w ?w" "plain_ctx i (ctx_or_new i 0 ?w)"
      using good by (simp_all add: only_fd_def ctx_or_new_pipe world_good_def ctx_at_plain)
    have q: "queue_at i ?w = queue_at i w @ []" by (simp add: queue_at_def)
    show ?thesis
      using world_event_step [OF good io_inv_pipe [OF inv] cm fd(1) _ _ fd(2) q, of "{#}"] handle_event_pipe [OF pipe]
      by (simp add: ctx_or_new_pipe)
  next
    case (slot m a c j)
    let ?es = "events_of (real_events c (ep_events ev))"
    obtain w' where w': "handle_event env ctl addr i ev w = Inr w'" "io_inv i w'" "only_fd i (int j) w w'"
      "if accepts_report ctl c (real_events c (ep_events ev))
       then ctx_of i (int j) w' = Some (fold (\<lambda>e. after_trigger e False) ?es c)
         \<and> (\<forall>k. queue_at k w' = queue_at k w @ concat (map (\<lambda>e. resumed k (ev_of e c)) ?es))
       else w' = w"
      using handle_event_ctx [OF slot(1,2) env slot(5-8) slot(3,4) refl slot(9), of ctl] by blast
    have cm: "calm i w w'" by (rule calm_handle_event [OF w'(1)])
    have j: "0 \<le> int j" "int j < 2 ^ 31" using slot(2,5) by (simp_all add: io_ok_def io_table_def)
    have c: "ctx_or_new i (int j) w = c" using slot(1,5,6,7) by (simp add: ctx_or_new_def ctx_of_def)
    have "world_good i n w' \<and> wakes i w' = wakes i w"
    proof (cases "accepts_report ctl c (real_events c (ep_events ev))")
      case True
      then show ?thesis
        using world_trigger_step [OF good w'(2) cm w'(3) j events_of_props(1), of "real_events c (ep_events ev)" False] w'(4) c
        by (simp add: events_of_props(2))
    qed (use w'(4) good in simp)
    with w'(1) show ?thesis by blast
  qed
  then show ?thesis using calm_handle_event handle_event_table by metis
qed

lemma epoll_report_next:
  assumes rep: "epoll_report addr i w (ev # evs)" and a: "handle_event env ctl addr k ev w = Inr w1"
  shows "epoll_report addr i w1 evs"
  unfolding epoll_report_def
proof (intro conjI ballI)
  show "distinct (map ep_data evs)" using rep by (simp add: epoll_report_def)
  fix v assume v: "v \<in> set evs"
  show "live_event addr i v w1"
  proof (rule live_event_kept [OF handle_event_table(1) [OF a]])
    fix b assume "ep_data v = DataPtr b"
    then have "ep_data ev \<noteq> DataPtr b" using rep v by (force simp: epoll_report_def)
    then show "w_ctxs w1 b = w_ctxs w b" by (rule handle_event_table(2) [OF a])
  qed (use rep v in \<open>simp add: epoll_report_def\<close>)
qed

lemma handle_events_wakes:
  assumes "world_good i n w" and env: "th_sched env = Some i" and "epoll_report addr i w evs"
  shows "\<exists>w'. handle_events env ctl addr i evs w = Inr w' \<and> world_good i n w' \<and> wakes i w' = wakes i w \<and> calm i w w'"
  using assms(1,3)
proof (induction evs arbitrary: w)
  case (Cons ev evs)
  have live: "live_event addr i ev w" using Cons.prems(2) by (simp add: epoll_report_def)
  obtain w1 where w1: "handle_event env ctl addr i ev w = Inr w1" "world_good i n w1" "wakes i w1 = wakes i w" "calm i w w1"
    using handle_event_wakes [OF Cons.prems(1) env live, of ctl] by blast
  from Cons.IH [OF w1(2) epoll_report_next [OF Cons.prems(2) w1(1)]] w1(1,3,4) show ?case by (auto intro: calm_trans)
qed simp

section \<open>Timers\<close>

text \<open>An operation that changes the timers, and possibly appends to the queue.\<close>

lemma world_timer_step:
  assumes good: "world_good i n w" and m: "w_scheds w i = Some (Io m)" and m': "w_scheds w' i = Some (Io m')"
    and inv: "io_inv i w'" and ctx: "\<And>k. ctx_or_new i k w' = ctx_or_new i k w"
    and ts: "timers_good i n' (io_timers m')"
    and q: "m_tasks (io_sched m') = m_tasks (io_sched m) @ new" "\<forall>t \<in> set new. task_good i t"
    and wk: "timer_wakes (io_timers m') + queue_wakes new = timer_wakes (io_timers m) + X"
  shows "world_good i n' w'" and "wakes i w' = wakes i w + X"
proof -
  obtain m0 where m0: "w_scheds w i = Some (Io m0)" and pe: "plain_events i w"
    and qg: "\<forall>t \<in> set (m_tasks (io_sched m0)). task_good i t"
    by (rule world_goodE [OF good])
  have "m0 = m" using m m0 by simp
  then have "\<forall>t \<in> set (m_tasks (io_sched m')). task_good i t" using qg q by auto
  then show "world_good i n' w'" using world_goodI [OF m' inv plain_events_cong [OF ctx pe] ts] by blast
  have "event_wakes i w' = event_wakes i w" by (rule event_wakes_cong [OF ctx])
  then show "wakes i w' = wakes i w + X"
    using wk by (simp add: wakes_eq [OF m] wakes_eq [OF m'] q(1) add_ac)
qed

lemma timer_wakes_upd:
  assumes "\<And>p. p \<in> set (m_timers ts) \<Longrightarrow> tobj ts' p = tobj ts p" and "p \<notin> set (m_timers ts)"
    and "set (m_timers ts') = insert p (set (m_timers ts))"
  shows "timer_wakes ts' = timer_wakes ts + fn_wakes (t_func (tobj ts' p))"
proof -
  have "(\<Sum>q \<in> set (m_timers ts). fn_wakes (t_func (tobj ts' q))) = timer_wakes ts"
    unfolding timer_wakes_def by (rule sum.cong [OF refl]) (simp add: assms(1))
  then show ?thesis using assms(2,3) by (simp add: timer_wakes_def add.commute)
qed

lemma addTimer_wakes:
  assumes good: "world_good i n w" and f: "fn_ok i cb"
  shows "\<exists>w'. io_addTimer i n ms (Some cb) False now w = Inr w' \<and> world_good i (n + 1) w'
    \<and> wakes i w' = wakes i w + fn_wakes (Some cb) \<and> ages i n w w'
    \<and> (\<forall>k. ctx_or_new i k w' = ctx_or_new i k w)
    \<and> (\<forall>m'. w_scheds w' i = Some (Io m') \<longrightarrow> t_manager (tobj (io_timers m') n) \<and> t_func (tobj (io_timers m') n) = Some cb)"
proof -
  obtain m where m: "w_scheds w i = Some (Io m)" and "io_ok i m w" and inv: "io_inv i w"
    and tg: "timers_good i n (io_timers m)" by (rule world_goodE [OF good])
  have n: "n \<notin> set (m_timers (io_timers m))" and tm: "tm_inv (io_timers m)" using tg by (auto simp: timers_good_def)
  obtain m' w' where a: "io_addTimer i n ms (Some cb) False now w = Inr w'" "w_scheds w' = (w_scheds w)(i \<mapsto> Io m')"
    "w_ctxs w' = w_ctxs w" "io_sched m' = io_sched m" "m_fdContexts m' = m_fdContexts m" "tm_inv (io_timers m')"
    "set (m_timers (io_timers m')) = insert n (set (m_timers (io_timers m)))"
    "tobj (io_timers m') = (tobj (io_timers m))(n := Timer_new ms (Some cb) False now)"
    by (rule io_addTimer_ok [OF m tm n])
  have m': "w_scheds w' i = Some (Io m')" using a(2) by simp
  note inv' = io_addTimer_inv [OF inv a(1)]
  have at: "tobj (io_timers m') p = tobj (io_timers m) p" if "p \<in> set (m_timers (io_timers m))" for p
    using that n a(8) by auto
  have ts: "timers_good i (n + 1) (io_timers m')"
    using tg a(6-8) f by (auto simp: timers_good_def timer_good_def Timer_new_def)
  have "timer_wakes (io_timers m') = timer_wakes (io_timers m) + fn_wakes (Some cb)"
    using timer_wakes_upd [OF at n a(7)] a(8) by (simp add: Timer_new_def)
  then have "world_good i (n + 1) w' \<and> wakes i w' = wakes i w + fn_wakes (Some cb)"
    using world_timer_step [OF good m m' inv'(1,2) ts, of "[]"] a(4) by simp
  moreover have "ages i n w w'" using m m' a(4,8) by (auto simp: ages_def timers_age_def)
  ultimately show ?thesis using a(1,8) m' inv'(2) by (auto simp: Timer_new_def)
qed

lemma cancel_wakes:
  assumes good: "world_good i n w" and m: "w_scheds w i = Some (Io m)"
    and p: "t_manager (tobj (io_timers m) p)" "fn_wakes (t_func (tobj (io_timers m) p)) = {#}"
  shows "\<exists>b ts. cancel p (io_timers m) = Inr (b, ts)
    \<and> world_good i n (put_iom i (m\<lparr>io_timers := ts\<rparr>) w) \<and> wakes i (put_iom i (m\<lparr>io_timers := ts\<rparr>) w) = wakes i w
    \<and> ages i n w (put_iom i (m\<lparr>io_timers := ts\<rparr>) w)"
proof -
  let ?ts = "io_timers m"
  obtain m0 where m0: "w_scheds w i = Some (Io m0)" "io_ok i m0 w" and inv: "io_inv i w"
    and tg0: "timers_good i n (io_timers m0)" by (rule world_goodE [OF good])
  have ok: "io_ok i m w" and tg: "timers_good i n ?ts" using m m0 tg0 by simp_all
  have tm: "tm_inv ?ts" using tg by (simp add: timers_good_def)
  obtain ts where c: "cancel p ?ts = Inr (t_func (tobj ?ts p) \<noteq> None, ts)"
    and ts: "ts = (if t_func (tobj ?ts p) = None then ?ts
      else ?ts\<lparr>tobj := (tobj ?ts)(p := (tobj ?ts p)\<lparr>t_func := None\<rparr>), m_timers := removeAll p (m_timers ?ts)\<rparr>)"
    using cancel_ok [OF tm p(1)] by simp
  let ?w = "put_iom i (m\<lparr>io_timers := ts\<rparr>) w"
  have m': "w_scheds ?w i = Some (Io (m\<lparr>io_timers := ts\<rparr>))" by (simp add: put_iom_def)
  have inv': "io_inv i ?w" by (rule io_inv_put [OF m ok]) simp_all
  have ctx: "ctx_or_new i k ?w = ctx_or_new i k w" for k
    by (rule ctx_or_new_cong [OF m m']) (simp_all add: put_iom_def)
  have tg': "timers_good i n ts"
    using tg tm_inv_cancel [OF tm c] by (auto simp: ts timers_good_def timer_good_def)
  have "timer_wakes ts = timer_wakes ?ts"
  proof (cases "t_func (tobj ?ts p) = None")
    case False
    then have "p \<in> set (m_timers ?ts)" using tm_inv_func [OF tm] by blast
    have "timer_wakes ts = (\<Sum>q \<in> set (m_timers ?ts) - {p}. fn_wakes (t_func (tobj ?ts q)))"
      using False by (auto simp: timer_wakes_def ts intro!: sum.cong)
    also have "\<dots> = timer_wakes ?ts"
      unfolding timer_wakes_def using p(2) by (subst sum.remove [OF _ \<open>p \<in> _\<close>]) simp_all
    finally show ?thesis .
  qed (simp add: ts)
  then have "world_good i n ?w \<and> wakes i ?w = wakes i w"
    using world_timer_step [OF good m m' inv' ctx, of n "[]" "{#}"] tg' by simp
  moreover have "ages i n w ?w" using m m' by (auto simp: ages_def timers_age_def ts)
  ultimately show ?thesis using c by blast
qed

lemma tickles_kept:
  assumes "repeat_fault n (tickle i) w = Inr w'"
  shows "w_scheds w' = w_scheds w \<and> w_ctxs w' = w_ctxs w"
  using assms
proof (induction n arbitrary: w)
  case (Suc n)
  then obtain w1 where w1: "tickle i w = Inr w1" "repeat_fault n (tickle i) w1 = Inr w'" by (auto simp: rbind_eq_Inr)
  moreover have "w_scheds w1 = w_scheds w \<and> w_ctxs w1 = w_ctxs w"
    using w1(1) by (auto simp: tickle_def rbind_eq_Inr split: if_splits)
  ultimately show ?case using Suc.IH by simp
qed simp

lemma schedule_all_frame: "schedule_all i fs w = Inr w' \<Longrightarrow> sched_frame w w'"
proof (induction fs arbitrary: w)
  case (Cons f fs)
  then show ?case by (auto simp: rbind_eq_Inr intro: sched_frame_trans dest: schedule_to_frame)
qed (simp add: sched_frame_refl)

lemma fns_wakes:
  assumes "\<forall>f \<in> set fs. \<forall>g. f = Some g \<longrightarrow> fn_ok i g"
  shows "queue_wakes (concat (map (\<lambda>f. requested (Cb f)) fs)) = (\<Sum>f \<leftarrow> fs. fn_wakes f)"
    and "\<forall>t \<in> set (concat (map (\<lambda>f. requested (Cb f)) fs)). task_good i t"
proof -
  have "queue_wakes (concat (map (\<lambda>f. requested (Cb f)) fs)) = (\<Sum>f \<leftarrow> fs. fn_wakes f)
    \<and> (\<forall>t \<in> set (concat (map (\<lambda>f. requested (Cb f)) fs)). task_good i t)"
    using assms
  proof (induction fs)
    case (Cons f fs)
    then show ?case
      by (cases f) (auto simp: requested_wakes task_wakes_def task_good_def)
  qed simp
  then show "queue_wakes (concat (map (\<lambda>f. requested (Cb f)) fs)) = (\<Sum>f \<leftarrow> fs. fn_wakes f)"
    "\<forall>t \<in> set (concat (map (\<lambda>f. requested (Cb f)) fs)). task_good i t" by blast+
qed

lemma run_timers_wakes:
  assumes good: "world_good i n w"
  shows "\<exists>w'. run_timers i n now w = Inr w' \<and> world_good i n w' \<and> wakes i w' = wakes i w \<and> ages i n w w'
    \<and> table_kept i w w' \<and> w_ctxs w' = w_ctxs w"
proof -
  obtain m where m: "w_scheds w i = Some (Io m)" and inv: "io_inv i w" and ok: "io_ok i m w"
    and tg: "timers_good i n (io_timers m)" by (rule world_goodE [OF good])
  let ?ts = "io_timers m" and ?ex = "expired_timers now (io_timers m)"
  have n: "n \<notin> set (m_timers ?ts)" and tm: "tm_inv ?ts" using tg by (auto simp: timers_good_def)
  have ex: "set ?ex \<subseteq> set (m_timers ?ts)" by (rule expired_timers_subset)
  have rep: "repeating ?ts ?ex = []"
    using tg ex by (auto simp: repeating_def timers_good_def timer_good_def filter_empty_conv)
  let ?fs = "map (\<lambda>p. t_func (tobj ?ts p)) ?ex"
  obtain k ts where l: "listExpiredFunc n now ?ts = Inr (?fs, k, ts)"
    "tobj ts = (\<lambda>p. if p \<in> set ?ex then fired now (tobj ?ts p) else tobj ?ts p)"
    "set (m_timers ts) = set (m_timers ?ts) - set ?ex" "tm_inv ts"
    using listExpiredFunc_ok [OF tm n, of now] by (auto simp: rep)
  let ?w1 = "put_iom i (m\<lparr>io_timers := ts\<rparr>) w"
  have inv1: "io_inv i ?w1" by (rule io_inv_put [OF m ok]) simp_all
  obtain w2 where w2: "repeat_fault k (tickle i) ?w1 = Inr w2" "io_inv i w2"
    using tickles_inv [OF inv1, of k] by (auto simp: onTimerInsertedAtFront_def [abs_def])
  obtain w3 where w3: "schedule_all i ?fs w2 = Inr w3" "io_inv i w3" "sched_frame w2 w3"
    "queue_at i w3 = queue_at i w2 @ concat (map (\<lambda>f. requested (Cb f)) ?fs)"
    using schedule_all_inv [OF w2(2)] by blast
  have run: "run_timers i n now w = Inr w3"
    using m l(1) w2(1) w3(1) by (simp add: run_timers_def iom_at_def onTimerInsertedAtFront_def [abs_def])
  have K: "w_scheds w2 = w_scheds ?w1" "w_ctxs w2 = w_ctxs ?w1" using tickles_kept [OF w2(1)] by simp_all
  have m2: "w_scheds w2 i = Some (Io (m\<lparr>io_timers := ts\<rparr>))" using K(1) by (simp add: put_iom_def)
  obtain sch where m3: "w_scheds w3 i = Some (Io (m\<lparr>io_timers := ts, io_sched := sch\<rparr>))"
    "m_stopping sch = m_stopping (io_sched m)" "m_activeThreadCount sch = m_activeThreadCount (io_sched m)"
    using sched_frame_Io [OF w3(3) m2] by auto
  have ctxs: "w_ctxs w3 = w_ctxs w" using sched_frameD(1) [OF w3(3)] K(2) by (simp add: put_iom_def)
  have ctx: "ctx_or_new i j w3 = ctx_or_new i j w" for j
    by (rule ctx_or_new_cong [OF m m3(1)]) (simp_all add: ctxs)
  have q: "m_tasks sch = m_tasks (io_sched m) @ concat (map (\<lambda>f. requested (Cb f)) ?fs)"
    using w3(4) by (simp add: queue_at_iom [OF m2] queue_at_iom [OF m3(1)])
  have fok: "\<forall>f \<in> set ?fs. \<forall>g. f = Some g \<longrightarrow> fn_ok i g"
    using tg ex by (force simp: timers_good_def timer_good_def)
  note F = fns_wakes [OF fok]
  have tg': "timers_good i n ts"
    using tg l(2-4) by (auto simp: timers_good_def)
  have "timer_wakes ts = (\<Sum>p \<in> set (m_timers ?ts) - set ?ex. fn_wakes (t_func (tobj ?ts p)))"
    by (auto simp: timer_wakes_def l(2,3) intro!: sum.cong)
  moreover have "(\<Sum>f \<leftarrow> ?fs. fn_wakes f) = (\<Sum>p \<in> set ?ex. fn_wakes (t_func (tobj ?ts p)))"
    using expire_loop_start(1) [OF tm] by (simp add: sum_list_distinct_conv_sum_set comp_def)
  ultimately have "timer_wakes ts + queue_wakes (concat (map (\<lambda>f. requested (Cb f)) ?fs)) = timer_wakes ?ts + {#}"
    unfolding F(1) using sum.subset_diff [OF ex, of "\<lambda>p. fn_wakes (t_func (tobj ?ts p))"] by (simp add: timer_wakes_def)
  then have "world_good i n w3 \<and> wakes i w3 = wakes i w"
    using world_timer_step [OF good m m3(1) w3(2) ctx _ _ F(2), of n "{#}"] tg' q by simp
  moreover have "ages i n w w3" using m m3 l(2) by (auto simp: ages_def timers_age_def fired_def)
  moreover have "table_kept i w w3" using m m3(1) by (simp add: table_kept_def)
  ultimately show ?thesis using run ctxs by blast
qed

text \<open>The events \<open>epoll_wait\<close> reported in the end.\<close>

lemma wait_loop_report:
  assumes rep: "epoll_reports addr i wait w" and l: "wait_loop wait 0 nt [] = Some (ts, evs)"
  shows "epoll_report addr i w evs"
proof -
  let ?P = "\<lambda>wait r. snd r = [] \<or> (\<exists>n t. wait n t = Ready (snd r))"
  have "?P wait (ts, evs)"
  proof (rule wait_loop.raw_induct [where P = "\<lambda>wait n nt passed r. ?P wait r", OF _ l])
    fix loop :: "(nat \<Rightarrow> int \<Rightarrow> wait_result) \<Rightarrow> nat \<Rightarrow> u64 \<Rightarrow> int list \<Rightarrow> (int list \<times> epoll_event list) option"
      and wait n nt passed r
    assume "\<And>wait n nt passed r. loop wait n nt passed = Some r \<Longrightarrow> ?P wait r"
      and "(let nt = poll_timeout nt; t = sint (ucast nt :: u32)
        in case wait n t of Interrupted \<Rightarrow> loop wait (n + 1) nt (passed @ [t])
           | WaitFailed \<Rightarrow> Some (passed @ [t], []) | Ready evs \<Rightarrow> Some (passed @ [t], evs)) = Some r"
    then show "?P wait r" by (auto simp: Let_def split: wait_result.splits)
  qed
  then show ?thesis using rep by (auto simp: epoll_reports_def epoll_report_def)
qed

text \<open>One iteration of the idle coroutine.\<close>

lemma idle_iter_wakes:
  assumes good: "world_good i n w" and env: "th_sched env = Some i" and rep: "epoll_reports addr i wait w"
    and run: "idle_iter env ctl addr wait now0 now1 n i w = Some r" and m: "w_scheds w i = Some (Io m)"
  shows "r = Inr None \<and> fst (io_stopping now0 m)
    \<or> (\<exists>w'. r = Inr (Some w') \<and> world_good i n w' \<and> wakes i w' = wakes i w \<and> ages i n w w')"
proof (cases "fst (io_stopping now0 m)")
  case True
  then show ?thesis using run m by (simp add: idle_iter_def iom_at_def split_beta)
next
  case False
  obtain ts evs where l: "wait_loop wait 0 (snd (io_stopping now0 m)) [] = Some (ts, evs)"
    using run m False by (auto simp: idle_iter_def iom_at_def split_beta split: option.splits)
  have evs: "epoll_report addr i w evs" by (rule wait_loop_report [OF rep l])
  obtain w1 where w1: "run_timers i n now1 w = Inr w1" "world_good i n w1" "wakes i w1 = wakes i w" "ages i n w w1"
    "table_kept i w w1" "w_ctxs w1 = w_ctxs w" using run_timers_wakes [OF good] by blast
  have "epoll_report addr i w1 evs"
    using evs live_event_kept [OF w1(5)] w1(6) by (simp add: epoll_report_def)
  then obtain w2 where w2: "handle_events env ctl addr i evs w1 = Inr w2" "world_good i n w2"
    "wakes i w2 = wakes i w1" "calm i w1 w2"
    using handle_events_wakes [OF w1(2) env, of addr evs ctl] by blast
  have "ages i n w w2" by (rule ages_trans [OF w1(4) calm_ages [where n = n, OF w2(4)]]) simp
  moreover have "r = Inr (Some w2)"
    using run m False l w1(1) w2(1) by (simp add: idle_iter_def iom_at_def split_beta)
  ultimately show ?thesis using w2(2,3) w1(3) by simp
qed

end
