(* ===== verification/RuntimeRuns.thy ===== *)
theory RuntimeRuns
  imports RuntimeInv
begin

text \<open>
  The invariant of the whole system and what follows from it: the steps of \<open>Runtime\<close> keep it,
  none of them faults, every suspended coroutine has exactly one wake-up, and the thread leaves
  \<open>run\<close> only when every coroutine has ended.
\<close>

section \<open>Hooked calls and wake-ups\<close>

definition hook_good :: "nat \<Rightarrow> ('u, 'k) hook_state \<Rightarrow> bool" where
  "hook_good i s \<longleftrightarrow> world_good i (h_next s) (h_world s) \<and> fdm_inv (h_fds s)"

definition sched_in :: "nat \<Rightarrow> ('u, 'k) hook_state \<Rightarrow> 'u hook_fn fn Scheduler option" where
  "sched_in i s = (case w_scheds (h_world s) i of Some (Io m) \<Rightarrow> Some (io_sched m) | _ \<Rightarrow> None)"

definition active_in :: "nat \<Rightarrow> ('u, 'k) hook_state \<Rightarrow> u64 option" where
  "active_in i s = map_option m_activeThreadCount (sched_in i s)"

definition stopping_in :: "nat \<Rightarrow> ('u, 'k) hook_state \<Rightarrow> bool option" where
  "stopping_in i s = map_option m_stopping (sched_in i s)"

abbreviation wakes_in :: "nat \<Rightarrow> ('u, 'k) hook_state \<Rightarrow> nat multiset" where
  "wakes_in i s \<equiv> wakes i (h_world s)"

definition hook_ages :: "nat \<Rightarrow> ('u, 'k) hook_state \<Rightarrow> ('u, 'k) hook_state \<Rightarrow> bool" where
  "hook_ages i s s' \<longleftrightarrow> h_next s \<le> h_next s'
     \<and> (\<forall>t < h_next s. h_tinfo s t \<noteq> None \<longrightarrow> h_tinfo s' t \<noteq> None)
     \<and> (\<forall>m m'. w_scheds (h_world s) i = Some (Io m) \<and> w_scheds (h_world s') i = Some (Io m')
          \<longrightarrow> timers_age (h_next s) (io_timers m) (io_timers m'))"

text \<open>An operation that adds the wake-ups \<open>X\<close>.\<close>

definition adds :: "nat \<Rightarrow> nat multiset \<Rightarrow> ('u, 'k) hook_state \<Rightarrow> ('u, 'k) hook_state \<Rightarrow> bool" where
  "adds i X s s' \<longleftrightarrow> hook_good i s' \<and> hook_ages i s s' \<and> wakes_in i s' = wakes_in i s + X
     \<and> active_in i s' = active_in i s \<and> stopping_in i s' = stopping_in i s"

lemma hook_goodD:
  assumes "hook_good i s"
  shows "world_good i (h_next s) (h_world s)" "fdm_inv (h_fds s)" "io_inv i (h_world s)"
  using assms by (simp_all add: hook_good_def world_good_def)

lemma hook_good_iom:
  assumes "hook_good i s"
  obtains m where "w_scheds (h_world s) i = Some (Io m)"
  using hook_goodD(1) [OF assms] by (rule world_goodE)

lemma sched_in_eq: "w_scheds (h_world s) i = Some (Io m) \<Longrightarrow> sched_in i s = Some (io_sched m)"
  by (simp add: sched_in_def)

lemma hook_ages_trans:
  assumes "hook_ages i s s'" and "hook_ages i s' s''" and "hook_good i s'"
  shows "hook_ages i s s''"
proof -
  obtain m1 where m1: "w_scheds (h_world s') i = Some (Io m1)" by (rule hook_good_iom [OF assms(3)])
  have "timers_age (h_next s) (io_timers m) (io_timers m2)"
    if "w_scheds (h_world s) i = Some (Io m)" "w_scheds (h_world s'') i = Some (Io m2)" for m m2
  proof -
    have "timers_age (h_next s) (io_timers m) (io_timers m1)" "timers_age (h_next s') (io_timers m1) (io_timers m2)"
      using assms(1,2) m1 that unfolding hook_ages_def by blast+
    then show ?thesis using assms(1) unfolding timers_age_def hook_ages_def by (metis order_less_le_trans)
  qed
  then show ?thesis using assms(1,2) unfolding hook_ages_def by auto
qed

lemma adds_trans:
  assumes "adds i X s s'" and "adds i Y s' s''"
  shows "adds i (X + Y) s s''"
  using assms hook_ages_trans [of i s s' s''] by (simp add: adds_def add.assoc)

lemma adds_none_trans: "adds i {#} s s' \<Longrightarrow> adds i Y s' s'' \<Longrightarrow> adds i Y s s''"
  using adds_trans [of i "{#}" s s' Y s''] by simp

lemma adds_trans_none: "adds i X s s' \<Longrightarrow> adds i {#} s' s'' \<Longrightarrow> adds i X s s''"
  using adds_trans [of i X s s' "{#}" s''] by simp

lemma adds_good: "adds i X s s' \<Longrightarrow> hook_good i s'"
  by (simp add: adds_def)

text \<open>A change of the world, and a change of everything else.\<close>

lemma adds_world:
  assumes good: "hook_good i s" and w: "world_good i n w" "ages i (h_next s) (h_world s) w"
    and wk: "wakes i w = wakes_in i s + X" and n: "h_next s \<le> n"
  shows "adds i X s (s\<lparr>h_world := w, h_next := n\<rparr>)"
proof -
  obtain m where m: "w_scheds (h_world s) i = Some (Io m)" by (rule hook_good_iom [OF good])
  obtain m' where m': "w_scheds w i = Some (Io m')" "timers_age (h_next s) (io_timers m) (io_timers m')"
     "m_activeThreadCount (io_sched m') = m_activeThreadCount (io_sched m)"
     "m_stopping (io_sched m') = m_stopping (io_sched m)" using w(2) m unfolding ages_def by blast
  then show ?thesis using good w(1) wk n m
    by (simp add: adds_def hook_good_def hook_ages_def active_in_def stopping_in_def sched_in_def)
qed

lemma adds_world':
  assumes "hook_good i s" and "world_good i (h_next s) w" "ages i (h_next s) (h_world s) w"
    and "wakes i w = wakes_in i s + X"
  shows "adds i X s (s\<lparr>h_world := w\<rparr>)"
proof -
  have "adds i X s (s\<lparr>h_world := w, h_next := h_next s\<rparr>)" by (rule adds_world [OF assms]) simp
  moreover have "s\<lparr>h_world := w, h_next := h_next s\<rparr> = s\<lparr>h_world := w\<rparr>" by simp
  ultimately show ?thesis by metis
qed

lemma adds_rest:
  assumes "hook_good i s" and "h_world s' = h_world s" and "h_next s \<le> h_next s'"
    and "\<forall>t < h_next s. h_tinfo s t \<noteq> None \<longrightarrow> h_tinfo s' t \<noteq> None" and "fdm_inv (h_fds s) \<longrightarrow> fdm_inv (h_fds s')"
  shows "adds i {#} s s'"
  using assms world_good_mono
  by (auto simp: adds_def hook_good_def hook_ages_def active_in_def stopping_in_def sched_in_def)

lemma adds_same: "hook_good i s \<Longrightarrow> adds i {#} s s"
  by (rule adds_rest) simp_all

lemma adds_call: "hook_good i s \<Longrightarrow> adds i {#} s (snd (call f s))"
  by (rule adds_rest) simp_all

lemma adds_errno: "hook_good i s \<Longrightarrow> adds i {#} s (s\<lparr>h_errno := e\<rparr>)"
  by (rule adds_rest) simp_all

lemma adds_kernel: "hook_good i s \<Longrightarrow> adds i {#} s (s\<lparr>h_kernel := k\<rparr>)"
  by (rule adds_rest) simp_all

lemma adds_call_eintr:
  assumes "hook_good i s" and "call_eintr f s = Some (n, s1)"
  shows "adds i {#} s s1"
proof -
  have "s1 = s\<lparr>h_kernel := h_kernel s1, h_errno := h_errno s1\<rparr>" using call_eintr_outcome [OF assms(2)] by blast
  then have "h_world s1 = h_world s" "h_next s1 = h_next s" "h_tinfo s1 = h_tinfo s" "h_fds s1 = h_fds s"
    by (metis hook_state.select_convs hook_state.update_convs hook_state.surjective)+
  then show ?thesis using assms(1) by (intro adds_rest) simp_all
qed

lemma adds_quiet: "hook_good i s \<Longrightarrow> quiet s s' \<Longrightarrow> adds i {#} s s'"
  by (rule adds_rest) (simp_all add: quiet_def)

lemma adds_new_tinfo: "hook_good i s \<Longrightarrow> adds i {#} s (new_tinfo s)"
  by (rule adds_rest) (simp_all add: new_tinfo_def)

text \<open>The timer of a wait: it exists, and resumes nobody by itself.\<close>

definition timer_ok :: "nat \<Rightarrow> nat option \<Rightarrow> ('u, 'k) hook_state \<Rightarrow> bool" where
  "timer_ok i timer s \<longleftrightarrow> (\<forall>p m. timer = Some p \<and> w_scheds (h_world s) i = Some (Io m) \<longrightarrow>
     p < h_next s \<and> t_manager (tobj (io_timers m) p) \<and> fn_wakes (t_func (tobj (io_timers m) p)) = {#})"

lemma timer_ok_ages:
  assumes "timer_ok i timer s" and "hook_good i s" and "hook_ages i s s'"
  shows "timer_ok i timer s'"
proof -
  obtain m where m: "w_scheds (h_world s) i = Some (Io m)" by (rule hook_good_iom [OF assms(2)])
  have "p < h_next s' \<and> t_manager (tobj (io_timers m') p) \<and> fn_wakes (t_func (tobj (io_timers m') p)) = {#}"
    if "timer = Some p" "w_scheds (h_world s') i = Some (Io m')" for p m'
  proof -
    have p: "p < h_next s" "t_manager (tobj (io_timers m) p)" "fn_wakes (t_func (tobj (io_timers m) p)) = {#}"
      using assms(1) that(1) m unfolding timer_ok_def by blast+
    moreover have "timers_age (h_next s) (io_timers m) (io_timers m')" "h_next s \<le> h_next s'"
      using assms(3) m that(2) unfolding hook_ages_def by blast+
    ultimately show ?thesis unfolding timers_age_def by (metis fn_wakes.simps(2) order_less_le_trans)
  qed
  then show ?thesis unfolding timer_ok_def by blast
qed

lemma adds_cancel_timer:
  assumes good: "hook_good i s" and t: "timer_ok i timer s"
  shows "\<exists>s1. cancel_timer i timer s = Inr s1 \<and> adds i {#} s s1 \<and> h_tinfo s1 = h_tinfo s"
proof (cases timer)
  case None
  then show ?thesis using adds_same [OF good] by (simp add: cancel_timer_def)
next
  case (Some p)
  obtain m where m: "w_scheds (h_world s) i = Some (Io m)" by (rule hook_good_iom [OF good])
  have p: "t_manager (tobj (io_timers m) p)" "fn_wakes (t_func (tobj (io_timers m) p)) = {#}"
    using t Some m unfolding timer_ok_def by blast+
  obtain b ts where c: "cancel p (io_timers m) = Inr (b, ts)"
    and w: "world_good i (h_next s) (put_iom i (m\<lparr>io_timers := ts\<rparr>) (h_world s))"
      "wakes i (put_iom i (m\<lparr>io_timers := ts\<rparr>) (h_world s)) = wakes_in i s"
      "ages i (h_next s) (h_world s) (put_iom i (m\<lparr>io_timers := ts\<rparr>) (h_world s))"
    using cancel_wakes [OF hook_goodD(1) [OF good] m p] by blast
  then have "adds i {#} s (s\<lparr>h_world := put_iom i (m\<lparr>io_timers := ts\<rparr>) (h_world s)\<rparr>)"
    by (intro adds_world' [OF good]) simp_all
  then show ?thesis using c m Some by (simp add: cancel_timer_def iom_at_def)
qed

lemma at_thread_simps [simp]:
  "th_sched (he_thread (at_thread env i d)) = Some i" "th_dor (he_thread (at_thread env i d)) = Some d"
  "he_ctl (at_thread env i d) = he_ctl env" "he_orig (at_thread env i d) = he_orig env"
  "he_ctl_errno (at_thread env i d) = he_ctl_errno env"
  by (simp_all add: at_thread_def)

lemma this_iom_at:
  assumes "hook_good i s"
  shows "this_iom (at_thread env i d) s = Inr i" and "GetThis (he_thread (at_thread env i d)) (h_world s) = Some i"
proof -
  obtain m where "w_scheds (h_world s) i = Some (Io m)" by (rule hook_good_iom [OF assms])
  then show "this_iom (at_thread env i d) s = Inr i" "GetThis (he_thread (at_thread env i d)) (h_world s) = Some i"
    by (simp_all add: this_iom_def GetThis_def)
qed

lemma adds_add_timer:
  assumes good: "hook_good i s" and f: "fn_ok i cb"
  shows "\<exists>s1. add_timer env i ms cb s = Inr (h_next s, s1) \<and> adds i (fn_wakes (Some cb)) s s1
    \<and> h_tinfo s1 = h_tinfo s \<and> (fn_wakes (Some cb) = {#} \<longrightarrow> timer_ok i (Some (h_next s)) s1)
    \<and> (\<forall>k. ctx_or_new i k (h_world s1) = ctx_or_new i k (h_world s))"
proof -
  obtain w' where a: "io_addTimer i (h_next s) ms (Some cb) False (clock_ms (he_orig env) (h_kernel s)) (h_world s) = Inr w'"
    "world_good i (h_next s + 1) w'" "wakes i w' = wakes_in i s + fn_wakes (Some cb)" "ages i (h_next s) (h_world s) w'"
    "\<forall>k. ctx_or_new i k w' = ctx_or_new i k (h_world s)"
    "\<forall>m'. w_scheds w' i = Some (Io m') \<longrightarrow> t_manager (tobj (io_timers m') (h_next s))
       \<and> t_func (tobj (io_timers m') (h_next s)) = Some cb"
    using addTimer_wakes [OF hook_goodD(1) [OF good] f] by blast
  then show ?thesis using adds_world [OF good a(2,4,3)]
    by (auto simp: add_timer_def timer_ok_def)
qed

lemma fd_mask_cong:
  assumes "\<And>k. ctx_or_new i k w' = ctx_or_new i k w"
  shows "fd_mask i fd w' = fd_mask i fd w"
  using assms by (simp flip: ctx_or_new_events)

lemma adds_addEvent:
  assumes good: "hook_good i s" and may: "one_waiter i s (WaitFor fd e)"
  shows "\<exists>rt w. addEvent (he_thread (at_thread env i d)) ctl i fd e None False (h_world s) = Inr (rt, w)
    \<and> adds i (if rt = 0 then {#d#} else {#}) s (s\<lparr>h_world := w\<rparr>)"
proof -
  let ?te = "he_thread (at_thread env i d)" and ?w = "h_world s"
  have fd: "fd_range fd" "single e" "fd_mask i fd ?w AND e = 0" using may by simp_all
  have fd0: "0 \<le> fd" "fd < 2 ^ 31" using fd(1) by (simp_all add: fd_range_def)
  note wg = hook_goodD(1) [OF good] and inv = hook_goodD(3) [OF good]
  have eo: "env_of i (None :: 'a hook_fn fn option) ?te" by (simp add: env_of_def)
  obtain rt w where a: "addEvent ?te ctl i fd e None False ?w = Inr (rt, w)" "io_inv i w" "only_fd i fd ?w w"
    "\<forall>k. queue_at k w = queue_at k ?w"
    "rt = - 1 \<and> ctx_or_new i fd w = ctx_or_new i fd ?w
       \<or> rt = 0 \<and> ctx_of i fd w = Some (registered_ctx ?te e None False (ctx_or_new i fd ?w))"
    using addEvent_ok [OF inv fd eo, of ctl False] by blast
  let ?X = "if rt = 0 then {#d#} else {#}"
  have pl: "plain_ctx i (ctx_or_new i fd ?w)" using wg fd0(1) by (simp add: world_good_def ctx_at_plain)
  have c: "plain_ctx i (ctx_or_new i fd w)
    \<and> ctx_wakes (ctx_or_new i fd w) + queue_wakes [] = ctx_wakes (ctx_or_new i fd ?w) + ?X"
  proof (cases "rt = 0")
    case False
    then show ?thesis using a(5) pl by simp
  next
    case True
    then have "ctx_or_new i fd w = registered_ctx ?te e None False (ctx_or_new i fd ?w)"
      using a(5) by (simp add: ctx_or_new_def)
    moreover have "ev_of e (ctx_or_new i fd ?w) = no_event" by (rule fresh_event [OF inv fd0(1) fd(2,3)])
    ultimately show ?thesis using True pl fd(2)
      by (auto simp: registered_ctx_def plain_ctx_def plain_event_def ctx_wakes_def single_def ev_of_def
          putEventContext_def event_defs no_event_def)
  qed
  have cm: "calm i ?w w" by (rule calm_addEvent [OF a(1)])
  have q: "queue_at i w = queue_at i ?w @ []" using a(4) by simp
  note S = world_event_step [OF wg a(2) cm a(3) fd0 _ q _ c [THEN conjunct2]]
  have "adds i ?X s (s\<lparr>h_world := w\<rparr>)"
    using S c by (intro adds_world' [OF good] calm_ages cm) simp_all
  with a(1) show ?thesis by blast
qed

lemma adds_wait_begin:
  assumes good: "hook_good i s" and may: "one_waiter i s (WaitFor fd e)"
  shows "\<exists>timer rt s1. wait_begin (at_thread env i d) fd e to t s = Inr (i, timer, rt, s1)
    \<and> adds i (if rt = 0 then {#d#} else {#}) s s1 \<and> h_tinfo s1 = h_tinfo s \<and> timer_ok i timer s1"
proof -
  let ?cb = "OnTimerBind t (Some (TimeoutFn t fd i e)) :: 'a hook_fn fn"
  have f: "fn_ok i ?cb" "fn_wakes (Some ?cb) = {#}" using may by simp_all
  obtain timer s1 where s1: "(if to \<noteq> - 1
            then rbind (add_timer (at_thread env i d) i to ?cb s) (\<lambda>(p, s1). Inr (Some p, s1))
            else Inr (None, s)) = Inr (timer, s1)"
    and a: "adds i {#} s s1" "h_tinfo s1 = h_tinfo s" "timer_ok i timer s1"
    and c: "\<forall>k. ctx_or_new i k (h_world s1) = ctx_or_new i k (h_world s)"
  proof (cases "to = - 1")
    case True
    then show ?thesis using that [of None s] adds_same [OF good] by (simp add: timer_ok_def)
  next
    case False
    then show ?thesis using that adds_add_timer [OF good f(1), of "at_thread env i d" to] f(2) by auto
  qed
  have "fd_mask i fd (h_world s1) = fd_mask i fd (h_world s)" by (rule fd_mask_cong) (simp add: c)
  then have "one_waiter i s1 (WaitFor fd e)" using may by simp
  from adds_addEvent [OF adds_good [OF a(1)] this, of env d "he_ctl env"] obtain rt w where
    w: "addEvent (he_thread (at_thread env i d)) (he_ctl env) i fd e None False (h_world s1) = Inr (rt, w)"
    "adds i (if rt = 0 then {#d#} else {#}) s1 (s1\<lparr>h_world := w\<rparr>)" by blast
  have "wait_begin (at_thread env i d) fd e to t s = Inr (i, timer, rt, s1\<lparr>h_world := w\<rparr>)"
    unfolding wait_begin_def this_iom_at [OF good] rbind_simps s1 using w(1) by simp
  moreover have "timer_ok i timer (s1\<lparr>h_world := w\<rparr>)"
    using timer_ok_ages [OF a(3) adds_good [OF a(1)]] w(2) by (simp add: adds_def)
  ultimately show ?thesis using adds_none_trans [OF a(1) w(2)] a(2) by auto
qed

lemma adds_wait_end:
  assumes good: "hook_good i s" and "timer_ok i timer s" and "h_tinfo s t \<noteq> None"
  shows "\<exists>res s1. wait_end i timer t s = Inr (res, s1) \<and> adds i {#} s s1 \<and> h_tinfo s1 = h_tinfo s"
proof -
  obtain s1 where s1: "cancel_timer i timer s = Inr s1" "adds i {#} s s1" "h_tinfo s1 = h_tinfo s"
    using adds_cancel_timer [OF assms(1,2)] by blast
  obtain c where c: "h_tinfo s t = Some c" using assms(3) by blast
  have e: "adds i {#} s (s1\<lparr>h_errno := c\<rparr>)" by (rule adds_none_trans [OF s1(2) adds_errno [OF adds_good [OF s1(2)]]])
  show ?thesis using s1 c e by (cases "c = 0") (simp_all add: wait_end_def)
qed

text \<open>What a call does before it waits: it is answered, or has a new \<open>timerInfo\<close>.\<close>

fun entered :: "nat \<Rightarrow> ('u, 'k) hook_state \<Rightarrow> ('u, 'k) entry \<Rightarrow> bool" where
  "entered i s (Answered n s1) = adds i {#} s s1"
| "entered i s (Going to t s1) = (adds i {#} s s1 \<and> h_next s \<le> t \<and> t < h_next s1 \<and> h_tinfo s1 t \<noteq> None
     \<and> h_world s1 = h_world s)"

lemma entered_call: "hook_good i s \<Longrightarrow> entered i s (case_prod Answered (call f s))"
  using adds_call [of i s f] by (simp add: split_beta)

lemma entered_errno: "hook_good i s \<Longrightarrow> entered i s (Answered n (s\<lparr>h_errno := e\<rparr>))"
  by (simp add: adds_errno)

lemma entered_going: "hook_good i s \<Longrightarrow> entered i s (Going to (h_next s) (new_tinfo s))"
  using adds_new_tinfo [of i s] by (simp add: new_tinfo_def)

lemma fd_get_at: "hook_good i s \<Longrightarrow> fd_range fd \<Longrightarrow> fd_get env fd False s = Inr (slot fd (h_fds s), s)"
  by (rule fd_get_eq) (simp_all add: valid_fd_def fd_range_def hook_good_def)

lemma do_io_enter_ok:
  assumes good: "hook_good i s" and fd: "fd_range fd"
  shows "\<exists>e. do_io_enter env fd f so s = Inr e \<and> entered i s e"
  using fd_get_at [OF assms, of env] entered_call [OF good] entered_errno [OF good] entered_going [OF good]
  by (auto simp: do_io_enter_def Let_def split: option.split)

lemma connect_enter_ok:
  assumes good: "hook_good i s" and fd: "fd_range fd"
  shows "\<exists>e. connect_enter env fd a len to s = Inr e \<and> entered i s e"
proof -
  let ?f = "connect_f (he_orig env) fd a len"
  obtain n s2 where c: "call ?f s = (n, s2)" by (cases "call ?f s")
  have a: "adds i {#} s s2" using adds_call [OF good, of ?f] c by simp
  have s2: "h_next s2 = h_next s" "h_world s2 = h_world s" using call_frame [of ?f s] c by simp_all
  have "entered i s (Going to (h_next s2) (new_tinfo s2))"
    using adds_none_trans [OF a adds_new_tinfo [OF adds_good [OF a]]] s2 by (simp add: new_tinfo_def)
  then show ?thesis
    using fd_get_at [OF assms, of env] entered_errno [OF good] a c
    by (auto simp: connect_enter_def Let_def split: option.split)
qed

lemma adds_connect_result:
  assumes "hook_good i s"
  shows "adds i {#} s (snd (connect_result env fd s))"
  by (rule adds_rest [OF assms])
    (auto simp: connect_result_def getsockopt_def Let_def split: prod.splits)

lemma adds_schedule_in:
  assumes good: "hook_good i s" and q: "\<forall>t \<in> set (requested fc). task_good i t"
  shows "\<exists>s1. schedule_in i fc s = Inr s1 \<and> adds i (queue_wakes (requested fc)) s s1 \<and> h_tinfo s1 = h_tinfo s"
proof -
  note wg = hook_goodD(1) [OF good] and inv = hook_goodD(3) [OF good]
  have "w_scheds (h_world s) i \<noteq> None" using inv by (auto simp: io_inv_def)
  then obtain w where w: "schedule_to (Some i) fc (- 1) (h_world s) = Inr w" "sched_frame (h_world s) w"
    "queue_at i w = queue_at i (h_world s) @ requested fc" "\<forall>k. k \<noteq> i \<longrightarrow> queue_at k w = queue_at k (h_world s)"
    by (rule schedule_to_ok)
  have ctx: "ctx_or_new i k w = ctx_or_new i k (h_world s)" for k by (rule ctx_or_new_frame [OF inv w(2)])
  have cm: "calm i (h_world s) w" by (rule calm_schedule_to [OF w(1)])
  have "only_fd i 0 (h_world s) w" "plain_ctx i (ctx_or_new i 0 w)"
    using wg by (simp_all add: only_fd_def ctx world_good_def ctx_at_plain)
  note S = world_event_step [OF wg io_inv_frame [OF inv w(2)] cm this(1) _ _ this(2) w(3) q, of "queue_wakes (requested fc)"]
  have "adds i (queue_wakes (requested fc)) s (s\<lparr>h_world := w\<rparr>)"
    using S ctx by (intro adds_world' [OF good] calm_ages cm) simp_all
  with w(1) show ?thesis by (simp add: schedule_in_def)
qed

lemma adds_close:
  assumes good: "hook_good i s" and fd: "fd_range fd"
  shows "\<exists>n s1. close (at_thread env i d) fd s = Inr (n, s1) \<and> adds i {#} s s1"
proof (cases "st_hookEnable s")
  case False
  obtain n s1 where "call (close_f (he_orig env) fd) s = (n, s1)" by (cases "call (close_f (he_orig env) fd) s")
  then show ?thesis using False adds_call [OF good, of "close_f (he_orig env) fd"] by (simp add: close_def)
next
  case True
  let ?env = "at_thread env i d" and ?f = "close_f (he_orig env) fd"
  have vfd: "valid_fd fd" using fd by (simp add: valid_fd_def fd_range_def)
  show ?thesis
  proof (cases "slot fd (h_fds s)")
    case None
    then show ?thesis using True fd_get_at [OF good fd, of ?env] adds_call [OF good, of ?f]
      by (auto simp: close_def intro!: exI [of _ "fst (call ?f s)"] exI [of _ "snd (call ?f s)"])
  next
    case (Some c)
    obtain b w where w: "cancelAll (he_thread ?env) (he_ctl env) i fd (h_world s) = Inr (b, w)"
      "world_good i (h_next s) w" "wakes i w = wakes_in i s" "calm i (h_world s) w"
      using cancelAll_wakes [OF hook_goodD(1) [OF good] fd, of "he_thread ?env" "he_ctl env"] by auto
    let ?s2 = "s\<lparr>h_world := w\<rparr>"
    have a2: "adds i {#} s ?s2" using w(2,3) by (intro adds_world' [OF good] calm_ages w(4)) simp_all
    obtain mgr where mgr: "delFd fd (h_fds s) = Inr mgr" using delFd_eq [OF vfd hook_goodD(2) [OF good]] by auto
    have "fdm_inv mgr" by (rule delFd_inv [OF vfd hook_goodD(2) [OF good] mgr])
    then have a3: "adds i {#} ?s2 (?s2\<lparr>h_fds := mgr\<rparr>)" by (intro adds_rest [OF adds_good [OF a2]]) simp_all
    have a4: "adds i {#} s (snd (call ?f (?s2\<lparr>h_fds := mgr\<rparr>)))"
      by (rule adds_none_trans [OF adds_none_trans [OF a2 a3] adds_call [OF adds_good [OF a3]]])
    have "close ?env fd s = Inr (call ?f (?s2\<lparr>h_fds := mgr\<rparr>))"
      using True Some fd_get_at [OF good fd, of ?env] this_iom_at(2) [OF good, of env d] w(1) mgr by (simp add: close_def)
    then show ?thesis using a4 by (intro exI [of _ "fst (call ?f (?s2\<lparr>h_fds := mgr\<rparr>))"] exI [of _ "snd (call ?f (?s2\<lparr>h_fds := mgr\<rparr>))"]) simp
  qed
qed

text \<open>The callbacks of the hooks: the time-out moves a wake-up to the queue, the one of a sleep adds its own.\<close>

lemma adds_run_fn:
  assumes good: "hook_good i s" and f: "fn_ok i cb"
    and u: "\<And>u. run_callback (\<lambda>t. h_tinfo s t \<noteq> None) cb \<noteq> Inr (Some (UserFn u))"
  shows "\<exists>s1. run_fn (at_thread env i d) cb s = Inr s1 \<and> adds i (fn_wakes (Some cb)) s s1
    \<and> (\<forall>t. h_tinfo s t \<noteq> None \<longrightarrow> h_tinfo s1 t \<noteq> None)"
proof (cases rule: fn_ok.cases [of "(i, cb)"])
  case (1 i' k x)
  then have k: "cb = Callback (WakeFn i x)" using f by simp
  have q: "queue_wakes (requested (Dor x)) = dor_mset x" "\<forall>t \<in> set (requested (Dor x)). task_good i t"
    by (cases x; simp add: requested_wakes task_wakes_def task_good_def)+
  obtain s1 where s1: "schedule_in i (Dor x) s = Inr s1" "adds i (dor_mset x) s s1" "h_tinfo s1 = h_tinfo s"
    using adds_schedule_in [OF good q(2)] by (auto simp: q(1))
  have "run_fn (at_thread env i d) cb s = schedule_in i (Dor x) s" by (simp add: k run_fn_def schedule_in_def)
  then show ?thesis using s1 by (simp add: k)
next
  case (2 i' w)
  then show ?thesis using u [of w] by simp
next
  case (3 i' t t' fd k e)
  then have k: "cb = OnTimerBind t (Some (TimeoutFn t' fd i e))" "fd_range fd" "single e" using f by simp_all
  obtain b w where w: "cancelEvent (he_thread (at_thread env i d)) (he_ctl env) i fd e (h_world s) = Inr (b, w)"
    "world_good i (h_next s) w" "wakes i w = wakes_in i s" "calm i (h_world s) w"
    using cancelEvent_wakes [OF hook_goodD(1) [OF good] k(2,3), of "he_thread (at_thread env i d)" "he_ctl env"] by auto
  have a: "adds i {#} s (s\<lparr>h_world := w\<rparr>)" using w(2,3) by (intro adds_world' [OF good] calm_ages w(4)) simp_all
  have "adds i {#} (s\<lparr>h_world := w\<rparr>) (s\<lparr>h_tinfo := (h_tinfo s)(t' \<mapsto> ETIMEDOUT), h_world := w\<rparr>)"
    by (intro adds_rest [OF adds_good [OF a]]) simp_all
  from adds_none_trans [OF a this] show ?thesis
    using w(1) adds_same [OF good]
    by (auto simp: k run_fn_def OnTimer_def timeout_fn_def split: option.split)
qed (use f in simp_all)

section \<open>The thread and its scheduler\<close>

lemma upd_sched_ok:
  assumes good: "hook_good i s" and g: "\<And>sch. m_tasks (g sch) = m_tasks sch" "\<And>sch. m_stopping (g sch) = m_stopping sch"
  shows "hook_good i (upd_sched i g s)" and "hook_ages i s (upd_sched i g s)"
    and "wakes_in i (upd_sched i g s) = wakes_in i s" and "h_tinfo (upd_sched i g s) = h_tinfo s"
    and "stopping_in i (upd_sched i g s) = stopping_in i s" and "sched_in i (upd_sched i g s) = map_option g (sched_in i s)"
    and "h_next (upd_sched i g s) = h_next s"
proof -
  note wg = hook_goodD(1) [OF good]
  obtain m where m: "w_scheds (h_world s) i = Some (Io m)" and inv: "io_inv i (h_world s)" and ok: "io_ok i m (h_world s)"
    and tg: "timers_good i (h_next s) (io_timers m)" by (rule world_goodE [OF wg])
  let ?w = "put_iom i (m\<lparr>io_sched := g (io_sched m)\<rparr>) (h_world s)"
  have m': "w_scheds ?w i = Some (Io (m\<lparr>io_sched := g (io_sched m)\<rparr>))" by (simp add: put_iom_def)
  have inv': "io_inv i ?w" by (rule io_inv_put [OF m ok]) simp_all
  have ctx: "ctx_or_new i k ?w = ctx_or_new i k (h_world s)" for k
    by (rule ctx_or_new_cong [OF m m']) (simp_all add: put_iom_def)
  note S = world_timer_step [OF wg m m' inv' ctx, of "h_next s" "[]" "{#}"]
  have u: "upd_sched i g s = s\<lparr>h_world := ?w\<rparr>" using m by (simp add: upd_sched_def)
  show "hook_good i (upd_sched i g s)" "wakes_in i (upd_sched i g s) = wakes_in i s"
    using S tg g good by (simp_all add: u hook_good_def)
  show "hook_ages i s (upd_sched i g s)" using m m' by (simp add: u hook_ages_def)
  show "h_tinfo (upd_sched i g s) = h_tinfo s" "h_next (upd_sched i g s) = h_next s" by (simp_all add: u)
  show "stopping_in i (upd_sched i g s) = stopping_in i s" "sched_in i (upd_sched i g s) = map_option g (sched_in i s)"
    using m m' g by (simp_all add: u stopping_in_def sched_in_def)
qed

text \<open>The scan takes a task with its wake-ups out of the queue, or finds nothing.\<close>

lemma scan_queue_ok:
  assumes good: "hook_good i (r_hook r)" and rn: "\<forall>d. strand_state (r_dors r d) \<noteq> RUNNING"
  shows "\<exists>t s. scan_queue i tid r = Inr (t, s) \<and> hook_good i s \<and> hook_ages i (r_hook r) s
    \<and> h_tinfo s = h_tinfo (r_hook r) \<and> h_next s = h_next (r_hook r) \<and> stopping_in i s = stopping_in i (r_hook r)
    \<and> (case t of
         None \<Rightarrow> wakes_in i s = wakes_in i (r_hook r) \<and> active_in i s = active_in i (r_hook r)
           \<and> map_option m_tasks (sched_in i (r_hook r)) = Some [] \<and> map_option m_tasks (sched_in i s) = Some []
       | Some task \<Rightarrow> wakes_in i (r_hook r) = wakes_in i s + task_wakes task \<and> task_good i task
           \<and> active_in i s = map_option (\<lambda>n. n + 1) (active_in i (r_hook r))
           \<and> map_option m_tasks (sched_in i (r_hook r)) \<noteq> Some [])"
proof -
  let ?s = "r_hook r" and ?st = "\<lambda>d. strand_state (r_dors r d)"
  note wg = hook_goodD(1) [OF good]
  obtain m where m: "w_scheds (h_world ?s) i = Some (Io m)" and inv: "io_inv i (h_world ?s)" and ok: "io_ok i m (h_world ?s)"
    and pe: "plain_events i (h_world ?s)"
    and tg: "timers_good i (h_next ?s) (io_timers m)" and qg: "\<forall>t \<in> set (m_tasks (io_sched m)). task_good i t"
    by (rule world_goodE [OF wg])
  obtain t tick sch where tk: "take_task tid ?st (io_sched m) = (t, tick, sch)" by (metis prod_cases3)
  let ?m' = "m\<lparr>io_sched := sch\<rparr>"
  let ?w = "put_iom i ?m' (h_world ?s)"
  have m': "w_scheds ?w i = Some (Io ?m')" by (simp add: put_iom_def)
  obtain p where p: "tickle i ?w = Inr (?w\<lparr>w_pipe := p\<rparr>)" using tickle_ok [OF m'] by blast
  let ?w1 = "if tick then ?w\<lparr>w_pipe := p\<rparr> else ?w"
  let ?s1 = "?s\<lparr>h_world := ?w1\<rparr>"
  have run: "scan_queue i tid r = Inr (t, ?s1)"
    using m tk p by (simp add: scan_queue_def iom_at_def Let_def)
  have m1: "w_scheds ?w1 i = Some (Io ?m')" using m' by simp
  have "io_inv i ?w" by (rule io_inv_put [OF m ok]) simp_all
  then have inv1: "io_inv i ?w1" using io_inv_pipe by auto
  have ctx: "ctx_or_new i k ?w1 = ctx_or_new i k (h_world ?s)" for k
    by (rule ctx_or_new_cong [OF m m1]) (simp_all add: put_iom_def)
  have ew: "event_wakes i ?w1 = event_wakes i (h_world ?s)" by (rule event_wakes_cong [OF ctx])
  have wk: "wakes_in i ?s1 = event_wakes i (h_world ?s) + timer_wakes (io_timers m) + queue_wakes (m_tasks sch)"
    using wakes_eq [OF m1] ew by simp
  have keep: "hook_good i ?s1" if "set (m_tasks sch) \<subseteq> set (m_tasks (io_sched m))"
  proof -
    have "\<forall>x \<in> set (m_tasks sch). task_good i x" using that qg by blast
    then show ?thesis
      using world_goodI [OF m1 inv1 plain_events_cong [OF ctx pe], of "h_next ?s"] tg good by (simp add: hook_good_def)
  qed
  have ages: "hook_ages i ?s ?s1" using m m1 by (simp add: hook_ages_def)
  show ?thesis
  proof (cases t)
    case None
    then have n: "sch = io_sched m" "\<forall>u \<in> set (m_tasks (io_sched m)). \<not> eligible tid ?st u"
      using take_task_None tk by blast+
    have "eligible tid ?st u" if "u \<in> set (m_tasks (io_sched m))" for u
      using qg that rn by (auto simp: task_good_def eligible_def)
    then have "m_tasks (io_sched m) = []" using n(2) by (metis list.set_intros(1) neq_Nil_conv)
    then show ?thesis using run keep ages n(1) None m m1 wk
      by (simp add: active_in_def stopping_in_def sched_in_def wakes_eq [OF m])
  next
    case (Some u)
    then have u: "mset (m_tasks (io_sched m)) = add_mset u (mset (m_tasks sch))" "m_stopping sch = m_stopping (io_sched m)"
      "m_activeThreadCount sch = m_activeThreadCount (io_sched m) + 1" using take_task_tasks tk by blast+
    have sub: "set (m_tasks sch) \<subseteq> set (m_tasks (io_sched m))" "u \<in> set (m_tasks (io_sched m))"
      using u(1) by (metis set_mset_add_mset_insert set_mset_mset subset_insertI insertI1)+
    have "queue_wakes (m_tasks (io_sched m)) = task_wakes u + queue_wakes (m_tasks sch)"
      by (simp add: queue_wakes_def u(1))
    then have "wakes_in i ?s = wakes_in i ?s1 + task_wakes u" using wk by (simp add: wakes_eq [OF m])
    moreover have "m_tasks (io_sched m) \<noteq> []" using sub(2) by auto
    ultimately show ?thesis using run keep [OF sub(1)] ages Some m m1 u qg sub(2)
      by (simp add: active_in_def stopping_in_def sched_in_def)
  qed
qed

section \<open>The invariant\<close>

fun strand_tinfo :: "('u, 'k) strand \<Rightarrow> nat option" where
  "strand_tinfo (Current t) = t"
| "strand_tinfo (InIo fd f event to t timer k) = Some t"
| "strand_tinfo (InConnect fd t k) = Some t"
| "strand_tinfo _ = None"

fun suspended :: "('u, 'k) strand option \<Rightarrow> bool" where
  "suspended (Some (InIo fd f event to t timer k)) = True"
| "suspended (Some (InConnect fd t k)) = True"
| "suspended (Some (Asleep p)) = True"
| "suspended _ = False"

fun strand_timer :: "('u, 'k) strand \<Rightarrow> nat option" where
  "strand_timer (InIo fd f event to t timer k) = timer"
| "strand_timer _ = None"

definition strand_ok :: "nat \<Rightarrow> ('u, 'k) hook_state \<Rightarrow> ('u, 'k) strand \<Rightarrow> bool" where
  "strand_ok i s st \<longleftrightarrow> timer_ok i (strand_timer st) s
     \<and> (\<forall>t. strand_tinfo st = Some t \<longrightarrow> t < h_next s \<and> h_tinfo s t \<noteq> None)"

lemma strand_ok_ages:
  assumes "strand_ok i s st" and "hook_good i s" and "hook_ages i s s'"
  shows "strand_ok i s' st"
  using assms timer_ok_ages [OF _ assms(2,3)] unfolding strand_ok_def hook_ages_def by fastforce

text \<open>The coroutines other than \<open>d\<close> (all of them for \<open>None\<close>): none is running, and what their calls refer to exists.\<close>

definition unique_tinfo :: "nat option \<Rightarrow> ('u, 'k) runtime \<Rightarrow> bool" where
  "unique_tinfo me r \<longleftrightarrow> (\<forall>e e' st st' t. Some e \<noteq> me \<and> Some e' \<noteq> me \<and> r_dors r e = Some st \<and> r_dors r e' = Some st'
     \<and> strand_tinfo st = Some t \<and> strand_tinfo st' = Some t \<longrightarrow> e = e')"

definition other_ok :: "nat \<Rightarrow> nat option \<Rightarrow> ('u, 'k) hook_state \<Rightarrow> nat \<Rightarrow> ('u, 'k) strand \<Rightarrow> bool" where
  "other_ok i T s e st \<longleftrightarrow> e < h_next s \<and> strand_ok i s st \<and> strand_state (Some st) \<noteq> RUNNING
     \<and> (strand_tinfo st = None \<or> strand_tinfo st \<noteq> T)"

definition others_ok :: "nat \<Rightarrow> nat option \<Rightarrow> nat option \<Rightarrow> ('u, 'k) hook_state \<Rightarrow> ('u, 'k) runtime \<Rightarrow> bool" where
  "others_ok i me T s r \<longleftrightarrow> unique_tinfo me r
     \<and> (\<forall>e st. Some e \<noteq> me \<longrightarrow> r_dors r e = Some st \<longrightarrow> other_ok i T s e st)"

text \<open>
  \<open>running\<close>: the coroutine \<open>d\<close> has the thread, with the \<open>timerInfo\<close> \<open>T\<close> of the call it is in; the
  wake-ups, with the ones in \<open>P\<close> that are still to be added, are one for each suspended coroutine.
\<close>

definition running ::
  "nat \<Rightarrow> nat \<Rightarrow> nat option \<Rightarrow> nat multiset \<Rightarrow> ('u, 'k) hook_state \<Rightarrow> ('u, 'k) runtime \<Rightarrow> bool" where
  "running i d T P s r \<longleftrightarrow> hook_good i s \<and> d < h_next s \<and> others_ok i (Some d) T s r
     \<and> (\<forall>t. T = Some t \<longrightarrow> t < h_next s \<and> h_tinfo s t \<noteq> None)
     \<and> (\<forall>e. count (wakes_in i s + P) e = of_bool (e \<noteq> d \<and> suspended (r_dors r e)))
     \<and> active_in i s = Some 1 \<and> \<not> r_idle_done r"

text \<open>The thread is at the scan of the queue.\<close>

definition scanning :: "nat \<Rightarrow> ('u, 'k) hook_state \<Rightarrow> ('u, 'k) runtime \<Rightarrow> bool" where
  "scanning i s r \<longleftrightarrow> hook_good i s \<and> others_ok i None None s r
     \<and> (\<forall>e. count (wakes_in i s) e = of_bool (suspended (r_dors r e)))
     \<and> active_in i s = Some 0
     \<and> (r_idle_done r \<longrightarrow> stopping_in i s = Some True \<and> wakes_in i s = {#} \<and> map_option m_tasks (sched_in i s) = Some [])"

definition runtime_inv :: "nat \<Rightarrow> ('u, 'k) runtime \<Rightarrow> bool" where
  "runtime_inv i r \<longleftrightarrow> (case r_pc r of
     Scanning \<Rightarrow> scanning i (r_hook r) r
   | Gone \<Rightarrow> scanning i (r_hook r) r \<and> r_idle_done r
   | Exec d p \<Rightarrow> r_dors r d = Some (Current None) \<and> running i d None {#} (r_hook r) r
   | Trying d fd f event to t k \<Rightarrow> r_dors r d = Some (Current (Some t)) \<and> running i d (Some t) {#} (r_hook r) r
   | Crashed f \<Rightarrow> False)"

section \<open>Moves of the invariant\<close>

lemma othersI:
  assumes "unique_tinfo me r" and "\<And>e st. Some e \<noteq> me \<Longrightarrow> r_dors r e = Some st \<Longrightarrow> other_ok i T s e st"
  shows "others_ok i me T s r"
  using assms by (simp add: others_ok_def)

lemma othersD:
  assumes "others_ok i me T s r"
  shows "unique_tinfo me r" and "Some e \<noteq> me \<Longrightarrow> r_dors r e = Some st \<Longrightarrow> other_ok i T s e st"
  using assms unfolding others_ok_def by blast+

lemma others_mono:
  assumes "others_ok i me T s r"
    and "\<And>e st. r_dors r e = Some st \<Longrightarrow> other_ok i T s e st \<Longrightarrow> other_ok i T' s' e st"
  shows "others_ok i me T' s' r"
  by (rule othersI [OF othersD(1) [OF assms(1)]]) (rule assms(2) [OF _ othersD(2) [OF assms(1)]])

lemma other_ok_ages:
  assumes "other_ok i T s e st" and "hook_good i s" and "hook_ages i s s'"
  shows "other_ok i T s' e st"
  using assms strand_ok_ages [OF _ assms(2,3), of st] by (simp add: other_ok_def hook_ages_def)

lemma others_ok_ages:
  assumes "others_ok i me T s r" and "hook_good i s" and "hook_ages i s s'"
  shows "others_ok i me T s' r"
  by (rule others_mono [OF assms(1)]) (rule other_ok_ages [OF _ assms(2,3)])

lemma others_upd:
  assumes "others_ok i (Some d) T s r" and "r_dors r' = (r_dors r)(d \<mapsto> st)"
  shows "others_ok i (Some d) T s r'"
proof -
  have e: "r_dors r' e = r_dors r e" if "Some e \<noteq> Some d" for e using that assms(2) by simp
  have "unique_tinfo (Some d) r'"
    using othersD(1) [OF assms(1)] e unfolding unique_tinfo_def by metis
  then show ?thesis
  proof (rule othersI)
    fix x u assume x: "Some x \<noteq> Some d" "r_dors r' x = Some u"
    have "r_dors r x = Some u" using e [OF x(1)] x(2) by simp
    then show "other_ok i T s x u" by (rule othersD(2) [OF assms(1) x(1)])
  qed
qed

lemma running_adds:
  assumes r: "running i d T (X + P) s r" and a: "adds i X s s'"
  shows "running i d T P s' r"
proof -
  have good: "hook_good i s" and n: "h_next s \<le> h_next s'" and ag: "hook_ages i s s'"
    using r a by (simp_all add: running_def adds_def hook_ages_def)
  have "others_ok i (Some d) T s' r" using r others_ok_ages [OF _ good ag] by (simp add: running_def)
  moreover have "\<forall>t. T = Some t \<longrightarrow> t < h_next s' \<and> h_tinfo s' t \<noteq> None"
    using r ag by (auto simp: running_def hook_ages_def)
  moreover have "d < h_next s'" using r n by (simp add: running_def)
  moreover have "\<forall>e. count (wakes_in i s' + P) e = of_bool (e \<noteq> d \<and> suspended (r_dors r e))"
    using r a by (simp add: running_def adds_def add.assoc)
  ultimately show ?thesis using r a by (simp add: running_def adds_def)
qed

lemma running_quiet: "running i d T P s r \<Longrightarrow> adds i {#} s s' \<Longrightarrow> running i d T P s' r"
  using running_adds [of i d T "{#}" P s r s'] by simp

lemma running_good: "running i d T P s r \<Longrightarrow> hook_good i s"
  by (simp add: running_def)

lemma running_new:
  assumes r: "running i d None P s r" and e: "entered i s (Going to t s1)"
  shows "running i d (Some t) P s1 r"
proof -
  have e: "adds i {#} s s1" "h_next s \<le> t" "t < h_next s1" "h_tinfo s1 t \<noteq> None" using e by simp_all
  have r1: "running i d None P s1 r" by (rule running_quiet [OF r e(1)])
  have o: "others_ok i (Some d) None s r" "hook_good i s" "hook_ages i s s1" using r e(1) by (simp_all add: running_def adds_def)
  have "others_ok i (Some d) (Some t) s1 r"
  proof (rule others_mono [OF o(1)])
    fix x u assume u: "other_ok i None s x u"
    have "strand_tinfo u \<noteq> Some t" using u e(2) by (auto simp: other_ok_def strand_ok_def)
    then show "other_ok i (Some t) s1 x u" using other_ok_ages [OF u o(2,3)] by (simp add: other_ok_def)
  qed
  then show ?thesis using r1 e(3,4) by (simp add: running_def)
qed

lemma forget_simps [simp]:
  "h_world (forget_tinfo t s) = h_world s" "h_next (forget_tinfo t s) = h_next s" "h_fds (forget_tinfo t s) = h_fds s"
  "h_tinfo (forget_tinfo t s) = (h_tinfo s)(t := None)"
  by (simp_all add: forget_tinfo_def)

lemma running_forget:
  assumes r: "running i d (Some t) P s r"
  shows "running i d None P (forget_tinfo t s) r"
proof -
  have g: "hook_good i (forget_tinfo t s)" using r by (simp add: running_def hook_good_def)
  have o: "others_ok i (Some d) (Some t) s r" using r by (simp add: running_def)
  have "others_ok i (Some d) None (forget_tinfo t s) r"
  proof (rule others_mono [OF o])
    fix x u assume u: "other_ok i (Some t) s x u"
    then show "other_ok i None (forget_tinfo t s) x u"
      by (auto simp: other_ok_def strand_ok_def timer_ok_def)
  qed
  then show ?thesis using r g by (simp add: running_def active_in_def sched_in_def)
qed

lemma running_dors:
  assumes r: "running i d T P s r" and r': "r_dors r' = (r_dors r)(d \<mapsto> st)" "r_idle_done r' = r_idle_done r"
  shows "running i d T P s r'"
proof -
  have "others_ok i (Some d) T s r'" by (rule others_upd [OF _ r'(1)]) (use r in \<open>simp add: running_def\<close>)
  moreover have "count (wakes_in i s + P) e = of_bool (e \<noteq> d \<and> suspended (r_dors r' e))" for e
  proof -
    have "count (wakes_in i s + P) e = of_bool (e \<noteq> d \<and> suspended (r_dors r e))" using r unfolding running_def by blast
    then show ?thesis by (simp add: r'(1))
  qed
  ultimately show ?thesis using r r'(2) unfolding running_def by blast
qed

lemma inv_continue:
  assumes r: "running i d None {#} s r"
  shows "runtime_inv i (continue d p s r)"
proof -
  have "running i d None {#} s (continue d p s r)" by (rule running_dors [OF r]) (simp_all add: continue_def)
  then show ?thesis by (simp add: runtime_inv_def continue_def)
qed

lemma inv_answer: "running i d None {#} s r \<Longrightarrow> runtime_inv i (answer d k n s r)"
  by (simp add: answer_def inv_continue)

lemma inv_try_again:
  assumes r: "running i d (Some t) {#} s r"
  shows "runtime_inv i (try_again d fd f event to t k s r)"
proof -
  have "running i d (Some t) {#} s (try_again d fd f event to t k s r)"
    by (rule running_dors [OF r]) (simp_all add: try_again_def)
  then show ?thesis by (simp add: runtime_inv_def try_again_def)
qed

lemma inv_suspend:
  assumes r: "running i d T {#} s r" and a: "adds i (if suspended (Some st) then {#d#} else {#}) s s'"
    and st: "strand_ok i s' st" "strand_tinfo st = T \<or> strand_tinfo st = None" "strand_state (Some st) \<noteq> RUNNING"
  shows "runtime_inv i (suspend i d st s' r)"
proof -
  let ?g = "\<lambda>sch :: 'a hook_fn fn Scheduler. sch\<lparr>m_activeThreadCount := m_activeThreadCount sch - 1\<rparr>"
  let ?r = "suspend i d st s' r" and ?s = "upd_sched i ?g s'"
  have good: "hook_good i s'" using a by (simp add: adds_def)
  have "m_tasks (?g sch) = m_tasks sch" "m_stopping (?g sch) = m_stopping sch" for sch by simp_all
  note U = upd_sched_ok [OF good this]
  have R: "r_dors ?r = (r_dors r)(d \<mapsto> st)" "r_hook ?r = ?s" "r_pc ?r = Scanning" "r_idle_done ?r = r_idle_done r"
    by (simp_all add: suspend_def give_back_def)
  have o: "hook_ages i s s'" "hook_good i s" "others_ok i (Some d) T s r" "d < h_next s"
    using r a by (simp_all add: running_def adds_def)
  have d: "d < h_next ?s" using o(1,4) U(7) by (simp add: hook_ages_def)
  have "others_ok i (Some d) T ?s r" by (rule others_ok_ages [OF others_ok_ages [OF o(3,2,1)] good U(2)])
  then have o1: "others_ok i (Some d) T ?s ?r" by (rule others_upd) (rule R(1))
  have st': "strand_ok i ?s st" by (rule strand_ok_ages [OF st(1) good U(2)])
  have "others_ok i None None ?s ?r"
  proof (rule othersI)
    fix e u assume e: "r_dors ?r e = Some u"
    show "other_ok i None ?s e u"
    proof (cases "e = d")
      case True
      then show ?thesis using e R(1) d st(3) st' by (auto simp: other_ok_def)
    next
      case False
      then show ?thesis using othersD(2) [OF o1 _ e] by (auto simp: other_ok_def)
    qed
  next
    show "unique_tinfo None ?r"
      unfolding unique_tinfo_def
    proof (intro allI impI, elim conjE)
      fix e e' u u' t
      assume e: "r_dors ?r e = Some u" "r_dors ?r e' = Some u'" "strand_tinfo u = Some t" "strand_tinfo u' = Some t"
      have ne: "v \<noteq> d \<Longrightarrow> r_dors ?r v = Some x \<Longrightarrow> strand_tinfo x = Some t \<Longrightarrow> strand_tinfo st \<noteq> Some t" for v x
        using othersD(2) [OF o1, of v x] st(2) by (auto simp: other_ok_def)
      have at: "r_dors ?r d = Some st" by (simp add: R(1))
      consider "e = d" "e' = d" | "e = d" "e' \<noteq> d" | "e \<noteq> d" "e' = d" | "e \<noteq> d" "e' \<noteq> d" by blast
      then show "e = e'"
      proof cases
        case 2 then show ?thesis using e ne [of e' u'] at by simp
      next
        case 3 then show ?thesis using e ne [of e u] at by simp
      next
        case 4 then show ?thesis using e othersD(1) [OF o1] unfolding unique_tinfo_def by blast
      qed simp
    qed
  qed
  moreover have "\<forall>e. count (wakes_in i ?s) e = of_bool (suspended (r_dors ?r e))"
    using r a by (simp add: running_def adds_def U(3) R(1))
  moreover have "active_in i ?s = Some 0"
    using r a by (auto simp: running_def adds_def active_in_def U(6))
  ultimately show ?thesis using R U(1) r by (simp add: runtime_inv_def scanning_def running_def)
qed

lemma inv_over:
  assumes "running i d None {#} s r"
  shows "runtime_inv i (suspend i d Over s r)"
  using adds_same [OF running_good [OF assms]]
  by (intro inv_suspend [OF assms]) (simp_all add: strand_ok_def timer_ok_def)

section \<open>Every step keeps the invariant\<close>

definition settles :: "nat \<Rightarrow> fault + ('u, 'k) runtime \<Rightarrow> bool" where
  "settles i res \<longleftrightarrow> (\<exists>r'. res = Inr r' \<and> runtime_inv i r')"

lemma settlesI: "runtime_inv i r' \<Longrightarrow> settles i (Inr r')"
  by (simp add: settles_def)

lemma settles_settle: "settles i res \<Longrightarrow> runtime_inv i (settle r res)"
  by (auto simp: settles_def settle_def)

lemma begin_io_settles:
  assumes r: "running i d None {#} (r_hook r) r" and fd: "fd_range fd"
  shows "settles i (begin_io env i d fd f event so k r)"
proof -
  obtain e where e: "do_io_enter (at_thread env i d) fd f so (r_hook r) = Inr e" "entered i (r_hook r) e"
    using do_io_enter_ok [OF running_good [OF r] fd] by blast
  show ?thesis
  proof (cases e)
    case (Answered n s)
    then have "running i d None {#} s r" using e(2) running_quiet [OF r] by simp
    then show ?thesis using e(1) Answered by (simp add: begin_io_def settlesI inv_answer)
  next
    case (Going to t s)
    then have "running i d (Some t) {#} s r" using e(2) running_new [OF r] by blast
    then show ?thesis using e(1) Going by (simp add: begin_io_def settlesI inv_try_again)
  qed
qed

lemma do_io_turn_settles:
  assumes r: "running i d (Some t) {#} s r"
    and may: "n = - 1 \<and> h_errno s = EAGAIN \<longrightarrow> one_waiter i s (WaitFor fd event)"
  shows "settles i (do_io_turn env i d fd f event to t k n s r)"
proof (cases "n = - 1 \<and> h_errno s = EAGAIN")
  case False
  then have "do_io_turn env i d fd f event to t k n s r = Inr (answer d k n (forget_tinfo t s) r)"
    unfolding do_io_turn_def by (rule if_not_P)
  then show ?thesis using running_forget [OF r] by (simp add: settlesI inv_answer)
next
  case True
  have "hook_good i s" by (rule running_good [OF r])
  moreover have "one_waiter i s (WaitFor fd event)" using True may by blast
  ultimately obtain timer rt s1 where w: "wait_begin (at_thread env i d) fd event to t s = Inr (i, timer, rt, s1)"
    "adds i (if rt = 0 then {#d#} else {#}) s s1" "h_tinfo s1 = h_tinfo s" "timer_ok i timer s1"
    using adds_wait_begin by blast
  show ?thesis
  proof (cases "rt = 0")
    case True
    have "strand_ok i s1 (InIo fd f event to t timer k)"
      using r w(2-4) by (auto simp: strand_ok_def running_def adds_def hook_ages_def)
    then have "runtime_inv i (suspend i d (InIo fd f event to t timer k) s1 r)"
      using w(2) True by (intro inv_suspend [OF r]) simp_all
    then show ?thesis using w(1) True \<open>n = - 1 \<and> _\<close> by (simp add: do_io_turn_def settlesI)
  next
    case False
    then have a: "adds i {#} s s1" using w(2) by simp
    obtain s2 where s2: "cancel_timer i timer s1 = Inr s2" "adds i {#} s1 s2"
      using adds_cancel_timer [OF adds_good [OF a] w(4)] by blast
    have "running i d (Some t) {#} (s2\<lparr>h_errno := he_ctl_errno env\<rparr>) r"
      by (rule running_quiet [OF running_quiet [OF running_quiet [OF r a] s2(2)] adds_errno [OF adds_good [OF s2(2)]]])
    from running_forget [OF this] show ?thesis
      using w(1) s2(1) False \<open>n = - 1 \<and> _\<close> by (simp add: do_io_turn_def settlesI inv_answer)
  qed
qed

lemma begin_connect_settles:
  assumes r: "running i d None {#} (r_hook r) r" and may: "one_waiter i (r_hook r) (WaitFor fd EV_WRITE)"
  shows "settles i (begin_connect env i d fd a len to0 k r)"
proof -
  have fd: "fd_range fd" using may by simp
  obtain e where e: "connect_enter (at_thread env i d) fd a len to0 (r_hook r) = Inr e" "entered i (r_hook r) e"
    using connect_enter_ok [OF running_good [OF r] fd] by blast
  show ?thesis
  proof (cases e)
    case (Answered n s)
    then have "running i d None {#} s r" using e(2) running_quiet [OF r] by simp
    then show ?thesis using e(1) Answered by (simp add: begin_connect_def settlesI inv_answer)
  next
    case (Going to t s)
    then have r1: "running i d (Some t) {#} s r" using e(2) running_new [OF r] by blast
    have "one_waiter i s (WaitFor fd EV_WRITE)" using may e(2) Going by simp
    then obtain timer rt s1 where w: "wait_begin (at_thread env i d) fd EV_WRITE to t s = Inr (i, timer, rt, s1)"
      "adds i (if rt = 0 then {#d#} else {#}) s s1" "h_tinfo s1 = h_tinfo s"
      using adds_wait_begin [OF running_good [OF r1]] by blast
    show ?thesis
    proof (cases "rt = 0")
      case True
      have "strand_ok i s1 (InConnect fd t k)"
        using r1 w(2,3) by (auto simp: strand_ok_def timer_ok_def running_def adds_def hook_ages_def)
      then have "runtime_inv i (suspend i d (InConnect fd t k) s1 r)"
        using w(2) True by (intro inv_suspend [OF r1]) simp_all
      then show ?thesis using e(1) Going w(1) True by (simp add: begin_connect_def settlesI)
    next
      case False
      then have a: "adds i {#} s s1" using w(2) by simp
      obtain n s2 where c: "connect_result (at_thread env i d) fd s1 = (n, s2)" by (cases "connect_result (at_thread env i d) fd s1")
      then have "adds i {#} s1 s2"
        using adds_connect_result [OF adds_good [OF a], of "at_thread env i d" fd] by simp
      then have "running i d (Some t) {#} s2 r" using running_quiet [OF running_quiet [OF r1 a]] by blast
      note r2 = running_forget [OF this]
      have "connect_result env fd s1 = (n, s2)"
        using c by (simp add: connect_result_def getsockopt_def)
      then show ?thesis
        using e(1) Going w(1) False r2 by (simp add: begin_connect_def settlesI inv_answer)
    qed
  qed
qed

lemma begin_sleep_settles:
  assumes r: "running i d None {#} (r_hook r) r"
  shows "settles i (begin_sleep env i d ms p r)"
proof -
  have good: "hook_good i (r_hook r)" by (rule running_good [OF r])
  obtain s1 where s1: "add_timer (at_thread env i d) i ms (Callback (WakeFn i (Some d))) (r_hook r) = Inr (h_next (r_hook r), s1)"
    "adds i {#d#} (r_hook r) s1"
    using adds_add_timer [OF good, of "Callback (WakeFn i (Some d))" "at_thread env i d" ms] by auto
  have "runtime_inv i (suspend i d (Asleep p) s1 r)"
    using s1(2) by (intro inv_suspend [OF r]) (simp_all add: strand_ok_def timer_ok_def)
  then show ?thesis using s1(1) this_iom_at(1) [OF good] by (simp add: begin_sleep_def settlesI)
qed

lemma yield_settles:
  assumes r: "running i d None {#} (r_hook r) r"
  shows "settles i (rbind (schedule_in i (Dor (Some d)) (r_hook r)) (\<lambda>s. Inr (suspend i d (Asleep p) s r)))"
proof -
  have "\<forall>t \<in> set (requested (Dor (Some d))). task_good i t" by (simp add: requested_wakes task_good_def)
  from adds_schedule_in [OF running_good [OF r] this] obtain s1 where
    s1: "schedule_in i (Dor (Some d)) (r_hook r) = Inr s1" "adds i {#d#} (r_hook r) s1"
    by (auto simp: requested_wakes task_wakes_def)
  have "runtime_inv i (suspend i d (Asleep p) s1 r)"
    using s1(2) by (intro inv_suspend [OF r]) (simp_all add: strand_ok_def timer_ok_def)
  then show ?thesis using s1(1) by (simp add: settlesI)
qed

lemma schedule_user:
  assumes "hook_good i s"
  shows "\<exists>s1. schedule_in i (Cb (Some (Callback (UserFn u)))) s = Inr s1 \<and> adds i {#} s s1"
proof -
  have "\<forall>t \<in> set (requested (Cb (Some (Callback (UserFn u))))). task_good i t" by (simp add: requested_wakes task_good_def)
  from adds_schedule_in [OF assms this] show ?thesis by (auto simp: requested_wakes task_wakes_def)
qed

lemma resume_task_settles:
  assumes r: "running i d (strand_tinfo st) {#} s r" and st: "r_dors r d = Some st" "suspended (Some st)" "strand_ok i s st"
  shows "settles i (resume_task env i d s r)"
proof (cases st)
  case (Asleep p)
  then show ?thesis using r st(1) by (simp add: resume_task_def settlesI inv_continue)
next
  case (InIo fd f event to t timer k)
  then have "timer_ok i timer s" "h_tinfo s t \<noteq> None" using st(3) by (auto simp: strand_ok_def)
  then obtain res s1 where w: "wait_end i timer t s = Inr (res, s1)" "adds i {#} s s1"
    using adds_wait_end [OF running_good [OF r]] by blast
  have r1: "running i d (Some t) {#} s1 r" using running_quiet [OF r w(2)] InIo by simp
  show ?thesis using w(1) st(1) InIo running_forget [OF r1] r1
    by (cases res) (simp_all add: resume_task_def settlesI inv_answer inv_try_again)
next
  case (InConnect fd t k)
  then have "timer_ok i None s" "h_tinfo s t \<noteq> None" using st(3) by (auto simp: strand_ok_def)
  then obtain res s1 where w: "wait_end i None t s = Inr (res, s1)" "adds i {#} s s1"
    using adds_wait_end [OF running_good [OF r]] by blast
  have r1: "running i d (Some t) {#} s1 r" using running_quiet [OF r w(2)] InConnect by simp
  have r2: "running i d (Some t) {#} (snd (connect_result env fd s1)) r"
    by (rule running_quiet [OF r1 adds_connect_result [OF adds_good [OF w(2)]]])
  show ?thesis using w(1) st(1) InConnect running_forget [OF r1] running_forget [OF r2]
    by (cases res) (simp_all add: resume_task_def settlesI inv_answer split_beta)
qed (use st(2) in simp_all)


text \<open>A function from the queue.\<close>

lemma run_func_settles:
  assumes r: "running i (h_next s) None (fn_wakes (Some cb)) (s\<lparr>h_next := h_next s + 1\<rparr>) r" and f: "fn_ok i cb"
  shows "settles i (run_func env i body cb s r)"
proof (cases "\<exists>u. run_callback (\<lambda>t. h_tinfo s t \<noteq> None) cb = Inr (Some (UserFn u))")
  case True
  then obtain u where u: "run_callback (\<lambda>t. h_tinfo s t \<noteq> None) cb = Inr (Some (UserFn u))" by blast
  have "fn_wakes (Some cb) = {#}" using u f by (cases rule: fn_ok.cases [of "(i, cb)"]) (auto split: if_splits)
  then show ?thesis using r u by (simp add: run_func_def settlesI inv_continue)
next
  case False
  let ?d = "h_next s" and ?s0 = "s\<lparr>h_next := h_next s + 1\<rparr>"
  obtain s1 where s1: "run_fn (at_thread env i ?d) cb ?s0 = Inr s1" "adds i (fn_wakes (Some cb)) ?s0 s1"
    using adds_run_fn [OF running_good [OF r] f, of env ?d] False by auto
  have "running i ?d None {#} s1 r" using running_adds [OF _ s1(2), of ?d None "{#}" r] r by simp
  then have "settles i (Inr (suspend i ?d Over s1 r))" by (intro settlesI inv_over)
  moreover have "run_func env i body cb s r = Inr (suspend i ?d Over s1 r)"
    using False s1(1) by (auto simp: run_func_def Let_def split: sum.split option.split hook_fn.split)
  ultimately show ?thesis by simp
qed

lemma scanning_others:
  assumes "others_ok i None None s r"
  shows "others_ok i (Some d) (case r_dors r d of Some st \<Rightarrow> strand_tinfo st | None \<Rightarrow> None) s r"
proof (rule othersI)
  note U = othersD(1) [OF assms]
  show "unique_tinfo (Some d) r" using U unfolding unique_tinfo_def by blast
  fix e st assume e: "Some e \<noteq> Some d" "r_dors r e = Some st"
  have o: "other_ok i None s e st" by (rule othersD(2) [OF assms _ e(2)]) simp
  have "strand_tinfo st = None \<or> strand_tinfo st \<noteq> (case r_dors r d of Some st \<Rightarrow> strand_tinfo st | None \<Rightarrow> None)"
  proof (cases "r_dors r d")
    case (Some u)
    have "strand_tinfo st = Some t \<Longrightarrow> strand_tinfo u = Some t \<Longrightarrow> e = d" for t
      using U e(2) Some unfolding unique_tinfo_def by blast
    then show ?thesis using e(1) Some by (cases "strand_tinfo st") auto
  qed auto
  then show "other_ok i (case r_dors r d of Some st \<Rightarrow> strand_tinfo st | None \<Rightarrow> None) s e st"
    using o by (simp add: other_ok_def)
qed

lemma scanning_running:
  assumes sc: "others_ok i None None s r" and good: "hook_good i s" and act: "active_in i s = Some 1" and nd: "\<not> r_idle_done r"
    and wk: "\<forall>e. count (wakes_in i s + P) e = of_bool (e \<noteq> d \<and> suspended (r_dors r e))" and d: "d < h_next s"
    and T: "T = (case r_dors r d of Some st \<Rightarrow> strand_tinfo st | None \<Rightarrow> None)"
  shows "running i d T P s r"
proof -
  have "\<forall>t. T = Some t \<longrightarrow> t < h_next s \<and> h_tinfo s t \<noteq> None"
    using othersD(2) [OF sc, of d] by (auto simp: T other_ok_def strand_ok_def split: option.splits)
  then show ?thesis using assms scanning_others [OF sc, of d] by (simp add: running_def)
qed

text \<open>The task is a suspended coroutine, which gets the thread, or a function for a new coroutine.\<close>

lemma take_cases:
  assumes sc: "scanning i (r_hook r) r" and q: "scan_queue i tid r = Inr (Some task, s)"
  obtains (dor) d st where "task_func task = None" and "task_doroutine task = Some d" and "r_dors r d = Some st"
      and "suspended (Some st)" and "strand_ok i s st" and "running i d (strand_tinfo st) {#} s r"
  | (func) cb where "task_func task = Some cb" and "task_doroutine task = None" and "fn_ok i cb"
      and "r_dors r (h_next s) = None" and "running i (h_next s) None (fn_wakes (Some cb)) (s\<lparr>h_next := h_next s + 1\<rparr>) r"
proof -
  let ?s = "r_hook r"
  have good: "hook_good i ?s" and ot: "others_ok i None None ?s r" and act: "active_in i ?s = Some 0"
    and wk: "\<forall>e. count (wakes_in i ?s) e = of_bool (suspended (r_dors r e))" using sc by (simp_all add: scanning_def)
  have rn: "\<forall>d. strand_state (r_dors r d) \<noteq> RUNNING"
  proof
    fix d show "strand_state (r_dors r d) \<noteq> RUNNING"
      using othersD(2) [OF ot, of d] by (cases "r_dors r d") (auto simp: other_ok_def)
  qed
  have Q: "hook_good i s" "hook_ages i ?s s" "h_tinfo s = h_tinfo ?s" "h_next s = h_next ?s"
    "wakes_in i ?s = wakes_in i s + task_wakes task" "task_good i task" "active_in i s = Some 1"
    "map_option m_tasks (sched_in i ?s) \<noteq> Some []"
    using scan_queue_ok [OF good rn, of tid] q act by auto
  have nd: "\<not> r_idle_done r" using sc Q(8) by (auto simp: scanning_def)
  have ot': "others_ok i None None s r" by (rule others_ok_ages [OF ot good Q(2)])
  show thesis
  proof (cases "task_func task")
    case None
    then obtain d where d: "task_doroutine task = Some d" "task_wakes task = {#d#}"
      using Q(6) by (auto simp: task_good_def task_wakes_def)
    have "count (wakes_in i s) e + count {#d#} e = of_bool (suspended (r_dors r e))" for e
      using wk [THEN spec, of e] unfolding Q(5) d(2) by (simp only: count_union)
    then have w: "count (wakes_in i s) e + (if d = e then 1 else 0) = of_bool (suspended (r_dors r e))" for e
      by (simp only: count_single)
    have c2: "suspended (r_dors r d)" using w [of d] by (cases "suspended (r_dors r d)") simp_all
    have c1: "count (wakes_in i s) e = of_bool (e \<noteq> d \<and> suspended (r_dors r e))" for e
    proof (cases "e = d")
      case True
      then show ?thesis using w [of d] c2 by simp
    next
      case False
      then show ?thesis using w [of e] by simp
    qed
    obtain st where st: "r_dors r d = Some st" using c2 by (cases "r_dors r d") auto
    have o: "other_ok i None s d st" by (rule othersD(2) [OF ot' _ st]) simp
    have "running i d (strand_tinfo st) {#} s r"
      by (rule scanning_running [OF ot' Q(1,7) nd]) (use o c1 in \<open>simp_all add: other_ok_def st\<close>)
    then show thesis using dor [OF None d(1) st] c2 o st by (simp add: other_ok_def)
  next
    case (Some cb)
    then have n: "task_doroutine task = None" "fn_ok i cb" "task_wakes task = fn_wakes (Some cb)"
      using Q(6) by (auto simp: task_good_def task_wakes_def)
    let ?d = "h_next s" and ?s0 = "s\<lparr>h_next := h_next s + 1\<rparr>"
    have fresh: "r_dors r ?d = None"
      using othersD(2) [OF ot', of ?d] by (cases "r_dors r ?d") (auto simp: other_ok_def)
    have a0: "adds i {#} s ?s0" by (rule adds_rest [OF Q(1)]) simp_all
    have "count (wakes_in i ?s0 + fn_wakes (Some cb)) e = of_bool (e \<noteq> ?d \<and> suspended (r_dors r e))" for e
      using wk [THEN spec, of e] fresh by (auto simp: Q(5) n(3))
    moreover have "others_ok i None None ?s0 r" using others_ok_ages [OF ot' Q(1)] a0 by (simp add: adds_def)
    ultimately have "running i ?d None (fn_wakes (Some cb)) ?s0 r"
      using a0 Q(7) nd fresh by (intro scanning_running) (simp_all add: adds_def)
    from func [OF Some n(1,2) fresh this] show thesis .
  qed
qed

lemma take_settles:
  assumes sc: "scanning i (r_hook r) r" and q: "scan_queue i tid r = Inr (Some task, s)"
  shows "settles i (run_task env i body task s r)"
  using assms
proof (cases rule: take_cases)
  case (dor d st)
  then show ?thesis using resume_task_settles [OF dor(6,3,4,5)] by (simp add: run_task_def)
next
  case (func cb)
  then show ?thesis using run_func_settles [OF func(5,3)] by (simp add: run_task_def)
qed

end
