(* ===== verification/RuntimeSafe.thy ===== *)
theory RuntimeSafe
  imports RuntimeRuns
begin

text \<open>
  The remaining steps of the system (the idle coroutine, the kernel, other threads), the
  states it starts in, and what holds in every state it reaches.
\<close>

section \<open>The idle coroutine\<close>

text \<open>Moves of the thread at the scan of the queue.\<close>

lemma scanning_adds:
  assumes sc: "scanning i s r" and a: "adds i {#} s s'"
    and nd: "r_idle_done r \<longrightarrow> map_option m_tasks (sched_in i s') = Some []"
  shows "scanning i s' r"
  using assms others_ok_ages [of i None None s r s'] by (auto simp: scanning_def adds_def)

lemma scanning_cong: "scanning i s r \<Longrightarrow> r_dors r' = r_dors r \<Longrightarrow> r_idle_done r' = r_idle_done r \<Longrightarrow> scanning i s r'"
  by (simp add: scanning_def others_ok_def unique_tinfo_def)

lemma scanning_not_running:
  assumes "scanning i s r"
  shows "\<forall>d. strand_state (r_dors r d) \<noteq> RUNNING"
proof
  fix d show "strand_state (r_dors r d) \<noteq> RUNNING"
    using assms othersD(2) [of i None None s r d] by (cases "r_dors r d") (auto simp: scanning_def other_ok_def)
qed

lemma scan_none:
  assumes sc: "scanning i (r_hook r) r" and q: "scan_queue i tid r = Inr (None, s)"
  shows "scanning i s r" and "map_option m_tasks (sched_in i (r_hook r)) = Some []"
proof -
  have good: "hook_good i (r_hook r)" using sc by (simp add: scanning_def)
  have Q: "hook_good i s" "hook_ages i (r_hook r) s" "stopping_in i s = stopping_in i (r_hook r)"
    "wakes_in i s = wakes_in i (r_hook r)" "active_in i s = active_in i (r_hook r)"
    "map_option m_tasks (sched_in i (r_hook r)) = Some []" "map_option m_tasks (sched_in i s) = Some []"
    using scan_queue_ok [OF good scanning_not_running [OF sc], of tid] q by auto
  then show "scanning i s r" by (intro scanning_adds [OF sc]) (simp_all add: adds_def)
  show "map_option m_tasks (sched_in i (r_hook r)) = Some []" by (rule Q(6))
qed

text \<open>When \<open>stopping\<close> of the IO manager holds, nobody is left to be resumed.\<close>

lemma stopping_wakes:
  assumes good: "world_good i n w" and m: "w_scheds w i = Some (Io m)" and stop: "fst (io_stopping now m)" and now: "0 < now"
  shows "wakes i w = {#}" and "m_stopping (io_sched m)" and "m_tasks (io_sched m) = []"
proof -
  have inv: "io_inv i w" using good by (simp add: world_good_def)
  have S: "m_timers (io_timers m) = []" "\<forall>fd \<ge> 0. fd_mask i fd w = 0" "m_stopping (io_sched m)" "m_tasks (io_sched m) = []"
    using stop io_stopping_iff [OF inv m now] by simp_all
  have "ctx_wakes (ctx_or_new i (int j) w) = {#}" for j
  proof -
    have "ev_of e (ctx_or_new i (int j) w) = no_event" if "single e" for e
      using S(2) by (intro fresh_event [OF inv _ that]) simp_all
    from this [of EV_READ] this [of EV_WRITE] show ?thesis
      by (simp add: ctx_wakes_def single_def ev_of_def event_defs no_event_def)
  qed
  then have "event_wakes i w = {#}" by (simp add: event_wakes_def)
  then show "wakes i w = {#}" using S(1,4) by (simp add: wakes_eq [OF m] timer_wakes_def)
  show "m_stopping (io_sched m)" "m_tasks (io_sched m) = []" by (rule S)+
qed

text \<open>An update of the scheduler that touches neither the tasks nor the counts that matter.\<close>

lemma adds_upd_sched:
  assumes good: "hook_good i s" and g: "\<And>sch. m_tasks (g sch) = m_tasks sch" "\<And>sch. m_stopping (g sch) = m_stopping sch"
    "\<And>sch. m_activeThreadCount (g sch) = m_activeThreadCount sch"
  shows "adds i {#} s (upd_sched i g s)"
    and "map_option m_tasks (sched_in i (upd_sched i g s)) = map_option m_tasks (sched_in i s)"
proof -
  note U = upd_sched_ok [OF good g(1,2)]
  show "adds i {#} s (upd_sched i g s)"
    using U by (simp add: adds_def active_in_def option.map_comp comp_def g(3))
  show "map_option m_tasks (sched_in i (upd_sched i g s)) = map_option m_tasks (sched_in i s)"
    by (simp add: U(6) option.map_comp comp_def g(1))
qed

lemma idle_counts [simp]:
  "m_tasks (idle_up sch) = m_tasks sch" "m_stopping (idle_up sch) = m_stopping sch"
  "m_activeThreadCount (idle_up sch) = m_activeThreadCount sch"
  "m_tasks (idle_down sch) = m_tasks sch" "m_stopping (idle_down sch) = m_stopping sch"
  "m_activeThreadCount (idle_down sch) = m_activeThreadCount sch"
  by (simp_all add: idle_up_def idle_down_def)

lemma epoll_reports_upd:
  assumes "hook_good i s" and "epoll_reports addr i wait (h_world s)"
  shows "epoll_reports addr i wait (h_world (upd_sched i g s))"
proof -
  obtain m where m: "w_scheds (h_world s) i = Some (Io m)" by (rule hook_good_iom [OF assms(1)])
  then have "table_kept i (h_world s) (h_world (upd_sched i g s))" "w_ctxs (h_world (upd_sched i g s)) = w_ctxs (h_world s)"
    by (simp_all add: upd_sched_def table_kept_def put_iom_def)
  then show ?thesis using assms(2) live_event_kept unfolding epoll_reports_def epoll_report_def by metis
qed

lemma idle_settles:
  assumes sc: "scanning i (r_hook r) r" and q: "scan_queue i tid r = Inr (None, s)" and nd: "\<not> r_idle_done r"
    and pc: "r_pc r = Scanning" and now: "0 < now0" and rep: "epoll_reports addr i wait (h_world s)"
    and run: "run_idle (at_thread env i idle) addr wait now0 now1 i s r = Some res"
  shows "settles i res"
proof -
  have sc1: "scanning i s r" by (rule scan_none [OF sc q])
  then have good: "hook_good i s" by (simp add: scanning_def)
  let ?s1 = "upd_sched i idle_up s"
  have a1: "adds i {#} s ?s1" by (rule adds_upd_sched [OF good]) simp_all
  have g1: "hook_good i ?s1" by (rule adds_good [OF a1])
  note down = adds_upd_sched [where g = idle_down, OF _ idle_counts(4-6)]
  obtain m where m: "w_scheds (h_world ?s1) i = Some (Io m)" by (rule hook_good_iom [OF g1])
  obtain x where x: "idle_iter (he_thread (at_thread env i idle)) (he_ctl (at_thread env i idle)) addr wait now0 now1
      (h_next ?s1) i (h_world ?s1) = Some x"
    using run by (auto simp: run_idle_def Let_def split: option.splits)
  from idle_iter_wakes [OF hook_goodD(1) [OF g1] _ epoll_reports_upd [OF good rep] this m]
  consider "x = Inr None" "fst (io_stopping now0 m)"
    | w where "x = Inr (Some w)" "world_good i (h_next ?s1) w" "wakes i w = wakes_in i ?s1"
        "ages i (h_next ?s1) (h_world ?s1) w" by auto
  then show ?thesis
  proof cases
    case 1
    let ?s2 = "upd_sched i idle_down ?s1"
    have res: "res = Inr (r\<lparr>r_hook := ?s2, r_idle_done := True\<rparr>)" using run x 1(1) by (simp add: run_idle_def Let_def)
    note S = stopping_wakes [OF hook_goodD(1) [OF g1] m 1(2) now]
    note D = down [OF g1]
    have "scanning i ?s2 r" using nd by (intro scanning_adds [OF sc1 adds_none_trans [OF a1 D(1)]]) simp
    moreover have "stopping_in i ?s2 = Some True" "wakes_in i ?s2 = {#}" "map_option m_tasks (sched_in i ?s2) = Some []"
      using S D m by (simp_all add: adds_def stopping_in_def sched_in_def)
    ultimately have "scanning i ?s2 (r\<lparr>r_hook := ?s2, r_idle_done := True\<rparr>)"
      by (simp add: scanning_def others_ok_def unique_tinfo_def)
    then show ?thesis using res pc by (simp add: settles_def runtime_inv_def)
  next
    case (2 w)
    let ?s2 = "?s1\<lparr>h_world := w\<rparr>"
    let ?s3 = "upd_sched i idle_down ?s2"
    have res: "res = Inr (r\<lparr>r_hook := ?s3\<rparr>)" using run x 2(1) by (simp add: run_idle_def Let_def)
    have a2: "adds i {#} ?s1 ?s2" by (rule adds_world' [OF g1 2(2,4)]) (simp add: 2(3))
    have "scanning i ?s3 r"
      using nd by (intro scanning_adds [OF sc1 adds_none_trans [OF a1 adds_none_trans [OF a2 down(1) [OF adds_good [OF a2]]]]]) simp
    then have "scanning i ?s3 (r\<lparr>r_hook := ?s3\<rparr>)" by (rule scanning_cong) simp_all
    then show ?thesis using res pc by (simp add: settles_def runtime_inv_def)
  qed
qed

section \<open>What happens besides the thread\<close>

lemma inv_external:
  assumes inv: "runtime_inv i r" and s: "hook_good i s" "hook_ages i (r_hook r) s" "wakes_in i s = wakes_in i (r_hook r)"
    "active_in i s = active_in i (r_hook r)"
    and d: "r_idle_done r \<Longrightarrow> stopping_in i s = Some True \<and> map_option m_tasks (sched_in i s) = Some []"
  shows "runtime_inv i (r\<lparr>r_hook := s\<rparr>)"
proof -
  have sc: "scanning i s (r\<lparr>r_hook := s\<rparr>)" if "scanning i (r_hook r) r"
  proof (rule scanning_cong)
    show "scanning i s r" using that s d others_ok_ages [of i None None "r_hook r" r s] by (auto simp: scanning_def)
  qed simp_all
  have rn: "running i x T {#} s (r\<lparr>r_hook := s\<rparr>)" if r: "running i x T {#} (r_hook r) r" for x T
  proof -
    have "others_ok i (Some x) T s r"
      using r others_ok_ages [of i "Some x" T "r_hook r" r s] s(1,2) by (simp add: running_def)
    moreover have "\<forall>t. T = Some t \<longrightarrow> t < h_next s \<and> h_tinfo s t \<noteq> None" "x < h_next s"
      using r s(2) by (auto simp: running_def hook_ages_def)
    ultimately have "running i x T {#} s r" using r s by (simp add: running_def)
    then show ?thesis by (simp add: running_def others_ok_def unique_tinfo_def)
  qed
  show ?thesis using inv sc rn by (cases "r_pc r") (auto simp: runtime_inv_def)
qed

lemma runtime_inv_hook:
  assumes "runtime_inv i r"
  shows "hook_good i (r_hook r)"
  using assms by (auto simp: runtime_inv_def scanning_def running_def split: thread_pc.splits)

lemma inv_idle_done:
  assumes "runtime_inv i r" and "r_idle_done r"
  shows "scanning i (r_hook r) r"
  using assms by (auto simp: runtime_inv_def running_def split: thread_pc.splits)

lemma kernel_inv:
  assumes inv: "runtime_inv i r"
  shows "runtime_inv i (r\<lparr>r_hook := (r_hook r)\<lparr>h_kernel := k\<rparr>\<rparr>)"
proof -
  have a: "adds i {#} (r_hook r) ((r_hook r)\<lparr>h_kernel := k\<rparr>)" by (rule adds_kernel [OF runtime_inv_hook [OF inv]])
  show ?thesis
  proof (rule inv_external [OF inv])
    assume "r_idle_done r"
    from inv_idle_done [OF inv this] this
    show "stopping_in i ((r_hook r)\<lparr>h_kernel := k\<rparr>) = Some True
      \<and> map_option m_tasks (sched_in i ((r_hook r)\<lparr>h_kernel := k\<rparr>)) = Some []"
      by (simp add: scanning_def stopping_in_def sched_in_def)
  qed (use a in \<open>simp_all add: adds_def\<close>)
qed

lemma submit_inv:
  assumes inv: "runtime_inv i r" and m: "w_scheds (h_world (r_hook r)) i = Some (Io m)" "\<not> m_stopping (io_sched m)"
    and s: "schedule_in i (Cb (Some (Callback (UserFn u)))) (r_hook r) = Inr s"
  shows "runtime_inv i (r\<lparr>r_hook := s\<rparr>)"
proof -
  have a: "adds i {#} (r_hook r) s" using schedule_user [OF runtime_inv_hook [OF inv], of u] s by auto
  have "\<not> r_idle_done r"
  proof
    assume "r_idle_done r"
    from inv_idle_done [OF inv this] this m show False by (simp add: scanning_def stopping_in_def sched_in_def)
  qed
  then show ?thesis using a by (intro inv_external [OF inv]) (simp_all add: adds_def)
qed

lemma request_stop_inv:
  assumes inv: "runtime_inv i r" and m: "w_scheds (h_world (r_hook r)) i = Some (Io m)"
    and stop: "io_stop_begin now m = Some (n, root, m')"
    and w: "repeat_fault n (tickle i) (put_iom i m' (h_world (r_hook r))) = Inr w"
  shows "runtime_inv i (r\<lparr>r_hook := (r_hook r)\<lparr>h_world := w\<rparr>\<rparr>)"
proof -
  let ?s = "r_hook r" and ?m' = "m\<lparr>io_sched := (io_sched m)\<lparr>m_stopping := True\<rparr>\<rparr>"
  let ?w1 = "put_iom i ?m' (h_world ?s)" and ?s' = "?s\<lparr>h_world := w\<rparr>"
  have good: "hook_good i ?s" by (rule runtime_inv_hook [OF inv])
  have m': "m' = ?m'" using stop by (simp add: io_stop_begin_def Let_def split: if_splits)
  have inv0: "io_inv i (h_world ?s)" and tg: "timers_good i (h_next ?s) (io_timers m)"
    using hook_goodD(1) [OF good] m by (auto simp: world_good_def)
  then have "io_ok i m (h_world ?s)" using m by (auto simp: io_inv_def)
  then have "io_inv i ?w1" by (intro io_inv_put [OF m]) simp_all
  then have "io_inv i w" and ctx: "ctx_or_new i k w = ctx_or_new i k ?w1" for k
    using tickles_inv [of 0 i ?w1 n] w by (auto simp: m' onTimerInsertedAtFront_def [abs_def])
  moreover have m2: "w_scheds w i = Some (Io ?m')" using tickles_kept [OF w] by (simp add: m' put_iom_def)
  moreover have "ctx_or_new i k ?w1 = ctx_or_new i k (h_world ?s)" for k
    by (rule ctx_or_new_cong [OF m, where m' = ?m']) (simp_all add: put_iom_def)
  ultimately have W: "world_good i (h_next ?s) w" "wakes i w = wakes_in i ?s"
    using world_timer_step [OF hook_goodD(1) [OF good] m m2, of "h_next ?s" "[]" "{#}"] tg by simp_all
  show ?thesis
  proof (rule inv_external [OF inv])
    show "hook_good i ?s'" "wakes_in i ?s' = wakes_in i ?s" using W good by (simp_all add: hook_good_def)
    show "hook_ages i ?s ?s'" "active_in i ?s' = active_in i ?s"
      using m m2 by (simp_all add: hook_ages_def active_in_def sched_in_def)
    assume "r_idle_done r"
    from inv_idle_done [OF inv this] this m m2
    show "stopping_in i ?s' = Some True \<and> map_option m_tasks (sched_in i ?s') = Some []"
      by (simp add: scanning_def stopping_in_def sched_in_def)
  qed
qed

section \<open>Every step keeps the invariant\<close>

lemma exec_running: "runtime_inv i r \<Longrightarrow> r_pc r = Exec d p \<Longrightarrow> running i d None {#} (r_hook r) r"
  by (simp add: runtime_inv_def)

lemma scanning_pc: "runtime_inv i r \<Longrightarrow> r_pc r = Scanning \<Longrightarrow> scanning i (r_hook r) r"
  by (simp add: runtime_inv_def)

lemma runtime_inv_step:
  assumes "runtime_step env i tid idle body (one_waiter i) r r'" and "runtime_inv i r"
  shows "runtime_inv i r'"
  using assms
proof (induction rule: runtime_step.induct)
  case (take r task s)
  then show ?case by (intro settles_settle take_settles scanning_pc)
next
  case (idle r s now0 addr wait now1 res)
  then show ?case using idle_settles [OF scanning_pc] by (intro settles_settle) blast
next
  case (leave r s)
  then have "scanning i s r" using scan_none(1) scanning_pc by blast
  then have "scanning i s (r\<lparr>r_hook := s, r_pc := Gone\<rparr>)" by (rule scanning_cong) simp_all
  then show ?case using leave(3) by (simp add: runtime_inv_def)
next
  case (scan_fault r f)
  then have sc: "scanning i (r_hook r) r" by (intro scanning_pc)
  then have "hook_good i (r_hook r)" by (simp add: scanning_def)
  from scan_queue_ok [OF this scanning_not_running [OF sc], of tid] scan_fault(2) show ?case by auto
next
  case (io r d fd f event so k)
  then show ?case by (intro settles_settle begin_io_settles exec_running) simp_all
next
  case (io_turn r d fd f event to t k n s)
  then have "running i d (Some t) {#} (r_hook r) r" by (simp add: runtime_inv_def)
  then have "running i d (Some t) {#} s r" using running_quiet adds_call_eintr [OF running_good io_turn(2)] by blast
  then show ?case using io_turn(3) by (intro settles_settle do_io_turn_settles)
next
  case (connect r d fd a len to k)
  then show ?case by (intro settles_settle begin_connect_settles exec_running)
next
  case (close r d fd k)
  then have r: "running i d None {#} (r_hook r) r" by (intro exec_running)
  obtain n s1 where s1: "Hook.close (at_thread env i d) fd (r_hook r) = Inr (n, s1)" "adds i {#} (r_hook r) s1"
    using adds_close [OF running_good [OF r], of fd env d] close(2) by auto
  then show ?case using inv_answer [OF running_quiet [OF r s1(2)]] by (simp add: settle_def)
next
  case (sleep r d ms p)
  then show ?case by (intro settles_settle begin_sleep_settles exec_running)
next
  case (yield r d p)
  then show ?case by (intro settles_settle yield_settles exec_running)
next
  case (schedule r d u p)
  then have r: "running i d None {#} (r_hook r) r" by (intro exec_running)
  obtain s1 where s1: "schedule_in i (Cb (Some (Callback (UserFn u)))) (r_hook r) = Inr s1" "adds i {#} (r_hook r) s1"
    using schedule_user [OF running_good [OF r]] by blast
  then show ?case using inv_continue [OF running_quiet [OF r s1(2)]] by (simp add: settle_def)
next
  case (after r d ms u p)
  then have r: "running i d None {#} (r_hook r) r" by (intro exec_running)
  obtain s1 where s1: "add_timer (at_thread env i d) i ms (Callback (UserFn u)) (r_hook r) = Inr (h_next (r_hook r), s1)"
    "adds i {#} (r_hook r) s1"
    using adds_add_timer [OF running_good [OF r], of "Callback (UserFn u)" "at_thread env i d" ms] by auto
  then show ?case using inv_continue [OF running_quiet [OF r s1(2)]] by (simp add: settle_def)
next
  case (local r d act k n s)
  then show ?case using adds_quiet [OF running_good [OF exec_running]] running_quiet [OF exec_running] inv_answer by blast
next
  case (finish r d)
  then show ?case by (intro inv_over exec_running)
next
  case (kernel r k)
  then show ?case by (rule kernel_inv)
next
  case (submit r m u s)
  then show ?case by (intro submit_inv)
next
  case (request_stop r m now n root m' w)
  then show ?case by (intro request_stop_inv)
qed

section \<open>From the constructor on\<close>

text \<open>
  The system starts with an IO manager as its constructor leaves it, whose timer objects are
  still to be made, a descriptor table that is in order, and no coroutine.
\<close>

definition runtime_start :: "nat \<Rightarrow> ('u, 'k) runtime \<Rightarrow> bool" where
  "runtime_start i r \<longleftrightarrow> io_started i (h_world (r_hook r))
     \<and> (\<forall>m p. w_scheds (h_world (r_hook r)) i = Some (Io m) \<longrightarrow> t_func (tobj (io_timers m) p) = None)
     \<and> fdm_inv (h_fds (r_hook r)) \<and> r_dors r = (\<lambda>d. None) \<and> r_pc r = Scanning \<and> \<not> r_idle_done r"

lemma runtime_start_inv:
  assumes "runtime_start i r"
  shows "runtime_inv i r"
proof -
  let ?w = "h_world (r_hook r)"
  have st: "io_started i ?w" using assms by (simp add: runtime_start_def)
  obtain m timers elapsed where m: "w_scheds ?w i = Some (Io m)" "io_timers m = TimerManager_new timers elapsed"
    "m_tasks (io_sched m) = []" "m_activeThreadCount (io_sched m) = 0" by (rule io_started_fresh [OF st])
  have "t_func (timers p) = None" for p using assms m(1,2) by (auto simp: runtime_start_def TimerManager_new_def)
  then have tg: "timers_good i (h_next (r_hook r)) (io_timers m)"
    using tm_inv_new [of timers elapsed] by (simp add: timers_good_def m(2)) (simp add: TimerManager_new_def)
  have inv: "io_inv i ?w" by (rule io_started_inv [OF st])
  have none: "ev_of e (ctx_or_new i fd ?w) = no_event" if "0 \<le> fd" "single e" for fd e
    by (rule fresh_event [OF inv that]) (simp add: io_started_none [OF st])
  have ev: "c_read (ctx_or_new i fd ?w) = no_event \<and> c_write (ctx_or_new i fd ?w) = no_event" if "0 \<le> fd" for fd
    using none [OF that, of EV_READ] none [OF that, of EV_WRITE] by (simp add: single_def ev_of_def event_defs)
  then have good: "world_good i (h_next (r_hook r)) ?w"
    by (intro world_goodI [OF m(1) inv _ tg]) (simp_all add: m(3) plain_events_def plain_ctx_def)
  have "event_wakes i ?w = {#}" using ev by (simp add: event_wakes_def ctx_wakes_def)
  then have "wakes i ?w = {#}" by (simp add: wakes_eq [OF m(1)] m(2,3) timer_wakes_def TimerManager_new_def)
  then show ?thesis using assms good m(1,4)
    by (simp add: runtime_start_def runtime_inv_def scanning_def hook_good_def others_ok_def unique_tinfo_def
        active_in_def sched_in_def)
qed

interpretation runtime_runs: step_invariant "runtime_start i" "runtime_step env i tid idle body (one_waiter i)" "runtime_inv i"
  for env i tid idle body
  by unfold_locales (auto intro: runtime_start_inv runtime_inv_step)

interpretation system_runs: step_invariant "runtime_start i" "system_step envs i tid idle body (one_waiter i)" "runtime_inv i"
  for envs i tid idle body
  by unfold_locales (auto simp: system_step_def intro: runtime_start_inv runtime_inv_step)

text \<open>What the invariant says of a coroutine at every point of the thread.\<close>

lemma runtime_inv_wakes:
  assumes "runtime_inv i r"
  shows "count (wakes i (h_world (r_hook r))) d = of_bool (suspended (r_dors r d))"
proof (cases "r_pc r")
  case (Exec e p)
  then have "count (wakes i (h_world (r_hook r))) d = of_bool (d \<noteq> e \<and> suspended (r_dors r d))" "\<not> suspended (r_dors r e)"
    using assms by (auto simp: runtime_inv_def running_def)
  then show ?thesis by (cases "d = e") simp_all
next
  case (Trying e fd f event to t k)
  then have "count (wakes i (h_world (r_hook r))) d = of_bool (d \<noteq> e \<and> suspended (r_dors r d))" "\<not> suspended (r_dors r e)"
    using assms by (auto simp: runtime_inv_def running_def)
  then show ?thesis by (cases "d = e") simp_all
next
  case Gone
  then have "scanning i (r_hook r) r" using assms by (simp add: runtime_inv_def)
  then show ?thesis unfolding scanning_def by blast
qed (use assms in \<open>simp_all add: runtime_inv_def scanning_def\<close>)

lemma scanning_ended:
  assumes "scanning i s r" and "wakes_in i s = {#}" and "r_dors r d = Some st"
  shows "st = Over"
proof -
  have "\<not> suspended (Some st)"
    using assms unfolding scanning_def by (metis count_empty of_bool_eq_0_iff)
  moreover have "strand_state (Some st) \<noteq> RUNNING"
    using assms(1,3) othersD(2) [of i None None s r d st] by (auto simp: scanning_def other_ok_def)
  ultimately show ?thesis by (cases st) simp_all
qed

section \<open>What holds in every reachable state\<close>

text \<open>
  The setting of the theorems of this section is \<open>one_waiter\<close> and the steps of \<open>runtime_step\<close>: one
  thread runs the manager; coroutines use descriptors from 0 to \<open>2 ^ 30 - 1\<close>, and no two of them
  wait for the same event of a descriptor; they use descriptors and timers only through the hooked
  calls, \<open>schedule\<close> and non-repeating \<open>addTimer\<close>, and do not call \<open>addEvent\<close>, \<open>delEvent\<close>,
  \<open>cancelEvent\<close>, \<open>cancelAll\<close> or operations of a \<open>Timer\<close> themselves; other threads submit functions
  and request the stop; \<open>epoll\<close> reports registered events, each context at most once. What
  \<open>epoll_ctl\<close>, the clock and the original functions answer is arbitrary in every step.
\<close>

text \<open>
  (C1) No wake-up is lost and none is doubled: whatever the coroutines, the kernel, the timers
  and the other threads do in this setting, in particular as long as no two coroutines wait for
  the same event of a descriptor, a coroutine that is suspended in a hooked call, in \<open>sleep\<close> or after scheduling
  itself stands exactly once among the registered events, the callbacks of timers and the tasks
  of the queue, and a coroutine that is not suspended does not stand there at all.
\<close>

theorem one_wakeup_each:
  assumes "runtime_start i r0" and "(system_step envs i tid idle body (one_waiter i))\<^sup>*\<^sup>* r0 r"
  shows "count (wakes i (h_world (r_hook r))) d = of_bool (suspended (r_dors r d))"
  by (rule runtime_inv_wakes) (rule system_runs.good_reachable [OF assms])

text \<open>
  (C4) The thread leaves \<open>run\<close> only when every coroutine that was ever started on it has come to
  its end, none is to be resumed by anything, and the queue is empty: \<open>stop\<close> does not cut off
  a coroutine that still waits. The setting is that of C1: one thread, at most one coroutine
  waits for an event of a descriptor, descriptors from 0 to \<open>2 ^ 30 - 1\<close>.
\<close>

theorem run_ends_with_all_ended:
  assumes "runtime_start i r0" and "(system_step envs i tid idle body (one_waiter i))\<^sup>*\<^sup>* r0 r" and "r_pc r = Gone"
  shows "(\<forall>d. r_dors r d = None \<or> r_dors r d = Some Over)
    \<and> wakes i (h_world (r_hook r)) = {#} \<and> queue_at i (h_world (r_hook r)) = []"
proof -
  have "runtime_inv i r" by (rule system_runs.good_reachable [OF assms(1,2)])
  then have sc: "scanning i (r_hook r) r" "r_idle_done r" using assms(3) by (simp_all add: runtime_inv_def)
  then have w: "wakes_in i (r_hook r) = {#}" "map_option m_tasks (sched_in i (r_hook r)) = Some []"
    by (simp_all add: scanning_def)
  have "r_dors r d = None \<or> r_dors r d = Some Over" for d
    using scanning_ended [OF sc(1) w(1), of d] by (cases "r_dors r d") simp_all
  moreover have "queue_at i (h_world (r_hook r)) = []"
    using w(2) by (auto simp: queue_at_def sched_in_def split: option.splits sched_obj.splits)
  ultimately show ?thesis using w(1) by blast
qed

text \<open>
  (C12) In the setting of C1 no step ends in a fault: no lock is misused, no table is read out of
  range, no null pointer is followed and no coroutine is resumed after its end, as long as one
  thread runs the manager, coroutines use descriptors from 0 to \<open>2 ^ 30 - 1\<close> only, no two of them
  wait for the same event of a descriptor, they use no repeating timers and call no operation of
  the IO manager or of a \<open>Timer\<close> themselves, and \<open>epoll\<close> reports no event that was removed.
  Outside this setting there are faults: a descriptor below -1 (\<open>FdManager::get\<close>), two repeating
  timers due at once (C33), a stale report (C36), a thread without an IO manager (C28).
\<close>

theorem runtime_never_faults:
  assumes "runtime_start i r0" and "(system_step envs i tid idle body (one_waiter i))\<^sup>*\<^sup>* r0 r"
  shows "r_pc r \<noteq> Crashed f"
  using system_runs.good_reachable [OF assms] by (auto simp: runtime_inv_def)

text \<open>The queue is served in its order.\<close>

lemma resumed_running:
  "resume_task env i d s r = Inr r' \<Longrightarrow> strand_state (r_dors r' d) = RUNNING"
  by (auto simp: resume_task_def rbind_eq_Inr answer_def continue_def try_again_def Let_def
      split: option.splits strand.splits prod.splits)

lemma queued_suspended:
  assumes "runtime_inv i r" and "task \<in> set (queue_at i (h_world (r_hook r)))" and "task_doroutine task = Some d"
  shows "suspended (r_dors r d)"
proof -
  let ?w = "h_world (r_hook r)"
  obtain m where m: "w_scheds ?w i = Some (Io m)" by (rule hook_good_iom [OF runtime_inv_hook [OF assms(1)]])
  then have "task \<in> set (m_tasks (io_sched m))" using assms(2) by (simp add: queue_at_iom)
  then obtain pre post where "m_tasks (io_sched m) = pre @ task # post" by (meson split_list)
  then have "d \<in># wakes i ?w" using assms(3) by (simp add: wakes_eq [OF m] task_wakes_def)
  then show ?thesis using runtime_inv_wakes [OF assms(1), of d] by (metis count_eq_zero_iff of_bool_eq_0_iff)
qed

lemma scan_queue_first:
  assumes inv: "runtime_inv i r" and pc: "r_pc r = Scanning" and q: "queue_at i (h_world (r_hook r)) = task # rest"
  shows "\<exists>s. scan_queue i tid r = Inr (Some task, s) \<and> queue_at i (h_world s) = rest"
proof -
  have sc: "scanning i (r_hook r) r" by (rule scanning_pc [OF inv pc])
  have good: "hook_good i (r_hook r)" by (rule runtime_inv_hook [OF inv])
  obtain m where m: "w_scheds (h_world (r_hook r)) i = Some (Io m)" by (rule hook_good_iom [OF good])
  have ts: "m_tasks (io_sched m) = task # rest" using q by (simp add: queue_at_iom [OF m])
  have "\<forall>t \<in> set (m_tasks (io_sched m)). task_good i t" using hook_goodD(1) [OF good] m by (auto simp: world_good_def)
  then have t: "task_thread task = - 1" by (simp add: ts task_good_def)
  let ?sch = "(io_sched m)\<lparr>m_tasks := rest, m_activeThreadCount := m_activeThreadCount (io_sched m) + 1\<rparr>"
  let ?w = "put_iom i (m\<lparr>io_sched := ?sch\<rparr>) (h_world (r_hook r))"
  have tk: "take_task tid (\<lambda>d. strand_state (r_dors r d)) (io_sched m) = (Some task, rest \<noteq> [], ?sch)"
    using t scanning_not_running [OF sc] by (simp add: take_task_def ts scan_tasks.simps)
  have w: "w_scheds ?w i = Some (Io (m\<lparr>io_sched := ?sch\<rparr>))" by (simp add: put_iom_def)
  obtain p where p: "tickle i ?w = Inr (?w\<lparr>w_pipe := p\<rparr>)" using tickle_ok [OF w] by blast
  have qw: "queue_at i (?w\<lparr>w_pipe := x\<rparr>) = rest" "queue_at i ?w = rest" for x
    by (simp_all add: queue_at_def put_iom_def)
  show ?thesis using m tk p qw by (auto simp: scan_queue_def iom_at_def Let_def)
qed

text \<open>
  (C17) The queue is served from its front, and a task never waits for nothing: when the thread
  scans, it takes the first task; if that is a coroutine, the coroutine was suspended, and the
  step gives it the thread. The setting is that of C1.
\<close>

theorem first_task_runs:
  assumes "runtime_start i r0" and "(system_step envs i tid idle body (one_waiter i))\<^sup>*\<^sup>* r0 r"
    and "r_pc r = Scanning" and "queue_at i (h_world (r_hook r)) = task # rest"
  shows "\<exists>s r'. scan_queue i tid r = Inr (Some task, s) \<and> queue_at i (h_world s) = rest
    \<and> runtime_step env i tid idle body (one_waiter i) r r'
    \<and> (\<forall>d. task_doroutine task = Some d \<longrightarrow> suspended (r_dors r d) \<and> strand_state (r_dors r' d) = RUNNING)"
proof -
  have inv: "runtime_inv i r" by (rule system_runs.good_reachable [OF assms(1,2)])
  obtain s where s: "scan_queue i tid r = Inr (Some task, s)" "queue_at i (h_world s) = rest"
    using scan_queue_first [OF inv assms(3,4)] by blast
  obtain r' where r': "run_task env i body task s r = Inr r'"
    using take_settles [OF scanning_pc [OF inv assms(3)] s(1)] by (auto simp: settles_def)
  have "suspended (r_dors r d) \<and> strand_state (r_dors r' d) = RUNNING" if "task_doroutine task = Some d" for d
    using that r' queued_suspended [OF inv _ that] assms(4) resumed_running by (auto simp: run_task_def)
  moreover have "runtime_step env i tid idle body (one_waiter i) r r'"
    using runtime_step.take [OF assms(3) s(1), of env idle body "one_waiter i"] r' by (simp add: settle_def)
  ultimately show ?thesis using s by blast
qed

section \<open>Outside the discipline\<close>

lemma wakes_upd_sched:
  assumes "\<And>sch. m_tasks (g sch) = m_tasks sch"
  shows "wakes_in i (upd_sched i g s) = wakes_in i s"
proof (cases "w_scheds (h_world s) i")
  case (Some ob)
  show ?thesis
  proof (cases ob)
    case (Io m)
    let ?m = "m\<lparr>io_sched := g (io_sched m)\<rparr>"
    let ?w = "put_iom i ?m (h_world s)"
    have m: "w_scheds (h_world s) i = Some (Io m)" "w_scheds ?w i = Some (Io ?m)" using Some Io by (simp_all add: put_iom_def)
    have "event_wakes i ?w = event_wakes i (h_world s)"
      by (rule event_wakes_cong, rule ctx_or_new_cong [OF m]) (simp_all add: put_iom_def)
    then show ?thesis using m assms by (simp add: upd_sched_def wakes_eq)
  qed (use Some in \<open>simp add: upd_sched_def\<close>)
qed (simp add: upd_sched_def)

text \<open>Registering an event for which a coroutine waits takes its wake-up away.\<close>

lemma addEvent_again_wakes:
  assumes good: "world_good i n w" and fd: "fd_range fd" and e: "single event"
    and x: "ev_doroutine (ev_of event (ctx_or_new i fd w)) = Some x"
    and env: "th_dor env = Some d" and ctl: "\<forall>op evs. ctl op fd evs \<noteq> - 1"
  obtains w' where "addEvent env ctl i fd event None False w = Inr (0, w')" and "wakes i w' + {#x#} = wakes i w + {#d#}"
proof -
  obtain m where m: "w_scheds w i = Some (Io m)" and inv: "io_inv i w" by (rule world_goodE [OF good])
  have fd0: "0 \<le> fd" "fd < 2 ^ 31" using fd by (simp_all add: fd_range_def)
  have "fd_mask i fd w AND event \<noteq> 0"
    using fresh_event(1) [OF inv fd0(1) e] x by (auto simp: no_event_def)
  from addEvent_again [OF inv fd0(1) e this m, where ctl = ctl and env = env and func = None and rep = False, OF ctl]
  obtain w' where w': "addEvent env ctl i fd event None False w = Inr (0, w')"
    "w_scheds w' i = Some (Io (incPendingEventCount m))" "only_fd i fd w w'"
    "ctx_or_new i fd w' = registered_ctx env event None False (ctx_or_new i fd w)" by blast
  let ?c = "ctx_wakes (ctx_or_new i fd w)" and ?c' = "ctx_wakes (ctx_or_new i fd w')"
  have c': "?c' + {#x#} = ?c + {#d#}"
    using x e env
    by (auto simp: w'(4) registered_ctx_def ctx_wakes_def single_def ev_of_def putEventContext_def event_defs)
  have "event_wakes i w' + {#x#} + ?c = (event_wakes i w' + ?c) + {#x#}" by (simp only: ac_simps)
  also have "\<dots> = event_wakes i w + (?c' + {#x#})" by (simp only: event_wakes_only_fd [OF w'(3) fd0] ac_simps)
  also have "\<dots> = event_wakes i w + {#d#} + ?c" unfolding c' by (simp only: ac_simps)
  finally have "event_wakes i w' + {#x#} = event_wakes i w + {#d#}" by (rule add_right_imp_eq)
  then have "wakes i w' + {#x#} = wakes i w + {#d#}"
    by (simp add: wakes_eq [OF m] wakes_eq [OF w'(2)] incPendingEventCount_def)
  then show thesis by (rule that [OF w'(1)])
qed

text \<open>
  (C25) One waiter for each event is needed: \<open>addEvent\<close> does not refuse an event for which a
  coroutine waits already. When a second coroutine would block on the same event of the same
  descriptor (here without a time-out), it takes the place of the first, and the first, still
  suspended in its call, is in no event, no timer and no task any more: nothing will ever
  resume it. The kernel accepts the registration in that step; up to there the setting is that of C1.
\<close>

theorem second_waiter_strands_first:
  assumes "runtime_start i r0" and "(system_step envs i tid idle body (one_waiter i))\<^sup>*\<^sup>* r0 r"
    and "r_pc r = Trying d fd f event (- 1) t k" and "call_eintr f (r_hook r) = Some (- 1, s)" and "h_errno s = EAGAIN"
    and "fd_range fd" and "single event" and "ev_doroutine (ev_of event (ctx_or_new i fd (h_world s))) = Some x"
    and "\<forall>op evs. he_ctl env op fd evs \<noteq> - 1"
  shows "\<exists>r'. do_io_turn env i d fd f event (- 1) t k (- 1) s r = Inr r' \<and> suspended (r_dors r' x)
    \<and> suspended (r_dors r' d) \<and> count (wakes i (h_world (r_hook r'))) d = 1 \<and> count (wakes i (h_world (r_hook r'))) x = 0"
proof -
  have "runtime_inv i r" by (rule system_runs.good_reachable [OF assms(1,2)])
  then have "running i d (Some t) {#} (r_hook r) r" using assms(3) by (simp add: runtime_inv_def)
  then have r: "running i d (Some t) {#} s r" using running_quiet adds_call_eintr [OF running_good assms(4)] by blast
  let ?te = "at_thread env i d"
  have good: "hook_good i s" by (rule running_good [OF r])
  have ctl: "\<forall>op evs. he_ctl ?te op fd evs \<noteq> - 1" using assms(9) by simp
  obtain w' where w': "addEvent (he_thread ?te) (he_ctl ?te) i fd event None False (h_world s) = Inr (0, w')"
    "wakes i w' + {#x#} = wakes_in i s + {#d#}"
    by (rule addEvent_again_wakes [where ctl = "he_ctl ?te", OF hook_goodD(1) [OF good] assms(6-8) at_thread_simps(2) ctl])
  have c: "count (wakes_in i s) e = of_bool (e \<noteq> d \<and> suspended (r_dors r e))" for e using r by (simp add: running_def)
  have "0 < count (wakes_in i s) x"
  proof -
    let ?c = "ctx_or_new i fd (h_world s)" and ?f = "\<lambda>j. ctx_wakes (ctx_or_new i (int j) (h_world s))"
    obtain m where m: "w_scheds (h_world s) i = Some (Io m)" by (rule hook_good_iom [OF good])
    have j: "nat fd \<in> {..< fd_limit}" "int (nat fd) = fd" using assms(6) by (simp_all add: fd_range_def fd_limit_def nat_less_iff)
    have "event_wakes i (h_world s) = ctx_wakes ?c + (\<Sum>j \<in> {..< fd_limit} - {nat fd}. ?f j)"
      unfolding event_wakes_def using sum.remove [OF _ j(1), of ?f] j(2) by simp
    moreover have "x \<in># ctx_wakes ?c" using assms(7,8) by (auto simp: ctx_wakes_def single_def ev_of_def event_defs)
    ultimately show ?thesis by (simp add: wakes_eq [OF m])
  qed
  then have x: "x \<noteq> d" "suspended (r_dors r x)" using c [of x] by (auto split: if_splits)
  let ?r = "suspend i d (InIo fd f event (- 1) t None k) (s\<lparr>h_world := w'\<rparr>) r"
  have run: "do_io_turn env i d fd f event (- 1) t k (- 1) s r = Inr ?r"
    using assms(5) w'(1) this_iom_at(1) [OF good, of env d] by (simp add: do_io_turn_def wait_begin_def)
  have wk: "wakes i (h_world (r_hook ?r)) = wakes i w'"
    using wakes_upd_sched [of "\<lambda>sch. sch\<lparr>m_activeThreadCount := m_activeThreadCount sch - 1\<rparr>" i "s\<lparr>h_world := w'\<rparr>"]
    by (simp add: suspend_def give_back_def)
  have "count (wakes i w') e + count {#x#} e = count (wakes_in i s) e + count {#d#} e" for e
    using w'(2) by (metis count_union)
  from this [of x] this [of d] x c [of x] c [of d] have "count (wakes i w') x = 0" "count (wakes i w') d = 1" by simp_all
  moreover have "suspended (r_dors ?r x)" "suspended (r_dors ?r d)" using x by (simp_all add: suspend_def give_back_def)
  ultimately show ?thesis using run wk by (intro exI [of _ ?r]) simp
qed

end
