(* ===== verification/RuntimeFollows.thy ===== *)
theory RuntimeFollows
  imports RuntimeSafe
begin

text \<open>
  What the operations of the IO manager leave of the coroutines that wait for events and of the
  callbacks in timers and in the queue: a coroutine that waits goes on waiting or is put in the
  queue, and a callback stays in its timer or goes to the queue, unless its timer is cancelled.
\<close>

section \<open>Waiting coroutines and pending callbacks\<close>

definition waiting :: "nat \<Rightarrow> 'f world \<Rightarrow> nat \<Rightarrow> int \<Rightarrow> u32 \<Rightarrow> bool" where
  "waiting i w d fd e \<longleftrightarrow> ev_doroutine (ev_of e (ctx_or_new i fd w)) = Some d"

definition in_queue :: "nat \<Rightarrow> 'f world \<Rightarrow> nat \<Rightarrow> bool" where
  "in_queue i w d \<longleftrightarrow> (\<exists>task \<in> set (queue_at i w). task_doroutine task = Some d)"

definition timer_fns :: "'u TimerManager \<Rightarrow> 'u callback set" where
  "timer_fns ts = {f. \<exists>p \<in> set (m_timers ts). t_func (tobj ts p) = Some f}"

definition task_fns :: "'f SchedulerTask list \<Rightarrow> 'f set" where
  "task_fns tasks = {f. \<exists>task \<in> set tasks. task_func task = Some f}"

definition pending_fns :: "nat \<Rightarrow> 'f world \<Rightarrow> 'f fn set" where
  "pending_fns i w = (case w_scheds w i of
     Some (Io m) \<Rightarrow> timer_fns (io_timers m) \<union> task_fns (m_tasks (io_sched m)) | _ \<Rightarrow> {})"

lemma task_fns_simps [simp]:
  "task_fns [] = {}" "task_fns (t # ts) = set_option (task_func t) \<union> task_fns ts" "task_fns (ts @ us) = task_fns ts \<union> task_fns us"
  by (auto simp: task_fns_def)

lemma pending_fns_eq:
  "w_scheds w i = Some (Io m) \<Longrightarrow> pending_fns i w = timer_fns (io_timers m) \<union> task_fns (m_tasks (io_sched m))"
  by (simp add: pending_fns_def)

text \<open>\<open>G\<close>: the callbacks that may be gone, \<open>A\<close>: the ones that may be new.\<close>

definition follows :: "nat \<Rightarrow> 'f fn set \<Rightarrow> 'f fn set \<Rightarrow> 'f world \<Rightarrow> 'f world \<Rightarrow> bool" where
  "follows i G A w w' \<longleftrightarrow> (\<forall>d. in_queue i w d \<longrightarrow> in_queue i w' d)
     \<and> (\<forall>d fd e. 0 \<le> fd \<and> single e \<and> waiting i w d fd e \<longrightarrow> waiting i w' d fd e \<or> in_queue i w' d)
     \<and> pending_fns i w - G \<subseteq> pending_fns i w' \<and> pending_fns i w' \<subseteq> pending_fns i w \<union> A"

lemma followsD:
  assumes "follows i G A w w'"
  shows "in_queue i w d \<Longrightarrow> in_queue i w' d"
    and "0 \<le> fd \<Longrightarrow> single e \<Longrightarrow> waiting i w d fd e \<Longrightarrow> waiting i w' d fd e \<or> in_queue i w' d"
    and "f \<in> pending_fns i w \<Longrightarrow> f \<notin> G \<Longrightarrow> f \<in> pending_fns i w'"
    and "f \<in> pending_fns i w' \<Longrightarrow> f \<in> pending_fns i w \<or> f \<in> A"
  using assms unfolding follows_def by blast+

lemma follows_refl [simp]: "follows i G A w w"
  by (auto simp: follows_def)

lemma follows_trans:
  assumes "follows i G A w w'" and "follows i G' A' w' w''"
  shows "follows i (G \<union> G') (A \<union> A') w w''"
  using assms unfolding follows_def by blast

lemma follows_none_trans: "follows i {} {} w w' \<Longrightarrow> follows i G A w' w'' \<Longrightarrow> follows i G A w w''"
  using follows_trans [of i "{}" "{}" w w' G A w''] by simp

lemma follows_mono: "follows i G A w w' \<Longrightarrow> G \<subseteq> G' \<Longrightarrow> A \<subseteq> A' \<Longrightarrow> follows i G' A' w w'"
  unfolding follows_def by blast

lemma followsI:
  assumes m: "w_scheds w i = Some (Io m)" "w_scheds w' i = Some (Io m')"
    and q: "m_tasks (io_sched m') = m_tasks (io_sched m) @ new"
    and c: "\<And>d fd e. 0 \<le> fd \<Longrightarrow> single e \<Longrightarrow> waiting i w d fd e
      \<Longrightarrow> waiting i w' d fd e \<or> (\<exists>task \<in> set new. task_doroutine task = Some d)"
    and t: "timer_fns (io_timers m) - G \<subseteq> timer_fns (io_timers m') \<union> task_fns new"
      "timer_fns (io_timers m') \<union> task_fns new \<subseteq> timer_fns (io_timers m) \<union> A"
  shows "follows i G A w w'"
proof -
  have q': "queue_at i w' = queue_at i w @ new" using q by (simp add: queue_at_iom [OF m(1)] queue_at_iom [OF m(2)])
  show ?thesis using t
    by (auto simp: follows_def in_queue_def q' pending_fns_eq [OF m(1)] pending_fns_eq [OF m(2)] q dest: c)
qed

lemma waiting_cong: "ctx_or_new i fd w' = ctx_or_new i fd w \<Longrightarrow> waiting i w' d fd e = waiting i w d fd e"
  by (simp add: waiting_def)

text \<open>A change that leaves contexts, timers and tasks alone.\<close>

lemma follows_same:
  assumes m: "w_scheds w i = Some (Io m)" "w_scheds w' i = Some (Io m')" "io_timers m' = io_timers m"
    "m_tasks (io_sched m') = m_tasks (io_sched m)" and ctx: "\<And>k. ctx_or_new i k w' = ctx_or_new i k w"
  shows "follows i {} {} w w'"
  by (rule followsI [OF m(1,2), where new = "[]"]) (simp_all add: m(3,4) waiting_cong [OF ctx])

lemma follows_scheds:
  assumes "w_scheds w' = w_scheds w" and "w_ctxs w' = w_ctxs w"
  shows "follows i {} {} w w'"
proof -
  have "ctx_of i fd w' = ctx_of i fd w" for fd by (simp only: ctx_of_def assms)
  then have "waiting i w' d fd e = waiting i w d fd e" for d fd e by (simp add: waiting_def ctx_or_new_def)
  moreover have "in_queue i w' d = in_queue i w d" for d by (simp add: in_queue_def queue_at_def assms)
  moreover have "pending_fns i w' = pending_fns i w" by (simp add: pending_fns_def assms)
  ultimately show ?thesis by (simp add: follows_def)
qed

section \<open>Operations on events\<close>

lemma follows_addEvent:
  assumes inv: "io_inv i w" and fd: "fd_range fd" and e: "single e" "fd_mask i fd w AND e = 0"
    and env: "th_sched env = Some i" "th_dor env = Some d" and a: "addEvent env ctl i fd e None False w = Inr (rt, w')"
  shows "follows i {} {} w w'" and "rt = 0 \<Longrightarrow> waiting i w' d fd e"
proof -
  have eo: "env_of i (None :: 'a fn option) env" using env by (simp add: env_of_def)
  have fd0: "0 \<le> fd" using fd by (simp add: fd_range_def)
  have A: "only_fd i fd w w'" "\<forall>k. queue_at k w' = queue_at k w"
    "rt = - 1 \<and> ctx_or_new i fd w' = ctx_or_new i fd w
       \<or> rt = 0 \<and> ctx_of i fd w' = Some (registered_ctx env e None False (ctx_or_new i fd w))"
    using addEvent_ok [OF inv fd e eo, of ctl False] a by auto
  have reg: "ctx_or_new i fd w' = registered_ctx env e None False (ctx_or_new i fd w)" if "rt = 0"
    using A(3) that by (auto simp: ctx_or_new_def)
  then show "waiting i w' d fd e" if "rt = 0"
    using that env(2) by (simp add: waiting_def registered_ctx_def ev_of_put(1))
  obtain m where m: "w_scheds w i = Some (Io m)" using inv by (auto simp: io_inv_def)
  obtain m' where m': "w_scheds w' i = Some (Io m')" "io_timers m' = io_timers m"
    using calm_addEvent [OF a, of i] m unfolding calm_def by blast
  have q: "m_tasks (io_sched m') = m_tasks (io_sched m) @ []"
    using A(2) by (simp add: queue_at_iom [OF m, symmetric] queue_at_iom [OF m'(1), symmetric])
  show "follows i {} {} w w'"
  proof (rule followsI [OF m m'(1) q])
    fix x k u assume k: "0 \<le> k" "single u" "waiting i w x k u"
    show "waiting i w' x k u \<or> (\<exists>task \<in> set []. task_doroutine task = Some x)"
    proof (cases "k = fd \<and> rt = 0")
      case True
      moreover have "u \<noteq> e"
        using k(3) fresh_event(1) [OF inv fd0 e] True by (auto simp: waiting_def no_event_def)
      ultimately show ?thesis using k reg by (simp add: waiting_def registered_ctx_def ev_of_put(2) [OF e(1)] ev_of_put)
    next
      case False
      then have "ctx_or_new i k w' = ctx_or_new i k w" using A(1,3) k(1) by (cases "k = fd") (auto simp: only_fd_def)
      then show ?thesis using k(3) by (simp add: waiting_def)
    qed
  qed (simp_all add: m'(2))
qed

text \<open>Triggering events of one descriptor puts the coroutines that wait for them in the queue.\<close>

lemma resumed_queued:
  assumes "plain_event i x" and "ev_doroutine x = Some d"
  shows "\<exists>task \<in> set (resumed i x). task_doroutine task = Some d"
  using assms by (auto simp: resumed_def plain_event_def ev_request_def requested_wakes split: option.splits)

lemma resumed_fns: "plain_event i x \<Longrightarrow> task_fns (resumed i x) = {}"
  by (auto simp: resumed_def plain_event_def ev_request_def requested_def task_of_request_def Let_def task_fns_def
      split: option.splits if_splits)

lemma fold_trigger_follows:
  fixes c :: "'u hook_fn FdContext"
  assumes "plain_ctx i c" and "\<forall>e \<in> set es. single e" and "single u" and "ev_doroutine (ev_of u c) = Some d"
  shows "ev_doroutine (ev_of u (fold (\<lambda>e. after_trigger e l) es c)) = Some d
    \<or> (\<exists>task \<in> set (concat (map (\<lambda>e. resumed i (ev_of e c)) es)). task_doroutine task = Some d)"
proof (cases "u \<in> set es")
  case True
  then show ?thesis using resumed_queued [OF plain_ev_of [OF assms(1)] assms(4)] by auto
next
  case False
  then have "ev_of u (fold (\<lambda>e. after_trigger e l) es c) = ev_of u c"
    using assms(1,2)
  proof (induction es arbitrary: c)
    case (Cons e es)
    have "ev_of u (fold (\<lambda>e. after_trigger e l) es (after_trigger e l c)) = ev_of u (after_trigger e l c)"
      using Cons.prems trigger_wakes(2) [OF Cons.prems(2), of e l] by (intro Cons.IH) simp_all
    also have "\<dots> = ev_of u c" using Cons.prems trigger_wakes(3) [OF Cons.prems(2), of e u l] assms(3) by simp
    finally show ?case by simp
  qed simp
  then show ?thesis using assms(4) by simp
qed

lemma trigger_follows:
  assumes good: "world_good i n w" and calm: "calm i w w'" and fd: "only_fd i fd w w'" "0 \<le> fd" and es: "\<forall>e \<in> set es. single e"
    and c: "ctx_of i fd w' = Some (fold (\<lambda>e. after_trigger e l) es (ctx_or_new i fd w))"
    and q: "queue_at i w' = queue_at i w @ concat (map (\<lambda>e. resumed i (ev_of e (ctx_or_new i fd w))) es)"
  shows "follows i {} {} w w'"
proof -
  let ?c = "ctx_or_new i fd w"
  obtain m where m: "w_scheds w i = Some (Io m)" by (rule world_goodE [OF good])
  obtain m' where m': "w_scheds w' i = Some (Io m')" "io_timers m' = io_timers m" using calm m unfolding calm_def by blast
  have pl: "plain_ctx i ?c" using good fd(2) by (simp add: world_good_def ctx_at_plain)
  have q': "m_tasks (io_sched m') = m_tasks (io_sched m) @ concat (map (\<lambda>e. resumed i (ev_of e ?c)) es)"
    using q by (simp add: queue_at_iom [OF m] queue_at_iom [OF m'(1)])
  have fns: "task_fns (concat (map (\<lambda>e. resumed i (ev_of e ?c)) es)) = {}"
    using resumed_fns [OF plain_ev_of [OF pl]] by (induction es) simp_all
  show ?thesis
  proof (rule followsI [OF m m'(1) q'])
    fix d k u assume k: "0 \<le> k" "single u" "waiting i w d k u"
    show "waiting i w' d k u \<or> (\<exists>task \<in> set (concat (map (\<lambda>e. resumed i (ev_of e ?c)) es)). task_doroutine task = Some d)"
    proof (cases "k = fd")
      case True
      then show ?thesis using k c fold_trigger_follows [OF pl es k(2), of d l] by (simp add: waiting_def ctx_or_new_def)
    next
      case False
      then show ?thesis using k fd(1) by (simp add: waiting_def only_fd_def)
    qed
  qed (simp_all add: m'(2) fns)
qed

lemma follows_cancelEvent:
  assumes good: "world_good i n w" and fd: "fd_range fd" and e: "single e" and env: "th_sched env = Some i"
    and a: "cancelEvent env ctl i fd e w = Inr (b, w')"
  shows "follows i {} {} w w'"
    and "waiting i w d fd e \<Longrightarrow> if accepts_removal ctl fd (fd_mask i fd w) e then in_queue i w' d else w' = w"
proof -
  have inv: "io_inv i w" using good by (simp add: world_good_def)
  have fd0: "0 \<le> fd" using fd by (simp add: fd_range_def)
  have r: "only_fd i fd w w'" "\<not> b \<longrightarrow> w' = w" "b = (fd_mask i fd w AND e \<noteq> 0 \<and> accepts_removal ctl fd (fd_mask i fd w) e)"
    "b \<longrightarrow> ctx_of i fd w' = Some (after_trigger e True (ctx_or_new i fd w))
       \<and> (\<forall>k. queue_at k w' = queue_at k w @ resumed k (ev_of e (ctx_or_new i fd w)))"
    using cancelEvent_ok [OF inv fd0 e env, of ctl] a by auto
  show "follows i {} {} w w'"
  proof (cases b)
    case True
    show ?thesis
      by (rule trigger_follows [OF good calm_cancelEvent [OF a] r(1) fd0, of "[e]" True]) (use True r(4) e in simp_all)
  qed (use r(2) in simp)
  assume w: "waiting i w d fd e"
  then have "ev_of e (ctx_or_new i fd w) \<noteq> no_event" by (auto simp: waiting_def no_event_def)
  then have "fd_mask i fd w AND e \<noteq> 0" using fresh_event(1) [OF inv fd0 e] by blast
  then have b: "b = accepts_removal ctl fd (fd_mask i fd w) e" using r(3) by simp
  have "plain_ctx i (ctx_or_new i fd w)" using good fd0 by (simp add: world_good_def ctx_at_plain)
  then have "\<exists>task \<in> set (resumed i (ev_of e (ctx_or_new i fd w))). task_doroutine task = Some d"
    using w [unfolded waiting_def] by (intro resumed_queued plain_ev_of)
  then have "in_queue i w' d" if b using r(4) that by (auto simp: in_queue_def)
  then show "if accepts_removal ctl fd (fd_mask i fd w) e then in_queue i w' d else w' = w" using r(2) b by auto
qed

lemma follows_cancelAll:
  assumes good: "world_good i n w" and fd: "fd_range fd" and env: "th_sched env = Some i"
    and a: "cancelAll env ctl i fd w = Inr (b, w')"
  shows "follows i {} {} w w'"
proof -
  have inv: "io_inv i w" using good by (simp add: world_good_def)
  have fd0: "0 \<le> fd" using fd by (simp add: fd_range_def)
  let ?es = "events_of (fd_mask i fd w)"
  have r: "only_fd i fd w w'" "\<not> b \<longrightarrow> w' = w"
    "b \<longrightarrow> ctx_of i fd w' = Some (fold (\<lambda>e. after_trigger e True) ?es (ctx_or_new i fd w))
       \<and> (\<forall>k. queue_at k w' = queue_at k w @ concat (map (\<lambda>e. resumed k (ev_of e (ctx_or_new i fd w))) ?es))"
    using cancelAll_ok [OF inv fd0 env, of ctl] a by auto
  show ?thesis
  proof (cases b)
    case True
    show ?thesis
      by (rule trigger_follows [OF good calm_cancelAll [OF a] r(1) fd0, of ?es True])
        (use True r(3) in \<open>simp_all add: events_of_props(2)\<close>)
  qed (use r(2) in simp)
qed

lemma follows_handle_event:
  assumes good: "world_good i n w" and env: "th_sched env = Some i" and live: "live_event addr i ev w"
    and a: "handle_event env ctl addr i ev w = Inr w'"
  shows "follows i {} {} w w'"
proof -
  have inv: "io_inv i w" using good by (simp add: world_good_def)
  from inv live show ?thesis
  proof (cases rule: live_eventE)
    case (pipe m)
    then have "w' = w\<lparr>w_pipe := (w_pipe w)(i := 0)\<rparr>" using a handle_event_pipe [OF pipe] by simp
    then show ?thesis by (intro follows_scheds) simp_all
  next
    case (slot m p c j)
    let ?es = "events_of (real_events c (ep_events ev))"
    have w': "only_fd i (int j) w w'"
      "if accepts_report ctl c (real_events c (ep_events ev))
       then ctx_of i (int j) w' = Some (fold (\<lambda>e. after_trigger e False) ?es c)
         \<and> (\<forall>k. queue_at k w' = queue_at k w @ concat (map (\<lambda>e. resumed k (ev_of e c)) ?es))
       else w' = w"
      using handle_event_ctx [OF slot(1,2) env slot(5-8) slot(3,4) refl slot(9), of ctl] a by auto
    have c: "ctx_or_new i (int j) w = c" using slot(1,5,6,7) by (simp add: ctx_or_new_def ctx_of_def)
    show ?thesis
    proof (cases "accepts_report ctl c (real_events c (ep_events ev))")
      case True
      show ?thesis
        by (rule trigger_follows [OF good calm_handle_event [OF a] w'(1), of ?es False])
          (use True w'(2) c in \<open>simp_all add: events_of_props(2)\<close>)
    qed (use w'(2) in simp)
  qed
qed

lemma follows_handle_events:
  assumes "world_good i n w" and env: "th_sched env = Some i" and "epoll_report addr i w evs"
    and "handle_events env ctl addr i evs w = Inr w'"
  shows "follows i {} {} w w'"
  using assms(1,3,4)
proof (induction evs arbitrary: w)
  case (Cons ev evs)
  have live: "live_event addr i ev w" using Cons.prems(2) by (simp add: epoll_report_def)
  obtain w1 where w1: "handle_event env ctl addr i ev w = Inr w1" "world_good i n w1"
    using handle_event_wakes [OF Cons.prems(1) env live, of ctl] by blast
  have "epoll_report addr i w1 evs" by (rule epoll_report_next [OF Cons.prems(2) w1(1)])
  then have "follows i {} {} w1 w'" using Cons.IH [OF w1(2)] Cons.prems(3) w1(1) by simp
  then show ?case by (rule follows_none_trans [OF follows_handle_event [OF Cons.prems(1) env live w1(1)]])
qed simp

section \<open>Timers and the queue\<close>

lemma follows_schedule_to:
  assumes inv: "io_inv i w" and a: "schedule_to (Some i) fc (- 1) w = Inr w'"
  shows "follows i {} (task_fns (requested fc)) w w'" and "queue_at i w' = queue_at i w @ requested fc"
proof -
  have "w_scheds w i \<noteq> None" using inv by (auto simp: io_inv_def)
  then obtain v where v: "schedule_to (Some i) fc (- 1) w = Inr v" "sched_frame w v"
    "queue_at i v = queue_at i w @ requested fc" "\<forall>k. k \<noteq> i \<longrightarrow> queue_at k v = queue_at k w"
    by (rule schedule_to_ok)
  have ctx: "ctx_or_new i k w' = ctx_or_new i k w" for k using ctx_or_new_frame [OF inv v(2)] v(1) a by simp
  obtain m where m: "w_scheds w i = Some (Io m)" using inv by (auto simp: io_inv_def)
  obtain m' where m': "w_scheds w' i = Some (Io m')" "io_timers m' = io_timers m"
    using calm_schedule_to [OF a, of i] m unfolding calm_def by blast
  show q: "queue_at i w' = queue_at i w @ requested fc" using v(1,3) a by simp
  then have "m_tasks (io_sched m') = m_tasks (io_sched m) @ requested fc"
    by (simp add: queue_at_iom [OF m] queue_at_iom [OF m'(1)])
  then show "follows i {} (task_fns (requested fc)) w w'"
    by (rule followsI [OF m m'(1)]) (simp_all add: m'(2) waiting_cong [OF ctx])
qed

lemma timer_fns_upd:
  assumes "\<And>p. p \<in> set (m_timers ts) \<Longrightarrow> tobj ts' p = tobj ts p" and "set (m_timers ts') = insert p (set (m_timers ts))"
  shows "timer_fns ts' = timer_fns ts \<union> set_option (t_func (tobj ts' p))"
  using assms by (auto simp: timer_fns_def)

lemma follows_addTimer:
  assumes good: "world_good i n w" and a: "io_addTimer i n ms (Some cb) False now w = Inr w'"
  shows "follows i {} {cb} w w'" and "cb \<in> pending_fns i w'"
proof -
  obtain m where m: "w_scheds w i = Some (Io m)" and inv: "io_inv i w"
    and tg: "timers_good i n (io_timers m)" by (rule world_goodE [OF good])
  have n: "n \<notin> set (m_timers (io_timers m))" and tm: "tm_inv (io_timers m)" using tg by (auto simp: timers_good_def)
  obtain m' v where v: "io_addTimer i n ms (Some cb) False now w = Inr v" "w_scheds v = (w_scheds w)(i \<mapsto> Io m')"
    "w_ctxs v = w_ctxs w" "io_sched m' = io_sched m" "m_fdContexts m' = m_fdContexts m" "tm_inv (io_timers m')"
    "set (m_timers (io_timers m')) = insert n (set (m_timers (io_timers m)))"
    "tobj (io_timers m') = (tobj (io_timers m))(n := Timer_new ms (Some cb) False now)"
    by (rule io_addTimer_ok [OF m tm n])
  have m': "w_scheds w' i = Some (Io m')" using v(1,2) a by simp
  note ctx = io_addTimer_inv(2) [OF inv a]
  have at: "tobj (io_timers m') p = tobj (io_timers m) p" if "p \<in> set (m_timers (io_timers m))" for p
    using that n v(8) by auto
  have fns: "timer_fns (io_timers m') = timer_fns (io_timers m) \<union> {cb}"
    using timer_fns_upd [OF at v(7)] v(8) by (simp add: Timer_new_def)
  show "follows i {} {cb} w w'"
    by (rule followsI [OF m m', where new = "[]"]) (auto simp: v(4) fns waiting_cong [OF ctx])
  show "cb \<in> pending_fns i w'" by (simp add: pending_fns_eq [OF m'] fns)
qed

lemma follows_cancel:
  assumes m: "w_scheds w i = Some (Io m)" and tm: "tm_inv (io_timers m)" and p: "t_manager (tobj (io_timers m) p)"
    and c: "cancel p (io_timers m) = Inr (b, ts)"
  shows "follows i (set_option (t_func (tobj (io_timers m) p))) {} w (put_iom i (m\<lparr>io_timers := ts\<rparr>) w)"
proof -
  let ?ts = "io_timers m" and ?w = "put_iom i (m\<lparr>io_timers := ts\<rparr>) w"
  have ts: "ts = (if t_func (tobj ?ts p) = None then ?ts
      else ?ts\<lparr>tobj := (tobj ?ts)(p := (tobj ?ts p)\<lparr>t_func := None\<rparr>), m_timers := removeAll p (m_timers ?ts)\<rparr>)"
    using cancel_ok [OF tm p] c by simp
  have m': "w_scheds ?w i = Some (Io (m\<lparr>io_timers := ts\<rparr>))" by (simp add: put_iom_def)
  have ctx: "ctx_or_new i k ?w = ctx_or_new i k w" for k
    by (rule ctx_or_new_cong [OF m m']) (simp_all add: put_iom_def)
  have "timer_fns ?ts - set_option (t_func (tobj ?ts p)) \<subseteq> timer_fns ts" "timer_fns ts \<subseteq> timer_fns ?ts"
    by (auto simp: ts timer_fns_def)
  then show ?thesis
    by (intro followsI [OF m m', where new = "[]"]) (simp_all add: waiting_cong [OF ctx])
qed

lemma requested_fns: "task_fns (concat (map (\<lambda>f. requested (Cb f)) fs)) = {g. Some g \<in> set fs}"
proof (induction fs)
  case (Cons f fs)
  then show ?case by (cases f) (auto simp: requested_wakes)
qed simp

lemma follows_run_timers:
  assumes good: "world_good i n w" and a: "run_timers i n now w = Inr w'"
  shows "follows i {} {} w w'"
    and "w_scheds w i = Some (Io m0) \<Longrightarrow> queue_at i w' = queue_at i w @ concat (map (\<lambda>f. requested (Cb f))
      (map (\<lambda>p. t_func (tobj (io_timers m0) p)) (expired_timers now (io_timers m0))))"
proof -
  obtain m where m: "w_scheds w i = Some (Io m)" and inv: "io_inv i w" and ok: "io_ok i m w"
    and tg: "timers_good i n (io_timers m)" by (rule world_goodE [OF good])
  let ?ts = "io_timers m" and ?ex = "expired_timers now (io_timers m)"
  have n: "n \<notin> set (m_timers ?ts)" and tm: "tm_inv ?ts" using tg by (auto simp: timers_good_def)
  have ex: "set ?ex \<subseteq> set (m_timers ?ts)" by (rule expired_timers_subset)
  have rep: "repeating ?ts ?ex = []"
    using tg ex by (auto simp: repeating_def timers_good_def timer_good_def filter_empty_conv)
  let ?fs = "map (\<lambda>p. t_func (tobj ?ts p)) ?ex"
  obtain k ts where l: "listExpiredFunc n now ?ts = Inr (?fs, k, ts)"
    "tobj ts = (\<lambda>p. if p \<in> set ?ex then fired now (tobj ?ts p) else tobj ?ts p)"
    "set (m_timers ts) = set (m_timers ?ts) - set ?ex"
    using listExpiredFunc_ok [OF tm n, of now] by (auto simp: rep)
  let ?w1 = "put_iom i (m\<lparr>io_timers := ts\<rparr>) w"
  have inv1: "io_inv i ?w1" by (rule io_inv_put [OF m ok]) simp_all
  obtain w2 where w2: "repeat_fault k (tickle i) ?w1 = Inr w2" "io_inv i w2"
    using tickles_inv [OF inv1, of k] by (auto simp: onTimerInsertedAtFront_def [abs_def])
  obtain w3 where w3: "schedule_all i ?fs w2 = Inr w3" "sched_frame w2 w3"
    "queue_at i w3 = queue_at i w2 @ concat (map (\<lambda>f. requested (Cb f)) ?fs)"
    using schedule_all_inv [OF w2(2)] by blast
  have w': "w' = w3"
    using a m l(1) w2(1) w3(1) by (simp add: run_timers_def iom_at_def onTimerInsertedAtFront_def [abs_def])
  have K: "w_scheds w2 = w_scheds ?w1" "w_ctxs w2 = w_ctxs ?w1" using tickles_kept [OF w2(1)] by simp_all
  have m2: "w_scheds w2 i = Some (Io (m\<lparr>io_timers := ts\<rparr>))" using K(1) by (simp add: put_iom_def)
  obtain sch where m3: "w_scheds w3 i = Some (Io (m\<lparr>io_timers := ts, io_sched := sch\<rparr>))"
    using sched_frame_Io [OF w3(2) m2] by auto
  have ctxs: "w_ctxs w3 = w_ctxs w" using sched_frameD(1) [OF w3(2)] K(2) by (simp add: put_iom_def)
  have ctx: "ctx_or_new i j w3 = ctx_or_new i j w" for j
    by (rule ctx_or_new_cong [OF m m3]) (simp_all add: ctxs)
  define new where "new = concat (map (\<lambda>f. requested (Cb f)) ?fs)"
  have q: "m_tasks (io_sched (m\<lparr>io_timers := ts, io_sched := sch\<rparr>)) = m_tasks (io_sched m) @ new"
    using w3(3) by (simp add: queue_at_iom [OF m2] queue_at_iom [OF m3] new_def)
  have fns: "timer_fns ts \<union> task_fns new = timer_fns ?ts"
    unfolding new_def requested_fns using ex by (auto simp: timer_fns_def l(2,3) image_iff) (metis DiffI)
  show "follows i {} {} w w'" unfolding w'
    by (rule followsI [OF m m3 q]) (simp_all add: fns waiting_cong [OF ctx])
  have "queue_at i w3 = queue_at i w @ new" using q by (simp add: queue_at_iom [OF m] queue_at_iom [OF m3])
  then show "w_scheds w i = Some (Io m0) \<Longrightarrow> queue_at i w' = queue_at i w @ concat (map (\<lambda>f. requested (Cb f))
      (map (\<lambda>p. t_func (tobj (io_timers m0) p)) (expired_timers now (io_timers m0))))"
    using m by (simp add: w' new_def)
qed

text \<open>One iteration of the idle coroutine.\<close>

lemma follows_idle_iter:
  assumes good: "world_good i n w" and env: "th_sched env = Some i" and rep: "epoll_reports addr i wait w"
    and run: "idle_iter env ctl addr wait now0 now1 n i w = Some (Inr (Some w'))"
  shows "follows i {} {} w w'"
proof -
  obtain m where m: "w_scheds w i = Some (Io m)" by (rule world_goodE [OF good])
  have stop: "\<not> fst (io_stopping now0 m)" using run m by (auto simp: idle_iter_def iom_at_def split_beta)
  obtain ts evs where l: "wait_loop wait 0 (snd (io_stopping now0 m)) [] = Some (ts, evs)"
    using run m stop by (auto simp: idle_iter_def iom_at_def split_beta split: option.splits)
  obtain w1 where w1: "run_timers i n now1 w = Inr w1" "world_good i n w1" "table_kept i w w1" "w_ctxs w1 = w_ctxs w"
    using run_timers_wakes [OF good] by blast
  have "handle_events env ctl addr i evs w1 = Inr w'"
    using run m stop l w1(1) by (auto simp: idle_iter_def iom_at_def split_beta rbind_eq_Inr)
  moreover have "epoll_report addr i w1 evs"
    using wait_loop_report [OF rep l] live_event_kept [OF w1(3)] w1(4) by (simp add: epoll_report_def)
  ultimately have "follows i {} {} w1 w'" by (intro follows_handle_events [OF w1(2) env])
  then show ?thesis by (rule follows_none_trans [OF follows_run_timers(1) [OF good w1(1)]])
qed

end
