(* ===== verification/RuntimeTimeouts.thy ===== *)
theory RuntimeTimeouts
  imports RuntimeFollows
begin

text \<open>
  Time-outs in the composed system: as long as a call with a time-out waits, its event is
  registered for its coroutine and its time-out callback is in a timer or in the queue; when the
  callback runs, the call is decided for \<open>ETIMEDOUT\<close>, and the coroutine is put in the queue unless
  the kernel refuses to take the event back.
\<close>

section \<open>Calls and their callbacks\<close>

definition bind_fn :: "nat \<Rightarrow> int \<Rightarrow> nat \<Rightarrow> u32 \<Rightarrow> 'u hook_fn fn" where
  "bind_fn t fd i e = OnTimerBind t (Some (TimeoutFn t fd i e))"

fun strand_call :: "('u, 'k) strand \<Rightarrow> (int \<times> u32) option" where
  "strand_call (InIo fd f e to t timer k) = Some (fd, e)"
| "strand_call (InConnect fd t k) = Some (fd, EV_WRITE)"
| "strand_call _ = None"

text \<open>The call that has the \<open>timerInfo\<close> \<open>t\<close> is about this descriptor and event.\<close>

definition calls :: "('u, 'k) runtime \<Rightarrow> nat \<Rightarrow> int \<times> u32 \<Rightarrow> bool" where
  "calls r t c \<longleftrightarrow> (\<exists>d st. r_dors r d = Some st \<and> strand_tinfo st = Some t \<and> strand_call st = Some c)
     \<or> (\<exists>d f to k. r_pc r = Trying d (fst c) f (snd c) to t k)"

definition callbacks_ok :: "nat \<Rightarrow> ('u, 'k) hook_state \<Rightarrow> ('u, 'k) runtime \<Rightarrow> bool" where
  "callbacks_ok i s r \<longleftrightarrow> (\<forall>t1 t2 fd k e. OnTimerBind t1 (Some (TimeoutFn t2 fd k e)) \<in> pending_fns i (h_world s) \<longrightarrow>
     t2 = t1 \<and> t1 < h_next s \<and> (\<forall>c. calls r t1 c \<longrightarrow> c = (fd, e)))"

definition timer_fn :: "nat \<Rightarrow> ('u, 'k) hook_state \<Rightarrow> nat \<Rightarrow> 'u hook_fn fn option" where
  "timer_fn i s p = (case w_scheds (h_world s) i of Some (Io m) \<Rightarrow> t_func (tobj (io_timers m) p) | _ \<Rightarrow> None)"

text \<open>
  A call that waits with a time-out is to be resumed, or its callback is pending; if the kernel may
  refuse to take an event back (\<open>lax\<close>), it may also be timed out and still registered.
\<close>

definition armed :: "bool \<Rightarrow> nat \<Rightarrow> ('u, 'k) hook_state \<Rightarrow> nat \<Rightarrow> int \<Rightarrow> u32 \<Rightarrow> nat \<Rightarrow> bool" where
  "armed lax i s d fd e t \<longleftrightarrow> in_queue i (h_world s) d
     \<or> (waiting i (h_world s) d fd e \<and> (bind_fn t fd i e \<in> pending_fns i (h_world s) \<and> h_tinfo s t = Some 0
         \<or> lax \<and> h_tinfo s t = Some ETIMEDOUT))"

fun timed_ok :: "bool \<Rightarrow> nat \<Rightarrow> ('u, 'k) hook_state \<Rightarrow> nat \<Rightarrow> ('u, 'k) strand \<Rightarrow> bool" where
  "timed_ok lax i s d (InIo fd f e to t (Some p) k) = (fd_range fd \<and> single e \<and> armed lax i s d fd e t
     \<and> (timer_fn i s p = None \<or> timer_fn i s p = Some (bind_fn t fd i e)))"
| "timed_ok lax i s d _ = True"

text \<open>What holds of all coroutines but \<open>d\<close>, and of all of them.\<close>

definition timed_but :: "bool \<Rightarrow> nat \<Rightarrow> nat option \<Rightarrow> ('u, 'k) hook_state \<Rightarrow> ('u, 'k) runtime \<Rightarrow> bool" where
  "timed_but lax i me s r \<longleftrightarrow> callbacks_ok i s r \<and> (\<forall>e st. Some e \<noteq> me \<longrightarrow> r_dors r e = Some st \<longrightarrow> timed_ok lax i s e st)"

definition timeouts_ok :: "bool \<Rightarrow> nat \<Rightarrow> ('u, 'k) runtime \<Rightarrow> bool" where
  "timeouts_ok lax i r \<longleftrightarrow> timed_but lax i None (r_hook r) r
     \<and> (\<forall>d fd f e to t k. r_pc r = Trying d fd f e to t k \<longrightarrow> h_tinfo (r_hook r) t = Some 0)"

lemma callbacksD:
  assumes "callbacks_ok i s r" and "OnTimerBind t1 (Some (TimeoutFn t2 fd k e)) \<in> pending_fns i (h_world s)"
  shows "t2 = t1" and "t1 < h_next s" and "calls r t1 c \<Longrightarrow> c = (fd, e)"
  using assms unfolding callbacks_ok_def by blast+

lemma timed_butD:
  assumes "timed_but lax i me s r"
  shows "callbacks_ok i s r" and "Some e \<noteq> me \<Longrightarrow> r_dors r e = Some st \<Longrightarrow> timed_ok lax i s e st"
  using assms unfolding timed_but_def by blast+

section \<open>Steps\<close>

lemma callbacks_step:
  assumes c: "callbacks_ok i s r" and f: "follows i G A (h_world s) (h_world s')" and n: "h_next s \<le> h_next s'"
    and r: "\<And>t c. calls r' t c \<Longrightarrow> calls r t c \<or> h_next s \<le> t"
    and A: "\<And>t1 t2 fd k e. OnTimerBind t1 (Some (TimeoutFn t2 fd k e)) \<in> A
      \<Longrightarrow> t2 = t1 \<and> t1 < h_next s' \<and> (\<forall>c. calls r' t1 c \<longrightarrow> c = (fd, e))"
  shows "callbacks_ok i s' r'"
  unfolding callbacks_ok_def
proof (intro allI impI)
  fix t1 t2 fd k e assume p: "OnTimerBind t1 (Some (TimeoutFn t2 fd k e)) \<in> pending_fns i (h_world s')"
  then consider "OnTimerBind t1 (Some (TimeoutFn t2 fd k e)) \<in> pending_fns i (h_world s)"
    | "OnTimerBind t1 (Some (TimeoutFn t2 fd k e)) \<in> A" using followsD(4) [OF f] by blast
  then show "t2 = t1 \<and> t1 < h_next s' \<and> (\<forall>c. calls r' t1 c \<longrightarrow> c = (fd, e))"
  proof cases
    case 1
    note C = callbacksD [OF c 1]
    have "calls r' t1 c \<Longrightarrow> c = (fd, e)" for c using r C(2,3) by (meson not_less)
    then show ?thesis using C(1,2) n by simp
  next
    case 2
    then show ?thesis by (rule A)
  qed
qed

lemma timer_fn_ages:
  assumes "timer_ok i (Some p) s" and "hook_good i s" and "hook_good i s'" and "hook_ages i s s'"
  shows "timer_fn i s' p = None \<or> timer_fn i s' p = timer_fn i s p"
proof -
  obtain m where m: "w_scheds (h_world s) i = Some (Io m)" by (rule hook_good_iom [OF assms(2)])
  obtain m' where m': "w_scheds (h_world s') i = Some (Io m')" by (rule hook_good_iom [OF assms(3)])
  have "p < h_next s" using assms(1) m unfolding timer_ok_def by blast
  moreover have "timers_age (h_next s) (io_timers m) (io_timers m')" using assms(4) m m' unfolding hook_ages_def by blast
  ultimately show ?thesis using m m' by (simp add: timer_fn_def timers_age_def)
qed

lemma timed_ok_step:
  assumes t: "timed_ok lax i s d st" and o: "strand_ok i s st" and f: "follows i G A (h_world s) (h_world s')"
    and good: "hook_good i s" "hook_good i s'" and ages: "hook_ages i s s'"
    and G: "\<And>t fd e. strand_tinfo st = Some t \<Longrightarrow> bind_fn t fd i e \<notin> G"
    and tinfo: "\<And>t. strand_tinfo st = Some t \<Longrightarrow> h_tinfo s' t = h_tinfo s t"
  shows "timed_ok lax i s' d st"
  using t
proof (cases rule: timed_ok.cases [of "(lax, i, s, d, st)"])
  case (1 lax' i' s0 d0 fd g e to t p k)
  then have st: "st = InIo fd g e to t (Some p) k" by simp
  have T: "fd_range fd" "single e" "armed lax i s d fd e t"
    "timer_fn i s p = None \<or> timer_fn i s p = Some (bind_fn t fd i e)" using t by (simp_all add: st)
  have "timer_ok i (Some p) s" using o by (simp add: strand_ok_def st)
  from timer_fn_ages [OF this good ages] T(4)
  have fn: "timer_fn i s' p = None \<or> timer_fn i s' p = Some (bind_fn t fd i e)" by auto
  have "0 \<le> fd" using T(1) by (simp add: fd_range_def)
  then have "armed lax i s' d fd e t"
    using T(2,3) followsD(1-3) [OF f] G [of t fd e] tinfo [of t] unfolding armed_def by (auto simp: st)
  then show ?thesis using T(1,2) fn by (simp add: st)
qed simp_all

text \<open>Over a step that touches only the \<open>timerInfo\<close> \<open>T\<close>, which is of no other coroutine.\<close>

lemma timed_step:
  assumes t: "timed_but lax i me s r" and a: "hook_good i s" "hook_good i s'" "hook_ages i s s'"
    and f: "follows i G A (h_world s) (h_world s')"
    and o: "\<And>e st. Some e \<noteq> me \<Longrightarrow> r_dors r e = Some st \<Longrightarrow> strand_ok i s st \<and> (strand_tinfo st = None \<or> strand_tinfo st \<noteq> T)"
    and G: "\<And>t fd e. bind_fn t fd i e \<in> G \<Longrightarrow> T = Some t"
    and tinfo: "\<And>t. t < h_next s \<Longrightarrow> T \<noteq> Some t \<Longrightarrow> h_tinfo s' t = h_tinfo s t"
    and A: "\<And>t1 t2 fd k e. OnTimerBind t1 (Some (TimeoutFn t2 fd k e)) \<in> A
      \<Longrightarrow> t2 = t1 \<and> t1 < h_next s' \<and> (\<forall>c. calls r t1 c \<longrightarrow> c = (fd, e))"
  shows "timed_but lax i me s' r"
  unfolding timed_but_def
proof (intro conjI allI impI)
  show "callbacks_ok i s' r"
    using callbacks_step [OF timed_butD(1) [OF t] f _ _ A] a(3) by (simp add: hook_ages_def)
  fix e st assume e: "Some e \<noteq> me" "r_dors r e = Some st"
  have st: "strand_ok i s st" "strand_tinfo st = None \<or> strand_tinfo st \<noteq> T" using o [OF e] by simp_all
  have "t < h_next s" if "strand_tinfo st = Some t" for t using st(1) that by (simp add: strand_ok_def)
  then show "timed_ok lax i s' e st"
    by (intro timed_ok_step [OF timed_butD(2) [OF t e] st(1) f a]) (use st(2) G tinfo in auto)
qed

lemma timed_but_step:
  assumes t: "timed_but lax i (Some d) s r" and r: "running i d T P s r" and a: "adds i X s s'"
    and f: "follows i G A (h_world s) (h_world s')"
    and G: "\<And>t fd e. bind_fn t fd i e \<in> G \<Longrightarrow> T = Some t"
    and tinfo: "\<And>t. t < h_next s \<Longrightarrow> T \<noteq> Some t \<Longrightarrow> h_tinfo s' t = h_tinfo s t"
    and A: "\<And>t1 t2 fd k e. OnTimerBind t1 (Some (TimeoutFn t2 fd k e)) \<in> A
      \<Longrightarrow> t2 = t1 \<and> t1 < h_next s' \<and> (\<forall>c. calls r t1 c \<longrightarrow> c = (fd, e))"
  shows "timed_but lax i (Some d) s' r"
proof (rule timed_step [OF t _ _ _ f _ G tinfo A])
  show "hook_good i s" "hook_good i s'" "hook_ages i s s'" using r a by (simp_all add: running_def adds_def)
  fix e st assume e: "Some e \<noteq> Some d" "r_dors r e = Some st"
  have "others_ok i (Some d) T s r" using r by (simp add: running_def)
  from othersD(2) [OF this e] show "strand_ok i s st \<and> (strand_tinfo st = None \<or> strand_tinfo st \<noteq> T)"
    by (simp add: other_ok_def)
qed

text \<open>A step that adds no callback of a time-out and cancels no timer.\<close>

lemma timed_but_plain:
  assumes t: "timed_but lax i (Some d) s r" and r: "running i d T P s r" and a: "adds i X s s'"
    and f: "follows i {} A (h_world s) (h_world s')"
    and tinfo: "\<And>t. t < h_next s \<Longrightarrow> T \<noteq> Some t \<Longrightarrow> h_tinfo s' t = h_tinfo s t"
    and A: "\<And>t1 g. OnTimerBind t1 g \<notin> A"
  shows "timed_but lax i (Some d) s' r"
  by (rule timed_but_step [OF t r a f]) (use tinfo A in auto)

lemma timed_but_same:
  assumes "timed_but lax i (Some d) s r" and "running i d T P s r" and "adds i X s s'" and "h_world s' = h_world s"
    and "\<And>t. t < h_next s \<Longrightarrow> T \<noteq> Some t \<Longrightarrow> h_tinfo s' t = h_tinfo s t"
  shows "timed_but lax i (Some d) s' r"
  by (rule timed_but_plain [OF assms(1-3), of "{}"]) (use assms(4,5) in simp_all)

text \<open>The call ends and its \<open>timerInfo\<close> is given up.\<close>

lemma timed_but_forget:
  assumes t: "timed_but lax i (Some d) s r" and r: "running i d (Some t) P s r"
  shows "timed_but lax i (Some d) (forget_tinfo t s) r"
  unfolding timed_but_def
proof (intro conjI allI impI)
  show "callbacks_ok i (forget_tinfo t s) r" using timed_butD(1) [OF t] by (simp add: callbacks_ok_def)
  fix e st assume e: "Some e \<noteq> Some d" "r_dors r e = Some st"
  have "others_ok i (Some d) (Some t) s r" using r by (simp add: running_def)
  from othersD(2) [OF this e] have "strand_tinfo st \<noteq> Some t" by (auto simp: other_ok_def)
  then show "timed_ok lax i (forget_tinfo t s) e st" using timed_butD(2) [OF t e]
    by (cases rule: timed_ok.cases [of "(lax, i, s, e, st)"]) (simp_all add: armed_def timer_fn_def)
qed

text \<open>The coroutine enters a call with a new \<open>timerInfo\<close>.\<close>

definition in_call ::
  "nat \<Rightarrow> int \<Rightarrow> u32 \<Rightarrow> nat \<Rightarrow> ('u, 'k) runtime \<Rightarrow> ('u, 'k) runtime" where
  "in_call d fd e t r = r\<lparr>r_pc := Trying d fd (\<lambda>k. (0, 0, k)) e 0 t (\<lambda>n err. PEnd)\<rparr>"

lemma in_call_simps [simp]:
  "r_dors (in_call d fd e t r) = r_dors r" "r_hook (in_call d fd e t r) = r_hook r"
  "r_idle_done (in_call d fd e t r) = r_idle_done r"
  "suspend i d st s (in_call d fd e t r) = suspend i d st s r" "answer d k n s (in_call d fd e t r) = answer d k n s r"
  "try_again d fd f e to t k' s (in_call d fd e t r) = try_again d fd f e to t k' s r"
  by (simp_all add: in_call_def suspend_def give_back_def answer_def continue_def try_again_def)

lemma in_call_calls: "calls (in_call d fd e t r) t (fd, e)"
  by (auto simp: calls_def in_call_def)

lemma running_cong:
  assumes "running i d T P s r" and "r_dors r' = r_dors r" and "r_idle_done r' = r_idle_done r"
  shows "running i d T P s r'"
  using assms by (simp add: running_def others_ok_def unique_tinfo_def)

lemma timed_but_call:
  assumes t: "timed_but lax i me s r" and n: "h_next s \<le> t"
  shows "timed_but lax i me s (in_call d fd e t r)"
proof -
  have "calls r t' c \<or> h_next s \<le> t'" if "calls (in_call d fd e t r) t' c" for t' c
    using that n by (auto simp: calls_def in_call_def)
  then have "callbacks_ok i s (in_call d fd e t r)"
    by (intro callbacks_step [OF timed_butD(1) [OF t], of "{}" "{}"]) simp_all
  then show ?thesis using t by (simp add: timed_but_def)
qed

section \<open>Moves\<close>

lemma callbacks_calls:
  "callbacks_ok i s r \<Longrightarrow> (\<And>t c. calls r' t c \<Longrightarrow> calls r t c) \<Longrightarrow> callbacks_ok i s r'"
  unfolding callbacks_ok_def by blast

lemma timed_move:
  assumes t: "timed_but lax i (Some d) s r" and r': "r_dors r' = (r_dors r)(d \<mapsto> st)" "r_hook r' = s"
    and st: "timed_ok lax i s d st" and c: "\<And>t c. strand_tinfo st = Some t \<Longrightarrow> strand_call st = Some c \<Longrightarrow> calls r t c"
    and pc: "\<And>x fd f e to t k. r_pc r' = Trying x fd f e to t k \<Longrightarrow> calls r t (fd, e) \<and> h_tinfo s t = Some 0"
  shows "timeouts_ok lax i r'"
proof -
  have "calls r t' c'" if "calls r' t' c'" for t' c'
    using that unfolding calls_def [of r']
  proof (elim disjE exE conjE)
    fix x u assume x: "r_dors r' x = Some u" "strand_tinfo u = Some t'" "strand_call u = Some c'"
    then show "calls r t' c'" using c by (cases "x = d") (auto simp: r'(1) calls_def)
  next
    fix x f to k assume "r_pc r' = Trying x (fst c') f (snd c') to t' k"
    then show "calls r t' c'" using pc by fastforce
  qed
  then have "callbacks_ok i s r'" by (rule callbacks_calls [OF timed_butD(1) [OF t]])
  moreover have "timed_ok lax i s x u" if "r_dors r' x = Some u" for x u
    using that st timed_butD(2) [OF t, of x u] by (cases "x = d") (simp_all add: r'(1))
  ultimately show ?thesis using pc r'(2) by (auto simp: timeouts_ok_def timed_but_def)
qed

lemma timed_continue: "timed_but lax i (Some d) s r \<Longrightarrow> timeouts_ok lax i (continue d p s r)"
  by (rule timed_move [where d = d and st = "Current None"]) (simp_all add: continue_def)

lemma timed_answer: "timed_but lax i (Some d) s r \<Longrightarrow> timeouts_ok lax i (answer d k n s r)"
  by (simp add: answer_def timed_continue)

lemma timed_try_again:
  "timed_but lax i (Some d) s r \<Longrightarrow> calls r t (fd, e) \<Longrightarrow> h_tinfo s t = Some 0
    \<Longrightarrow> timeouts_ok lax i (try_again d fd f e to t k s r)"
  by (rule timed_move [where d = d and st = "Current (Some t)"]) (auto simp: try_again_def)

text \<open>An update of the scheduler's counts changes nothing here.\<close>

lemma follows_upd_sched:
  assumes good: "hook_good i s" and g: "\<And>sch. m_tasks (g sch) = m_tasks sch"
  shows "follows i {} {} (h_world s) (h_world (upd_sched i g s))" and "timer_fn i (upd_sched i g s) p = timer_fn i s p"
    and "in_queue i (h_world (upd_sched i g s)) d = in_queue i (h_world s) d"
    and "waiting i (h_world (upd_sched i g s)) d fd e = waiting i (h_world s) d fd e"
    and "pending_fns i (h_world (upd_sched i g s)) = pending_fns i (h_world s)"
proof -
  obtain m where m: "w_scheds (h_world s) i = Some (Io m)" by (rule hook_good_iom [OF good])
  let ?w = "put_iom i (m\<lparr>io_sched := g (io_sched m)\<rparr>) (h_world s)"
  have u: "upd_sched i g s = s\<lparr>h_world := ?w\<rparr>" using m by (simp add: upd_sched_def)
  have m': "w_scheds ?w i = Some (Io (m\<lparr>io_sched := g (io_sched m)\<rparr>))" by (simp add: put_iom_def)
  have ctx: "ctx_or_new i k ?w = ctx_or_new i k (h_world s)" for k
    by (rule ctx_or_new_cong [OF m m']) (simp_all add: put_iom_def)
  show "follows i {} {} (h_world s) (h_world (upd_sched i g s))"
    unfolding u by (simp, rule follows_same [OF m m']) (simp_all add: g ctx)
  show "timer_fn i (upd_sched i g s) p = timer_fn i s p" using m m' by (simp add: u timer_fn_def)
  show "in_queue i (h_world (upd_sched i g s)) d = in_queue i (h_world s) d"
    by (simp add: u in_queue_def queue_at_iom [OF m] queue_at_iom [OF m'] g)
  show "waiting i (h_world (upd_sched i g s)) d fd e = waiting i (h_world s) d fd e"
    by (simp add: u waiting_cong [OF ctx])
  show "pending_fns i (h_world (upd_sched i g s)) = pending_fns i (h_world s)"
    by (simp add: u pending_fns_eq [OF m] pending_fns_eq [OF m'] g)
qed

lemma timed_ok_upd:
  assumes "hook_good i s" and "\<And>sch. m_tasks (g sch) = m_tasks sch"
  shows "timed_ok lax i (upd_sched i g s) d st = timed_ok lax i s d st"
proof -
  have "h_tinfo (upd_sched i g s) = h_tinfo s" by (simp add: upd_sched_def split: option.split sched_obj.split)
  then have "armed lax i (upd_sched i g s) d fd e t = armed lax i s d fd e t" for fd e t
    by (simp add: armed_def follows_upd_sched(3-5) [OF assms])
  then show ?thesis
    by (cases rule: timed_ok.cases [of "(lax, i, s, d, st)"]) (simp_all add: follows_upd_sched(2) [OF assms])
qed

lemma timed_but_upd:
  assumes "hook_good i s" and "\<And>sch. m_tasks (g sch) = m_tasks sch"
  shows "timed_but lax i me (upd_sched i g s) r = timed_but lax i me s r"
proof -
  have "h_next (upd_sched i g s) = h_next s" by (simp add: upd_sched_def split: option.split sched_obj.split)
  then show ?thesis
    by (simp add: timed_but_def callbacks_ok_def follows_upd_sched(5) [OF assms] timed_ok_upd [OF assms])
qed

lemma timed_suspend:
  assumes t: "timed_but lax i (Some d) s r" and good: "hook_good i s" and st: "timed_ok lax i s d st"
    and c: "\<And>t c. strand_tinfo st = Some t \<Longrightarrow> strand_call st = Some c \<Longrightarrow> calls r t c"
  shows "timeouts_ok lax i (suspend i d st s r)"
proof -
  let ?g = "\<lambda>sch :: 'a hook_fn fn Scheduler. sch\<lparr>m_activeThreadCount := m_activeThreadCount sch - 1\<rparr>"
  have g: "m_tasks (?g sch) = m_tasks sch" for sch by simp
  have t': "timed_but lax i (Some d) (upd_sched i ?g s) r" using t by (simp add: timed_but_upd [OF good g])
  show ?thesis
    by (rule timed_move [OF t', where st = st])
      (use st c in \<open>simp_all add: suspend_def give_back_def timed_ok_upd [OF good g]\<close>)
qed

end
