(* ===== verification/RuntimeTimed.thy ===== *)
theory RuntimeTimed
  imports RuntimeTimeouts
begin

text \<open>
  The hooks keep the account of time-outs, and so does every step of a coroutine: the calls it
  makes, the waits it begins, and its return from a \<open>yield\<close>.
\<close>

section \<open>The hooks\<close>

lemma follows_add_timer:
  assumes good: "hook_good i s" and f: "fn_ok i cb" and a: "add_timer env i ms cb s = Inr (p, s1)"
  shows "follows i {} {cb} (h_world s) (h_world s1)" and "cb \<in> pending_fns i (h_world s1)"
    and "timer_fn i s1 p = Some cb" and "h_tinfo s1 = h_tinfo s"
proof -
  let ?now = "clock_ms (he_orig env) (h_kernel s)"
  obtain w where w: "io_addTimer i (h_next s) ms (Some cb) False ?now (h_world s) = Inr w" "world_good i (h_next s + 1) w"
    "\<forall>m'. w_scheds w i = Some (Io m') \<longrightarrow> t_manager (tobj (io_timers m') (h_next s))
       \<and> t_func (tobj (io_timers m') (h_next s)) = Some cb"
    using addTimer_wakes [OF hook_goodD(1) [OF good] f] by blast
  have s1: "p = h_next s" "h_world s1 = w" "h_tinfo s1 = h_tinfo s" using a w(1) by (auto simp: add_timer_def)
  show "follows i {} {cb} (h_world s) (h_world s1)" "cb \<in> pending_fns i (h_world s1)"
    unfolding s1 by (rule follows_addTimer [OF hook_goodD(1) [OF good] w(1)])+
  obtain m where "w_scheds w i = Some (Io m)" by (rule world_goodE [OF w(2)])
  then show "timer_fn i s1 p = Some cb" using w(3) by (simp add: timer_fn_def s1)
  show "h_tinfo s1 = h_tinfo s" by (rule s1)
qed

text \<open>The wait: its time-out callback is on a timer when there is one, and the coroutine waits.\<close>

definition wait_fns :: "nat option \<Rightarrow> nat \<Rightarrow> int \<Rightarrow> nat \<Rightarrow> u32 \<Rightarrow> 'u hook_fn fn set" where
  "wait_fns timer t fd i e = (if timer = None then {} else {bind_fn t fd i e})"

lemma follows_wait_begin:
  assumes good: "hook_good i s" and may: "one_waiter i s (WaitFor fd e)"
    and w: "wait_begin (at_thread env i d) fd e to t s = Inr (j, timer, rt, s1)"
  shows "follows i {} {bind_fn t fd i e} (h_world s) (h_world s1)"
    and "rt = 0 \<Longrightarrow> waiting i (h_world s1) d fd e"
    and "timer = Some p \<Longrightarrow> bind_fn t fd i e \<in> pending_fns i (h_world s1) \<and> timer_fn i s1 p = Some (bind_fn t fd i e)"
    and "h_tinfo s1 = h_tinfo s"
proof -
  let ?te = "at_thread env i d" and ?cb = "bind_fn t fd i e :: 'a hook_fn fn"
  have f: "fn_ok i ?cb" using may by (simp add: bind_fn_def)
  obtain s0 w1 where s0: "(if to \<noteq> - 1 then rbind (add_timer ?te i to ?cb s) (\<lambda>(p, s1). Inr (Some p, s1))
      else Inr (None, s)) = Inr (timer, s0)"
    and a: "addEvent (he_thread ?te) (he_ctl ?te) i fd e None False (h_world s0) = Inr (rt, w1)" and s1: "s1 = s0\<lparr>h_world := w1\<rparr>"
    using w this_iom_at(1) [OF good, of env d] unfolding wait_begin_def bind_fn_def
    by (auto simp: rbind_eq_Inr simp del: at_thread_simps)
  have T: "follows i {} {?cb} (h_world s) (h_world s0) \<and> adds i {#} s s0 \<and> h_tinfo s0 = h_tinfo s
    \<and> (\<forall>p. timer = Some p \<longrightarrow> ?cb \<in> pending_fns i (h_world s0) \<and> timer_fn i s0 p = Some ?cb)
    \<and> (\<forall>k. ctx_or_new i k (h_world s0) = ctx_or_new i k (h_world s))"
  proof (cases "to = - 1")
    case True
    then show ?thesis using s0 adds_same [OF good] by simp
  next
    case False
    then obtain p where p: "add_timer ?te i to ?cb s = Inr (p, s0)" "timer = Some p" using s0 by (auto simp: rbind_eq_Inr)
    note F = follows_add_timer [OF good f p(1)]
    have "adds i {#} s s0 \<and> (\<forall>k. ctx_or_new i k (h_world s0) = ctx_or_new i k (h_world s))"
      using adds_add_timer [OF good f, of ?te to] p(1) by (auto simp: bind_fn_def)
    then show ?thesis using F p(2) by simp
  qed
  then have g0: "hook_good i s0" by (auto simp: adds_def)
  have fd: "fd_range fd" "single e" "fd_mask i fd (h_world s0) AND e = 0"
    using may fd_mask_cong [of i "h_world s0" "h_world s" fd] T by simp_all
  note E = follows_addEvent [OF hook_goodD(3) [OF g0] fd at_thread_simps(1,2) a]
  show "rt = 0 \<Longrightarrow> waiting i (h_world s1) d fd e" using E(2) by (simp add: s1)
  have "follows i ({} \<union> {}) ({?cb} \<union> {}) (h_world s) w1" using T E(1) by (blast intro: follows_trans)
  then show "follows i {} {?cb} (h_world s) (h_world s1)" by (simp add: s1)
  show "h_tinfo s1 = h_tinfo s" using T by (simp add: s1)
  assume p: "timer = Some p"
  then have "?cb \<in> pending_fns i w1" using T followsD(3) [OF E(1)] by blast
  moreover obtain m where m: "w_scheds (h_world s0) i = Some (Io m)" by (rule hook_good_iom [OF g0])
  then obtain m' where "w_scheds w1 i = Some (Io m')" "io_timers m' = io_timers m"
    using calm_addEvent [OF a, of i] unfolding calm_def by blast
  then have "timer_fn i s1 p = timer_fn i s0 p" using m by (simp add: timer_fn_def s1)
  ultimately show "?cb \<in> pending_fns i (h_world s1) \<and> timer_fn i s1 p = Some ?cb" using T p by (simp add: s1)
qed

lemma follows_cancel_timer:
  assumes good: "hook_good i s" and t: "timer_ok i timer s" and c: "cancel_timer i timer s = Inr s1"
  shows "follows i (case timer of None \<Rightarrow> {} | Some p \<Rightarrow> set_option (timer_fn i s p)) {} (h_world s) (h_world s1)"
proof (cases timer)
  case None
  then show ?thesis using c by (simp add: cancel_timer_def)
next
  case (Some p)
  obtain m where m: "w_scheds (h_world s) i = Some (Io m)" and tg: "timers_good i (h_next s) (io_timers m)"
    by (rule world_goodE [OF hook_goodD(1) [OF good]])
  have tm: "tm_inv (io_timers m)" using tg by (simp add: timers_good_def)
  have p: "t_manager (tobj (io_timers m) p)" using t Some m unfolding timer_ok_def by blast
  obtain b ts where b: "cancel p (io_timers m) = Inr (b, ts)" "h_world s1 = put_iom i (m\<lparr>io_timers := ts\<rparr>) (h_world s)"
    using c m Some by (auto simp: cancel_timer_def iom_at_def rbind_eq_Inr)
  show ?thesis using follows_cancel [OF m tm p b(1)] m Some by (simp add: b(2) timer_fn_def)
qed

text \<open>A wait that ends: its timer is cancelled, and a call that goes on was not timed out.\<close>

lemma wait_end_outcome:
  assumes "wait_end i timer t s = Inr (res, s1)"
  obtains s0 c where "cancel_timer i timer s = Inr s0" and "h_tinfo s0 t = Some c" and "h_world s1 = h_world s0"
    and "h_tinfo s1 = h_tinfo s0" and "res = None \<longleftrightarrow> c = 0"
  using assms by (auto simp: wait_end_def rbind_eq_Inr split: option.splits if_splits)

lemma follows_schedule_in:
  assumes good: "hook_good i s" and a: "schedule_in i fc s = Inr s1"
  shows "follows i {} (task_fns (requested fc)) (h_world s) (h_world s1)"
    and "queue_at i (h_world s1) = queue_at i (h_world s) @ requested fc" and "h_tinfo s1 = h_tinfo s"
proof -
  obtain w where w: "schedule_to (Some i) fc (- 1) (h_world s) = Inr w" "s1 = s\<lparr>h_world := w\<rparr>"
    using a by (auto simp: schedule_in_def rbind_eq_Inr)
  show "follows i {} (task_fns (requested fc)) (h_world s) (h_world s1)"
    "queue_at i (h_world s1) = queue_at i (h_world s) @ requested fc" "h_tinfo s1 = h_tinfo s"
    using follows_schedule_to [OF hook_goodD(3) [OF good] w(1)] by (simp_all add: w(2))
qed

lemma close_outcome:
  assumes good: "hook_good i s" and fd: "fd_range fd" and c: "close (at_thread env i d) fd s = Inr (n, s1)"
  shows "follows i {} {} (h_world s) (h_world s1)" and "h_tinfo s1 = h_tinfo s"
proof -
  let ?te = "at_thread env i d"
  have call: "h_world (snd (call f v)) = h_world v" "h_tinfo (snd (call f v)) = h_tinfo v" for f :: "'b syscall" and v :: "('a, 'b) hook_state"
    by (simp_all add: call_def split_beta)
  have out: "h_world s1 = h_world s \<and> h_tinfo s1 = h_tinfo s
    \<or> (\<exists>b. cancelAll (he_thread ?te) (he_ctl ?te) i fd (h_world s) = Inr (b, h_world s1)) \<and> h_tinfo s1 = h_tinfo s"
  proof (cases "st_hookEnable s \<and> slot fd (h_fds s) \<noteq> None")
    case False
    then have "call (close_f (he_orig env) fd) s = (n, s1)"
      using c fd_get_at [OF good fd, of ?te] by (auto simp: close_def split: if_splits)
    then show ?thesis using call [of "close_f (he_orig env) fd" s] by simp
  next
    case True
    then obtain b w mgr where w: "cancelAll (he_thread ?te) (he_ctl ?te) i fd (h_world s) = Inr (b, w)"
      "call (close_f (he_orig env) fd) (s\<lparr>h_world := w, h_fds := mgr\<rparr>) = (n, s1)"
      using c fd_get_at [OF good fd, of ?te] this_iom_at(2) [OF good, of env d]
      by (auto simp: close_def rbind_eq_Inr split: option.splits simp del: at_thread_simps(3))
    then show ?thesis using call [of "close_f (he_orig env) fd" "s\<lparr>h_world := w, h_fds := mgr\<rparr>"] by auto
  qed
  show "h_tinfo s1 = h_tinfo s" using out by blast
  show "follows i {} {} (h_world s) (h_world s1)"
    using out follows_cancelAll [OF hook_goodD(1) [OF good] fd at_thread_simps(1)] by auto
qed


lemma entered_outcome:
  assumes good: "hook_good i s" and fd: "fd_range fd"
  shows "do_io_enter env fd f so s = Inr (Answered n s1) \<Longrightarrow> h_world s1 = h_world s \<and> h_tinfo s1 = h_tinfo s"
    and "do_io_enter env fd f so s = Inr (Going to t s1) \<Longrightarrow> h_world s1 = h_world s \<and> h_tinfo s1 = (h_tinfo s)(t \<mapsto> 0)"
    and "connect_enter env fd a len to0 s = Inr (Answered n s1) \<Longrightarrow> h_world s1 = h_world s \<and> h_tinfo s1 = h_tinfo s"
    and "connect_enter env fd a len to0 s = Inr (Going to t s1) \<Longrightarrow> h_world s1 = h_world s \<and> h_tinfo s1 = (h_tinfo s)(t \<mapsto> 0)"
  using fd_get_at [OF assms, of env]
  by (auto simp: do_io_enter_def connect_enter_def call_def new_tinfo_def Let_def split: if_splits option.splits prod.splits)

lemma connect_result_outcome:
  "h_world (snd (connect_result env fd s)) = h_world s" "h_tinfo (snd (connect_result env fd s)) = h_tinfo s"
  by (auto simp: connect_result_def getsockopt_def call_def Let_def split: prod.splits)

lemma call_eintr_kept:
  assumes "call_eintr f s = Some (n, s1)"
  shows "h_world s1 = h_world s" and "h_tinfo s1 = h_tinfo s"
proof -
  have "s1 = s\<lparr>h_kernel := h_kernel s1, h_errno := h_errno s1\<rparr>" using call_eintr_outcome [OF assms] by blast
  then show "h_world s1 = h_world s" "h_tinfo s1 = h_tinfo s"
    by (metis hook_state.select_convs hook_state.update_convs hook_state.surjective)+
qed

section \<open>The steps of a coroutine\<close>

definition timely :: "bool \<Rightarrow> nat \<Rightarrow> fault + ('u, 'k) runtime \<Rightarrow> bool" where
  "timely lax i res \<longleftrightarrow> (\<forall>r'. res = Inr r' \<longrightarrow> timeouts_ok lax i r')"

lemma timely_settle: "timely lax i res \<Longrightarrow> runtime_inv i (settle r res) \<Longrightarrow> timeouts_ok lax i (settle r res)"
  by (auto simp: timely_def settle_def runtime_inv_def split: sum.splits)

lemma timelyI: "timeouts_ok lax i r' \<Longrightarrow> timely lax i (Inr r')"
  by (simp add: timely_def)

lemma begin_io_timely:
  assumes t: "timed_but lax i (Some d) (r_hook r) r" and r: "running i d None {#} (r_hook r) r" and fd: "fd_range fd"
  shows "timely lax i (begin_io env i d fd f event so k r)"
proof -
  let ?te = "at_thread env i d"
  have good: "hook_good i (r_hook r)" by (rule running_good [OF r])
  obtain e where e: "do_io_enter ?te fd f so (r_hook r) = Inr e" "entered i (r_hook r) e"
    using do_io_enter_ok [OF good fd] by blast
  show ?thesis
  proof (cases e)
    case (Answered n s)
    then have "timed_but lax i (Some d) s r"
      using e timed_but_same [OF t r, of "{#}" s] entered_outcome(1) [OF good fd, of ?te f so n s] by simp
    then show ?thesis using e(1) Answered by (simp add: begin_io_def timelyI timed_answer)
  next
    case (Going to x s)
    let ?r = "in_call d fd event x r"
    have s: "h_world s = h_world (r_hook r)" "h_tinfo s = (h_tinfo (r_hook r))(x \<mapsto> 0)"
      using e(1) Going entered_outcome(2) [OF good fd, of ?te f so to x s] by simp_all
    have a: "adds i {#} (r_hook r) s" "h_next (r_hook r) \<le> x" using e(2) Going by simp_all
    have "timed_but lax i (Some d) s ?r"
      by (rule timed_but_same [OF timed_but_call [OF t a(2)] running_cong [OF r] a(1) s(1)]) (use s(2) a(2) in auto)
    from timed_try_again [OF this in_call_calls] s(2) have "timeouts_ok lax i (try_again d fd f event to x k s r)" by simp
    then show ?thesis using e(1) Going by (simp add: begin_io_def timelyI)
  qed
qed

text \<open>A wait that begins, for the coroutine \<open>d\<close> in the call with the \<open>timerInfo\<close> \<open>t\<close>.\<close>

lemma timed_but_wait:
  assumes t: "timed_but lax i (Some d) s r" and r: "running i d (Some x) P s r" and c: "calls r x (fd, e)"
    and u: "\<And>c. calls r x c \<Longrightarrow> c = (fd, e)"
    and may: "one_waiter i s (WaitFor fd e)" and w: "wait_begin (at_thread env i d) fd e to x s = Inr (j, timer, rt, s1)"
  shows "timed_but lax i (Some d) s1 r"
proof -
  have good: "hook_good i s" by (rule running_good [OF r])
  note F = follows_wait_begin [OF good may w]
  have a: "adds i (if rt = 0 then {#d#} else {#}) s s1" using adds_wait_begin [OF good may, of env d to x] w by auto
  have x: "x < h_next s1" using r a by (auto simp: running_def adds_def hook_ages_def)
  show ?thesis
    by (rule timed_but_step [OF t r a F(1)]) (use F(4) x u in \<open>auto simp: bind_fn_def\<close>)
qed

text \<open>The \<open>timerInfo\<close> of the call that runs is of no other call.\<close>

lemma calls_own:
  assumes r: "running i d (Some x) P s r" and c: "calls r x c"
  shows "(\<exists>st. r_dors r d = Some st \<and> strand_tinfo st = Some x \<and> strand_call st = Some c)
    \<or> (\<exists>d f to k. r_pc r = Trying d (fst c) f (snd c) to x k)"
proof -
  have "others_ok i (Some d) (Some x) s r" using r by (simp add: running_def)
  then have "y = d" if "r_dors r y = Some st" "strand_tinfo st = Some x" for y st
    using that othersD(2) [of i "Some d" "Some x" s r y st] by (cases "y = d") (simp_all add: other_ok_def)
  then show ?thesis using c unfolding calls_def by blast
qed

lemma calls_trying:
  assumes "running i d (Some x) P s r" and "r_pc r = Trying d fd f e to x k" and "\<not> suspended (r_dors r d)"
  shows "calls r x (fd, e)" and "calls r x c \<Longrightarrow> c = (fd, e)"
proof -
  show "calls r x (fd, e)" using assms(2) by (auto simp: calls_def)
  have "strand_call st = None" if "r_dors r d = Some st" for st using assms(3) that by (cases st) simp_all
  then show "calls r x c \<Longrightarrow> c = (fd, e)" using calls_own [OF assms(1)] assms(2) by fastforce
qed

lemma do_io_turn_timely:
  assumes t: "timed_but lax i (Some d) s r" and r: "running i d (Some x) {#} s r" and x: "h_tinfo s x = Some 0"
    and pc: "r_pc r = Trying d fd f e to x k" and run: "\<not> suspended (r_dors r d)"
    and may: "n = - 1 \<and> h_errno s = EAGAIN \<longrightarrow> one_waiter i s (WaitFor fd e)"
  shows "timely lax i (do_io_turn env i d fd f e to x k n s r)"
proof (cases "n = - 1 \<and> h_errno s = EAGAIN")
  case False
  then have "do_io_turn env i d fd f e to x k n s r = Inr (answer d k n (forget_tinfo x s) r)"
    unfolding do_io_turn_def by (rule if_not_P)
  then show ?thesis using timed_but_forget [OF t r] by (simp add: timelyI timed_answer)
next
  case True
  have good: "hook_good i s" by (rule running_good [OF r])
  have may': "one_waiter i s (WaitFor fd e)" using True may by blast
  note C = calls_trying [OF r pc run]
  obtain timer rt s1 where w: "wait_begin (at_thread env i d) fd e to x s = Inr (i, timer, rt, s1)"
    "adds i (if rt = 0 then {#d#} else {#}) s s1" "h_tinfo s1 = h_tinfo s" "timer_ok i timer s1"
    using adds_wait_begin [OF good may'] by blast
  note F = follows_wait_begin [OF good may' w(1)]
  have t1: "timed_but lax i (Some d) s1 r" by (rule timed_but_wait [OF t r C may' w(1)])
  have g1: "hook_good i s1" by (rule adds_good [OF w(2)])
  show ?thesis
  proof (cases "rt = 0")
    case rt: True
    have "timed_ok lax i s1 d (InIo fd f e to x timer k)"
      using may' F(2,3) rt w(3) x by (cases timer) (simp_all add: armed_def)
    then have "timeouts_ok lax i (suspend i d (InIo fd f e to x timer k) s1 r)"
      using C(1) by (intro timed_suspend [OF t1 g1]) auto
    then show ?thesis using w(1) rt True by (simp add: do_io_turn_def timelyI)
  next
    case False
    then have a: "adds i {#} s s1" using w(2) by simp
    have r1: "running i d (Some x) {#} s1 r" by (rule running_quiet [OF r a])
    obtain s2 where s2: "cancel_timer i timer s1 = Inr s2" "adds i {#} s1 s2" "h_tinfo s2 = h_tinfo s1"
      using adds_cancel_timer [OF g1 w(4)] by blast
    let ?s = "s2\<lparr>h_errno := he_ctl_errno env\<rparr>"
    have t2: "timed_but lax i (Some d) s2 r"
      by (rule timed_but_step [OF t1 r1 s2(2) follows_cancel_timer [OF g1 w(4) s2(1)]])
        (use F(3) s2(3) in \<open>auto simp: bind_fn_def split: option.splits\<close>)
    have r2: "running i d (Some x) {#} s2 r" by (rule running_quiet [OF r1 s2(2)])
    have r3: "running i d (Some x) {#} ?s r" by (rule running_quiet [OF r2 adds_errno [OF adds_good [OF s2(2)]]])
    have "timed_but lax i (Some d) ?s r" by (rule timed_but_same [OF t2 r2 adds_errno [OF adds_good [OF s2(2)]]]) simp_all
    from timed_but_forget [OF this r3] show ?thesis
      using w(1) s2(1) False True by (simp add: do_io_turn_def timelyI timed_answer)
  qed
qed


lemma begin_connect_timely:
  assumes t: "timed_but lax i (Some d) (r_hook r) r" and r: "running i d None {#} (r_hook r) r"
    and run: "\<not> suspended (r_dors r d)" and may: "one_waiter i (r_hook r) (WaitFor fd EV_WRITE)"
  shows "timely lax i (begin_connect env i d fd a len to0 k r)"
proof -
  let ?te = "at_thread env i d"
  have good: "hook_good i (r_hook r)" and fd: "fd_range fd" using running_good [OF r] may by simp_all
  obtain e where e: "connect_enter ?te fd a len to0 (r_hook r) = Inr e" "entered i (r_hook r) e"
    using connect_enter_ok [OF good fd] by blast
  show ?thesis
  proof (cases e)
    case (Answered n s)
    then have "timed_but lax i (Some d) s r"
      using e timed_but_same [OF t r, of "{#}" s] entered_outcome(3) [OF good fd, of ?te a len to0 n s] by simp
    then show ?thesis using e(1) Answered by (simp add: begin_connect_def timelyI timed_answer)
  next
    case (Going to x s)
    let ?r = "in_call d fd EV_WRITE x r"
    have s: "h_world s = h_world (r_hook r)" "h_tinfo s = (h_tinfo (r_hook r))(x \<mapsto> 0)"
      using e(1) Going entered_outcome(4) [OF good fd, of ?te a len to0 to x s] by simp_all
    have a: "adds i {#} (r_hook r) s" "h_next (r_hook r) \<le> x" using e(2) Going by simp_all
    have t1: "timed_but lax i (Some d) s ?r"
      by (rule timed_but_same [OF timed_but_call [OF t a(2)] running_cong [OF r] a(1) s(1)]) (use s(2) a(2) in auto)
    have "running i d (Some x) {#} s r" using e(2) Going running_new [OF r] by blast
    then have r1: "running i d (Some x) {#} s ?r" by (rule running_cong) simp_all
    have may1: "one_waiter i s (WaitFor fd EV_WRITE)" using may s(1) by simp
    have pc: "r_pc ?r = Trying d fd (\<lambda>k. (0, 0, k)) EV_WRITE 0 x (\<lambda>n err. PEnd)" by (simp add: in_call_def)
    have nr: "\<not> suspended (r_dors ?r d)" using run by simp
    note C = calls_trying [OF r1 pc nr]
    obtain timer rt s1 where w: "wait_begin ?te fd EV_WRITE to x s = Inr (i, timer, rt, s1)"
      "adds i (if rt = 0 then {#d#} else {#}) s s1"
      using adds_wait_begin [OF running_good [OF r1] may1] by blast
    have t2: "timed_but lax i (Some d) s1 ?r" by (rule timed_but_wait [OF t1 r1 C may1 w(1)])
    show ?thesis
    proof (cases "rt = 0")
      case True
      have "timeouts_ok lax i (suspend i d (InConnect fd x k) s1 ?r)"
        using C(1) by (intro timed_suspend [OF t2 adds_good [OF w(2)]]) auto
      then show ?thesis using e(1) Going w(1) True by (simp add: begin_connect_def timelyI)
    next
      case False
      then have "running i d (Some x) {#} s1 ?r" using w(2) running_quiet [OF r1] by simp
      moreover have "adds i {#} s1 (snd (connect_result env fd s1))" by (rule adds_connect_result [OF adds_good [OF w(2)]])
      ultimately have "timed_but lax i (Some d) (snd (connect_result env fd s1)) ?r" "running i d (Some x) {#} (snd (connect_result env fd s1)) ?r"
        using timed_but_same [OF t2] running_quiet by (simp_all add: connect_result_outcome)
      from timed_answer [OF timed_but_forget [OF this]]
      show ?thesis using e(1) Going w(1) False by (simp add: begin_connect_def timelyI split_beta)
    qed
  qed
qed

lemma begin_sleep_timely:
  assumes t: "timed_but lax i (Some d) (r_hook r) r" and r: "running i d None {#} (r_hook r) r"
  shows "timely lax i (begin_sleep env i d ms p r)"
proof -
  let ?te = "at_thread env i d" and ?cb = "Callback (WakeFn i (Some d)) :: 'a hook_fn fn"
  have good: "hook_good i (r_hook r)" by (rule running_good [OF r])
  obtain s1 where s1: "add_timer ?te i ms ?cb (r_hook r) = Inr (h_next (r_hook r), s1)" "adds i {#d#} (r_hook r) s1"
    using adds_add_timer [OF good, of ?cb ?te ms] by auto
  have "fn_ok i ?cb" by simp
  note F = follows_add_timer [OF good this s1(1)]
  have "timed_but lax i (Some d) s1 r" by (rule timed_but_plain [OF t r s1(2) F(1)]) (simp_all add: F(4))
  then have "timeouts_ok lax i (suspend i d (Asleep p) s1 r)" by (rule timed_suspend [OF _ adds_good [OF s1(2)]]) simp_all
  then show ?thesis using s1(1) this_iom_at(1) [OF good] by (simp add: begin_sleep_def timelyI)
qed

text \<open>To schedule a coroutine or a function of the user.\<close>

lemma timed_but_schedule:
  assumes t: "timed_but lax i (Some d) s r" and r: "running i d T P s r" and a: "schedule_in i fc s = Inr s1" "adds i X s s1"
    and fc: "\<And>t g. OnTimerBind t g \<notin> task_fns (requested fc)"
  shows "timed_but lax i (Some d) s1 r"
  by (rule timed_but_plain [OF t r a(2) follows_schedule_in(1) [OF running_good [OF r] a(1)]])
    (use fc follows_schedule_in(3) [OF running_good [OF r] a(1)] in simp_all)

lemma yield_timely:
  assumes t: "timed_but lax i (Some d) (r_hook r) r" and r: "running i d None {#} (r_hook r) r"
  shows "timely lax i (rbind (schedule_in i (Dor (Some d)) (r_hook r)) (\<lambda>s. Inr (suspend i d (Asleep p) s r)))"
proof -
  have "\<forall>t \<in> set (requested (Dor (Some d))). task_good i t" by (simp add: requested_wakes task_good_def)
  from adds_schedule_in [OF running_good [OF r] this] obtain s1 X where
    s1: "schedule_in i (Dor (Some d)) (r_hook r) = Inr s1" "adds i X (r_hook r) s1" by blast
  have "timed_but lax i (Some d) s1 r"
    by (rule timed_but_schedule [OF t r s1]) (simp add: requested_wakes)
  then have "timeouts_ok lax i (suspend i d (Asleep p) s1 r)" by (rule timed_suspend [OF _ adds_good [OF s1(2)]]) simp_all
  then show ?thesis using s1(1) by (simp add: timelyI)
qed

text \<open>Back from its \<open>yield\<close>.\<close>

lemma resume_task_timely:
  assumes t: "timed_but lax i (Some d) s r" and r: "running i d (strand_tinfo st) {#} s r"
    and st: "r_dors r d = Some st" "suspended (Some st)" "strand_ok i s st"
    and own: "\<And>fd f e to x p k. st = InIo fd f e to x (Some p) k
      \<Longrightarrow> timer_fn i s p = None \<or> timer_fn i s p = Some (bind_fn x fd i e)"
  shows "timely lax i (resume_task env i d s r)"
proof (cases st)
  case (Asleep p)
  then show ?thesis using t st(1) by (simp add: resume_task_def timelyI timed_continue)
next
  case (InIo fd f e to x timer k)
  have good: "hook_good i s" by (rule running_good [OF r])
  have ok: "timer_ok i timer s" "h_tinfo s x \<noteq> None" using st(3) InIo by (auto simp: strand_ok_def)
  obtain res s1 where w: "wait_end i timer x s = Inr (res, s1)" "adds i {#} s s1" "h_tinfo s1 = h_tinfo s"
    using adds_wait_end [OF good ok] by blast
  obtain s0 c where s0: "cancel_timer i timer s = Inr s0" "h_tinfo s0 x = Some c" "h_world s1 = h_world s0"
    "h_tinfo s1 = h_tinfo s0" "res = None \<longleftrightarrow> c = 0" by (rule wait_end_outcome [OF w(1)])
  have T: "strand_tinfo st = Some x" using InIo by simp
  have r0: "running i d (Some x) {#} s r" using r T by simp
  have f: "follows i (case timer of None \<Rightarrow> {} | Some p \<Rightarrow> set_option (timer_fn i s p)) {} (h_world s) (h_world s1)"
    using follows_cancel_timer [OF good ok(1) s0(1)] s0(3) by simp
  have G: "Some x = Some t'" if "bind_fn t' fd' i e' \<in> (case timer of None \<Rightarrow> {} | Some p \<Rightarrow> set_option (timer_fn i s p))" for t' fd' e'
    using that own [of fd f e to x _ k] InIo by (cases timer) (auto simp: bind_fn_def)
  have t1: "timed_but lax i (Some d) s1 r"
    by (rule timed_but_step [OF t r0 w(2) f G]) (use w(3) in auto)
  have r1: "running i d (Some x) {#} s1 r" by (rule running_quiet [OF r0 w(2)])
  have "strand_call st = Some (fd, e)" using InIo by simp
  then have c: "calls r x (fd, e)" using st(1) T unfolding calls_def by blast
  show ?thesis
  proof (cases res)
    case None
    then have "h_tinfo s1 x = Some 0" using s0 by simp
    from timed_try_again [OF t1 c this] show ?thesis using w(1) st(1) InIo None by (simp add: resume_task_def timelyI)
  next
    case (Some n)
    show ?thesis using w(1) st(1) InIo Some timed_answer [OF timed_but_forget [OF t1 r1]]
      by (simp add: resume_task_def timelyI)
  qed
next
  case (InConnect fd x k)
  have good: "hook_good i s" by (rule running_good [OF r])
  have ok: "timer_ok i None s" "h_tinfo s x \<noteq> None" using st(3) InConnect by (auto simp: strand_ok_def)
  obtain res s1 where w: "wait_end i None x s = Inr (res, s1)" "adds i {#} s s1" "h_tinfo s1 = h_tinfo s"
    using adds_wait_end [OF good ok] by blast
  have w1: "h_world s1 = h_world s" using wait_end_outcome [OF w(1)] by (auto simp: cancel_timer_def)
  have r0: "running i d (Some x) {#} s r" using r InConnect by simp
  have t1: "timed_but lax i (Some d) s1 r" by (rule timed_but_same [OF t r0 w(2) w1]) (simp add: w(3))
  have r1: "running i d (Some x) {#} s1 r" by (rule running_quiet [OF r0 w(2)])
  let ?s2 = "snd (connect_result env fd s1)"
  have a2: "adds i {#} s1 ?s2" by (rule adds_connect_result [OF adds_good [OF w(2)]])
  have t2: "timed_but lax i (Some d) ?s2 r" by (rule timed_but_same [OF t1 r1 a2]) (simp_all add: connect_result_outcome)
  show ?thesis using w(1) st(1) InConnect timed_answer [OF timed_but_forget [OF t1 r1]]
      timed_answer [OF timed_but_forget [OF t2 running_quiet [OF r1 a2]]]
    by (cases res) (simp_all add: resume_task_def timelyI split_beta)
qed (use st(2) in simp_all)

end
