(* ===== verification/RuntimeArmed.thy ===== *)
theory RuntimeArmed
  imports RuntimeTimed
begin

text \<open>
  The steps of the thread (the scan, the functions of the queue, the idle coroutine) and of the
  others keep the account of time-outs, and what follows for every reachable state: a \<open>do_io\<close> call
  that waits with a time-out has its callback pending until it is decided, and the callback puts
  its coroutine in the queue, unless the kernel refuses to take the event back.
\<close>

section \<open>The scan\<close>

text \<open>What is left of the queue when \<open>task\<close> (or nothing) is taken.\<close>

lemma scan_queue_kept:
  assumes good: "hook_good i (r_hook r)" and q: "scan_queue i tid r = Inr (x, s)"
  shows "in_queue i (h_world (r_hook r)) d \<Longrightarrow> Option.bind x task_doroutine \<noteq> Some d \<Longrightarrow> in_queue i (h_world s) d"
    and "waiting i (h_world s) d fd e = waiting i (h_world (r_hook r)) d fd e"
    and "f \<in> pending_fns i (h_world (r_hook r)) \<Longrightarrow> Option.bind x task_func \<noteq> Some f \<Longrightarrow> f \<in> pending_fns i (h_world s)"
    and "pending_fns i (h_world s) \<subseteq> pending_fns i (h_world (r_hook r))"
    and "timer_fn i s p = timer_fn i (r_hook r) p" and "h_tinfo s = h_tinfo (r_hook r)" and "h_next s = h_next (r_hook r)"
    and "x = Some task \<Longrightarrow> task \<in> set (queue_at i (h_world (r_hook r)))"
    and "fd_mask i fd' (h_world s) = fd_mask i fd' (h_world (r_hook r))"
proof -
  let ?s = "r_hook r" and ?st = "\<lambda>d. strand_state (r_dors r d)"
  obtain m where m: "w_scheds (h_world ?s) i = Some (Io m)" by (rule hook_good_iom [OF good])
  obtain t tick sch where tk: "take_task tid ?st (io_sched m) = (t, tick, sch)" by (metis prod_cases3)
  let ?m' = "m\<lparr>io_sched := sch\<rparr>"
  let ?w = "put_iom i ?m' (h_world ?s)"
  have m': "w_scheds ?w i = Some (Io ?m')" by (simp add: put_iom_def)
  obtain p' where p: "tickle i ?w = Inr (?w\<lparr>w_pipe := p'\<rparr>)" using tickle_ok [OF m'] by blast
  let ?w1 = "if tick then ?w\<lparr>w_pipe := p'\<rparr> else ?w"
  have x: "x = t" "s = ?s\<lparr>h_world := ?w1\<rparr>" using q m tk p by (cases tick; auto simp: scan_queue_def iom_at_def Let_def)+
  have m1: "w_scheds ?w1 i = Some (Io ?m')" using m' by simp
  have ctx: "ctx_or_new i k ?w1 = ctx_or_new i k (h_world ?s)" for k
    by (rule ctx_or_new_cong [OF m m1]) (simp_all add: put_iom_def)
  have old: "set (m_tasks (io_sched m)) = set_option x \<union> set (m_tasks sch)"
  proof (cases t)
    case None
    then have "sch = io_sched m" using take_task_None tk by blast
    then show ?thesis by (simp add: x(1) None)
  next
    case (Some u)
    then have "mset (m_tasks (io_sched m)) = add_mset u (mset (m_tasks sch))" using take_task_tasks tk by blast
    then show ?thesis by (metis Some insert_is_Un option.simps(15) set_mset_add_mset_insert set_mset_mset x(1))
  qed
  have w: "h_world s = ?w1" "h_tinfo s = h_tinfo ?s" "h_next s = h_next ?s" by (simp_all add: x(2))
  have qs: "queue_at i (h_world ?s) = m_tasks (io_sched m)" "queue_at i (h_world s) = m_tasks sch"
    unfolding w by (simp_all add: queue_at_iom [OF m] queue_at_iom [OF m1] del: if_split)
  have ps: "pending_fns i (h_world ?s) = timer_fns (io_timers m) \<union> task_fns (m_tasks (io_sched m))"
    "pending_fns i (h_world s) = timer_fns (io_timers m) \<union> task_fns (m_tasks sch)"
    unfolding w by (simp_all add: pending_fns_eq [OF m] pending_fns_eq [OF m1] del: if_split)
  show "in_queue i (h_world ?s) d \<Longrightarrow> Option.bind x task_doroutine \<noteq> Some d \<Longrightarrow> in_queue i (h_world s) d"
    unfolding in_queue_def qs old by auto
  show "waiting i (h_world s) d fd e = waiting i (h_world ?s) d fd e" unfolding w by (rule waiting_cong [OF ctx])
  show "f \<in> pending_fns i (h_world ?s) \<Longrightarrow> Option.bind x task_func \<noteq> Some f \<Longrightarrow> f \<in> pending_fns i (h_world s)"
    unfolding ps task_fns_def old by auto
  show "pending_fns i (h_world s) \<subseteq> pending_fns i (h_world ?s)" unfolding ps task_fns_def old by auto
  show "timer_fn i s p = timer_fn i ?s p" unfolding timer_fn_def w m m1 by simp
  show "h_tinfo s = h_tinfo ?s" "h_next s = h_next ?s" by (rule w)+
  show "x = Some task \<Longrightarrow> task \<in> set (queue_at i (h_world ?s))" unfolding qs old by simp
  show "fd_mask i fd' (h_world s) = fd_mask i fd' (h_world ?s)"
    unfolding w(1) by (rule fd_mask_cong [OF ctx])
qed

lemmas scan_queue_mask = scan_queue_kept(9)

text \<open>What holds of a timed wait whatever becomes of its callback.\<close>

fun waits_ok :: "bool \<Rightarrow> nat \<Rightarrow> ('u, 'k) hook_state \<Rightarrow> nat \<Rightarrow> ('u, 'k) strand \<Rightarrow> bool" where
  "waits_ok lax i s d (InIo fd f e to t (Some p) k) = (fd_range fd \<and> single e
     \<and> (in_queue i (h_world s) d \<or> waiting i (h_world s) d fd e \<and> (h_tinfo s t = Some 0 \<or> lax \<and> h_tinfo s t = Some ETIMEDOUT))
     \<and> (timer_fn i s p = None \<or> timer_fn i s p = Some (bind_fn t fd i e)))"
| "waits_ok lax i s d _ = True"

lemma timed_waits: "timed_ok lax i s d st \<Longrightarrow> waits_ok lax i s d st"
  by (cases rule: timed_ok.cases [of "(lax, i, s, d, st)"]) (auto simp: armed_def)

lemma timed_scan:
  assumes good: "hook_good i (r_hook r)" and q: "scan_queue i tid r = Inr (x, s)" and t: "timed_ok lax i (r_hook r) d st"
    and d: "Option.bind x task_doroutine \<noteq> Some d"
  shows "waits_ok lax i s d st"
    and "(\<And>t fd e. strand_tinfo st = Some t \<Longrightarrow> Option.bind x task_func \<noteq> Some (bind_fn t fd i e)) \<Longrightarrow> timed_ok lax i s d st"
proof -
  note K = scan_queue_kept [OF good q]
  show "waits_ok lax i s d st" using t d
    by (cases rule: timed_ok.cases [of "(lax, i, r_hook r, d, st)"]) (auto simp: armed_def K(2,5,6) dest: K(1))
  assume F: "\<And>t fd e. strand_tinfo st = Some t \<Longrightarrow> Option.bind x task_func \<noteq> Some (bind_fn t fd i e)"
  from t show "timed_ok lax i s d st"
  proof (cases rule: timed_ok.cases [of "(lax, i, r_hook r, d, st)"])
    case (1 lax' i' s0 d0 fd g e to t' p k)
    then have st: "st = InIo fd g e to t' (Some p) k" by simp
    have "armed lax i s d fd e t'"
      using t d F [of t' fd e] K(1) [of d] K(3) [of "bind_fn t' fd i e"] by (auto simp: st armed_def K(2,6))
    then show ?thesis using t by (simp add: st K(5))
  qed simp_all
qed

lemma callbacks_scan:
  assumes good: "hook_good i (r_hook r)" and q: "scan_queue i tid r = Inr (x, s)" and c: "callbacks_ok i (r_hook r) r'"
  shows "callbacks_ok i s r'"
  using c scan_queue_kept(4,7) [OF good q] unfolding callbacks_ok_def by (metis subsetD)

section \<open>Functions of the queue\<close>

lemma timed_ok_next: "timed_ok lax i (s\<lparr>h_next := n\<rparr>) d st = timed_ok lax i s d st" "waits_ok lax i (s\<lparr>h_next := n\<rparr>) d st = waits_ok lax i s d st"
  by (cases rule: timed_ok.cases [of "(lax, i, s, d, st)"]; simp add: armed_def timer_fn_def)+

lemma callbacks_next: "callbacks_ok i s r \<Longrightarrow> h_next s \<le> n \<Longrightarrow> callbacks_ok i (s\<lparr>h_next := n\<rparr>) r"
  unfolding callbacks_ok_def by (metis (no_types) hook_state.select_convs hook_state.surjective hook_state.update_convs less_le_trans)

text \<open>
  The callback of a time-out: if the call is still not decided it gets \<open>ETIMEDOUT\<close>, and who
  waits for its event is put in the queue, unless the kernel refuses to take the event back.
\<close>

definition removal_works :: "nat \<Rightarrow> ('u, 'k) hook_env \<Rightarrow> int \<Rightarrow> u32 \<Rightarrow> ('u, 'k) hook_state \<Rightarrow> bool" where
  "removal_works i env fd e s \<longleftrightarrow> accepts_removal (he_ctl env) fd (fd_mask i fd (h_world s)) e"

definition removals_work :: "('u, 'k) hook_env \<Rightarrow> bool" where
  "removals_work env \<longleftrightarrow> (\<forall>fd v e. accepts_removal (he_ctl env) fd v e)"

lemma removals_workD: "removals_work env \<Longrightarrow> removal_works i env fd e s"
  by (simp add: removals_work_def removal_works_def)

lemma run_timeout:
  assumes good: "hook_good i s" and fd: "fd_range fd" "single e"
    and run: "run_fn (at_thread env i d) (bind_fn t fd i e) s = Inr s1"
  shows "h_tinfo s t \<noteq> Some 0 \<Longrightarrow> s1 = s"
    and "h_tinfo s t = Some 0 \<Longrightarrow> waiting i (h_world s) x fd e \<Longrightarrow>
      if removal_works i env fd e s then in_queue i (h_world s1) x else waiting i (h_world s1) x fd e"
    and "follows i {} {} (h_world s) (h_world s1)" and "t' \<noteq> t \<Longrightarrow> h_tinfo s1 t' = h_tinfo s t'"
    and "h_tinfo s t = Some 0 \<Longrightarrow> h_tinfo s1 t = Some ETIMEDOUT" and "h_next s1 = h_next s"
proof -
  have R: "(if h_tinfo s t = Some 0 then rbind (cancelEvent (he_thread (at_thread env i d)) (he_ctl env) i fd e (h_world s)) (\<lambda>(_, w).
      Inr (s\<lparr>h_tinfo := (h_tinfo s)(t \<mapsto> ETIMEDOUT), h_world := w\<rparr>)) else Inr s) = Inr s1"
    using run by (auto simp: bind_fn_def run_fn_def OnTimer_def timeout_fn_def split: option.splits if_splits)
  then show "h_tinfo s t \<noteq> Some 0 \<Longrightarrow> s1 = s" by simp
  show "if removal_works i env fd e s then in_queue i (h_world s1) x else waiting i (h_world s1) x fd e"
    if z: "h_tinfo s t = Some 0" and wt: "waiting i (h_world s) x fd e"
  proof -
    obtain b w where c: "cancelEvent (he_thread (at_thread env i d)) (he_ctl env) i fd e (h_world s) = Inr (b, w)"
      "h_world s1 = w" using R z by (auto simp: rbind_eq_Inr)
    from follows_cancelEvent(2) [OF hook_goodD(1) [OF good] fd at_thread_simps(1) c(1) wt] wt show ?thesis
      unfolding removal_works_def c(2) by (simp split: if_splits)
  qed
  show "follows i {} {} (h_world s) (h_world s1)" "t' \<noteq> t \<Longrightarrow> h_tinfo s1 t' = h_tinfo s t'"
    "h_tinfo s t = Some 0 \<Longrightarrow> h_tinfo s1 t = Some ETIMEDOUT" "h_next s1 = h_next s"
    using R follows_cancelEvent(1) [OF hook_goodD(1) [OF good] fd at_thread_simps(1)]
    by (auto simp: rbind_eq_Inr split: if_splits)
qed

lemma adds_run_timeout:
  fixes s :: "('u, 'k) hook_state"
  assumes good: "hook_good i s" and f: "fn_ok i (OnTimerBind t1 (Some (TimeoutFn t2 fd k e)) :: 'u hook_fn fn)"
    and run: "run_fn (at_thread env i d) (OnTimerBind t1 (Some (TimeoutFn t2 fd k e))) s = Inr s1"
  shows "adds i {#} s s1"
proof -
  have "run_callback (\<lambda>t. h_tinfo s t \<noteq> None) (OnTimerBind t1 (Some (TimeoutFn t2 fd k e))) \<noteq> Inr (Some (UserFn u))" for u
    by (simp add: OnTimer_def)
  from adds_run_fn [OF good f this, of env d] run show ?thesis by simp
qed

lemma timeout_timed:
  fixes s :: "('u, 'k) hook_state"
  assumes c: "callbacks_ok i s r" and r: "running i d None X s r" and f: "fn_ok i (bind_fn t fd i e :: 'u hook_fn fn)"
    and own: "\<And>c. calls r t c \<Longrightarrow> c = (fd, e)" and ctl: "removals_work env \<or> lax"
    and o: "\<And>x st. Some x \<noteq> Some d \<Longrightarrow> r_dors r x = Some st
      \<Longrightarrow> waits_ok lax i s x st \<and> (strand_tinfo st \<noteq> Some t \<longrightarrow> timed_ok lax i s x st)"
    and run: "run_fn (at_thread env i d) (bind_fn t fd i e) s = Inr s1"
  shows "timed_but lax i (Some d) s1 r"
  unfolding timed_but_def
proof (intro conjI allI impI)
  have good: "hook_good i s" and ot: "others_ok i (Some d) None s r" using r by (simp_all add: running_def)
  have fd: "fd_range fd" "single e" using f by (simp_all add: bind_fn_def)
  have "adds i {#} s s1" by (rule adds_run_timeout [OF good f [unfolded bind_fn_def] run [unfolded bind_fn_def]])
  then have good1: "hook_good i s1" and ages: "hook_ages i s s1" by (simp_all add: adds_def)
  note T = run_timeout [OF good fd run]
  show "callbacks_ok i s1 r" by (rule callbacks_step [OF c T(3)]) (simp_all add: T(6))
  fix x st assume x: "Some x \<noteq> Some d" "r_dors r x = Some st"
  have so: "strand_ok i s st" using othersD(2) [OF ot x] by (simp add: other_ok_def)
  show "timed_ok lax i s1 x st"
  proof (cases "strand_tinfo st = Some t")
    case False
    then show ?thesis
      by (intro timed_ok_step [OF _ so T(3) good good1 ages]) (use o [OF x] T(4) in auto)
  next
    case True
    from o [OF x] have wo: "waits_ok lax i s x st" by blast
    then show ?thesis
    proof (cases rule: waits_ok.cases [of "(lax, i, s, x, st)"])
      case (1 lax' i' s0 d0 fd' g e' to t' p k)
      then have st: "st = InIo fd' g e' to t (Some p) k" using True by simp
      have "strand_call st = Some (fd', e')" by (simp add: st)
      then have "calls r t (fd', e')" using x(2) True unfolding calls_def by blast
      then have eq: "fd' = fd" "e' = e" using own by blast+
      have W: "in_queue i (h_world s) x \<or> waiting i (h_world s) x fd e \<and> (h_tinfo s t = Some 0 \<or> lax \<and> h_tinfo s t = Some ETIMEDOUT)"
        "timer_fn i s p = None \<or> timer_fn i s p = Some (bind_fn t fd i e)" using wo by (simp_all add: st eq)
      have q: "armed lax i s1 x fd e t"
      proof (cases "in_queue i (h_world s1) x")
        case False
        then have w: "waiting i (h_world s) x fd e" "h_tinfo s t = Some 0 \<or> lax \<and> h_tinfo s t = Some ETIMEDOUT"
          using W(1) followsD(1) [OF T(3)] by blast+
        show ?thesis
        proof (cases "h_tinfo s t = Some 0")
          case True
          from T(2) [OF True w(1)] T(5) [OF True] False ctl removals_workD [of env i fd e s]
          show ?thesis by (auto simp: armed_def split: if_splits)
        next
          case False
          then show ?thesis using w T(1) by (simp add: armed_def)
        qed
      qed (simp add: armed_def)
      have "timer_ok i (Some p) s" using so by (simp add: strand_ok_def st)
      then have "timer_fn i s1 p = None \<or> timer_fn i s1 p = timer_fn i s p" by (rule timer_fn_ages [OF _ good good1 ages])
      then have "timer_fn i s1 p = None \<or> timer_fn i s1 p = Some (bind_fn t fd i e)" using W(2) by auto
      then show ?thesis using fd q by (simp add: st eq)
    qed simp_all
  qed
qed


lemma queued_pending:
  assumes "hook_good i s" and "task \<in> set (queue_at i (h_world s))" and "task_func task = Some f"
  shows "f \<in> pending_fns i (h_world s)"
proof -
  obtain m where m: "w_scheds (h_world s) i = Some (Io m)" by (rule hook_good_iom [OF assms(1)])
  then show ?thesis using assms(2,3) by (auto simp: queue_at_iom [OF m] pending_fns_eq [OF m] task_fns_def)
qed

lemma timeoutsD:
  assumes "timeouts_ok lax i r"
  shows "timed_but lax i None (r_hook r) r" and "timed_but lax i (Some d) (r_hook r) r"
    and "r_pc r = Trying d fd f e to t k \<Longrightarrow> h_tinfo (r_hook r) t = Some 0"
    and "r_dors r d = Some st \<Longrightarrow> timed_ok lax i (r_hook r) d st"
  using assms by (auto simp: timeouts_ok_def timed_but_def)

lemma run_func_timeout:
  "run_func env i body (OnTimerBind t1 (Some (TimeoutFn t2 fd k e))) s r =
     rbind (run_fn (at_thread env i (h_next s)) (OnTimerBind t1 (Some (TimeoutFn t2 fd k e))) (s\<lparr>h_next := h_next s + 1\<rparr>))
       (\<lambda>s1. Inr (suspend i (h_next s) Over s1 r))"
  by (simp add: run_func_def Let_def OnTimer_def)

lemma run_func_timely:
  assumes t: "timeouts_ok lax i r" and good: "hook_good i (r_hook r)" and q: "scan_queue i tid r = Inr (Some task, s)"
    and task: "task_func task = Some cb" "task_doroutine task = None" and f: "fn_ok i cb" and new: "r_dors r (h_next s) = None"
    and r: "running i (h_next s) None (fn_wakes (Some cb)) (s\<lparr>h_next := h_next s + 1\<rparr>) r"
    and ctl: "removals_work env \<or> lax"
  shows "timely lax i (run_func env i body cb s r)"
proof -
  let ?d = "h_next s" and ?s0 = "s\<lparr>h_next := h_next s + 1\<rparr>"
  have D: "Option.bind (Some task) task_doroutine \<noteq> Some x" for x by (simp add: task(2))
  have c: "callbacks_ok i ?s0 r"
    by (rule callbacks_next [OF callbacks_scan [OF good q timed_butD(1) [OF timeoutsD(1) [OF t]]]]) simp
  have S: "waits_ok lax i ?s0 x st" "(\<And>t fd e. strand_tinfo st = Some t \<Longrightarrow> cb \<noteq> bind_fn t fd i e) \<Longrightarrow> timed_ok lax i ?s0 x st"
    if "r_dors r x = Some st" for x st
    using timed_scan [OF good q timeoutsD(4) [OF t that] D] task(1) by (simp_all add: timed_ok_next)
  have all: "timed_but lax i (Some ?d) ?s0 r" if "\<And>t fd e. cb \<noteq> bind_fn t fd i e"
    using c S(2) that by (simp add: timed_but_def)
  show ?thesis
  proof (cases rule: fn_ok.cases [of "(i, cb)"])
    case (1 i' k x)
    then have k: "cb = Callback (WakeFn i x)" using f by simp
    have b: "timed_but lax i (Some ?d) ?s0 r" by (rule all) (simp add: k bind_fn_def)
    have "\<forall>t \<in> set (requested (Dor x)). task_good i t" by (cases x; simp add: requested_wakes task_good_def)
    from adds_schedule_in [OF running_good [OF r] this] obtain s1 X where
      s1: "schedule_in i (Dor x) ?s0 = Inr s1" "adds i X ?s0 s1" by blast
    have "task_fns (requested (Dor x) :: 'a hook_fn fn SchedulerTask list) = {}"
      by (cases x) (simp_all add: requested_wakes task_of_request_def Let_def)
    then have "timed_but lax i (Some ?d) s1 r" by (intro timed_but_schedule [OF b r s1]) simp
    then have "timeouts_ok lax i (suspend i ?d Over s1 r)" by (rule timed_suspend [OF _ adds_good [OF s1(2)]]) simp_all
    moreover have "run_func env i body cb s r = Inr (suspend i ?d Over s1 r)"
      using s1(1) by (simp add: k run_func_def run_fn_def schedule_in_def Let_def rbind_eq_Inr) (auto simp: rbind_eq_Inr)
    ultimately show ?thesis by (simp add: timelyI)
  next
    case (2 i' u)
    then have "timed_but lax i (Some ?d) ?s0 r" by (intro all) (simp add: bind_fn_def)
    then show ?thesis using 2 by (simp add: run_func_def Let_def timelyI timed_continue)
  next
    case (3 i' t1 t2 fd k e)
    then have k: "cb = OnTimerBind t1 (Some (TimeoutFn t2 fd i e))" using f by simp
    have p: "cb \<in> pending_fns i (h_world (r_hook r))"
      by (rule queued_pending [OF good scan_queue_kept(8) [OF good q refl] task(1)])
    note C = callbacksD [OF timed_butD(1) [OF timeoutsD(1) [OF t]] p [unfolded k]]
    have cb: "cb = bind_fn t1 fd i e" using k C(1) by (simp add: bind_fn_def)
    have own: "calls r t1 c \<Longrightarrow> c = (fd, e)" for c by (rule C(3))
    have "timed_but lax i (Some ?d) s1 r" if run: "run_fn (at_thread env i ?d) cb ?s0 = Inr s1" for s1
    proof (rule timeout_timed [OF c r _ own ctl])
      show "fn_ok i (bind_fn t1 fd i e :: 'a hook_fn fn)" using f cb by simp
      show "run_fn (at_thread env i ?d) (bind_fn t1 fd i e) ?s0 = Inr s1" using run cb by simp
      fix x st assume x: "Some x \<noteq> Some ?d" "r_dors r x = Some st"
      show "waits_ok lax i ?s0 x st \<and> (strand_tinfo st \<noteq> Some t1 \<longrightarrow> timed_ok lax i ?s0 x st)"
        using S [OF x(2)] by (auto simp: cb bind_fn_def)
    qed
    moreover have "hook_good i s1" if "run_fn (at_thread env i ?d) cb ?s0 = Inr s1" for s1
      by (rule adds_good [OF adds_run_timeout [OF running_good [OF r] f [unfolded k] that [unfolded k]]])
    ultimately have "timeouts_ok lax i (suspend i ?d Over s1 r)" if "run_fn (at_thread env i ?d) cb ?s0 = Inr s1" for s1
      using that timed_suspend [of lax i ?d s1 r Over] by simp
    moreover have "run_func env i body cb s r = rbind (run_fn (at_thread env i ?d) cb ?s0) (\<lambda>s1. Inr (suspend i ?d Over s1 r))"
      unfolding k by (rule run_func_timeout)
    ultimately show ?thesis by (auto simp: timely_def rbind_eq_Inr)
  qed (use f in simp_all)
qed

lemma take_timely:
  assumes t: "timeouts_ok lax i r" and sc: "scanning i (r_hook r) r" and q: "scan_queue i tid r = Inr (Some task, s)"
    and ctl: "removals_work env \<or> lax"
  shows "timely lax i (run_task env i body task s r)"
proof -
  have good: "hook_good i (r_hook r)" using sc by (simp add: scanning_def)
  from sc q show ?thesis
  proof (cases rule: take_cases)
    case (dor d st)
    have "timed_but lax i (Some d) s r"
      unfolding timed_but_def
    proof (intro conjI allI impI)
      show "callbacks_ok i s r" by (rule callbacks_scan [OF good q timed_butD(1) [OF timeoutsD(1) [OF t]]])
      fix x u assume x: "Some x \<noteq> Some d" "r_dors r x = Some u"
      show "timed_ok lax i s x u"
        by (rule timed_scan(2) [OF good q timeoutsD(4) [OF t x(2)]]) (use x dor(1,2) in simp_all)
    qed
    moreover have "timer_fn i s p = None \<or> timer_fn i s p = Some (bind_fn x fd i e)" if "st = InIo fd f e to x (Some p) k"
      for fd f e to x p k
      using timeoutsD(4) [OF t dor(3)] that by (simp add: scan_queue_kept(5) [OF good q])
    ultimately have "timely lax i (resume_task env i d s r)" by (rule resume_task_timely [OF _ dor(6,3,4,5)])
    then show ?thesis using dor(1,2) by (simp add: run_task_def)
  next
    case (func cb)
    then show ?thesis using run_func_timely [OF t good q func(1,2,3,4,5) ctl, of body] by (simp add: run_task_def)
  qed
qed


section \<open>The idle coroutine and the others\<close>

lemma runtime_inv_strands:
  assumes inv: "runtime_inv i r" and st: "r_dors r d = Some st"
  shows "strand_ok i (r_hook r) st"
proof -
  have run: "strand_ok i (r_hook r) st" if r: "running i x T {#} (r_hook r) r" "r_dors r x = Some (Current T)" for x T
  proof (cases "d = x")
    case True
    then show ?thesis using r st by (auto simp: strand_ok_def timer_ok_def running_def)
  next
    case False
    then show ?thesis using r othersD(2) [of i "Some x" T "r_hook r" r d st] st by (simp add: running_def other_ok_def)
  qed
  show ?thesis
  proof (cases "r_pc r")
    case (Exec x p)
    then show ?thesis using inv run [of x None] by (simp add: runtime_inv_def)
  next
    case (Trying x fd f e to t k)
    then show ?thesis using inv run [of x "Some t"] by (simp add: runtime_inv_def)
  qed (use inv st othersD(2) [of i None None "r_hook r" r d st] in \<open>simp_all add: runtime_inv_def scanning_def other_ok_def\<close>)
qed

text \<open>What happens besides the coroutines: nothing is cancelled, and no call begins or ends.\<close>

lemma timed_external:
  assumes t: "timeouts_ok lax i r" and inv: "runtime_inv i r" and s: "hook_good i s" "hook_ages i (r_hook r) s"
    and f: "follows i {} A (h_world (r_hook r)) (h_world s)" and A: "\<And>t g. OnTimerBind t g \<notin> A"
    and tinfo: "h_tinfo s = h_tinfo (r_hook r)"
    and r': "r_hook r' = s" "r_dors r' = r_dors r" "r_pc r' = r_pc r \<or> r_pc r' = Gone"
  shows "timeouts_ok lax i r'"
proof -
  have "timed_but lax i None s r"
    by (rule timed_step [OF timeoutsD(1) [OF t] runtime_inv_hook [OF inv] s f, where T = None])
      (use runtime_inv_strands [OF inv] A tinfo in auto)
  moreover have "calls r' x c \<Longrightarrow> calls r x c" for x c using r'(2,3) by (auto simp: calls_def)
  ultimately have "timed_but lax i None s r'"
    using callbacks_calls [of i s r r'] r'(2) by (simp add: timed_but_def)
  then show ?thesis using t r'(1,3) tinfo by (auto simp: timeouts_ok_def)
qed

lemma scan_none_follows:
  assumes good: "hook_good i (r_hook r)" and q: "scan_queue i tid r = Inr (None, s)"
  shows "follows i {} {} (h_world (r_hook r)) (h_world s)"
  using scan_queue_kept(1-4) [OF good q] unfolding follows_def by auto

lemma scan_none_ages:
  assumes sc: "scanning i (r_hook r) r" and q: "scan_queue i tid r = Inr (None, s)"
  shows "hook_good i s" and "hook_ages i (r_hook r) s" and "h_tinfo s = h_tinfo (r_hook r)"
proof -
  have good: "hook_good i (r_hook r)" using sc by (simp add: scanning_def)
  from scan_queue_ok [OF good scanning_not_running [OF sc], of tid] q
  show "hook_good i s" "hook_ages i (r_hook r) s" "h_tinfo s = h_tinfo (r_hook r)" by auto
qed

lemma idle_timely:
  assumes t: "timeouts_ok lax i r" and inv: "runtime_inv i r" and pc: "r_pc r = Scanning"
    and q: "scan_queue i tid r = Inr (None, s)" and rep: "epoll_reports addr i wait (h_world s)"
    and run: "run_idle (at_thread env i idle) addr wait now0 now1 i s r = Some res"
  shows "timely lax i res"
proof -
  have sc: "scanning i (r_hook r) r" by (rule scanning_pc [OF inv pc])
  note good0 = runtime_inv_hook [OF inv]
  note S = scan_none_ages [OF sc q] and fs = scan_none_follows [OF good0 q]
  have tg: "h_tinfo (upd_sched i g v) = h_tinfo v" for g and v :: "('a, 'b) hook_state"
    by (simp add: upd_sched_def split: option.split sched_obj.split)
  let ?s1 = "upd_sched i idle_up s"
  note up = adds_upd_sched(1) [where g = idle_up, OF _ idle_counts(1-3)] and
    down = adds_upd_sched(1) [where g = idle_down, OF _ idle_counts(4-6)]
  note fup = follows_upd_sched(1) [where g = idle_up, OF _ idle_counts(1)] and
    fdown = follows_upd_sched(1) [where g = idle_down, OF _ idle_counts(4)]
  have g1: "hook_good i ?s1" by (rule adds_good [OF up [OF S(1)]])
  have "hook_ages i s ?s1" using up [OF S(1)] by (simp add: adds_def)
  then have a1: "hook_ages i (r_hook r) ?s1" by (rule hook_ages_trans [OF S(2) _ S(1)])
  have f1: "follows i {} {} (h_world (r_hook r)) (h_world ?s1)" by (rule follows_none_trans [OF fs fup [OF S(1)]])
  have fin: "timeouts_ok lax i r'" if v: "hook_good i v" "hook_ages i ?s1 v" "follows i {} {} (h_world ?s1) (h_world v)"
    "h_tinfo v = h_tinfo ?s1" and r': "r_hook r' = upd_sched i idle_down v" "r_dors r' = r_dors r" "r_pc r' = r_pc r" for v r'
  proof (rule timed_external [OF t inv _ _ _ _ _ r'(1,2)])
    show "hook_good i (upd_sched i idle_down v)" by (rule adds_good [OF down [OF v(1)]])
    have "hook_ages i v (upd_sched i idle_down v)" using down [OF v(1)] by (simp add: adds_def)
    then show "hook_ages i (r_hook r) (upd_sched i idle_down v)"
      by (rule hook_ages_trans [OF hook_ages_trans [OF a1 v(2) g1] _ v(1)])
    show "follows i {} {} (h_world (r_hook r)) (h_world (upd_sched i idle_down v))"
      by (rule follows_none_trans [OF f1 follows_none_trans [OF v(3) fdown [OF v(1)]]])
  qed (use v(4) S(3) r'(3) tg in simp_all)
  obtain m where m: "w_scheds (h_world ?s1) i = Some (Io m)" by (rule hook_good_iom [OF g1])
  obtain x where x: "idle_iter (he_thread (at_thread env i idle)) (he_ctl (at_thread env i idle)) addr wait now0 now1
      (h_next ?s1) i (h_world ?s1) = Some x"
    using run by (auto simp: run_idle_def Let_def split: option.splits)
  note rep1 = epoll_reports_upd [OF S(1) rep, of idle_up]
  from idle_iter_wakes [OF hook_goodD(1) [OF g1] at_thread_simps(1) rep1 x m]
  consider "x = Inr None" | w where "x = Inr (Some w)" "world_good i (h_next ?s1) w" "wakes i w = wakes_in i ?s1"
        "ages i (h_next ?s1) (h_world ?s1) w" by auto
  then show ?thesis
  proof cases
    case 1
    let ?r = "r\<lparr>r_hook := upd_sched i idle_down ?s1, r_idle_done := True\<rparr>"
    have "timeouts_ok lax i ?r" using adds_same [OF g1] by (intro fin [of ?s1]) (simp_all add: adds_def)
    moreover have "res = Inr ?r" using run x 1 by (simp add: run_idle_def Let_def)
    ultimately show ?thesis by (simp add: timelyI)
  next
    case (2 w)
    let ?s2 = "?s1\<lparr>h_world := w\<rparr>"
    have a2: "adds i {#} ?s1 ?s2" by (rule adds_world' [OF g1 2(2,4)]) (simp add: 2(3))
    have "follows i {} {} (h_world ?s1) w"
      by (rule follows_idle_iter [OF hook_goodD(1) [OF g1] at_thread_simps(1) rep1]) (use x 2(1) in simp)
    then have "timeouts_ok lax i (r\<lparr>r_hook := upd_sched i idle_down ?s2\<rparr>)"
      using a2 by (intro fin [of ?s2]) (simp_all add: adds_def)
    moreover have "res = Inr (r\<lparr>r_hook := upd_sched i idle_down ?s2\<rparr>)" using run x 2(1) by (simp add: run_idle_def Let_def)
    ultimately show ?thesis by (simp add: timelyI)
  qed
qed


lemma kernel_timely:
  assumes "timeouts_ok lax i r"
  shows "timeouts_ok lax i (r\<lparr>r_hook := (r_hook r)\<lparr>h_kernel := k\<rparr>\<rparr>)"
proof -
  let ?s = "(r_hook r)\<lparr>h_kernel := k\<rparr>" and ?r = "r\<lparr>r_hook := (r_hook r)\<lparr>h_kernel := k\<rparr>\<rparr>"
  have "timed_ok lax i ?s d st = timed_ok lax i (r_hook r) d st" for d st
    by (cases rule: timed_ok.cases [of "(lax, i, r_hook r, d, st)"]) (simp_all add: armed_def timer_fn_def)
  moreover have "calls ?r t c = calls r t c" for t c by (simp add: calls_def)
  ultimately show ?thesis using assms by (simp add: timeouts_ok_def timed_but_def callbacks_ok_def)
qed

lemma submit_timely:
  assumes t: "timeouts_ok lax i r" and inv: "runtime_inv i r"
    and s: "schedule_in i (Cb (Some (Callback (UserFn u)))) (r_hook r) = Inr s"
  shows "timeouts_ok lax i (r\<lparr>r_hook := s\<rparr>)"
proof -
  note good = runtime_inv_hook [OF inv]
  have a: "adds i {#} (r_hook r) s" using schedule_user [OF good, of u] s by auto
  note F = follows_schedule_in [OF good s]
  show ?thesis
    by (rule timed_external [OF t inv _ _ F(1)]) (use a F(3) in \<open>simp_all add: adds_def requested_wakes\<close>)
qed

lemma request_stop_timely:
  assumes t: "timeouts_ok lax i r" and inv: "runtime_inv i r" and m: "w_scheds (h_world (r_hook r)) i = Some (Io m)"
    and stop: "io_stop_begin now m = Some (n, root, m')"
    and w: "repeat_fault n (tickle i) (put_iom i m' (h_world (r_hook r))) = Inr w"
  shows "timeouts_ok lax i (r\<lparr>r_hook := (r_hook r)\<lparr>h_world := w\<rparr>\<rparr>)"
proof -
  let ?s = "r_hook r" and ?r = "r\<lparr>r_hook := (r_hook r)\<lparr>h_world := w\<rparr>\<rparr>"
  have m': "m' = m\<lparr>io_sched := (io_sched m)\<lparr>m_stopping := True\<rparr>\<rparr>" using stop by (simp add: io_stop_begin_def Let_def split: if_splits)
  have K: "w_scheds w = w_scheds (put_iom i m' (h_world ?s))" "w_ctxs w = w_ctxs (h_world ?s)"
    using tickles_kept [OF w] by (simp_all add: put_iom_def)
  have m2: "w_scheds w i = Some (Io m')" by (simp add: K(1) put_iom_def)
  have ctx: "ctx_or_new i k w = ctx_or_new i k (h_world ?s)" for k
    by (rule ctx_or_new_cong [OF m m2]) (simp_all add: m' K(2))
  have f: "follows i {} {} (h_world ?s) w" by (rule follows_same [OF m m2]) (simp_all add: m' ctx)
  have good: "hook_good i (?s\<lparr>h_world := w\<rparr>)"
    using runtime_inv_hook [OF request_stop_inv [OF inv m stop w]] by simp
  have "hook_ages i ?s (?s\<lparr>h_world := w\<rparr>)" using m m2 by (simp add: hook_ages_def m')
  then show ?thesis by (rule timed_external [OF t inv good _ _, of "{}"]) (simp_all add: f)
qed

section \<open>Every step\<close>

lemma timeouts_step:
  assumes "runtime_step env i tid idle body (one_waiter i) r r'" and "runtime_inv i r" and "timeouts_ok lax i r" and "removals_work env \<or> lax"
  shows "timeouts_ok lax i r'"
  using assms runtime_inv_step [OF assms(1,2)]
proof (induction rule: runtime_step.induct)
  case (take r task s)
  then show ?case by (intro timely_settle take_timely scanning_pc) simp_all
next
  case (idle r s now0 addr wait now1 res)
  then show ?case using idle_timely by (intro timely_settle) blast
next
  case (leave r s)
  have sc: "scanning i (r_hook r) r" by (rule scanning_pc [OF leave(4,1)])
  note S = scan_none_ages [OF sc leave(2)]
  show ?case
    by (rule timed_external [OF leave(5,4) S(1,2) scan_none_follows [OF runtime_inv_hook [OF leave(4)] leave(2)]])
      (simp_all add: S(3))
next
  case (scan_fault r f)
  then show ?case by (simp add: runtime_inv_def)
next
  case (io r d fd f event so k)
  then show ?case by (intro timely_settle begin_io_timely timeoutsD(2) exec_running) simp_all
next
  case (io_turn r d fd f event to t k n s)
  then have r: "running i d (Some t) {#} (r_hook r) r" "r_dors r d = Some (Current (Some t))" by (simp_all add: runtime_inv_def)
  note K = call_eintr_kept [OF io_turn(2)]
  have a: "adds i {#} (r_hook r) s" by (rule adds_call_eintr [OF running_good [OF r(1)] io_turn(2)])
  have "timed_but lax i (Some d) s r" by (rule timed_but_same [OF timeoutsD(2) [OF io_turn(5)] r(1) a K(1)]) (simp add: K(2))
  then show ?case using r(2) timeoutsD(3) [OF io_turn(5,1)] K(2) io_turn
    by (intro timely_settle do_io_turn_timely running_quiet [OF r(1) a]) simp_all
next
  case (connect r d fd a len to k)
  then have "r_dors r d = Some (Current None)" by (simp add: runtime_inv_def)
  then show ?case using connect by (intro timely_settle begin_connect_timely timeoutsD(2) exec_running) simp_all
next
  case (close r d fd k)
  then have r: "running i d None {#} (r_hook r) r" by (intro exec_running)
  have fd: "fd_range fd" using close(2) by simp
  obtain n s1 where s1: "Hook.close (at_thread env i d) fd (r_hook r) = Inr (n, s1)" "adds i {#} (r_hook r) s1"
    using adds_close [OF running_good [OF r] fd, of env d] by auto
  note C = close_outcome [OF running_good [OF r] fd s1(1)]
  have "timed_but lax i (Some d) s1 r"
    by (rule timed_but_plain [OF timeoutsD(2) [OF close(4)] r s1(2) C(1)]) (simp_all add: C(2))
  then show ?case using s1(1) by (simp add: settle_def timed_answer)
next
  case (sleep r d ms p)
  then show ?case by (intro timely_settle begin_sleep_timely timeoutsD(2) exec_running)
next
  case (yield r d p)
  then show ?case by (intro timely_settle yield_timely timeoutsD(2) exec_running)
next
  case (schedule r d u p)
  then have r: "running i d None {#} (r_hook r) r" by (intro exec_running)
  obtain s1 where s1: "schedule_in i (Cb (Some (Callback (UserFn u)))) (r_hook r) = Inr s1" "adds i {#} (r_hook r) s1"
    using schedule_user [OF running_good [OF r]] by blast
  have "timed_but lax i (Some d) s1 r"
    by (rule timed_but_schedule [OF timeoutsD(2) [OF schedule(3)] r s1]) (simp add: requested_wakes)
  then show ?case using s1(1) by (simp add: settle_def timed_continue)
next
  case (after r d ms u p)
  then have r: "running i d None {#} (r_hook r) r" by (intro exec_running)
  let ?te = "at_thread env i d"
  obtain s1 where s1: "add_timer ?te i ms (Callback (UserFn u)) (r_hook r) = Inr (h_next (r_hook r), s1)"
    "adds i {#} (r_hook r) s1"
    using adds_add_timer [OF running_good [OF r], of "Callback (UserFn u)" ?te ms] by auto
  have f: "fn_ok i (Callback (UserFn u))" by simp
  note F = follows_add_timer [OF running_good [OF r] f s1(1)]
  have "timed_but lax i (Some d) s1 r"
    by (rule timed_but_plain [OF timeoutsD(2) [OF after(3)] r s1(2) F(1)]) (simp_all add: F(4))
  then show ?case using s1(1) by (simp add: settle_def timed_continue)
next
  case (local r d act k n s)
  have r: "running i d None {#} (r_hook r) r" using local by (intro exec_running)
  have "timed_but lax i (Some d) s r"
    using local(3) by (intro timed_but_same [OF timeoutsD(2) [OF local(5)] r adds_quiet [OF running_good [OF r] local(3)]])
      (simp_all add: quiet_def)
  then show ?case by (rule timed_answer)
next
  case (finish r d)
  then show ?case by (intro timed_suspend timeoutsD(2) runtime_inv_hook) simp_all
next
  case (kernel r k)
  then show ?case by (intro kernel_timely)
next
  case (submit r m u s)
  then show ?case by (intro submit_timely)
next
  case (request_stop r m now n root m' w)
  then show ?case by (intro request_stop_timely)
qed

lemma runtime_start_timely:
  assumes "runtime_start i r"
  shows "timeouts_ok lax i r"
proof -
  let ?w = "h_world (r_hook r)"
  have st: "io_started i ?w" "r_dors r = (\<lambda>d. None)" "r_pc r = Scanning" using assms by (simp_all add: runtime_start_def)
  obtain m timers elapsed where m: "w_scheds ?w i = Some (Io m)" "io_timers m = TimerManager_new timers elapsed"
    "m_tasks (io_sched m) = []" by (rule io_started_fresh [OF st(1)])
  then have "pending_fns i ?w = {}" by (simp add: pending_fns_eq [OF m(1)] timer_fns_def TimerManager_new_def)
  then show ?thesis using st by (simp add: timeouts_ok_def timed_but_def callbacks_ok_def)
qed

text \<open>Whether some of the environments may refuse to take an event back.\<close>

definition may_refuse :: "('u, 'k) hook_env set \<Rightarrow> bool" where
  "may_refuse envs \<longleftrightarrow> (\<exists>env \<in> envs. \<not> removals_work env)"

interpretation timed_runs: step_invariant "runtime_start i" "system_step envs i tid idle body (one_waiter i)"
  "\<lambda>r. runtime_inv i r \<and> timeouts_ok (may_refuse envs) i r"
  for envs i tid idle body
proof unfold_locales
  fix r r' :: "('a, 'b) runtime"
  assume good: "runtime_inv i r \<and> timeouts_ok (may_refuse envs) i r" and "system_step envs i tid idle body (one_waiter i) r r'"
  then obtain env where env: "env \<in> envs" "runtime_step env i tid idle body (one_waiter i) r r'" by (auto simp: system_step_def)
  then have "removals_work env \<or> may_refuse envs" by (auto simp: may_refuse_def)
  with env(2) good show "runtime_inv i r' \<and> timeouts_ok (may_refuse envs) i r'"
    using runtime_inv_step timeouts_step by blast
qed (auto intro: runtime_start_inv runtime_start_timely)

lemma timeouts_reachable:
  assumes "runtime_start i r0" and "(system_step envs i tid idle body (one_waiter i))\<^sup>*\<^sup>* r0 r"
  shows "runtime_inv i r" and "timeouts_ok (may_refuse envs) i r"
  using timed_runs.good_reachable [OF assms] by simp_all


section \<open>Time-outs in every reachable state\<close>

text \<open>
  (C8) A hooked \<open>read\<close>, \<open>write\<close> or other \<open>do_io\<close> call with a time-out is not forgotten. While a
  coroutine is suspended in it, either the coroutine is in the queue; or it is registered for the
  event of the call, the call is undecided, and the callback that will time it out is on a
  timer or in the queue; or it is registered and timed out already, which happens only if
  some \<open>epoll_ctl\<close> call of the run that takes an event back may be refused. In the setting of
  C1: one thread, descriptors from 0 to \<open>2 ^ 30 - 1\<close>, at most one coroutine waits for an event of
  a descriptor (C25 is what happens otherwise), coroutines use descriptors and timers only through
  the hooked calls, \<open>schedule\<close> and non-repeating \<open>addTimer\<close>. \<open>connect\<close> is not covered.
\<close>

theorem timed_wait_armed:
  assumes "runtime_start i r0" and "(system_step envs i tid idle body (one_waiter i))\<^sup>*\<^sup>* r0 r"
    and "r_dors r d = Some (InIo fd f e to t (Some p) k)"
  shows "in_queue i (h_world (r_hook r)) d
    \<or> (waiting i (h_world (r_hook r)) d fd e \<and> h_tinfo (r_hook r) t = Some 0
       \<and> bind_fn t fd i e \<in> pending_fns i (h_world (r_hook r)))
    \<or> (waiting i (h_world (r_hook r)) d fd e \<and> h_tinfo (r_hook r) t = Some ETIMEDOUT
       \<and> (\<exists>env \<in> envs. \<not> removals_work env))"
  using timeoutsD(4) [OF timeouts_reachable(2) [OF assms(1,2)] assms(3)] by (auto simp: armed_def may_refuse_def)

lemma in_queue_suspend: "hook_good i s \<Longrightarrow> in_queue i (h_world (r_hook (suspend i d st s r))) x = in_queue i (h_world s) x"
  by (simp add: suspend_def give_back_def follows_upd_sched(3))

lemma waiting_suspend:
  "hook_good i s \<Longrightarrow> waiting i (h_world (r_hook (suspend i d st s r))) x fd e = waiting i (h_world s) x fd e"
  by (simp add: suspend_def give_back_def follows_upd_sched(4))

lemma tinfo_suspend: "h_tinfo (r_hook (suspend i d st s r)) = h_tinfo s"
  by (simp add: suspend_def give_back_def upd_sched_def split: option.split sched_obj.split)

lemma timed_out_returns:
  assumes "wait_end i timer t s = Inr (res, s1)" and "h_tinfo s t = Some c" and "h_tinfo s1 = h_tinfo s"
  shows "if c = 0 then res = None else res = Some (- 1) \<and> h_errno s1 = c"
proof -
  obtain s2 where s2: "cancel_timer i timer s = Inr s2" using assms(1) by (auto simp: wait_end_def rbind_eq_Inr)
  show ?thesis
  proof (cases "h_tinfo s2 t")
    case None
    then show ?thesis using assms(1) s2 by (simp add: wait_end_def)
  next
    case (Some c')
    then have r: "res = (if c' \<noteq> 0 then Some (- 1) else None)" "s1 = (if c' \<noteq> 0 then s2\<lparr>h_errno := c'\<rparr> else s2)"
      using assms(1) s2 by (auto simp: wait_end_def split: if_splits)
    have "h_tinfo s1 = h_tinfo s2" by (simp add: r(2))
    then have "c' = c" using Some assms(2,3) by simp
    then show ?thesis using r by simp
  qed
qed

text \<open>
  (C9) When the thread takes the time-out callback of a \<open>do_io\<close> call that is still undecided, its
  step decides the call for \<open>ETIMEDOUT\<close>, whether the event came first or not; and the coroutine
  is in the queue afterwards, unless the kernel refuses to take the event back in that step, when
  it stays registered. Resumed in that state, the call returns -1 with this \<open>errno\<close>
  (\<open>timed_out_returns\<close>). The setting is that of C8.
\<close>

theorem timeout_decides:
  assumes "runtime_start i r0" and "(system_step envs i tid idle body (one_waiter i))\<^sup>*\<^sup>* r0 r"
    and "r_dors r d = Some (InIo fd f e to t (Some p) k)"
    and "r_pc r = Scanning" and "queue_at i (h_world (r_hook r)) = task # rest"
    and "task_func task = Some (bind_fn t fd i e)" and "h_tinfo (r_hook r) t = Some 0"
  shows "\<exists>r'. runtime_step env i tid idle body (one_waiter i) r r' \<and> r_dors r' d = r_dors r d
    \<and> h_tinfo (r_hook r') t = Some ETIMEDOUT
    \<and> (in_queue i (h_world (r_hook r')) d
       \<or> \<not> removal_works i env fd e (r_hook r) \<and> waiting i (h_world (r_hook r')) d fd e)"
proof -
  note inv = timeouts_reachable [OF assms(1,2)]
  have sc: "scanning i (r_hook r) r" by (rule scanning_pc [OF inv(1) assms(4)])
  note good = runtime_inv_hook [OF inv(1)]
  obtain s where q: "scan_queue i tid r = Inr (Some task, s)" using scan_queue_first [OF inv(1) assms(4,5)] by blast
  note K = scan_queue_kept [OF good q]
  obtain cb where cb: "task_func task = Some cb" "task_doroutine task = None" "fn_ok i cb" "r_dors r (h_next s) = None"
    "running i (h_next s) None (fn_wakes (Some cb)) (s\<lparr>h_next := h_next s + 1\<rparr>) r"
    using sc q assms(6) by (cases rule: take_cases) auto
  have C: "cb = bind_fn t fd i e" "task_doroutine task = None" "fn_ok i cb" "r_dors r (h_next s) = None"
    "running i (h_next s) None (fn_wakes (Some cb)) (s\<lparr>h_next := h_next s + 1\<rparr>) r"
    using cb assms(6) by simp_all
  let ?d = "h_next s" and ?s0 = "s\<lparr>h_next := h_next s + 1\<rparr>"
  have fd: "fd_range fd" "single e" and f: "fn_ok i (OnTimerBind t (Some (TimeoutFn t fd i e)) :: 'a hook_fn fn)"
    using C(1,3) by (simp_all add: bind_fn_def)
  obtain r' where r': "run_func env i body cb s r = Inr r'"
    using run_func_settles [OF C(5,3), of env body] by (auto simp: settles_def)
  then obtain s1 where s1: "run_fn (at_thread env i ?d) (bind_fn t fd i e) ?s0 = Inr s1" "r' = suspend i ?d Over s1 r"
    by (auto simp: C(1) bind_fn_def run_func_timeout rbind_eq_Inr)
  have g0: "hook_good i ?s0" by (rule running_good [OF C(5)])
  have g1: "hook_good i s1" by (rule adds_good [OF adds_run_timeout [OF g0 f s1(1) [unfolded bind_fn_def]]])
  note T = run_timeout [OF g0 fd s1(1)]
  have w0: "waits_ok (may_refuse envs) i s d (InIo fd f e to t (Some p) k)"
    by (rule timed_scan(1) [OF good q timeoutsD(4) [OF inv(2) assms(3)]]) (simp add: C(2))
  have W: "in_queue i (h_world ?s0) d \<or> waiting i (h_world ?s0) d fd e" using w0 by auto
  have m: "removal_works i env fd e ?s0 = removal_works i env fd e (r_hook r)"
    using scan_queue_mask [OF good q, of fd] by (simp add: removal_works_def)
  have Q: "in_queue i (h_world s1) d \<or> \<not> removal_works i env fd e (r_hook r) \<and> waiting i (h_world s1) d fd e"
  proof (cases "in_queue i (h_world s1) d")
    case False
    then have "waiting i (h_world ?s0) d fd e" using W followsD(1) [OF T(3)] by blast
    from T(2) [OF _ this] assms(7) False show ?thesis unfolding m by (simp add: K(6) split: if_splits)
  qed simp
  have "h_tinfo s1 t = Some ETIMEDOUT" using T(5) assms(7) by (simp add: K(6))
  moreover have "d \<noteq> ?d" using C(4) assms(3) by auto
  then have "r_dors r' d = r_dors r d" by (simp add: s1(2) suspend_def give_back_def)
  moreover have "runtime_step env i tid idle body (one_waiter i) r r'"
    using runtime_step.take [OF assms(4) q, of env idle body "one_waiter i"] r' C(2) assms(6)
    by (simp add: run_task_def settle_def C(1))
  ultimately show ?thesis using Q g1
    by (intro exI [of _ r']) (auto simp: s1(2) in_queue_suspend waiting_suspend tinfo_suspend)
qed

end
