(* ===== verification/RuntimeExamples.thy ===== *)
theory RuntimeExamples
  imports RuntimeSafe HookExamples
begin

text \<open>
  Runs of the composed system on the IO manager of the examples: a function is submitted, its
  coroutine sleeps or ends, the stop is requested, and the thread leaves \<open>run\<close>.
\<close>

text \<open>
  Function 0 sleeps, function 1 ends at once, function 2 writes to a socket whose buffer is full,
  function 3 reads, with the time-out of the socket, when nothing is there.
\<close>

definition wit_full :: "wit_kernel syscall" where
  "wit_full k = (- 1, EAGAIN, k)"

definition wit_code :: "nat \<Rightarrow> (nat, wit_kernel) prog" where
  "wit_code u = (if u = 0 then PSleep 5 PEnd else if u = 1 then PEnd
     else if u = 2 then PIo 5 wit_full EV_WRITE SO_SNDTIMEO (\<lambda>n err. PEnd)
     else PIo 5 wit_full EV_READ SO_RCVTIMEO (\<lambda>n err. PEnd))"

definition wit_rt :: "nat hook_fn world \<Rightarrow> (nat, wit_kernel) runtime" where
  "wit_rt w = \<lparr>r_hook = wit_state w, r_dors = (\<lambda>d. None), r_pc = Scanning, r_idle_done = False\<rparr>"

abbreviation wit_step ::
  "(nat, wit_kernel) runtime \<Rightarrow> (nat, wit_kernel) runtime \<Rightarrow> bool" where
  "wit_step \<equiv> runtime_step wit_hook_env 7 41 3 wit_code (one_waiter 7)"

text \<open>An IO manager that runs nothing, without idle threads, and one as the constructor leaves it.\<close>

definition at_rest :: "'f IOManager \<Rightarrow> bool" where
  "at_rest m \<longleftrightarrow> m_tasks (io_sched m) = [] \<and> m_activeThreadCount (io_sched m) = 0
     \<and> m_idleThreadCount (io_sched m) = 0 \<and> \<not> m_stopping (io_sched m)"

definition no_work :: "'f IOManager \<Rightarrow> bool" where
  "no_work m \<longleftrightarrow> at_rest m \<and> m_timers (io_timers m) = [] \<and> m_pendingEventCount m = 0"

lemma wit_start:
  obtains w m where "runtime_start 7 (wit_rt w)" and "w_scheds w 7 = Some (Io m)" and "no_work m"
proof -
  obtain w :: "nat hook_fn world" and m0 where s: "io_started 7 w" "w_scheds w 7 = Some (Io m0)"
    "io_timers m0 = TimerManager_new (\<lambda>p. Timer_at 0) 0" by (rule wit_started)
  obtain m timers elapsed where m: "w_scheds w 7 = Some (Io m)" "io_timers m = TimerManager_new timers elapsed"
    "m_tasks (io_sched m) = []" "m_activeThreadCount (io_sched m) = 0" "\<not> m_stopping (io_sched m)"
    "m_idleThreadCount (io_sched m) = 0" "m_pendingEventCount m = 0" by (rule io_started_fresh [OF s(1)])
  have "no_work m" using m by (simp add: no_work_def at_rest_def TimerManager_new_def)
  moreover have "t_func (tobj (io_timers m) p) = None" for p
    using s(2,3) m(1) by (simp add: TimerManager_new_def Timer_at_def)
  then have "runtime_start 7 (wit_rt w)" using s(1) m(1) wit_fds_ok(1) by (simp add: runtime_start_def wit_rt_def)
  ultimately show thesis using that m(1) by blast
qed

section \<open>Steps on it\<close>

lemma put_put: "put_iom i m' (put_iom i m w) = put_iom i m' w"
  by (simp add: put_iom_def)

lemma scheds_put: "w_scheds (put_iom i m w) i = Some (Io m)"
  by (simp add: put_iom_def)

lemma tickle_unneeded: "w_scheds w i = Some (Io m) \<Longrightarrow> m_idleThreadCount (io_sched m) = 0 \<Longrightarrow> tickle i w = Inr w"
  by (simp add: tickle_def iom_at_def hasIdleThreads_def)

definition with_task :: "'f fn SchedulerTask list \<Rightarrow> u64 \<Rightarrow> 'f IOManager \<Rightarrow> 'f IOManager" where
  "with_task ts n m = m\<lparr>io_sched := (io_sched m)\<lparr>m_tasks := ts, m_activeThreadCount := n\<rparr>\<rparr>"

definition user_task :: "'u \<Rightarrow> 'u hook_fn fn SchedulerTask" where
  "user_task u = task_of (Cb (Some (Callback (UserFn u)))) (- 1)"

lemma with_task_same: "at_rest m \<Longrightarrow> with_task [] 0 m = m"
  by (simp add: with_task_def at_rest_def)

lemma submit_step:
  assumes m: "w_scheds (h_world (r_hook r)) 7 = Some (Io m)" "at_rest m"
  shows "wit_step r (r\<lparr>r_hook := (r_hook r)\<lparr>h_world := put_iom 7 (with_task [user_task u] 0 m) (h_world (r_hook r))\<rparr>\<rparr>)"
proof -
  let ?s = "(r_hook r)\<lparr>h_world := put_iom 7 (with_task [user_task u] 0 m) (h_world (r_hook r))\<rparr>"
  have "with_task [user_task u] 0 m = m\<lparr>io_sched := (io_sched m)\<lparr>m_tasks := [user_task u]\<rparr>\<rparr>"
    using m(2) by (simp add: with_task_def at_rest_def)
  then have "schedule_in 7 (Cb (Some (Callback (UserFn u)))) (r_hook r) = Inr ?s" using m
    by (simp add: schedule_in_def schedule_to_def schedule_def scheduleNoLock_def at_rest_def user_task_def Let_def
        tickle_unneeded [OF scheds_put])
  then show ?thesis using runtime_step.submit [OF m(1)] m(2) by (simp add: at_rest_def)
qed

text \<open>The thread takes a function and enters its code.\<close>

definition entered_code :: "nat \<Rightarrow> nat hook_fn IOManager \<Rightarrow> (nat, wit_kernel) runtime \<Rightarrow> (nat, wit_kernel) runtime" where
  "entered_code u m r = continue (h_next (r_hook r)) (wit_code u)
     ((r_hook r)\<lparr>h_world := put_iom 7 (with_task [] 1 m) (h_world (r_hook r)), h_next := h_next (r_hook r) + 1\<rparr>) r"

lemma take_step:
  assumes m: "w_scheds (h_world (r_hook r)) 7 = Some (Io (with_task [user_task u] 0 m))" and pc: "r_pc r = Scanning"
  shows "wit_step r (entered_code u m r)"
proof -
  have "scan_queue 7 41 r = Inr (Some (user_task u), (r_hook r)\<lparr>h_world := put_iom 7 (with_task [] 1 m) (h_world (r_hook r))\<rparr>)"
    using m by (simp add: scan_queue_def iom_at_def take_task_def scan_tasks.simps with_task_def user_task_def Let_def)
  from runtime_step.take [OF pc this, where env = wit_hook_env and idle = 3 and body = wit_code and may = "one_waiter 7"]
  show ?thesis by (simp add: settle_def run_task_def run_func_def user_task_def Let_def entered_code_def)
qed

lemma run_user:
  assumes m: "w_scheds (h_world (r_hook r)) 7 = Some (Io m)" "at_rest m" and pc: "r_pc r = Scanning"
  shows "wit_step\<^sup>*\<^sup>* r (entered_code u m r)"
proof -
  let ?r = "r\<lparr>r_hook := (r_hook r)\<lparr>h_world := put_iom 7 (with_task [user_task u] 0 m) (h_world (r_hook r))\<rparr>\<rparr>"
  have "wit_step r ?r" by (rule submit_step [OF m])
  moreover have "wit_step ?r (entered_code u m ?r)" using pc by (intro take_step) (simp_all add: scheds_put)
  moreover have "entered_code u m ?r = entered_code u m r"
    by (simp add: entered_code_def continue_def put_put)
  ultimately have "wit_step ?r (entered_code u m r)" by simp
  with \<open>wit_step r ?r\<close> show ?thesis by (rule converse_rtranclp_into_rtranclp [OF _ r_into_rtranclp])
qed

text \<open>A run in which a coroutine sleeps.\<close>

lemma wit_asleep:
  obtains w r where "runtime_start 7 (wit_rt w)" and "wit_step\<^sup>*\<^sup>* (wit_rt w) r" and "r_dors r 10 = Some (Asleep PEnd)"
proof -
  obtain w m where w: "runtime_start 7 (wit_rt w)" "w_scheds w 7 = Some (Io m)" "no_work m"
    by (rule wit_start)
  let ?r = "entered_code 0 m (wit_rt w)"
  have st: "wit_step\<^sup>*\<^sup>* (wit_rt w) ?r" using w(2,3) by (intro run_user) (simp_all add: wit_rt_def no_work_def)
  have r: "r_pc ?r = Exec 10 (PSleep 5 PEnd)" by (simp add: entered_code_def continue_def wit_rt_def wit_code_def)
  have good: "hook_good 7 (r_hook ?r)" by (rule runtime_inv_hook [OF runtime_runs.good_reachable [OF w(1) st]])
  obtain s1 where s1: "add_timer (at_thread wit_hook_env 7 10) 7 5 (Callback (WakeFn 7 (Some 10))) (r_hook ?r)
      = Inr (h_next (r_hook ?r), s1)"
    using adds_add_timer [OF good, of "Callback (WakeFn 7 (Some 10))" "at_thread wit_hook_env 7 10" 5] by auto
  have "settle ?r (begin_sleep wit_hook_env 7 10 5 PEnd ?r) = suspend 7 10 (Asleep PEnd) s1 ?r"
    using s1 this_iom_at(1) [OF good, of wit_hook_env 10] by (simp add: begin_sleep_def settle_def)
  then have "wit_step ?r (suspend 7 10 (Asleep PEnd) s1 ?r)"
    using runtime_step.sleep [OF r, where env = wit_hook_env and i = 7 and tid = 41 and idle = 3 and body = wit_code
        and may = "one_waiter 7"] by simp
  with st have "wit_step\<^sup>*\<^sup>* (wit_rt w) (suspend 7 10 (Asleep PEnd) s1 ?r)" by simp
  moreover have "r_dors (suspend 7 10 (Asleep PEnd) s1 ?r) 10 = Some (Asleep PEnd)" by (simp add: suspend_def give_back_def)
  ultimately show thesis using that w(1) by blast
qed

text \<open>A run to its end.\<close>

lemma tickles_unneeded:
  "w_scheds w i = Some (Io m) \<Longrightarrow> m_idleThreadCount (io_sched m) = 0 \<Longrightarrow> repeat_fault n (tickle i) w = Inr w"
  by (induction n) (simp_all add: tickle_unneeded)

lemma scan_nothing:
  assumes "w_scheds (h_world (r_hook r)) i = Some (Io m)" and "m_tasks (io_sched m) = []"
  shows "scan_queue i tid r = Inr (None, r_hook r)"
proof -
  have "put_iom i m (h_world (r_hook r)) = h_world (r_hook r)"
    using assms(1) by (simp add: put_iom_def fun_upd_idem)
  then show ?thesis using assms by (simp add: scan_queue_def iom_at_def take_task_def scan_tasks.simps Let_def)
qed

lemma wit_gone:
  obtains w r where "runtime_start 7 (wit_rt w)" and "wit_step\<^sup>*\<^sup>* (wit_rt w) r" and "r_dors r 10 = Some Over" and "r_pc r = Gone"
proof -
  obtain w m where w: "runtime_start 7 (wit_rt w)" "w_scheds w 7 = Some (Io m)" "no_work m"
    by (rule wit_start)
  let ?m1 = "with_task [] 1 m" and ?m2 = "m\<lparr>io_sched := (io_sched m)\<lparr>m_stopping := True\<rparr>\<rparr>"
  let ?s = "\<lambda>n. (wit_state (put_iom 7 n w))\<lparr>h_next := 11\<rparr>"
  let ?R = "\<lambda>n pc b. \<lparr>r_hook = ?s n, r_dors = [10 \<mapsto> Over], r_pc = pc, r_idle_done = b\<rparr>"
  have m0: "with_task [] 0 m = m" using w(3) by (intro with_task_same) (simp add: no_work_def)
  note rest = w(3) [unfolded no_work_def at_rest_def]
  have put: "(?s n)\<lparr>h_world := put_iom 7 n' (put_iom 7 n w)\<rparr> = ?s n'" for n n'
    by (simp add: wit_state_def put_put)
  let ?r = "\<lparr>r_hook = ?s ?m1, r_dors = [10 \<mapsto> Current None], r_pc = Exec 10 PEnd, r_idle_done = False\<rparr>"
  have "entered_code 1 m (wit_rt w) = ?r"
    by (simp add: entered_code_def continue_def wit_rt_def wit_state_def wit_code_def)
  then have st: "wit_step\<^sup>*\<^sup>* (wit_rt w) ?r"
    using run_user [of "wit_rt w" m 1] w(2,3) by (simp add: wit_rt_def no_work_def)
  have "upd_sched 7 (\<lambda>sch. sch\<lparr>m_activeThreadCount := m_activeThreadCount sch - 1\<rparr>) (?s ?m1) = ?s m"
    using m0 by (simp add: upd_sched_def scheds_put put with_task_def)
  then have f: "wit_step ?r (?R m Scanning False)"
    using runtime_step.finish [of ?r 10 wit_hook_env 7 41 3 wit_code "one_waiter 7"]
    by (simp add: suspend_def give_back_def)
  have "io_stop_begin 1 m = Some (unat (m_threadCount (io_sched m)) + (if m_rootDoroutine (io_sched m) \<noteq> None then 1 else 0),
      m_rootDoroutine (io_sched m) \<noteq> None, ?m2)"
    using rest by (simp add: io_stop_begin_def io_stopping_def stopping_def Let_def)
  moreover have "repeat_fault n (tickle 7) (put_iom 7 ?m2 w) = Inr (put_iom 7 ?m2 w)" for n
    by (rule tickles_unneeded [OF scheds_put]) (use rest in simp)
  ultimately have q: "wit_step (?R m Scanning False) (?R ?m2 Scanning False)"
    using runtime_step.request_stop [where r = "?R m Scanning False" and i = 7 and m = m and now = 1 and m' = ?m2
        and w = "put_iom 7 ?m2 w" and env = wit_hook_env and tid = 41 and idle = 3 and body = wit_code and may = "one_waiter 7"]
    by (simp add: scheds_put put_put wit_state_def)
  have none: "scan_queue 7 41 (?R ?m2 Scanning b) = Inr (None, ?s ?m2)" for b
    using scan_nothing [of "?R ?m2 Scanning b" 7 ?m2 41] rest by (simp add: scheds_put)
  let ?m3 = "?m2\<lparr>io_sched := idle_up (io_sched ?m2)\<rparr>"
  have up: "upd_sched 7 idle_up (?s ?m2) = ?s ?m3" by (simp add: upd_sched_def scheds_put put)
  have down: "upd_sched 7 idle_down (?s ?m3) = ?s ?m2"
    by (simp add: upd_sched_def scheds_put put idle_up_def idle_down_def)
  have stop: "io_stopping 1 ?m3 = (True, NOT 0)"
    using rest by (simp add: io_stopping_def stopping_def getNextTimer_def idle_up_def Let_def)
  have i0: "run_idle (at_thread wit_hook_env 7 3) (\<lambda>p. 0) (\<lambda>n t. WaitFailed) 1 1 7 (?s ?m2) (?R ?m2 Scanning False)
      = Some (Inr (?R ?m2 Scanning True))"
    unfolding run_idle_def up Let_def using down stop by (simp add: idle_iter_def iom_at_def scheds_put)
  have rep: "epoll_reports a 7 (\<lambda>n t. WaitFailed) v" for a and v :: "nat hook_fn world" by (simp add: epoll_reports_def)
  have i: "wit_step (?R ?m2 Scanning False) (?R ?m2 Scanning True)"
    using runtime_step.idle [OF _ none [of False] _ _ rep i0, where body = wit_code and may = "one_waiter 7"] by (simp add: settle_def)
  have l: "wit_step (?R ?m2 Scanning True) (?R ?m2 Gone True)"
    using runtime_step.leave [OF _ none [of True], where env = wit_hook_env and idle = 3 and body = wit_code and may = "one_waiter 7"] by simp
  from st f q i l have "wit_step\<^sup>*\<^sup>* (wit_rt w) (?R ?m2 Gone True)" by (meson rtranclp.rtrancl_into_rtrancl)
  then show thesis using that [OF w(1)] by simp
qed

section \<open>Two writers\<close>

lemma wit_full_call: "call_eintr wit_full s = Some (- 1, s\<lparr>h_errno := EAGAIN\<rparr>)"
  by (subst call_eintr.simps) (simp add: call_def wit_full_def EAGAIN_def EINTR_def)

abbreviation no_more :: "(nat, wit_kernel) cont" where
  "no_more \<equiv> \<lambda>n err. PEnd"

text \<open>A coroutine that is about to do the call of function \<open>u\<close>.\<close>

definition calling :: "nat \<Rightarrow> u32 \<Rightarrow> u64 \<Rightarrow> nat hook_fn IOManager \<Rightarrow> (nat, wit_kernel) runtime \<Rightarrow> (nat, wit_kernel) runtime" where
  "calling u e to m r = (let r1 = entered_code u m r
     in try_again (h_next (r_hook r)) 5 wit_full e to (h_next (r_hook r1)) no_more (new_tinfo (r_hook r1)) r1)"

lemma run_caller:
  assumes m: "w_scheds (h_world (r_hook r)) 7 = Some (Io m)" "at_rest m" and pc: "r_pc r = Scanning"
    and fds: "h_fds (r_hook r) = wit_fds" "st_hookEnable (r_hook r)"
    and u: "wit_code u = PIo 5 wit_full e so no_more" "getTimeout so (fobj wit_fds 8) = to"
  shows "wit_step\<^sup>*\<^sup>* r (calling u e to m r)"
proof -
  let ?d = "h_next (r_hook r)" and ?r1 = "entered_code u m r"
  have r1: "r_pc ?r1 = Exec ?d (PIo 5 wit_full e so no_more)"
    by (simp add: entered_code_def continue_def u(1))
  have f1: "h_fds (r_hook ?r1) = wit_fds" "st_hookEnable (r_hook ?r1)" using fds by (simp_all add: entered_code_def continue_def)
  have "\<not> isClose (fobj wit_fds 8)" by (simp add: wit_fds_def wit_ctx_def isClose_def)
  then have "do_io_enter (at_thread wit_hook_env 7 ?d) 5 wit_full so (r_hook ?r1)
      = Inr (Going to (h_next (r_hook ?r1)) (new_tinfo (r_hook ?r1)))"
    using fd_get_eq [of 5 "r_hook ?r1" "at_thread wit_hook_env 7 ?d"] wit_hooked(1) f1 wit_fds_ok u(2)
    by (simp add: do_io_enter_def Let_def)
  then have "begin_io wit_hook_env 7 ?d 5 wit_full e so no_more ?r1 = Inr (calling u e to m r)"
    by (simp add: begin_io_def calling_def Let_def)
  then have "wit_step ?r1 (calling u e to m r)"
    using runtime_step.io [OF r1, where env = wit_hook_env and i = 7 and tid = 41 and idle = 3 and body = wit_code
        and may = "one_waiter 7"] by (simp add: settle_def fd_range_def)
  then show ?thesis using run_user [OF m pc, of u] by simp
qed

lemma calling_simps:
  "r_pc (calling u e to m r) = Trying (h_next (r_hook r)) 5 wit_full e to (h_next (r_hook r) + 1) no_more"
  "h_world (r_hook (calling u e to m r)) = put_iom 7 (with_task [] 1 m) (h_world (r_hook r))"
  "h_fds (r_hook (calling u e to m r)) = h_fds (r_hook r)"
  "st_hookEnable (r_hook (calling u e to m r)) = st_hookEnable (r_hook r)"
  "h_tinfo (r_hook (calling u e to m r)) = (h_tinfo (r_hook r))(h_next (r_hook r) + 1 \<mapsto> 0)"
  "r_idle_done (calling u e to m r) = r_idle_done r"
  by (simp_all add: calling_def entered_code_def continue_def try_again_def new_tinfo_def Let_def)

abbreviation writing :: "nat hook_fn IOManager \<Rightarrow> (nat, wit_kernel) runtime \<Rightarrow> (nat, wit_kernel) runtime" where
  "writing \<equiv> calling 2 EV_WRITE (- 1)"

lemmas writing_simps = calling_simps [where u = 2 and e = EV_WRITE and to = "- 1"]

lemma run_writer:
  assumes "w_scheds (h_world (r_hook r)) 7 = Some (Io m)" "at_rest m" and "r_pc r = Scanning"
    and "h_fds (r_hook r) = wit_fds" "st_hookEnable (r_hook r)"
  shows "wit_step\<^sup>*\<^sup>* r (writing m r)"
  by (rule run_caller [OF assms, where so = SO_SNDTIMEO])
    (simp_all add: wit_code_def wit_fds_def wit_ctx_def getTimeout_def SO_SNDTIMEO_def SO_RCVTIMEO_def)

lemma addEvent_counts:
  assumes m: "w_scheds w i = Some (Io m)" "io_ok i m w" and fd: "0 \<le> fd" "nat fd < length (m_fdContexts m)"
    and a: "addEvent env ctl i fd e func rep w = Inr (0, w')"
  shows "w_scheds w' i = Some (Io (incPendingEventCount m))"
  using a addEvent_find_eq [OF m fd(1)] fd(2) m(1)
  by (auto simp: addEvent_def addEvent_arm_def rbind_eq_Inr iom_at_def put_ctx_def put_iom_def Let_def
      split: if_splits option.splits)

text \<open>The first writer waits for the event, and the thread goes on.\<close>

lemma writer_waits:
  assumes st: "runtime_start 7 r0" "wit_step\<^sup>*\<^sup>* r0 (writing m r)" and m: "at_rest m" "5 < length (m_fdContexts m)"
    and fm: "fd_mask 7 5 (h_world (r_hook (writing m r))) = 0"
  obtains r' w1 where "wit_step (writing m r) r'" and "r_pc r' = Scanning"
    and "h_fds (r_hook r') = h_fds (r_hook r)" and "st_hookEnable (r_hook r') = st_hookEnable (r_hook r)"
    and "w_scheds (h_world (r_hook r')) 7 = Some (Io (incPendingEventCount m))"
    and "ev_doroutine (ev_of EV_WRITE (ctx_or_new 7 5 (h_world (r_hook r')))) = Some (h_next (r_hook r))"
proof -
  let ?d = "h_next (r_hook r)" and ?T = "writing m r" and ?m1 = "with_task [] 1 m"
  let ?s = "(r_hook ?T)\<lparr>h_errno := EAGAIN\<rparr>" and ?te = "at_thread wit_hook_env 7 (h_next (r_hook r))"
  have good: "hook_good 7 (r_hook ?T)" by (rule runtime_inv_hook [OF runtime_runs.good_reachable [OF st]])
  then have good': "hook_good 7 ?s" using adds_good [OF adds_errno] by blast
  note inv = hook_goodD(3) [OF good']
  have fd: "fd_range 5" "single EV_WRITE" by (simp_all add: fd_range_def single_def)
  have w: "w_scheds (h_world ?s) 7 = Some (Io ?m1)" by (simp add: writing_simps scheds_put)
  have ok: "io_ok 7 ?m1 (h_world ?s)" using inv w by (auto simp: io_inv_def)
  have eo: "env_of 7 (None :: nat hook_fn fn option) (he_thread ?te)" by (simp add: env_of_def)
  obtain rt w1 where a: "addEvent (he_thread ?te) wit_ok 7 5 EV_WRITE None False (h_world ?s) = Inr (rt, w1)"
    "rt = 0 \<longrightarrow> ctx_of 7 5 w1 = Some (registered_ctx (he_thread ?te) EV_WRITE None False (ctx_or_new 7 5 (h_world ?s)))"
    using addEvent_ok [OF inv fd _ eo, of wit_ok False] fm by auto
  have rt: "rt = 0" using addEvent_refused [OF a(1)] by auto
  let ?r' = "suspend 7 ?d (InIo 5 wit_full EV_WRITE (- 1) (?d + 1) None no_more) (?s\<lparr>h_world := w1\<rparr>) ?T"
  have turn: "do_io_turn wit_hook_env 7 ?d 5 wit_full EV_WRITE (- 1) (?d + 1) no_more (- 1) ?s ?T = Inr ?r'"
    using a(1) rt this_iom_at(1) [OF good', of wit_hook_env ?d] by (simp add: do_io_turn_def wait_begin_def)
  have "one_waiter 7 ?s (WaitFor 5 EV_WRITE)" using fd fm by simp
  then have step: "wit_step ?T ?r'"
    using runtime_step.io_turn [OF writing_simps(1) [of m r] wit_full_call [of "r_hook ?T"], where env = wit_hook_env
        and i = 7 and tid = 41 and idle = 3 and body = wit_code and may = "one_waiter 7"]
    unfolding turn settle_def by (simp del: one_waiter.simps)
  have w1: "w_scheds w1 7 = Some (Io (incPendingEventCount ?m1))"
    by (rule addEvent_counts [OF w ok]) (use a(1) rt m(2) in \<open>simp_all add: with_task_def\<close>)
  have "(incPendingEventCount ?m1)\<lparr>io_sched := (io_sched (incPendingEventCount ?m1))\<lparr>m_activeThreadCount := 0\<rparr>\<rparr>
      = incPendingEventCount m"
    using m(1) by (simp add: incPendingEventCount_def with_task_def at_rest_def)
  moreover have "m_activeThreadCount (io_sched (incPendingEventCount ?m1)) = 1"
    by (simp add: incPendingEventCount_def with_task_def)
  ultimately have w': "h_world (r_hook ?r') = put_iom 7 (incPendingEventCount m) w1"
    using w1 by (simp add: suspend_def give_back_def upd_sched_def)
  have "ctx_or_new 7 5 (put_iom 7 (incPendingEventCount m) w1) = ctx_or_new 7 5 w1"
    by (rule ctx_or_new_cong [OF w1 scheds_put]) (simp_all add: incPendingEventCount_def with_task_def put_iom_def)
  then have "ctx_or_new 7 5 (h_world (r_hook ?r')) = ctx_or_new 7 5 w1" unfolding w' .
  then have "ev_doroutine (ev_of EV_WRITE (ctx_or_new 7 5 (h_world (r_hook ?r')))) = Some ?d"
    using a(2) rt by (simp add: ctx_or_new_def registered_ctx_def ev_of_put fd(2))
  moreover have "h_fds (r_hook ?r') = h_fds (r_hook r)" "st_hookEnable (r_hook ?r') = st_hookEnable (r_hook r)" "r_pc ?r' = Scanning"
    using w1 by (simp_all add: suspend_def give_back_def upd_sched_def writing_simps)
  moreover have "w_scheds (h_world (r_hook ?r')) 7 = Some (Io (incPendingEventCount m))" unfolding w' by (rule scheds_put)
  ultimately show thesis by (intro that [OF step])
qed

section \<open>Witnesses\<close>

lemma one_wakeup_each_witness:
  "\<exists>w r. runtime_start 7 (wit_rt w) \<and> wit_step\<^sup>*\<^sup>* (wit_rt w) r \<and> r_dors r 10 = Some (Asleep PEnd)
     \<and> count (wakes 7 (h_world (r_hook r))) 10 = 1"
proof -
  obtain w r where r: "runtime_start 7 (wit_rt w)" "wit_step\<^sup>*\<^sup>* (wit_rt w) r" "r_dors r 10 = Some (Asleep PEnd)" by (rule wit_asleep)
  with one_wakeup_each [where envs = "{wit_hook_env}", unfolded system_step_one, OF r(1,2), of 10] show ?thesis by (metis of_bool_eq(2) suspended.simps(3))
qed

lemma run_ends_with_all_ended_witness:
  "\<exists>w r. wit_step\<^sup>*\<^sup>* (wit_rt w) r \<and> r_pc r = Gone \<and> r_dors r 10 = Some Over \<and> wakes 7 (h_world (r_hook r)) = {#}"
proof -
  obtain w r where r: "runtime_start 7 (wit_rt w)" "wit_step\<^sup>*\<^sup>* (wit_rt w) r" "r_dors r 10 = Some Over" "r_pc r = Gone" by (rule wit_gone)
  with run_ends_with_all_ended [where envs = "{wit_hook_env}", unfolded system_step_one, OF r(1,2,4)] show ?thesis by blast
qed

lemma runtime_never_faults_witness:
  "\<exists>w r. wit_step\<^sup>*\<^sup>* (wit_rt w) r \<and> r_dors r 10 = Some (Asleep PEnd) \<and> r_pc r \<noteq> Crashed Undefined"
proof -
  obtain w r where r: "runtime_start 7 (wit_rt w)" "wit_step\<^sup>*\<^sup>* (wit_rt w) r" "r_dors r 10 = Some (Asleep PEnd)" by (rule wit_asleep)
  with runtime_never_faults [where envs = "{wit_hook_env}", unfolded system_step_one, OF r(1,2)] show ?thesis by blast
qed

lemma first_task_runs_witness:
  "\<exists>w m r s r'. r = (wit_rt w)\<lparr>r_hook := wit_state (put_iom 7 (with_task [user_task 0] 0 m) w)\<rparr>
     \<and> scan_queue 7 41 r = Inr (Some (user_task 0), s) \<and> queue_at 7 (h_world s) = [] \<and> wit_step r r'"
proof -
  obtain w m where w: "runtime_start 7 (wit_rt w)" "w_scheds w 7 = Some (Io m)" "no_work m"
    by (rule wit_start)
  let ?r = "(wit_rt w)\<lparr>r_hook := wit_state (put_iom 7 (with_task [user_task 0] 0 m) w)\<rparr>"
  have "(wit_state w)\<lparr>h_world := v\<rparr> = wit_state v" for v by (simp add: wit_state_def)
  then have "wit_step (wit_rt w) ?r"
    using submit_step [of "wit_rt w" m 0] w(2,3) by (simp add: wit_rt_def no_work_def)
  then have st: "wit_step\<^sup>*\<^sup>* (wit_rt w) ?r" by (rule r_into_rtranclp)
  have r: "r_pc ?r = Scanning" "queue_at 7 (h_world (r_hook ?r)) = [user_task 0]"
    by (simp_all add: wit_rt_def queue_at_def scheds_put with_task_def)
  obtain s r' where "scan_queue 7 41 ?r = Inr (Some (user_task 0), s)" "queue_at 7 (h_world s) = []" "wit_step ?r r'"
    using first_task_runs [where envs = "{wit_hook_env}", unfolded system_step_one, OF w(1) st r] by blast
  then show ?thesis by blast
qed

lemma second_waiter_strands_first_witness:
  "\<exists>w r d t r'. wit_step\<^sup>*\<^sup>* (wit_rt w) r
     \<and> do_io_turn wit_hook_env 7 d 5 wit_full EV_WRITE (- 1) t no_more (- 1) ((r_hook r)\<lparr>h_errno := EAGAIN\<rparr>) r = Inr r'
     \<and> suspended (r_dors r' 10) \<and> count (wakes 7 (h_world (r_hook r'))) 10 = 0"
proof -
  obtain w m where w: "runtime_start 7 (wit_rt w)" "w_scheds w 7 = Some (Io m)" "no_work m" by (rule wit_start)
  let ?r0 = "wit_rt w"
  have rest: "at_rest m" using w(3) by (simp add: no_work_def)
  have io: "io_started 7 w" using w(1) by (simp add: runtime_start_def wit_rt_def)
  have h0: "w_scheds (h_world (r_hook ?r0)) 7 = Some (Io m)" "r_pc ?r0 = Scanning" "h_fds (r_hook ?r0) = wit_fds"
    "st_hookEnable (r_hook ?r0)" "h_next (r_hook ?r0) = 10"
    using w(2) by (simp_all add: wit_rt_def)
  have st1: "wit_step\<^sup>*\<^sup>* ?r0 (writing m ?r0)" by (rule run_writer [OF h0(1) rest h0(2-4)])
  have "io_ok 7 m w" using io_started_inv [OF io] w(2) by (auto simp: io_inv_def)
  then have len: "5 < length (m_fdContexts m)" by (simp add: io_ok_def io_table_def)
  have "ctx_or_new 7 5 (put_iom 7 (with_task [] 1 m) w) = ctx_or_new 7 5 w"
    by (rule ctx_or_new_cong [OF w(2) scheds_put]) (simp_all add: with_task_def put_iom_def)
  then have fm: "fd_mask 7 5 (h_world (r_hook (writing m ?r0))) = 0"
    using io_started_none [OF io, of 5] by (simp add: writing_simps wit_rt_def flip: ctx_or_new_events)
  obtain r1 where r1: "wit_step (writing m ?r0) r1" "r_pc r1 = Scanning"
    "h_fds (r_hook r1) = wit_fds" "st_hookEnable (r_hook r1)"
    "w_scheds (h_world (r_hook r1)) 7 = Some (Io (incPendingEventCount m))"
    "ev_doroutine (ev_of EV_WRITE (ctx_or_new 7 5 (h_world (r_hook r1)))) = Some 10"
    by (rule writer_waits [OF w(1) st1 rest len fm]) (simp add: h0)
  let ?m2 = "incPendingEventCount m"
  have rest2: "at_rest ?m2" using rest by (simp add: at_rest_def incPendingEventCount_def)
  have st2: "wit_step\<^sup>*\<^sup>* ?r0 (writing ?m2 r1)"
    using st1 r1(1) run_writer [OF r1(5) rest2 r1(2-4)] by (meson rtranclp.rtrancl_into_rtrancl rtranclp_trans)
  let ?s = "(r_hook (writing ?m2 r1))\<lparr>h_errno := EAGAIN\<rparr>"
  have "ctx_or_new 7 5 (h_world ?s) = ctx_or_new 7 5 (h_world (r_hook r1))"
    by (rule ctx_or_new_cong [OF r1(5), where m' = "with_task [] 1 ?m2"])
      (simp_all add: writing_simps scheds_put with_task_def put_iom_def)
  then have x: "ev_doroutine (ev_of EV_WRITE (ctx_or_new 7 5 (h_world ?s))) = Some 10" using r1(6) by simp
  have fd: "fd_range 5" "single EV_WRITE" "\<forall>op evs. he_ctl wit_hook_env op 5 evs \<noteq> - 1"
    by (simp_all add: fd_range_def single_def)
  have "h_errno ?s = EAGAIN" by simp
  from second_waiter_strands_first [where envs = "{wit_hook_env}", unfolded system_step_one, OF w(1) st2 writing_simps(1) wit_full_call this fd(1,2) x fd(3)] st2
  show ?thesis by blast
qed

end
