(* ===== verification/RuntimeWitnesses.thy ===== *)
theory RuntimeWitnesses
  imports RuntimeArmed RuntimeExamples
begin

text \<open>
  Runs with a time-out: a coroutine reads from a socket where nothing is to be read and waits;
  the idle coroutine wakes up after the time-out and puts the callback in the queue.
\<close>

abbreviation reading :: "nat hook_fn IOManager \<Rightarrow> (nat, wit_kernel) runtime \<Rightarrow> (nat, wit_kernel) runtime" where
  "reading \<equiv> calling 3 EV_READ 100"

definition reader :: "nat \<Rightarrow> (nat, wit_kernel) strand" where
  "reader p = InIo 5 wit_full EV_READ 100 11 (Some p) no_more"

text \<open>The reader waits, with its callback on the only timer.\<close>

definition reader_waits :: "nat \<Rightarrow> (nat, wit_kernel) runtime \<Rightarrow> bool" where
  "reader_waits p r \<longleftrightarrow> r_pc r = Scanning \<and> r_dors r 10 = Some (reader p) \<and> h_tinfo (r_hook r) 11 = Some 0
     \<and> \<not> r_idle_done r \<and> (\<exists>m. w_scheds (h_world (r_hook r)) 7 = Some (Io m) \<and> m_tasks (io_sched m) = []
       \<and> \<not> m_stopping (io_sched m) \<and> m_timers (io_timers m) = [p]
       \<and> t_func (tobj (io_timers m) p) = Some (bind_fn 11 5 7 EV_READ))"

lemma distinct_one: "distinct xs \<Longrightarrow> set xs = {p} \<Longrightarrow> xs = [p]"
  by (cases xs; cases "tl xs") auto

lemma reading_reached:
  obtains w m where "runtime_start 7 (wit_rt w)" and "w_scheds w 7 = Some (Io m)" and "no_work m"
    and "wit_step\<^sup>*\<^sup>* (wit_rt w) (reading m (wit_rt w))" and "fd_mask 7 5 (h_world (r_hook (reading m (wit_rt w)))) = 0"
proof -
  obtain w m where w: "runtime_start 7 (wit_rt w)" "w_scheds w 7 = Some (Io m)" "no_work m" by (rule wit_start)
  let ?r0 = "wit_rt w"
  have rest: "at_rest m" using w(3) by (simp add: no_work_def)
  have h0: "w_scheds (h_world (r_hook ?r0)) 7 = Some (Io m)" "r_pc ?r0 = Scanning" "h_fds (r_hook ?r0) = wit_fds"
    "st_hookEnable (r_hook ?r0)" using w(2) by (simp_all add: wit_rt_def)
  have "wit_step\<^sup>*\<^sup>* ?r0 (reading m ?r0)"
    by (rule run_caller [OF h0(1) rest h0(2-4), where so = SO_RCVTIMEO]) (simp_all add: wit_code_def wit_fds_ok(6))
  moreover have "ctx_or_new 7 5 (put_iom 7 (with_task [] 1 m) w) = ctx_or_new 7 5 w"
    by (rule ctx_or_new_cong [OF w(2) scheds_put]) (simp_all add: with_task_def put_iom_def)
  then have "fd_mask 7 5 (h_world (r_hook (reading m ?r0))) = 0"
    using io_started_none [of 7 w 5] w(1) by (simp add: calling_simps wit_rt_def runtime_start_def flip: ctx_or_new_events)
  ultimately show thesis using that w by blast
qed

lemma reader_waits_reached:
  obtains w r p where "runtime_start 7 (wit_rt w)" and "wit_step\<^sup>*\<^sup>* (wit_rt w) r" and "reader_waits p r"
proof -
  obtain w m where w: "runtime_start 7 (wit_rt w)" "w_scheds w 7 = Some (Io m)" "no_work m"
    and st: "wit_step\<^sup>*\<^sup>* (wit_rt w) (reading m (wit_rt w))" and fm: "fd_mask 7 5 (h_world (r_hook (reading m (wit_rt w)))) = 0"
    by (rule reading_reached)
  let ?r = "reading m (wit_rt w)" and ?m1 = "with_task [] 1 m" and ?te = "at_thread wit_hook_env 7 10"
  let ?s = "(r_hook ?r)\<lparr>h_errno := EAGAIN\<rparr>" and ?p = "h_next (r_hook ?r)"
  have n10: "h_next (r_hook (wit_rt w)) = 10" by (simp add: wit_rt_def)
  have good: "hook_good 7 (r_hook ?r)" by (rule runtime_inv_hook [OF runtime_runs.good_reachable [OF w(1) st]])
  then have good': "hook_good 7 ?s" using adds_good [OF adds_errno] by blast
  have may: "one_waiter 7 ?s (WaitFor 5 EV_READ)" using fm by (simp add: fd_range_def single_def)
  obtain timer rt s1 where wb: "wait_begin ?te 5 EV_READ 100 11 ?s = Inr (7, timer, rt, s1)"
    "adds 7 (if rt = 0 then {#10#} else {#}) ?s s1" "h_tinfo s1 = h_tinfo ?s"
    using adds_wait_begin [OF good' may, of wit_hook_env 10 100 11] by blast
  have mw: "w_scheds (h_world ?s) 7 = Some (Io ?m1)" by (simp add: calling_simps scheds_put)
  have tg: "tm_inv (io_timers ?m1)" and inv: "io_inv 7 (h_world ?s)"
    using hook_goodD(1) [OF good'] mw by (auto simp: world_good_def timers_good_def)
  have nt: "m_timers (io_timers ?m1) = []" using w(3) by (simp add: no_work_def with_task_def)
  let ?cb = "bind_fn 11 5 7 EV_READ :: nat hook_fn fn"
  obtain m2 w2 where w2: "io_addTimer 7 ?p 100 (Some ?cb) False 1000 (h_world ?s) = Inr w2"
    "w_scheds w2 = (w_scheds (h_world ?s))(7 \<mapsto> Io m2)" "io_sched m2 = io_sched ?m1"
    "tm_inv (io_timers m2)" "set (m_timers (io_timers m2)) = {?p}" "tobj (io_timers m2) ?p = Timer_new 100 (Some ?cb) False 1000"
    by (rule io_addTimer_ok [OF mw tg, of ?p 100 "Some ?cb" False 1000]) (simp_all add: nt)
  have m2: "w_scheds w2 7 = Some (Io m2)" by (simp add: w2(2))
  have ts: "m_timers (io_timers m2) = [?p]"
    by (rule distinct_one [OF tm_inv_distinct [OF w2(4)] w2(5)])
  obtain w3 where a: "addEvent (he_thread ?te) wit_ok 7 5 EV_READ None False w2 = Inr (rt, w3)"
    and s1: "h_world s1 = w3" "timer = Some ?p"
    using wb(1) this_iom_at(1) [OF good', of wit_hook_env 10] w2(1)
    by (auto simp: wait_begin_def add_timer_def bind_fn_def wit_orig_def rbind_eq_Inr)
  have rt: "rt = 0" using addEvent_refused [OF a] by auto
  note inv2 = io_addTimer_inv [OF inv w2(1)]
  obtain m3 where m3: "w_scheds w3 7 = Some (Io m3)" "io_timers m3 = io_timers m2" "m_stopping (io_sched m3) = m_stopping (io_sched m2)"
    using calm_addEvent [OF a, of 7] m2 unfolding calm_def by blast
  have fd: "fd_range 5" "single EV_READ" by (simp_all add: fd_range_def single_def)
  have fm2: "fd_mask 7 5 w2 AND EV_READ = 0" using fd_mask_cong [OF inv2(2), of 5] fm by simp
  have eo: "env_of 7 (None :: nat hook_fn fn option) (he_thread ?te)" by (simp add: env_of_def)
  have "queue_at 7 w3 = queue_at 7 w2" using addEvent_ok [OF inv2(1) fd fm2 eo, of wit_ok False] a by auto
  then have q3: "m_tasks (io_sched m3) = []"
    by (simp add: queue_at_iom [OF m2] queue_at_iom [OF m3(1)] w2(3) with_task_def)
  let ?r' = "suspend 7 10 (reader ?p) s1 ?r"
  have "do_io_turn wit_hook_env 7 10 5 wit_full EV_READ 100 11 no_more (- 1) ?s ?r = Inr ?r'"
    using wb(1) rt s1(2) by (simp add: do_io_turn_def reader_def)
  moreover have pc: "r_pc ?r = Trying 10 5 wit_full EV_READ 100 11 no_more" by (simp add: calling_simps n10)
  ultimately have "wit_step ?r ?r'"
    using runtime_step.io_turn [OF pc wit_full_call [of "r_hook ?r"], where env = wit_hook_env
        and i = 7 and tid = 41 and idle = 3 and body = wit_code and may = "one_waiter 7"] may
    unfolding settle_def by (simp del: one_waiter.simps)
  with st have st': "wit_step\<^sup>*\<^sup>* (wit_rt w) ?r'" by simp
  have "h_tinfo (r_hook ?r') 11 = Some 0" by (simp add: tinfo_suspend wb(3) calling_simps n10)
  moreover have "\<exists>m'. w_scheds (h_world (r_hook ?r')) 7 = Some (Io m') \<and> m_tasks (io_sched m') = []
      \<and> m_stopping (io_sched m') = m_stopping (io_sched m3) \<and> io_timers m' = io_timers m3"
    using m3(1) q3 by (simp add: suspend_def give_back_def upd_sched_def s1(1) scheds_put)
  moreover have "\<not> m_stopping (io_sched m3)" "t_func (tobj (io_timers m3) ?p) = Some ?cb" "m_timers (io_timers m3) = [?p]"
    using w(3) ts w2(6) by (simp_all add: m3 w2(3) with_task_def no_work_def at_rest_def Timer_new_def)
  moreover have "r_dors ?r' 10 = Some (reader ?p)" "r_pc ?r' = Scanning" "\<not> r_idle_done ?r'"
    by (simp_all add: suspend_def give_back_def calling_simps wit_rt_def)
  ultimately have "reader_waits ?p ?r'" by (auto simp: reader_waits_def)
  then show thesis using that w(1) st' by blast
qed


text \<open>The time passes, and the idle coroutine finds the timer due.\<close>

lemma timer_fires:
  assumes st: "runtime_start 7 r0" "wit_step\<^sup>*\<^sup>* r0 r" and wt: "reader_waits p r"
  obtains r' where "wit_step r r'" and "r_pc r' = Scanning" and "r_dors r' 10 = Some (reader p)"
    and "h_tinfo (r_hook r') 11 = Some 0"
    and "queue_at 7 (h_world (r_hook r')) = [task_of (Cb (Some (bind_fn 11 5 7 EV_READ))) (- 1)]"
proof -
  obtain m where m: "w_scheds (h_world (r_hook r)) 7 = Some (Io m)" "m_tasks (io_sched m) = []" "\<not> m_stopping (io_sched m)"
    "m_timers (io_timers m) = [p]" "t_func (tobj (io_timers m) p) = Some (bind_fn 11 5 7 EV_READ)"
    using wt by (auto simp: reader_waits_def)
  have r: "r_pc r = Scanning" "\<not> r_idle_done r" using wt by (simp_all add: reader_waits_def)
  let ?s = "r_hook r" and ?te = "at_thread wit_hook_env 7 3" and ?wait = "\<lambda>(n :: nat) (t :: int). Ready []"
  let ?s1 = "upd_sched 7 idle_up ?s" and ?m1 = "m\<lparr>io_sched := idle_up (io_sched m)\<rparr>"
  have good: "hook_good 7 ?s" by (rule runtime_inv_hook [OF runtime_runs.good_reachable [OF st]])
  have q: "scan_queue 7 41 r = Inr (None, ?s)" by (rule scan_nothing [OF m(1,2)])
  have g1: "hook_good 7 ?s1" by (rule adds_good [OF adds_upd_sched(1) [OF good]]) simp_all
  have m1: "w_scheds (h_world ?s1) 7 = Some (Io ?m1)" using m(1) by (simp add: upd_sched_def scheds_put)
  obtain w where w: "run_timers 7 (h_next ?s1) (- 1) (h_world ?s1) = Inr w" "world_good 7 (h_next ?s1) w"
    using run_timers_wakes [OF hook_goodD(1) [OF g1]] by blast
  have "expired_timers (- 1) (io_timers m) = [p]" using m(4) by (simp add: expired_timers_def due_timers_def)
  then have qw: "queue_at 7 w = [task_of (Cb (Some (bind_fn 11 5 7 EV_READ))) (- 1)]"
    using follows_run_timers(2) [OF hook_goodD(1) [OF g1] w(1) m1] m(2,5) by (simp add: queue_at_iom [OF m1] requested_wakes)
  have "\<not> fst (io_stopping 1 ?m1)" using m(3) by (simp add: io_stopping_def stopping_def idle_up_def Let_def)
  moreover have "wait_loop ?wait 0 nt [] = Some ([sint (ucast (poll_timeout nt) :: u32)], [])" for nt
    by (subst wait_loop.simps) (simp add: Let_def)
  ultimately have it: "idle_iter (he_thread ?te) (he_ctl ?te) (\<lambda>p. 0) ?wait 1 (- 1) (h_next ?s1) 7 (h_world ?s1) = Some (Inr (Some w))"
    using w(1) m1 by (simp add: idle_iter_def iom_at_def split_beta)
  let ?r' = "r\<lparr>r_hook := upd_sched 7 idle_down (?s1\<lparr>h_world := w\<rparr>)\<rparr>"
  have run: "run_idle ?te (\<lambda>p. 0) ?wait 1 (- 1) 7 ?s r = Some (Inr ?r')" using it by (simp add: run_idle_def Let_def)
  have rep: "epoll_reports (\<lambda>p. 0) 7 ?wait (h_world ?s)" by (simp add: epoll_reports_def epoll_report_def)
  have "wit_step r ?r'"
    using runtime_step.idle [OF r(1) q r(2) _ rep run, where body = wit_code and may = "one_waiter 7"] by (simp add: settle_def)
  moreover obtain m' where m': "w_scheds w 7 = Some (Io m')" by (rule world_goodE [OF w(2)])
  then have "queue_at 7 (h_world (upd_sched 7 idle_down (?s1\<lparr>h_world := w\<rparr>))) = queue_at 7 w"
    by (simp add: upd_sched_def queue_at_def put_iom_def)
  moreover have "h_tinfo (r_hook ?r') 11 = Some 0"
    using wt m(1) m' by (simp add: reader_waits_def upd_sched_def)
  ultimately show thesis using that [of ?r'] r wt qw by (simp add: reader_waits_def)
qed

section \<open>Witnesses\<close>

lemma timed_wait_armed_witness:
  "\<exists>w r p. wit_step\<^sup>*\<^sup>* (wit_rt w) r \<and> r_dors r 10 = Some (reader p)
     \<and> (in_queue 7 (h_world (r_hook r)) 10
        \<or> waiting 7 (h_world (r_hook r)) 10 5 EV_READ \<and> bind_fn 11 5 7 EV_READ \<in> pending_fns 7 (h_world (r_hook r)))"
proof -
  obtain w r p where r: "runtime_start 7 (wit_rt w)" "wit_step\<^sup>*\<^sup>* (wit_rt w) r" "reader_waits p r" by (rule reader_waits_reached)
  have ctl: "removals_work wit_hook_env" by (simp add: removals_work_def accepts_removal_def)
  have d: "r_dors r 10 = Some (reader p)" using r(3) by (simp add: reader_waits_def)
  from timed_wait_armed [where envs = "{wit_hook_env}", unfolded system_step_one, OF r(1,2) d [unfolded reader_def]] r(2) d ctl show ?thesis by blast
qed

lemma timeout_decides_witness:
  "\<exists>w r r'. wit_step\<^sup>*\<^sup>* (wit_rt w) r \<and> wit_step r r' \<and> in_queue 7 (h_world (r_hook r')) 10
     \<and> h_tinfo (r_hook r') 11 = Some ETIMEDOUT"
proof -
  obtain w r p where r: "runtime_start 7 (wit_rt w)" "wit_step\<^sup>*\<^sup>* (wit_rt w) r" "reader_waits p r" by (rule reader_waits_reached)
  obtain r1 where r1: "wit_step r r1" "r_pc r1 = Scanning" "r_dors r1 10 = Some (reader p)" "h_tinfo (r_hook r1) 11 = Some 0"
    "queue_at 7 (h_world (r_hook r1)) = [task_of (Cb (Some (bind_fn 11 5 7 EV_READ))) (- 1)]" by (rule timer_fires [OF r])
  have st: "wit_step\<^sup>*\<^sup>* (wit_rt w) r1" using r(2) r1(1) by simp
  have ctl: "removals_work wit_hook_env" by (simp add: removals_work_def accepts_removal_def)
  have "task_func (task_of (Cb (Some (bind_fn 11 5 7 EV_READ))) (- 1)) = Some (bind_fn 11 5 7 EV_READ :: nat hook_fn fn)" by simp
  from timeout_decides [where envs = "{wit_hook_env}", unfolded system_step_one, OF r(1) st r1(3) [unfolded reader_def] r1(2,5) this r1(4), of wit_hook_env] st removals_workD [OF ctl]
  show ?thesis by blast
qed

end
