(* ===== verification/LogFormat.thy ===== *)
theory LogFormat
  imports Prelude
begin

text \<open>
  Levels, events and the formatter of the log library (\<open>include/log.h\<close>, \<open>src/log.cpp\<close>). Strings
  are lists of characters; what \<open>localtime_r\<close> and \<open>strftime\<close> make of a time is a parameter.
  The line \<open>init\<close> prints to the standard output about a bad pattern is left out; the error flag
  is kept.
\<close>

section \<open>Levels\<close>

datatype Level = FATAL | ALERT | CRIT | ERROR | WARN | NOTICE | INFO | DEBUG | NOTSET

fun level_value :: "Level \<Rightarrow> int" where
  "level_value FATAL = 0"
| "level_value ALERT = 100"
| "level_value CRIT = 200"
| "level_value ERROR = 300"
| "level_value WARN = 400"
| "level_value NOTICE = 500"
| "level_value INFO = 600"
| "level_value DEBUG = 700"
| "level_value NOTSET = 800"

text \<open>The comparison of levels in the macros and in \<open>Logger::log\<close> is that of their values.\<close>

instantiation Level :: linorder
begin

definition less_eq_Level :: "Level \<Rightarrow> Level \<Rightarrow> bool" where
  "less_eq_Level a b \<longleftrightarrow> level_value a \<le> level_value b"

definition less_Level :: "Level \<Rightarrow> Level \<Rightarrow> bool" where
  "less_Level a b \<longleftrightarrow> level_value a < level_value b"

instance
proof
  fix a b :: Level
  show "a \<le> b \<Longrightarrow> b \<le> a \<Longrightarrow> a = b"
    unfolding less_eq_Level_def by (cases a; cases b; simp)
qed (auto simp: less_eq_Level_def less_Level_def)

end

fun LogLevel_ToString :: "Level \<Rightarrow> string" where
  "LogLevel_ToString FATAL = ''FATAL''"
| "LogLevel_ToString ALERT = ''ALERT''"
| "LogLevel_ToString CRIT = ''CRIT''"
| "LogLevel_ToString ERROR = ''ERROR''"
| "LogLevel_ToString WARN = ''WARN''"
| "LogLevel_ToString NOTICE = ''NOTICE''"
| "LogLevel_ToString INFO = ''INFO''"
| "LogLevel_ToString DEBUG = ''DEBUG''"
| "LogLevel_ToString NOTSET = ''NOTSET''"

definition LogLevel_FromString :: "string \<Rightarrow> Level" where
  "LogLevel_FromString str =
     (if str = ''fatal'' then FATAL
      else if str = ''alert'' then ALERT
      else if str = ''crit'' then CRIT
      else if str = ''error'' then ERROR
      else if str = ''warn'' then WARN
      else if str = ''notice'' then NOTICE
      else if str = ''info'' then INFO
      else if str = ''debug'' then DEBUG
      else if str = ''FATAL'' then FATAL
      else if str = ''ALERT'' then ALERT
      else if str = ''CRIT'' then CRIT
      else if str = ''ERROR'' then ERROR
      else if str = ''WARN'' then WARN
      else if str = ''NOTICE'' then NOTICE
      else if str = ''INFO'' then INFO
      else if str = ''DEBUG'' then DEBUG
      else NOTSET)"

section \<open>Events\<close>

record LogEvent =
  e_level :: Level
  e_ss :: string
  e_file :: string
  e_line :: int
  e_elapse :: int
  e_threadId :: u32
  e_doroutineId :: u64
  e_time :: int
  e_threadName :: string
  e_loggerName :: string

definition LogEvent_new ::
  "string \<Rightarrow> Level \<Rightarrow> string \<Rightarrow> int \<Rightarrow> int \<Rightarrow> u32 \<Rightarrow> u64 \<Rightarrow> int \<Rightarrow> string \<Rightarrow> LogEvent" where
  "LogEvent_new logger_name level file line elapse thread_id doroutine_id time thread_name =
     \<lparr>e_level = level, e_ss = [], e_file = file, e_line = line, e_elapse = elapse, e_threadId = thread_id,
      e_doroutineId = doroutine_id, e_time = time, e_threadName = thread_name, e_loggerName = logger_name\<rparr>"

definition getLevel :: "LogEvent \<Rightarrow> Level" where "getLevel e = e_level e"
definition getContent :: "LogEvent \<Rightarrow> string" where "getContent e = e_ss e"
definition getFile :: "LogEvent \<Rightarrow> string" where "getFile e = e_file e"
definition getLine :: "LogEvent \<Rightarrow> int" where "getLine e = e_line e"
definition getElapse :: "LogEvent \<Rightarrow> int" where "getElapse e = e_elapse e"
definition getThreadId :: "LogEvent \<Rightarrow> u32" where "getThreadId e = e_threadId e"
definition getDoroutineId :: "LogEvent \<Rightarrow> u64" where "getDoroutineId e = e_doroutineId e"
definition getTime :: "LogEvent \<Rightarrow> int" where "getTime e = e_time e"
definition getThreadName :: "LogEvent \<Rightarrow> string" where "getThreadName e = e_threadName e"
definition getLoggerName :: "LogEvent \<Rightarrow> string" where "getLoggerName e = e_loggerName e"

text \<open>Streaming into \<open>getSS()\<close>.\<close>

definition getSS_write :: "string \<Rightarrow> LogEvent \<Rightarrow> LogEvent" where
  "getSS_write str e = e\<lparr>e_ss := e_ss e @ str\<rparr>"

text \<open>\<open>vasprintf\<close> fails or gives the text.\<close>

definition LogEvent_vprintf :: "string option \<Rightarrow> LogEvent \<Rightarrow> LogEvent" where
  "LogEvent_vprintf text e = (case text of None \<Rightarrow> e | Some buf \<Rightarrow> getSS_write buf e)"

definition LogEvent_printf :: "string option \<Rightarrow> LogEvent \<Rightarrow> LogEvent" where
  "LogEvent_printf text e = LogEvent_vprintf text e"

section \<open>Format items\<close>

datatype FormatItem =
    MessageFormatItem
  | LevelFormatItem
  | ElapseFormatItem
  | LoggerNameFormatItem
  | ThreadIdFormatItem
  | DoroutineIdFormatItem
  | ThreadNameFormatItem
  | DateTimeFormatItem string
  | FileNameFormatItem
  | LineFormatItem
  | NewLineFormatItem
  | StringFormatItem string
  | TabFormatItem
  | PercentSignFormatItem

definition default_date :: string where "default_date = ''%Y-%m-%d %H:%M:%S''"

definition DateTimeFormatItem_new :: "string \<Rightarrow> FormatItem" where
  "DateTimeFormatItem_new format = DateTimeFormatItem (if format = [] then default_date else format)"

text \<open>Numbers in decimal, as an \<open>ostream\<close> in its default state prints them.\<close>

fun show_nat :: "nat \<Rightarrow> string" where
  "show_nat n = (if n < 10 then [char_of (n + 48)] else show_nat (n div 10) @ [char_of (n mod 10 + 48)])"

declare show_nat.simps [simp del]

definition show_int :: "int \<Rightarrow> string" where
  "show_int i = (if i < 0 then CHR ''-'' # show_nat (nat (- i)) else show_nat (nat i))"

text \<open>
  One item. A date that does not fit the buffer of 64 characters leaves the buffer
  indeterminate, and it is printed all the same. Tab and newline are \<open>0x09\<close> and \<open>0x0A\<close>.
\<close>

fun item_format :: "(string \<Rightarrow> int \<Rightarrow> string) \<Rightarrow> LogEvent \<Rightarrow> FormatItem \<Rightarrow> fault + string" where
  "item_format strftime event MessageFormatItem = Inr (getContent event)"
| "item_format strftime event LevelFormatItem = Inr (LogLevel_ToString (getLevel event))"
| "item_format strftime event ElapseFormatItem = Inr (show_int (getElapse event))"
| "item_format strftime event LoggerNameFormatItem = Inr (getLoggerName event)"
| "item_format strftime event ThreadIdFormatItem = Inr (show_int (uint (getThreadId event)))"
| "item_format strftime event DoroutineIdFormatItem = Inr (show_int (uint (getDoroutineId event)))"
| "item_format strftime event ThreadNameFormatItem = Inr (getThreadName event)"
| "item_format strftime event (DateTimeFormatItem m_format) =
     (let text = strftime m_format (getTime event) in if length text < 64 then Inr text else Inl Undefined)"
| "item_format strftime event FileNameFormatItem = Inr (getFile event)"
| "item_format strftime event LineFormatItem = Inr (show_int (getLine event))"
| "item_format strftime event NewLineFormatItem = Inr [CHR 0x0A]"
| "item_format strftime event (StringFormatItem m_string) = Inr m_string"
| "item_format strftime event TabFormatItem = Inr [CHR 0x09]"
| "item_format strftime event PercentSignFormatItem = Inr [CHR ''%'']"

section \<open>The formatter\<close>

text \<open>\<open>std::string::operator[]\<close>, which may also be used at the length.\<close>

definition str_at :: "string \<Rightarrow> nat \<Rightarrow> fault + char" where
  "str_at p i = (if i < length p then Inr (p ! i) else if i = length p then Inr (CHR 0x00) else Inl OutOfRange)"

text \<open>The loop that collects the date format.\<close>

function date_loop :: "string \<Rightarrow> nat \<Rightarrow> string \<Rightarrow> nat \<times> string" where
  "date_loop p i dateformat =
     (if i < length p \<and> p ! i \<noteq> CHR ''}'' then date_loop p (i + 1) (dateformat @ [p ! i]) else (i, dateformat))"
  by auto
termination by (relation "measure (\<lambda>(p, i, d). length p - i)") auto

declare date_loop.simps [simp del]

lemma date_loop_le: "i \<le> fst (date_loop p i d)"
proof (induction p i d rule: date_loop.induct)
  case (1 p i d)
  show ?case
  proof (cases "i < length p \<and> p ! i \<noteq> CHR ''}''")
    case True
    then show ?thesis using 1 by (subst date_loop.simps) simp
  next
    case False
    then show ?thesis by (subst date_loop.simps) auto
  qed
qed

text \<open>
  The \<open>while\<close> loop of \<open>init\<close>, from the index \<open>i\<close> on. Its result is \<open>None\<close> when a brace was not
  closed, and else what is left in \<open>tmp\<close>, the date format and the patterns.
\<close>

function init_loop ::
  "string \<Rightarrow> nat \<Rightarrow> bool \<Rightarrow> string \<Rightarrow> string \<Rightarrow> (nat \<times> string) list
    \<Rightarrow> fault + (string \<times> string \<times> (nat \<times> string) list) option" where
  "init_loop p i parsing_string tmp dateformat patterns =
     (if i < length p then
        (let c = [p ! i]
         in if c = ''%'' then
              if parsing_string then
                init_loop p (i + 1) False [] dateformat (if tmp \<noteq> [] then patterns @ [(0, tmp)] else patterns)
              else init_loop p (i + 1) True tmp dateformat (patterns @ [(1, c)])
            else
              if parsing_string then init_loop p (i + 1) True (tmp @ c) dateformat patterns
              else if c \<noteq> ''d'' then init_loop p (i + 1) True tmp dateformat (patterns @ [(1, c)])
              else if i + 1 < length p \<and> p ! (i + 1) \<noteq> CHR ''{'' then
                init_loop p (i + 1) True tmp dateformat (patterns @ [(1, c)])
              else
                let (j, dateformat1) = date_loop p (i + 2) dateformat
                in rbind (str_at p j) (\<lambda>e.
                     if e \<noteq> CHR ''}'' then Inr None
                     else init_loop p (j + 1) True tmp dateformat1 (patterns @ [(1, c)])))
      else Inr (Some (tmp, dateformat, patterns)))"
  by auto
termination
proof (relation "measure (\<lambda>(p, i, _). length p - i)", goal_cases)
  case (7 p i parsing_string tmp dateformat patterns c q j dateformat1 e)
  then have "(j, dateformat1) = date_loop p (i + 2) dateformat" by simp
  then have "i + 2 \<le> j" using date_loop_le [of "i + 2" p dateformat] by (metis fst_conv)
  moreover have "i < length p" using 7 by simp
  ultimately show ?case by auto
qed auto

declare init_loop.simps [simp del]

text \<open>The table of the format items.\<close>

definition s_format_items :: "string \<Rightarrow> FormatItem option" where
  "s_format_items = map_of
     [(''m'', MessageFormatItem), (''p'', LevelFormatItem), (''c'', LoggerNameFormatItem),
      (''r'', ElapseFormatItem), (''f'', FileNameFormatItem), (''l'', LineFormatItem),
      (''t'', ThreadIdFormatItem), (''F'', DoroutineIdFormatItem), (''N'', ThreadNameFormatItem),
      (''%'', PercentSignFormatItem), (''T'', TabFormatItem), (''n'', NewLineFormatItem)]"

text \<open>The loop over the patterns: the items before the first unknown one, and whether there is one.\<close>

fun add_items :: "string \<Rightarrow> (nat \<times> string) list \<Rightarrow> FormatItem list \<Rightarrow> FormatItem list \<times> bool" where
  "add_items dateformat [] items = (items, False)"
| "add_items dateformat (v # patterns) items =
     (if fst v = 0 then add_items dateformat patterns (items @ [StringFormatItem (snd v)])
      else if snd v = ''d'' then add_items dateformat patterns (items @ [DateTimeFormatItem_new dateformat])
      else case s_format_items (snd v) of
        None \<Rightarrow> (items, True)
      | Some it \<Rightarrow> add_items dateformat patterns (items @ [it]))"

record LogFormatter =
  m_pattern :: string
  m_items :: "FormatItem list"
  m_error :: bool

definition LogFormatter_init :: "LogFormatter \<Rightarrow> fault + LogFormatter" where
  "LogFormatter_init f =
     rbind (init_loop (m_pattern f) 0 True [] [] []) (\<lambda>r.
     case r of
       None \<Rightarrow> Inr (f\<lparr>m_error := True\<rparr>)
     | Some (tmp, dateformat, patterns) \<Rightarrow>
         (let (items, error) = add_items dateformat (if tmp \<noteq> [] then patterns @ [(0, tmp)] else patterns) (m_items f)
          in Inr (if error then f\<lparr>m_items := items, m_error := True\<rparr> else f\<lparr>m_items := items\<rparr>)))"

definition LogFormatter_new :: "string \<Rightarrow> fault + LogFormatter" where
  "LogFormatter_new pattern = LogFormatter_init \<lparr>m_pattern = pattern, m_items = [], m_error = False\<rparr>"

definition default_pattern :: string where
  "default_pattern = ''%d{%Y-%m-%d %H:%M:%S} [%rms]%T%t%T%N%T%F%T[%p]%T[%c]%T%f:%l%T%m%n''"

definition isError :: "LogFormatter \<Rightarrow> bool" where "isError f = m_error f"

definition getPattern :: "LogFormatter \<Rightarrow> string" where "getPattern f = m_pattern f"

text \<open>Both \<open>format\<close> functions: what is appended to the stream.\<close>

fun format_items :: "(string \<Rightarrow> int \<Rightarrow> string) \<Rightarrow> LogEvent \<Rightarrow> FormatItem list \<Rightarrow> fault + string" where
  "format_items strftime event [] = Inr []"
| "format_items strftime event (i # items) =
     rbind (item_format strftime event i) (\<lambda>s. rbind (format_items strftime event items) (\<lambda>t. Inr (s @ t)))"

definition LogFormatter_format :: "(string \<Rightarrow> int \<Rightarrow> string) \<Rightarrow> LogFormatter \<Rightarrow> LogEvent \<Rightarrow> fault + string" where
  "LogFormatter_format strftime f event = format_items strftime event (m_items f)"

end
