(* ===== verification/LogParse.thy ===== *)
theory LogParse
  imports LogFormat
begin

text \<open>
  What the pattern parser of the formatter computes: a scanner on lists of characters that is
  equivalent to the index loop of the code, the round trip from items to a pattern and back,
  and the line the default pattern produces.
\<close>

section \<open>A scanner without indices\<close>

datatype token = Lit string | Esc char | Date "string option"

text \<open>One more literal character in front: it joins a literal that follows.\<close>

fun lit :: "char \<Rightarrow> token list \<Rightarrow> token list" where
  "lit c (Lit s # ts) = Lit (c # s) # ts"
| "lit c ts = Lit [c] # ts"

definition emit :: "token \<Rightarrow> fault + token list option \<Rightarrow> fault + token list option" where
  "emit t m = rbind m (\<lambda>r. Inr (map_option ((#) t) r))"

text \<open>
  \<open>tokens\<close> reads text, \<open>tokens_esc\<close> what follows a percent sign, \<open>tokens_date\<close> what follows
  \<open>%d\<close>, and \<open>tokens_fmt\<close> the inside of the braces. \<open>None\<close> is a brace that is not closed; a
  pattern that ends in \<open>%d\<close> is read out of range; a percent sign at the end is dropped.
\<close>

fun tokens :: "string \<Rightarrow> fault + token list option"
  and tokens_esc :: "string \<Rightarrow> fault + token list option"
  and tokens_date :: "string \<Rightarrow> fault + token list option"
  and tokens_fmt :: "string \<Rightarrow> string \<Rightarrow> fault + token list option" where
  "tokens [] = Inr (Some [])"
| "tokens (c # cs) =
     (if c = CHR ''%'' then tokens_esc cs else rbind (tokens cs) (\<lambda>r. Inr (map_option (lit c) r)))"
| "tokens_esc [] = Inr (Some [])"
| "tokens_esc (c # cs) = (if c = CHR ''d'' then tokens_date cs else emit (Esc c) (tokens cs))"
| "tokens_date [] = Inl OutOfRange"
| "tokens_date (c # cs) = (if c = CHR ''{'' then tokens_fmt [] cs else emit (Date None) (tokens (c # cs)))"
| "tokens_fmt acc [] = Inr None"
| "tokens_fmt acc (c # cs) = (if c = CHR ''}'' then emit (Date (Some acc)) (tokens cs) else tokens_fmt (acc @ [c]) cs)"

fun pat_of :: "token \<Rightarrow> nat \<times> string" where
  "pat_of (Lit s) = (0, s)"
| "pat_of (Esc c) = (1, [c])"
| "pat_of (Date f) = (1, ''d'')"

fun date_part :: "token \<Rightarrow> string" where
  "date_part (Date (Some f)) = f"
| "date_part t = []"

text \<open>All date formats share one string.\<close>

definition dates :: "token list \<Rightarrow> string" where
  "dates ts = concat (map date_part ts)"

lemma dates_simps [simp]:
  "dates [] = []" "dates (t # ts) = date_part t @ dates ts"
  by (simp_all add: dates_def)

section \<open>Equivalence with the loop\<close>

definition prefix_lit :: "string \<Rightarrow> token list \<Rightarrow> token list" where
  "prefix_lit s ts = foldr lit s ts"

lemma prefix_lit_simps [simp]:
  "prefix_lit [] ts = ts"
  "prefix_lit (c # s) ts = lit c (prefix_lit s ts)"
  by (simp_all add: prefix_lit_def)

lemma prefix_lit_snoc: "prefix_lit (s @ [c]) ts = prefix_lit s (lit c ts)"
  by (simp add: prefix_lit_def)

text \<open>Token lists that do not start with a literal.\<close>

fun no_lit :: "token list \<Rightarrow> bool" where
  "no_lit (Lit s # ts) = False"
| "no_lit ts = True"

lemma lit_no_lit: "no_lit ts \<Longrightarrow> lit c ts = Lit [c] # ts"
  by (cases "(c, ts)" rule: lit.cases) auto

lemma prefix_no_lit: "no_lit ts \<Longrightarrow> prefix_lit s ts = (if s = [] then ts else Lit s # ts)"
  by (induction s) (auto simp: lit_no_lit)

lemma dates_lit [simp]: "dates (lit c ts) = dates ts"
  by (cases "(c, ts)" rule: lit.cases) auto

lemma dates_prefix [simp]: "dates (prefix_lit s ts) = dates ts"
  by (induction s) simp_all

lemma no_lit_emit: "emit t m = Inr (Some ts) \<Longrightarrow> no_lit [t] \<Longrightarrow> no_lit ts"
  by (cases t) (auto simp: emit_def rbind_eq_Inr)

lemma esc_no_lit:
  "tokens_esc cs = Inr (Some ts) \<Longrightarrow> no_lit ts"
  "tokens_date cs = Inr (Some ts) \<Longrightarrow> no_lit ts"
  "tokens_fmt acc cs = Inr (Some ts) \<Longrightarrow> no_lit ts"
proof -
  have F: "tokens_fmt acc cs = Inr (Some ts) \<Longrightarrow> no_lit ts" for acc cs ts
    by (induction cs arbitrary: acc) (auto split: if_splits dest: no_lit_emit)
  then show "tokens_fmt acc cs = Inr (Some ts) \<Longrightarrow> no_lit ts" .
  have D: "tokens_date cs = Inr (Some ts) \<Longrightarrow> no_lit ts" for cs ts
    by (cases cs) (auto split: if_splits dest: no_lit_emit F simp del: tokens.simps)
  then show "tokens_date cs = Inr (Some ts) \<Longrightarrow> no_lit ts" .
  show "tokens_esc cs = Inr (Some ts) \<Longrightarrow> no_lit ts"
    by (cases cs) (auto split: if_splits dest: no_lit_emit D)
qed

text \<open>The end of the loop, and the same from tokens.\<close>

definition finish ::
  "fault + (string \<times> string \<times> (nat \<times> string) list) option \<Rightarrow> fault + (string \<times> (nat \<times> string) list) option" where
  "finish m = rbind m (\<lambda>r. Inr (map_option (\<lambda>(tmp, df, ps). (df, if tmp \<noteq> [] then ps @ [(0, tmp)] else ps)) r))"

definition view ::
  "string \<Rightarrow> string \<Rightarrow> (nat \<times> string) list \<Rightarrow> fault + token list option
    \<Rightarrow> fault + (string \<times> (nat \<times> string) list) option" where
  "view tmp df ps m = rbind m (\<lambda>r. Inr (map_option (\<lambda>ts. (df @ dates ts, ps @ map pat_of (prefix_lit tmp ts))) r))"

lemma view_emit: "view [] df ps (emit t m) = view [] (df @ date_part t) (ps @ [pat_of t]) m"
proof (cases m)
  case (Inr r)
  then show ?thesis by (cases r) (simp_all add: view_def emit_def)
qed (simp add: view_def emit_def)

lemma view_lit: "view tmp df ps (rbind m (\<lambda>r. Inr (map_option (lit c) r))) = view (tmp @ [c]) df ps m"
proof (cases m)
  case (Inr r)
  then show ?thesis by (cases r) (simp_all add: view_def prefix_lit_snoc)
qed (simp add: view_def)

lemma view_flush:
  assumes "\<And>ts. m = Inr (Some ts) \<Longrightarrow> no_lit ts"
  shows "view [] df (if tmp \<noteq> [] then ps @ [(0, tmp)] else ps) m = view tmp df ps m"
proof (cases m)
  case (Inr r)
  then show ?thesis using assms by (cases r) (auto simp: view_def prefix_no_lit)
qed (simp add: view_def)

text \<open>What the loop does after \<open>%d\<close>, and inside the braces.\<close>

definition after_brace ::
  "string \<Rightarrow> (nat \<times> string) list \<Rightarrow> nat \<times> string
    \<Rightarrow> fault + (string \<times> string \<times> (nat \<times> string) list) option" where
  "after_brace p ps jd = rbind (str_at p (fst jd)) (\<lambda>e.
     if e \<noteq> CHR ''}'' then Inr None else init_loop p (fst jd + 1) True [] (snd jd) (ps @ [(1, ''d'')]))"

definition after_d ::
  "string \<Rightarrow> nat \<Rightarrow> string \<Rightarrow> (nat \<times> string) list
    \<Rightarrow> fault + (string \<times> string \<times> (nat \<times> string) list) option" where
  "after_d p i df ps =
     (if i < length p \<and> p ! i \<noteq> CHR ''{'' then init_loop p i True [] df (ps @ [(1, ''d'')])
      else after_brace p ps (date_loop p (i + 1) df))"

lemma drop_head: "drop i p = c # cs \<Longrightarrow> i < length p \<and> p ! i = c \<and> drop (Suc i) p = cs"
  by (metis Cons_nth_drop_Suc drop_all list.inject list.simps(3) not_le)

lemma init_loop_end: "drop i p = [] \<Longrightarrow> init_loop p i b tmp df ps = Inr (Some (tmp, df, ps))"
  by (subst init_loop.simps) simp

lemma init_loop_text:
  assumes "drop i p = c # cs"
  shows "init_loop p i True tmp df ps =
    (if c = CHR ''%'' then init_loop p (Suc i) False [] df (if tmp \<noteq> [] then ps @ [(0, tmp)] else ps)
     else init_loop p (Suc i) True (tmp @ [c]) df ps)"
  using drop_head [OF assms] by (subst init_loop.simps) (simp add: Let_def)

lemma init_loop_esc:
  assumes "drop i p = c # cs"
  shows "init_loop p i False [] df ps =
    (if c = CHR ''d'' then after_d p (Suc i) df ps else init_loop p (Suc i) True [] df (ps @ [(1, [c])]))"
  using drop_head [OF assms]
  by (subst init_loop.simps, cases "date_loop p (i + 2) df")
    (simp add: Let_def after_d_def after_brace_def cong: if_cong)

lemma scan_equiv:
  "drop i p = cs \<Longrightarrow> finish (init_loop p i True tmp df ps) = view tmp df ps (tokens cs)"
  "drop i p = cs1 \<Longrightarrow> finish (init_loop p i False [] df ps) = view [] df ps (tokens_esc cs1)"
  "drop i p = cs2 \<Longrightarrow> i \<le> length p \<Longrightarrow> finish (after_d p i df ps) = view [] df ps (tokens_date cs2)"
  "drop i p = cs3 \<Longrightarrow> i \<le> length p \<Longrightarrow>
     finish (after_brace p ps (date_loop p i (df @ acc))) = view [] df ps (tokens_fmt acc cs3)"
proof (induction cs and cs1 and cs2 and acc cs3 arbitrary: i tmp df ps and i df ps and i df ps and i df ps
    rule: tokens_tokens_esc_tokens_date_tokens_fmt.induct)
  case 1
  then show ?case by (auto simp: init_loop_end finish_def view_def prefix_no_lit)
next
  case (2 c cs)
  note d = drop_head [OF 2(3)]
  show ?case
  proof (cases "c = CHR ''%''")
    case True
    have "finish (init_loop p i True tmp df ps)
        = view [] df (if tmp \<noteq> [] then ps @ [(0, tmp)] else ps) (tokens_esc cs)"
      using 2(1) [OF True] d True by (simp add: init_loop_text [OF 2(3)])
    also have "\<dots> = view tmp df ps (tokens_esc cs)" by (rule view_flush) (rule esc_no_lit(1))
    finally show ?thesis using True by simp
  next
    case False
    then show ?thesis using 2(2) [OF False] d by (simp add: init_loop_text [OF 2(3)] view_lit)
  qed
next
  case 3
  then show ?case by (simp add: init_loop_end finish_def view_def)
next
  case (4 c cs)
  note d = drop_head [OF 4(3)]
  then show ?case using 4(1,2) by (auto simp: init_loop_esc [OF 4(3)] view_emit Suc_le_eq)
next
  case 5
  then have "i = length p" by simp
  then have "date_loop p (i + 1) df = (length p + 1, df)" by (subst date_loop.simps) simp
  then show ?case using \<open>i = length p\<close>
    by (simp add: after_d_def after_brace_def str_at_def finish_def view_def)
next
  case (6 c cs)
  note d = drop_head [OF 6(3)]
  show ?case
  proof (cases "c = CHR ''{''")
    case True
    then show ?thesis using 6(1) [OF True] d by (simp add: after_d_def Suc_le_eq)
  next
    case False
    then show ?thesis using 6(2) [OF False 6(3)] d by (simp add: after_d_def view_emit)
  qed
next
  case (7 acc)
  then have "i = length p" by simp
  moreover from this have "date_loop p i (df @ acc) = (length p, df @ acc)" by (subst date_loop.simps) simp
  ultimately show ?case by (simp add: after_brace_def str_at_def finish_def view_def)
next
  case (8 acc c cs)
  note d = drop_head [OF 8(3)]
  show ?case
  proof (cases "c = CHR ''}''")
    case True
    then have "date_loop p i (df @ acc) = (i, df @ acc)" using d by (subst date_loop.simps) simp
    then show ?thesis using 8(1) [OF True] d True
      by (simp add: after_brace_def str_at_def view_emit)
  next
    case False
    then have "date_loop p i (df @ acc) = date_loop p (Suc i) (df @ (acc @ [c]))" using d by (subst date_loop.simps) simp
    then show ?thesis using 8(2) [OF False] d False by (simp add: Suc_le_eq)
  qed
qed

text \<open>The items of a token list, up to the first unknown escape, and whether there is one.\<close>

fun items_of :: "string \<Rightarrow> token list \<Rightarrow> FormatItem list \<times> bool" where
  "items_of df [] = ([], False)"
| "items_of df (Lit s # ts) = (let (its, bad) = items_of df ts in (StringFormatItem s # its, bad))"
| "items_of df (Date f # ts) = (let (its, bad) = items_of df ts in (DateTimeFormatItem_new df # its, bad))"
| "items_of df (Esc c # ts) = (case s_format_items [c] of
     None \<Rightarrow> ([], True)
   | Some it \<Rightarrow> (let (its, bad) = items_of df ts in (it # its, bad)))"

definition plain_esc :: "token list \<Rightarrow> bool" where
  "plain_esc ts \<longleftrightarrow> Esc CHR ''d'' \<notin> set ts"

lemma plain_esc_simps [simp]:
  "plain_esc []" "plain_esc (Lit s # ts) = plain_esc ts" "plain_esc (Date f # ts) = plain_esc ts"
  "plain_esc (Esc c # ts) = (c \<noteq> CHR ''d'' \<and> plain_esc ts)"
  by (auto simp: plain_esc_def)

lemma plain_lit [simp]: "plain_esc (lit c ts) = plain_esc ts"
  by (cases "(c, ts)" rule: lit.cases) auto

lemma scan_plain:
  "tokens cs = Inr (Some ts) \<Longrightarrow> plain_esc ts"
  "tokens_esc cs1 = Inr (Some ts) \<Longrightarrow> plain_esc ts"
  "tokens_date cs2 = Inr (Some ts) \<Longrightarrow> plain_esc ts"
  "tokens_fmt acc cs3 = Inr (Some ts) \<Longrightarrow> plain_esc ts"
  by (induction cs and cs1 and cs2 and acc cs3 arbitrary: ts and ts and ts and ts
    rule: tokens_tokens_esc_tokens_date_tokens_fmt.induct)
    (auto simp: emit_def rbind_eq_Inr simp del: tokens.simps(2) split: if_splits, auto simp: rbind_eq_Inr split: if_splits)

lemma add_items_of:
  "plain_esc ts \<Longrightarrow> add_items df (map pat_of ts) items = (items @ fst (items_of df ts), snd (items_of df ts))"
  by (induction df ts arbitrary: items rule: items_of.induct) (auto split: option.split prod.split)

lemma formatter_of_tokens:
  "LogFormatter_new p = (case tokens p of
     Inl f \<Rightarrow> Inl f
   | Inr None \<Rightarrow> Inr \<lparr>m_pattern = p, m_items = [], m_error = True\<rparr>
   | Inr (Some ts) \<Rightarrow> Inr \<lparr>m_pattern = p, m_items = fst (items_of (dates ts) ts), m_error = snd (items_of (dates ts) ts)\<rparr>)"
proof -
  let ?f = "\<lparr>m_pattern = p, m_items = [], m_error = False\<rparr>"
  let ?k = "\<lambda>r. case r of
      None \<Rightarrow> Inr (?f\<lparr>m_error := True\<rparr>)
    | Some (df, ps) \<Rightarrow> (let (items, error) = add_items df ps [] in
        Inr (if error then ?f\<lparr>m_items := items, m_error := True\<rparr> else ?f\<lparr>m_items := items\<rparr>))"
  have "LogFormatter_new p = rbind (finish (init_loop p 0 True [] [] [])) ?k"
    by (cases "init_loop p 0 True [] [] []")
      (auto simp: LogFormatter_new_def LogFormatter_init_def finish_def Let_def split: option.split prod.split)
  also have "finish (init_loop p 0 True [] [] []) = view [] [] [] (tokens p)" by (rule scan_equiv(1)) simp
  finally have eq: "LogFormatter_new p = rbind (view [] [] [] (tokens p)) ?k" .
  show ?thesis
  proof (cases "tokens p")
    case (Inl f)
    then show ?thesis by (simp add: eq view_def)
  next
    case (Inr r)
    show ?thesis
    proof (cases r)
      case None
      then show ?thesis using Inr by (simp add: eq view_def)
    next
      case (Some ts)
      have "plain_esc ts" using scan_plain(1) Inr Some by simp
      then show ?thesis using Inr Some
        by (cases "items_of (dates ts) ts") (simp add: eq view_def add_items_of)
    qed
  qed
qed

text \<open>
  (C20) The index loop of \<open>init\<close>, with its flags, its accumulators and its inner loop, computes what
  the scanner on lists computes: it reads out of range exactly when the scanner does, it reports
  an error exactly for an open brace (with no items) or an unknown escape (with the items before
  it), and else its items are those of the tokens, where every \<open>%d\<close> gets the same format, the
  formats of all of them put together.
\<close>

theorem formatter_equiv_scanner:
  "LogFormatter_new p = (case tokens p of
     Inl f \<Rightarrow> Inl f
   | Inr None \<Rightarrow> Inr \<lparr>m_pattern = p, m_items = [], m_error = True\<rparr>
   | Inr (Some ts) \<Rightarrow> Inr \<lparr>m_pattern = p, m_items = fst (items_of (dates ts) ts), m_error = snd (items_of (dates ts) ts)\<rparr>)"
  by (rule formatter_of_tokens)

section \<open>Round trip\<close>

fun show_token :: "token \<Rightarrow> string" where
  "show_token (Lit s) = s"
| "show_token (Esc c) = [CHR ''%'', c]"
| "show_token (Date None) = ''%d''"
| "show_token (Date (Some f)) = ''%d{'' @ f @ ''}''"

text \<open>
  Token lists a pattern can stand for: literals are not empty, not adjacent and without percent
  signs, a format has no closing brace, and a \<open>%d\<close> without a format is not followed by an
  opening brace or by the end.
\<close>

fun canonical :: "token list \<Rightarrow> bool" where
  "canonical [] = True"
| "canonical (Lit s # ts) = (s \<noteq> [] \<and> CHR ''%'' \<notin> set s \<and> no_lit ts \<and> canonical ts)"
| "canonical (Esc c # ts) = (c \<noteq> CHR ''d'' \<and> canonical ts)"
| "canonical (Date None # ts) = ((case ts of [] \<Rightarrow> False | Lit s # _ \<Rightarrow> hd s \<noteq> CHR ''{'' | _ \<Rightarrow> True) \<and> canonical ts)"
| "canonical (Date (Some f) # ts) = (CHR ''}'' \<notin> set f \<and> canonical ts)"

lemma tokens_text:
  "CHR ''%'' \<notin> set s \<Longrightarrow> tokens r = Inr (Some ts) \<Longrightarrow> tokens (s @ r) = Inr (Some (prefix_lit s ts))"
  by (induction s) auto

lemma tokens_fmt_text:
  "CHR ''}'' \<notin> set f \<Longrightarrow> tokens_fmt acc (f @ CHR ''}'' # r) = emit (Date (Some (acc @ f))) (tokens r)"
  by (induction f arbitrary: acc) auto

lemma after_plain_d:
  assumes "canonical (Date None # ts)"
  obtains c cs where "concat (map show_token ts) = c # cs" and "c \<noteq> CHR ''{''"
proof (cases ts)
  case Nil
  with assms show thesis by simp
next
  case (Cons t us)
  show thesis
  proof (cases t)
    case (Lit s)
    then obtain c s' where "s = c # s'" "c \<noteq> CHR ''{''" using assms Cons by (cases s) auto
    then show thesis using Cons Lit by (intro that [of c]) auto
  next
    case (Esc c)
    then show thesis using Cons by (intro that [of "CHR ''%''"]) auto
  next
    case (Date f)
    then obtain cs where "concat (map show_token ts) = CHR ''%'' # cs" using Cons by (cases f) simp_all
    then show thesis by (rule that) simp
  qed
qed

lemma tokens_show: "canonical ts \<Longrightarrow> tokens (concat (map show_token ts)) = Inr (Some ts)"
proof (induction ts rule: canonical.induct)
  case (2 s ts)
  then have "tokens (s @ concat (map show_token ts)) = Inr (Some (prefix_lit s ts))" by (intro tokens_text) simp_all
  moreover have "prefix_lit s ts = Lit s # ts" using 2(2) by (simp add: prefix_no_lit)
  ultimately show ?case by simp
next
  case (3 c ts)
  then show ?case by (simp add: emit_def)
next
  case (4 ts)
  obtain c cs where c: "concat (map show_token ts) = c # cs" "c \<noteq> CHR ''{''" by (rule after_plain_d [OF 4(2)])
  have "tokens (c # cs) = Inr (Some ts)" using 4 c(1) by simp
  then show ?case using c by (simp add: emit_def del: tokens.simps(2)) (simp add: emit_def)
next
  case (5 f ts)
  then show ?case using tokens_fmt_text [of f "[]" "concat (map show_token ts)"] by (simp add: emit_def)
qed simp

text \<open>
  (C31) Printing tokens and parsing the pattern gives their items back: for every canonical token list
  without unknown escapes, the formatter built from the printed pattern has exactly the items of
  the tokens, in their order, and reports no error.
\<close>

theorem pattern_roundtrip:
  assumes "canonical ts" and "\<not> snd (items_of (dates ts) ts)"
  shows "LogFormatter_new (concat (map show_token ts))
    = Inr \<lparr>m_pattern = concat (map show_token ts), m_items = fst (items_of (dates ts) ts), m_error = False\<rparr>"
  using tokens_show [OF assms(1)] assms(2) by (simp add: formatter_of_tokens)

definition default_tokens :: "token list" where
  "default_tokens = [Date (Some default_date), Lit '' ['', Esc CHR ''r'', Lit ''ms]'', Esc CHR ''T'', Esc CHR ''t'',
     Esc CHR ''T'', Esc CHR ''N'', Esc CHR ''T'', Esc CHR ''F'', Esc CHR ''T'', Lit ''['', Esc CHR ''p'', Lit '']'',
     Esc CHR ''T'', Lit ''['', Esc CHR ''c'', Lit '']'', Esc CHR ''T'', Esc CHR ''f'', Lit '':'', Esc CHR ''l'',
     Esc CHR ''T'', Esc CHR ''m'', Esc CHR ''n'']"

lemma default_tokens_ok:
  "canonical default_tokens" "concat (map show_token default_tokens) = default_pattern"
  "dates default_tokens = default_date" "\<not> snd (items_of default_date default_tokens)"
  by (simp_all add: default_tokens_def default_pattern_def default_date_def s_format_items_def)

lemma default_formatter:
  "LogFormatter_new default_pattern = Inr \<lparr>m_pattern = default_pattern,
      m_items = fst (items_of default_date default_tokens), m_error = False\<rparr>"
  using tokens_show [OF default_tokens_ok(1)] default_tokens_ok(2-4) by (simp add: formatter_of_tokens)

lemma pattern_roundtrip_witness:
  "LogFormatter_new default_pattern
    = Inr \<lparr>m_pattern = default_pattern, m_items = fst (items_of default_date default_tokens), m_error = False\<rparr>"
  using pattern_roundtrip [of default_tokens] default_tokens_ok by simp

text \<open>
  The line the default pattern produces: date, milliseconds since the logger was created, thread
  number and name, coroutine number, level, logger name, file and line, and the message, with
  the separators of the pattern; it is produced unless the date needs 64 characters or more.
\<close>

theorem default_line:
  assumes "LogFormatter_new default_pattern = Inr f" and "length (strftime default_date (e_time e)) < 64"
  shows "LogFormatter_format strftime f e = Inr (strftime default_date (e_time e) @ '' ['' @ show_int (e_elapse e) @ ''ms]''
    @ [CHR 0x09] @ show_int (uint (e_threadId e)) @ [CHR 0x09] @ e_threadName e @ [CHR 0x09]
    @ show_int (uint (e_doroutineId e)) @ [CHR 0x09] @ ''['' @ LogLevel_ToString (e_level e) @ '']''
    @ [CHR 0x09] @ ''['' @ e_loggerName e @ '']'' @ [CHR 0x09] @ e_file e @ '':'' @ show_int (e_line e)
    @ [CHR 0x09] @ e_ss e @ [CHR 0x0A])"
proof -
  have "f = \<lparr>m_pattern = default_pattern, m_items = fst (items_of default_date default_tokens), m_error = False\<rparr>"
    using assms(1) by (simp add: default_formatter)
  then have "m_items f = [DateTimeFormatItem default_date, StringFormatItem '' ['', ElapseFormatItem, StringFormatItem ''ms]'',
      TabFormatItem, ThreadIdFormatItem, TabFormatItem, ThreadNameFormatItem, TabFormatItem, DoroutineIdFormatItem,
      TabFormatItem, StringFormatItem ''['', LevelFormatItem, StringFormatItem '']'', TabFormatItem,
      StringFormatItem ''['', LoggerNameFormatItem, StringFormatItem '']'', TabFormatItem, FileNameFormatItem,
      StringFormatItem '':'', LineFormatItem, TabFormatItem, MessageFormatItem, NewLineFormatItem]"
    by (simp add: default_tokens_def s_format_items_def DateTimeFormatItem_new_def default_date_def)
  then show ?thesis using assms(2)
    by (simp add: LogFormatter_format_def getTime_def getElapse_def getThreadId_def getThreadName_def
      getDoroutineId_def getLevel_def getLoggerName_def getFile_def getLine_def getContent_def)
qed

definition wit_event :: LogEvent where
  "wit_event = LogEvent_new ''root'' INFO ''a.cpp'' 12 7 4 2 0 ''main''"

lemma default_line_witness:
  "\<exists>f. LogFormatter_new default_pattern = Inr f
    \<and> LogFormatter_format (\<lambda>fmt t. ''1970'') f (getSS_write ''hi'' wit_event)
      = Inr (''1970 [7ms]'' @ [CHR 0x09] @ ''4'' @ [CHR 0x09] @ ''main'' @ [CHR 0x09] @ ''2'' @ [CHR 0x09] @ ''[INFO]''
          @ [CHR 0x09] @ ''[root]'' @ [CHR 0x09] @ ''a.cpp:12'' @ [CHR 0x09] @ ''hi'' @ [CHR 0x0A])"
proof -
  note l = default_line [OF default_formatter, of "\<lambda>fmt t. ''1970''" "getSS_write ''hi'' wit_event"]
  show ?thesis
    by (intro exI conjI, rule default_formatter, subst l)
      (simp_all add: wit_event_def LogEvent_new_def getSS_write_def show_int_def show_nat.simps char_of_def bit_Suc_0_iff)
qed

section \<open>Levels\<close>

definition to_lower :: "char \<Rightarrow> char" where
  "to_lower c = (let n = of_char c in if 65 \<le> n \<and> n \<le> (90 :: nat) then char_of (n + 32) else c)"

fun lower_name :: "Level \<Rightarrow> string" where
  "lower_name FATAL = ''fatal''"
| "lower_name ALERT = ''alert''"
| "lower_name CRIT = ''crit''"
| "lower_name ERROR = ''error''"
| "lower_name WARN = ''warn''"
| "lower_name NOTICE = ''notice''"
| "lower_name INFO = ''info''"
| "lower_name DEBUG = ''debug''"
| "lower_name NOTSET = ''notset''"

lemma lower_name: "map to_lower (LogLevel_ToString l) = lower_name l"
  by (cases l) (simp_all add: to_lower_def char_of_def bit_Suc_0_iff)

lemma FromString_cases:
  obtains l where "str = LogLevel_ToString l" and "LogLevel_FromString str = l"
    | l where "str = lower_name l" and "LogLevel_FromString str = l"
    | "LogLevel_FromString str = NOTSET"
  unfolding LogLevel_FromString_def
  by (smt (verit) LogLevel_ToString.simps lower_name.simps)

text \<open>
  Levels survive printing: \<open>FromString\<close> of the name of a level, in capitals or in small letters,
  is the level. No other string is read as a level but \<open>NOTSET\<close>, so that mixed cases are not
  recognised although the header says the case does not matter.
\<close>

theorem level_roundtrip:
  "LogLevel_FromString (LogLevel_ToString l) = l
   \<and> LogLevel_FromString (map to_lower (LogLevel_ToString l)) = l
   \<and> (LogLevel_FromString str = NOTSET
      \<or> str \<in> {LogLevel_ToString (LogLevel_FromString str), map to_lower (LogLevel_ToString (LogLevel_FromString str))})"
proof (intro conjI)
  show "LogLevel_FromString (LogLevel_ToString l) = l" by (cases l) (simp_all add: LogLevel_FromString_def)
  show "LogLevel_FromString (map to_lower (LogLevel_ToString l)) = l"
    unfolding lower_name by (cases l) (simp_all add: LogLevel_FromString_def)
  show "LogLevel_FromString str = NOTSET
      \<or> str \<in> {LogLevel_ToString (LogLevel_FromString str), map to_lower (LogLevel_ToString (LogLevel_FromString str))}"
    unfolding lower_name by (cases rule: FromString_cases [of str]) simp_all
qed

end
