(* ===== verification/Logging.thy ===== *)
theory Logging
  imports LogParse "HOL-Library.Signed_Division"
begin

text \<open>
  Appenders, loggers and their registry (\<open>include/log.h\<close>, \<open>src/log.cpp\<close>), the logging macros, the
  utilities they use (\<open>src/util.cpp\<close>), the scoped spin lock (\<open>include/mutex.h\<close>) and the two
  switches of \<open>include/forTest.h\<close>. Appenders and loggers are objects at addresses.
\<close>

section \<open>Locks\<close>

text \<open>A spin mutex is taken or free. \<open>None\<close>: the call spins until another thread unlocks.\<close>

type_synonym spin_mutex = bool

definition spin_mutex_new :: spin_mutex where "spin_mutex_new = False"

definition spin_mutex_lock :: "spin_mutex \<Rightarrow> spin_mutex option" where
  "spin_mutex_lock m = (if m then None else Some True)"

definition spin_mutex_unlock :: "spin_mutex \<Rightarrow> fault + spin_mutex" where
  "spin_mutex_unlock m = (if m then Inr False else Inl Undefined)"

record ScopedLockImpl =
  m_locked :: bool

definition ScopedLock_new :: "spin_mutex \<Rightarrow> (ScopedLockImpl \<times> spin_mutex) option" where
  "ScopedLock_new m = (case spin_mutex_lock m of None \<Rightarrow> None | Some m1 \<Rightarrow> Some (\<lparr>m_locked = True\<rparr>, m1))"

definition ScopedLock_destroy :: "ScopedLockImpl \<times> spin_mutex \<Rightarrow> fault + spin_mutex" where
  "ScopedLock_destroy lm = spin_mutex_unlock (snd lm)"

definition ScopedLock_lock :: "ScopedLockImpl \<times> spin_mutex \<Rightarrow> (ScopedLockImpl \<times> spin_mutex) option" where
  "ScopedLock_lock lm =
     (let (l, m) = lm
      in if \<not> m_locked l
         then (case spin_mutex_lock m of None \<Rightarrow> None | Some m1 \<Rightarrow> Some (l\<lparr>m_locked := True\<rparr>, m1))
         else Some (l, m))"

definition ScopedLock_unlock :: "ScopedLockImpl \<times> spin_mutex \<Rightarrow> fault + ScopedLockImpl \<times> spin_mutex" where
  "ScopedLock_unlock lm =
     (let (l, m) = lm
      in if m_locked l then rbind (spin_mutex_unlock m) (\<lambda>m1. Inr (l\<lparr>m_locked := False\<rparr>, m1)) else Inr (l, m))"

section \<open>Utilities\<close>

definition GetElapsedMS :: "int \<times> int \<Rightarrow> u64" where
  "GetElapsedMS ts = (let (tv_sec, tv_nsec) = ts in word_of_int (tv_sec * 1000 + tv_nsec sdiv 1000000))"

text \<open>\<open>c_str()\<close> ends at the first null character; the name of a thread has at most 15 characters.\<close>

definition c_str :: "string \<Rightarrow> string" where "c_str s = takeWhile (\<lambda>c. c \<noteq> CHR 0x00) s"

definition pthread_setname :: "string \<Rightarrow> string \<Rightarrow> string" where
  "pthread_setname name old = (if length name \<le> 15 then name else old)"

definition SetThreadName :: "string \<Rightarrow> string \<Rightarrow> string" where
  "SetThreadName name old = pthread_setname (c_str (take 15 name)) old"

definition GetThreadName :: "string \<Rightarrow> string" where "GetThreadName current = c_str (take 15 current)"

section \<open>Appenders\<close>

text \<open>
  The file of an appender: whether the stream's file is open and whether its error state is set.
  Closing a file that is not open and opening one that is open are errors; a successful
  \<open>open\<close> clears the error state.
\<close>

record file_state =
  m_filename :: string
  fs_open :: bool
  fs_fail :: bool
  m_lastTime :: u64
  m_reopenError :: bool

datatype appender_kind = StdoutLogAppender | FileLogAppender file_state

record LogAppender =
  a_kind :: appender_kind
  m_formatter :: "LogFormatter option"
  m_defaultFormatter :: LogFormatter

record Logger =
  l_name :: string
  l_level :: Level
  l_appenders :: "nat list"
  l_createTime :: u64

text \<open>The objects, what was printed, what the files hold, and the registry.\<close>

record log_state =
  ls_appenders :: "nat \<Rightarrow> LogAppender option"
  ls_loggers :: "nat \<Rightarrow> Logger option"
  ls_next :: nat
  ls_stdout :: string
  ls_files :: "string \<Rightarrow> string"
  m_loggers :: "string \<Rightarrow> nat option"
  m_root :: nat

text \<open>The surroundings: dates as text, and whether files can be opened and written.\<close>

record log_env =
  le_strftime :: "string \<Rightarrow> int \<Rightarrow> string"
  le_can_open :: "string \<Rightarrow> bool"
  le_can_write :: "string \<Rightarrow> bool"

definition setFormatter :: "LogFormatter option \<Rightarrow> LogAppender \<Rightarrow> LogAppender" where
  "setFormatter val a = a\<lparr>m_formatter := val\<rparr>"

definition getFormatter :: "LogAppender \<Rightarrow> LogFormatter" where
  "getFormatter a = (case m_formatter a of Some f \<Rightarrow> f | None \<Rightarrow> m_defaultFormatter a)"

definition stream_close :: "file_state \<Rightarrow> file_state" where
  "stream_close fs = (if fs_open fs then fs\<lparr>fs_open := False\<rparr> else fs\<lparr>fs_fail := True\<rparr>)"

definition stream_open :: "log_env \<Rightarrow> file_state \<Rightarrow> file_state" where
  "stream_open env fs =
     (if fs_open fs then fs\<lparr>fs_fail := True\<rparr>
      else if le_can_open env (m_filename fs) then fs\<lparr>fs_open := True, fs_fail := False\<rparr>
      else fs\<lparr>fs_fail := True\<rparr>)"

definition reopen :: "log_env \<Rightarrow> file_state \<Rightarrow> bool \<times> file_state" where
  "reopen env fs =
     (let fs1 = (if \<not> fs_fail fs then stream_close fs else fs);
          fs2 = stream_open env fs1;
          fs3 = fs2\<lparr>m_reopenError := fs_fail fs2\<rparr>
      in (\<not> m_reopenError fs3, fs3))"

text \<open>Writing to the stream: nothing happens in the error state, and a failed write sets it.\<close>

definition stream_write :: "log_env \<Rightarrow> string \<Rightarrow> file_state \<Rightarrow> (string \<Rightarrow> string) \<Rightarrow> file_state \<times> (string \<Rightarrow> string)" where
  "stream_write env text fs files =
     (if fs_fail fs then (fs, files)
      else if le_can_write env (m_filename fs)
      then (fs, files(m_filename fs := files (m_filename fs) @ text))
      else (fs\<lparr>fs_fail := True\<rparr>, files))"

text \<open>The constructor of the base class, with the subclass the object is of.\<close>

definition LogAppender_new :: "appender_kind \<Rightarrow> LogFormatter \<Rightarrow> LogAppender" where
  [simp]: "LogAppender_new k default_formatter =
     \<lparr>a_kind = k, m_formatter = None, m_defaultFormatter = default_formatter\<rparr>"

definition StdoutLogAppender_new :: "fault + LogAppender" where
  "StdoutLogAppender_new = rbind (LogFormatter_new default_pattern) (\<lambda>f. Inr (LogAppender_new StdoutLogAppender f))"

definition reopen_message :: "file_state \<Rightarrow> string" where
  "reopen_message fs = ''reopen file '' @ m_filename fs @ '' error'' @ [CHR 0x0A]"

definition FileLogAppender_new :: "log_env \<Rightarrow> string \<Rightarrow> fault + LogAppender \<times> string" where
  "FileLogAppender_new env file = rbind (LogFormatter_new default_pattern) (\<lambda>f.
     let fs = snd (reopen env \<lparr>m_filename = file, fs_open = False, fs_fail = False, m_lastTime = 0, m_reopenError = False\<rparr>)
     in Inr (LogAppender_new (FileLogAppender fs) f,
             if m_reopenError fs then reopen_message fs else []))"

definition StdoutLogAppender_log ::
  "log_env \<Rightarrow> LogAppender \<Rightarrow> LogEvent \<Rightarrow> log_state \<Rightarrow> fault + log_state" where
  "StdoutLogAppender_log env a event st =
     (case m_formatter a of
        Some f \<Rightarrow> rbind (LogFormatter_format (le_strftime env) f event) (\<lambda>s. Inr (st\<lparr>ls_stdout := ls_stdout st @ s\<rparr>))
      | None \<Rightarrow> rbind (LogFormatter_format (le_strftime env) (m_defaultFormatter a) event)
          (\<lambda>s. Inr (st\<lparr>ls_stdout := ls_stdout st @ s\<rparr>)))"

definition format_message :: string where
  "format_message = ''[ERROR] FileLogAppender::log() format error'' @ [CHR 0x0A]"

definition FileLogAppender_log ::
  "log_env \<Rightarrow> nat \<Rightarrow> LogAppender \<Rightarrow> file_state \<Rightarrow> LogEvent \<Rightarrow> log_state \<Rightarrow> fault + log_state" where
  "FileLogAppender_log env p a fs event st =
     (let now = word_of_int (getTime event) :: u64;
          due = m_lastTime fs + 3 \<le> now;
          fs1 = (if due then (snd (reopen env fs))\<lparr>m_lastTime := now\<rparr> else fs);
          st1 = st\<lparr>ls_stdout := ls_stdout st @ (if due \<and> m_reopenError fs1 then reopen_message fs1 else []),
                   ls_appenders := (ls_appenders st)(p \<mapsto> a\<lparr>a_kind := FileLogAppender fs1\<rparr>)\<rparr>
      in if m_reopenError fs1 then Inr st1
         else rbind (LogFormatter_format (le_strftime env)
                (case m_formatter a of Some f \<Rightarrow> f | None \<Rightarrow> m_defaultFormatter a) event) (\<lambda>s.
           let (fs2, files) = stream_write env s fs1 (ls_files st1)
           in Inr (st1\<lparr>ls_files := files, ls_appenders := (ls_appenders st1)(p \<mapsto> a\<lparr>a_kind := FileLogAppender fs2\<rparr>),
                ls_stdout := ls_stdout st1 @ (if fs_fail fs2 then format_message else [])\<rparr>)))"

text \<open>The virtual call \<open>i->log(event)\<close> through a pointer of the list.\<close>

definition appender_log :: "log_env \<Rightarrow> LogEvent \<Rightarrow> nat \<Rightarrow> log_state \<Rightarrow> fault + log_state" where
  "appender_log env event p st = (case ls_appenders st p of
     None \<Rightarrow> Inl Undefined
   | Some a \<Rightarrow> (case a_kind a of
       StdoutLogAppender \<Rightarrow> StdoutLogAppender_log env a event st
     | FileLogAppender fs \<Rightarrow> FileLogAppender_log env p a fs event st))"

section \<open>Loggers\<close>

definition Logger_new :: "string \<Rightarrow> u64 \<Rightarrow> Logger" where
  "Logger_new name elapsed = \<lparr>l_name = name, l_level = INFO, l_appenders = [], l_createTime = elapsed\<rparr>"

definition Logger_getName :: "Logger \<Rightarrow> string" where [simp]: "Logger_getName l = l_name l"
definition Logger_getCreateTime :: "Logger \<Rightarrow> u64" where [simp]: "Logger_getCreateTime l = l_createTime l"
definition Logger_getLevel :: "Logger \<Rightarrow> Level" where [simp]: "Logger_getLevel l = l_level l"

definition setLevel :: "Level \<Rightarrow> Logger \<Rightarrow> Logger" where "setLevel level l = l\<lparr>l_level := level\<rparr>"

definition addAppender :: "nat \<Rightarrow> Logger \<Rightarrow> Logger" where
  "addAppender p l = l\<lparr>l_appenders := l_appenders l @ [p]\<rparr>"

fun del_first :: "nat \<Rightarrow> nat list \<Rightarrow> nat list" where
  "del_first p [] = []"
| "del_first p (q # qs) = (if q = p then qs else q # del_first p qs)"

definition delAppender :: "nat \<Rightarrow> Logger \<Rightarrow> Logger" where
  "delAppender p l = l\<lparr>l_appenders := del_first p (l_appenders l)\<rparr>"

definition clearAppenders :: "Logger \<Rightarrow> Logger" where
  "clearAppenders l = l\<lparr>l_appenders := []\<rparr>"

fun log_all :: "log_env \<Rightarrow> LogEvent \<Rightarrow> nat list \<Rightarrow> log_state \<Rightarrow> fault + log_state" where
  "log_all env event [] st = Inr st"
| "log_all env event (p # ps) st = rbind (appender_log env event p st) (log_all env event ps)"

definition Logger_log :: "log_env \<Rightarrow> nat \<Rightarrow> LogEvent \<Rightarrow> log_state \<Rightarrow> fault + log_state" where
  "Logger_log env lp event st = (case ls_loggers st lp of
     None \<Rightarrow> Inl NullDeref
   | Some l \<Rightarrow> if getLevel event \<le> l_level l then log_all env event (l_appenders l) st else Inr st)"

definition on_logger :: "nat \<Rightarrow> (Logger \<Rightarrow> Logger) \<Rightarrow> log_state \<Rightarrow> fault + log_state" where
  "on_logger lp f st = (case ls_loggers st lp of
     None \<Rightarrow> Inl NullDeref | Some l \<Rightarrow> Inr (st\<lparr>ls_loggers := (ls_loggers st)(lp \<mapsto> f l)\<rparr>))"

text \<open>\<open>LogEventWrap\<close>: the event is logged when the wrapper is destroyed.\<close>

record LogEventWrap =
  w_logger :: nat
  w_event :: LogEvent

definition LogEventWrap_new :: "nat \<Rightarrow> LogEvent \<Rightarrow> LogEventWrap" where
  [simp]: "LogEventWrap_new logger event = \<lparr>w_logger = logger, w_event = event\<rparr>"

definition getLogEvent :: "LogEventWrap \<Rightarrow> LogEvent" where [simp]: "getLogEvent w = w_event w"

definition LogEventWrap_destroy :: "log_env \<Rightarrow> LogEventWrap \<Rightarrow> log_state \<Rightarrow> fault + log_state" where
  "LogEventWrap_destroy env w st = Logger_log env (w_logger w) (w_event w) st"

text \<open>
  The macro \<open>SYLAR_LOG_LEVEL(logger, level)\<close> followed by the text streamed into it: nothing is
  evaluated when the level is too low. The other arguments are what the functions it calls return.
\<close>

definition SYLAR_LOG_LEVEL ::
  "log_env \<Rightarrow> nat \<Rightarrow> Level \<Rightarrow> string \<Rightarrow> int \<Rightarrow> u64 \<Rightarrow> u32 \<Rightarrow> u64 \<Rightarrow> int \<Rightarrow> string \<Rightarrow> string
    \<Rightarrow> log_state \<Rightarrow> fault + log_state" where
  "SYLAR_LOG_LEVEL env lp level file line elapsed tid did time tname text st =
     (case ls_loggers st lp of
        None \<Rightarrow> Inl NullDeref
      | Some l \<Rightarrow>
          if level \<le> Logger_getLevel l then
            (let w = LogEventWrap_new lp (LogEvent_new (Logger_getName l) level file line
                   (sint (elapsed - Logger_getCreateTime l)) tid did time tname)
             in LogEventWrap_destroy env (w\<lparr>w_event := getSS_write text (getLogEvent w)\<rparr>) st)
          else Inr st)"

text \<open>The macro with a format, where \<open>text\<close> is what \<open>vasprintf\<close> makes of it.\<close>

definition SYLAR_LOG_FMT_LEVEL ::
  "log_env \<Rightarrow> nat \<Rightarrow> Level \<Rightarrow> string \<Rightarrow> int \<Rightarrow> u64 \<Rightarrow> u32 \<Rightarrow> u64 \<Rightarrow> int \<Rightarrow> string \<Rightarrow> string option
    \<Rightarrow> log_state \<Rightarrow> fault + log_state" where
  "SYLAR_LOG_FMT_LEVEL env lp level file line elapsed tid did time tname text st =
     (case ls_loggers st lp of
        None \<Rightarrow> Inl NullDeref
      | Some l \<Rightarrow>
          if level \<le> Logger_getLevel l then
            (let w = LogEventWrap_new lp (LogEvent_new (Logger_getName l) level file line
                   (sint (elapsed - Logger_getCreateTime l)) tid did time tname)
             in LogEventWrap_destroy env (w\<lparr>w_event := LogEvent_printf text (getLogEvent w)\<rparr>) st)
          else Inr st)"

section \<open>The registry\<close>

text \<open>The constructor on fresh addresses; \<open>init\<close> is empty.\<close>

definition LoggerManager_new :: "u64 \<Rightarrow> (string \<Rightarrow> string) \<Rightarrow> string \<Rightarrow> fault + log_state" where
  "LoggerManager_new elapsed files out = rbind StdoutLogAppender_new (\<lambda>a.
     let root = addAppender 0 (Logger_new ''root'' elapsed)
     in Inr \<lparr>ls_appenders = (\<lambda>_. None)(0 \<mapsto> a), ls_loggers = (\<lambda>_. None)(0 \<mapsto> root), ls_next = 1,
          ls_stdout = out, ls_files = files, m_loggers = (\<lambda>_. None)(l_name root \<mapsto> 0), m_root = 0\<rparr>)"

definition getLogger :: "string \<Rightarrow> u64 \<Rightarrow> log_state \<Rightarrow> nat \<times> log_state" where
  "getLogger name elapsed st = (case m_loggers st name of
     Some lp \<Rightarrow> (lp, st)
   | None \<Rightarrow>
       (let lp = ls_next st
        in (lp, st\<lparr>ls_loggers := (ls_loggers st)(lp \<mapsto> Logger_new name elapsed), ls_next := lp + 1,
              m_loggers := (m_loggers st)(name \<mapsto> lp)\<rparr>)))"

definition getRoot :: "log_state \<Rightarrow> nat" where "getRoot st = m_root st"

text \<open>The switches for the tests.\<close>

definition setLogLevelDebug :: "log_env \<Rightarrow> log_state \<Rightarrow> fault + log_state" where
  "setLogLevelDebug env st = rbind (FileLogAppender_new env ''./log.txt'') (\<lambda>(a, msg).
     let p = ls_next st;
         st1 = st\<lparr>ls_appenders := (ls_appenders st)(p \<mapsto> a), ls_next := p + 1, ls_stdout := ls_stdout st @ msg\<rparr>
     in rbind (on_logger (getRoot st1) (addAppender p) st1) (on_logger (getRoot st1) (setLevel DEBUG)))"

definition setLogDisable :: "log_state \<Rightarrow> fault + log_state" where
  "setLogDisable st = on_logger (getRoot st) (setLevel FATAL) st"

end
