(* ===== verification/LogRuns.thy ===== *)
theory LogRuns
  imports Logging
begin

text \<open>
  Properties of the logging objects: the registry over all runs, what one logged event writes,
  a file stream that failed, and the scoped lock.
\<close>

section \<open>Logging does not change the registry\<close>

text \<open>The frame of writing an event: appenders keep existing, loggers and registry stay.\<close>

definition log_frame :: "log_state \<Rightarrow> log_state \<Rightarrow> bool" where
  "log_frame st st' \<longleftrightarrow> ls_loggers st' = ls_loggers st \<and> ls_next st' = ls_next st
     \<and> m_loggers st' = m_loggers st \<and> m_root st' = m_root st
     \<and> (\<forall>p. ls_appenders st' p = None \<longleftrightarrow> ls_appenders st p = None)"

lemma log_frame_refl: "log_frame st st"
  by (simp add: log_frame_def)

lemma log_frame_trans: "log_frame a b \<Longrightarrow> log_frame b c \<Longrightarrow> log_frame a c"
  by (simp add: log_frame_def)

lemma FileLogAppender_log_frame:
  assumes "FileLogAppender_log env p a fs e st = Inr st'" and "ls_appenders st p = Some a"
  shows "log_frame st st'"
  using assms
  by (auto simp: FileLogAppender_log_def log_frame_def Let_def rbind_eq_Inr split: if_splits prod.splits)

lemma appender_log_frame:
  assumes "appender_log env e p st = Inr st'"
  shows "log_frame st st'"
proof -
  obtain a where a: "ls_appenders st p = Some a" using assms by (cases "ls_appenders st p") (auto simp: appender_log_def)
  show ?thesis
  proof (cases "a_kind a")
    case StdoutLogAppender
    then show ?thesis using assms a
      by (auto simp: appender_log_def StdoutLogAppender_log_def log_frame_def rbind_eq_Inr split: option.splits)
  next
    case (FileLogAppender fs)
    then show ?thesis using assms a FileLogAppender_log_frame by (simp add: appender_log_def)
  qed
qed

lemma log_all_frame: "log_all env e ps st = Inr st' \<Longrightarrow> log_frame st st'"
  by (induction ps arbitrary: st)
    (auto simp: log_frame_refl rbind_eq_Inr dest: appender_log_frame intro: log_frame_trans)

lemma Logger_log_frame: "Logger_log env lp e st = Inr st' \<Longrightarrow> log_frame st st'"
  by (auto simp: Logger_log_def log_frame_refl dest: log_all_frame split: option.splits if_splits)

lemma macro_frame:
  "SYLAR_LOG_LEVEL env lp level file line elapsed tid did time tname text st = Inr st' \<Longrightarrow> log_frame st st'"
  by (auto simp: SYLAR_LOG_LEVEL_def Let_def LogEventWrap_destroy_def log_frame_refl dest: Logger_log_frame
    split: option.splits if_splits)

lemma macro_fmt_frame:
  "SYLAR_LOG_FMT_LEVEL env lp level file line elapsed tid did time tname text st = Inr st' \<Longrightarrow> log_frame st st'"
  by (auto simp: SYLAR_LOG_FMT_LEVEL_def Let_def LogEventWrap_destroy_def log_frame_refl dest: Logger_log_frame
    split: option.splits if_splits)

section \<open>Runs of the registry\<close>

text \<open>
  Every registered name leads to a logger of that name, the root logger is registered as
  \<open>root\<close>, and every appender of a logger exists.
\<close>

definition registry_ok :: "log_state \<Rightarrow> bool" where
  "registry_ok st \<longleftrightarrow>
     (\<forall>name lp. m_loggers st name = Some lp \<longrightarrow> (\<exists>l. ls_loggers st lp = Some l \<and> l_name l = name))
     \<and> m_loggers st ''root'' = Some (m_root st)
     \<and> (\<forall>lp l. ls_loggers st lp = Some l \<longrightarrow> lp < ls_next st \<and> (\<forall>p \<in> set (l_appenders l). ls_appenders st p \<noteq> None))"

lemma registry_okD:
  assumes "registry_ok st"
  shows "m_loggers st name = Some lp \<Longrightarrow> \<exists>l. ls_loggers st lp = Some l \<and> l_name l = name"
    and "m_loggers st ''root'' = Some (m_root st)"
    and "ls_loggers st lp = Some l \<Longrightarrow> lp < ls_next st"
    and "ls_loggers st lp = Some l \<Longrightarrow> p \<in> set (l_appenders l) \<Longrightarrow> ls_appenders st p \<noteq> None"
  using assms unfolding registry_ok_def by auto

lemma registry_frame: "registry_ok st \<Longrightarrow> log_frame st st' \<Longrightarrow> registry_ok st'"
  by (simp add: registry_ok_def log_frame_def)

lemma getLogger_ok:
  assumes ok: "registry_ok st" and g: "getLogger name elapsed st = (lp, st')"
  shows "registry_ok st'" and "m_loggers st' name = Some lp"
    and "\<forall>other. other \<noteq> name \<longrightarrow> m_loggers st' other = m_loggers st other"
proof -
  show 2: "m_loggers st' name = Some lp" "\<forall>other. other \<noteq> name \<longrightarrow> m_loggers st' other = m_loggers st other"
    using g by (auto simp: getLogger_def Let_def split: option.splits)
  show "registry_ok st'"
  proof (cases "m_loggers st name")
    case (Some q)
    then show ?thesis using ok g by (simp add: getLogger_def)
  next
    case None
    then have st': "lp = ls_next st" "st' = st\<lparr>ls_loggers := (ls_loggers st)(lp \<mapsto> Logger_new name elapsed),
        ls_next := lp + 1, m_loggers := (m_loggers st)(name \<mapsto> lp)\<rparr>"
      using g by (auto simp: getLogger_def Let_def)
    have root: "name \<noteq> ''root''" using None registry_okD(2) [OF ok] by auto
    have "\<exists>l. ls_loggers st' q = Some l \<and> l_name l = n" if "m_loggers st' n = Some q" for n q
    proof (cases "n = name")
      case True
      then show ?thesis using that st' by (simp add: Logger_new_def)
    next
      case False
      then have "m_loggers st n = Some q" using that st' by simp
      from registry_okD(1) [OF ok this] obtain l where l: "ls_loggers st q = Some l" "l_name l = n" by blast
      then have "q \<noteq> ls_next st" using registry_okD(3) [OF ok] by fastforce
      then show ?thesis using l st' by simp
    qed
    moreover have "q < ls_next st' \<and> (\<forall>p \<in> set (l_appenders l). ls_appenders st' p \<noteq> None)"
      if "ls_loggers st' q = Some l" for q l
    proof (cases "q = lp")
      case True
      then have "l = Logger_new name elapsed" using that st' by simp
      then show ?thesis using True st' by (simp add: Logger_new_def)
    next
      case False
      then have "ls_loggers st q = Some l" using that st' by simp
      then show ?thesis using registry_okD(3,4) [OF ok] st' by fastforce
    qed
    moreover have "m_loggers st' ''root'' = Some (m_root st')" using root registry_okD(2) [OF ok] st' by simp
    ultimately show ?thesis unfolding registry_ok_def by blast
  qed
qed

text \<open>The changes of a logger: its level and its list of appenders, which exist.\<close>

inductive logger_change :: "log_state \<Rightarrow> (Logger \<Rightarrow> Logger) \<Rightarrow> bool" for st where
  level: "logger_change st (setLevel lv)"
| add: "ls_appenders st p \<noteq> None \<Longrightarrow> logger_change st (addAppender p)"
| del: "logger_change st (delAppender p)"
| clear: "logger_change st clearAppenders"

lemma set_del_first: "set (del_first p ps) \<subseteq> set ps"
  by (induction p ps rule: del_first.induct) auto

lemma logger_change_ok:
  "logger_change st f \<Longrightarrow> l_name (f l) = l_name l
    \<and> (\<forall>p \<in> set (l_appenders (f l)). p \<in> set (l_appenders l) \<or> ls_appenders st p \<noteq> None)"
  by (induction rule: logger_change.induct)
    (use set_del_first in \<open>fastforce simp: setLevel_def addAppender_def delAppender_def clearAppenders_def\<close>)+

lemma on_logger_ok:
  assumes ok: "registry_ok st" and ch: "logger_change st f" and r: "on_logger lp f st = Inr st'"
  shows "registry_ok st'"
proof -
  obtain l where l: "ls_loggers st lp = Some l" "st' = st\<lparr>ls_loggers := (ls_loggers st)(lp \<mapsto> f l)\<rparr>"
    using r by (auto simp: on_logger_def split: option.splits)
  note C = logger_change_ok [OF ch, of l]
  have "\<exists>k. ls_loggers st' q = Some k \<and> l_name k = n" if "m_loggers st' n = Some q" for n q
  proof -
    have "m_loggers st n = Some q" using that l(2) by simp
    from registry_okD(1) [OF ok this] obtain k where "ls_loggers st q = Some k" "l_name k = n" by blast
    then show ?thesis using l C by (cases "q = lp") auto
  qed
  moreover have "q < ls_next st' \<and> (\<forall>p \<in> set (l_appenders k). ls_appenders st' p \<noteq> None)"
    if "ls_loggers st' q = Some k" for q k
  proof (cases "q = lp")
    case True
    then have "k = f l" using that l by simp
    then show ?thesis using True l registry_okD(3,4) [OF ok l(1)] C by auto
  next
    case False
    then have "ls_loggers st q = Some k" using that l by simp
    then show ?thesis using registry_okD(3,4) [OF ok] l(2) by auto
  qed
  moreover have "m_loggers st' ''root'' = Some (m_root st')" using registry_okD(2) [OF ok] l(2) by simp
  ultimately show ?thesis unfolding registry_ok_def by blast
qed

text \<open>
  One operation of the program on its loggers and appenders, the two switches of \<open>forTest.h\<close> among
  them. The operations are atomic, as the locks of \<open>log.cpp\<close> make those on one object
  (\<open>Logger::log\<close> itself takes no lock), and pointers to appenders are not null.
\<close>

inductive log_step :: "log_env \<Rightarrow> log_state \<Rightarrow> log_state \<Rightarrow> bool" for env where
  get_logger: "getLogger name elapsed st = (lp, st') \<Longrightarrow> log_step env st st'"
| change: "logger_change st f \<Longrightarrow> on_logger lp f st = Inr st' \<Longrightarrow> log_step env st st'"
| logged: "SYLAR_LOG_LEVEL env lp level file line elapsed tid did time tname text st = Inr st' \<Longrightarrow> log_step env st st'"
| new_appender: "log_step env st (st\<lparr>ls_appenders := (ls_appenders st)(ls_next st \<mapsto> a), ls_next := ls_next st + 1\<rparr>)"
| set_formatter: "ls_appenders st p = Some a \<Longrightarrow>
     log_step env st (st\<lparr>ls_appenders := (ls_appenders st)(p \<mapsto> setFormatter f a)\<rparr>)"
| logged_fmt: "SYLAR_LOG_FMT_LEVEL env lp level file line elapsed tid did time tname text st = Inr st' \<Longrightarrow>
     log_step env st st'"
| debug: "setLogLevelDebug env st = Inr st' \<Longrightarrow> log_step env st st'"
| disable: "setLogDisable st = Inr st' \<Longrightarrow> log_step env st st'"

definition log_start :: "log_state \<Rightarrow> bool" where
  "log_start st \<longleftrightarrow> (\<exists>elapsed files out. LoggerManager_new elapsed files out = Inr st)"

lemma log_start_ok: "log_start st \<Longrightarrow> registry_ok st"
  by (auto simp: log_start_def LoggerManager_new_def rbind_eq_Inr registry_ok_def Logger_new_def addAppender_def
    split: if_splits)

lemma setLogLevelDebug_steps:
  assumes "setLogLevelDebug env st = Inr st'"
  obtains a msg st2 where "on_logger (m_root st) (addAppender (ls_next st))
      (st\<lparr>ls_appenders := (ls_appenders st)(ls_next st \<mapsto> a), ls_next := ls_next st + 1,
         ls_stdout := ls_stdout st @ msg\<rparr>) = Inr st2"
    and "on_logger (m_root st) (setLevel DEBUG) st2 = Inr st'"
  using assms by (auto simp: setLogLevelDebug_def getRoot_def rbind_eq_Inr Let_def)

lemma setLogLevelDebug_ok:
  assumes ok: "registry_ok st" and r: "setLogLevelDebug env st = Inr st'"
  shows "registry_ok st'"
proof -
  obtain a msg st2 where s: "on_logger (m_root st) (addAppender (ls_next st))
      (st\<lparr>ls_appenders := (ls_appenders st)(ls_next st \<mapsto> a), ls_next := ls_next st + 1,
         ls_stdout := ls_stdout st @ msg\<rparr>) = Inr st2"
    "on_logger (m_root st) (setLevel DEBUG) st2 = Inr st'" by (rule setLogLevelDebug_steps [OF r])
  let ?st1 = "st\<lparr>ls_appenders := (ls_appenders st)(ls_next st \<mapsto> a), ls_next := ls_next st + 1,
         ls_stdout := ls_stdout st @ msg\<rparr>"
  have "registry_ok ?st1" using ok by (fastforce simp: registry_ok_def)
  then have "registry_ok st2" by (rule on_logger_ok [OF _ logger_change.add s(1)]) simp
  then show ?thesis by (rule on_logger_ok [OF _ logger_change.level s(2)])
qed

lemma on_logger_names: "on_logger lp f st = Inr st' \<Longrightarrow> m_loggers st' = m_loggers st"
  by (auto simp: on_logger_def split: option.splits)

text \<open>A name stays with its logger.\<close>

lemma log_step_names:
  assumes "log_step env st st'" and "m_loggers st name = Some lp"
  shows "m_loggers st' name = Some lp"
  using assms
proof (induction rule: log_step.induct)
  case (get_logger other elapsed st q st')
  then show ?case by (auto simp: getLogger_def Let_def split: option.splits)
next
  case (debug st st')
  from setLogLevelDebug_steps [OF debug(1)] obtain a msg st2 where s: "on_logger (m_root st) (addAppender (ls_next st))
      (st\<lparr>ls_appenders := (ls_appenders st)(ls_next st \<mapsto> a), ls_next := ls_next st + 1,
         ls_stdout := ls_stdout st @ msg\<rparr>) = Inr st2" "on_logger (m_root st) (setLevel DEBUG) st2 = Inr st'" by blast
  then show ?case using debug(2) on_logger_names [OF s(1)] on_logger_names [OF s(2)] by simp
next
  case (logged_fmt lp lv fl ln el tid did tm tn tx st st')
  then show ?case using macro_fmt_frame unfolding log_frame_def by metis
next
  case (logged lp lv fl ln el tid did tm tn tx st st')
  then show ?case using macro_frame unfolding log_frame_def by metis
qed (auto simp: setLogDisable_def dest: on_logger_names)

lemma log_steps_names:
  assumes "(log_step env)\<^sup>*\<^sup>* st st'" and "m_loggers st name = Some lp"
  shows "m_loggers st' name = Some lp"
  using assms by (induction rule: rtranclp_induct) (auto intro: log_step_names)

lemma log_step_ok:
  assumes "log_step env st st'" and "registry_ok st"
  shows "registry_ok st'"
  using assms
proof (induction rule: log_step.induct)
  case (get_logger name elapsed st lp st')
  then show ?case using getLogger_ok(1) by blast
next
  case (change st f lp st')
  then show ?case using on_logger_ok by blast
next
  case (logged lp lv fl ln el tid did tm tn tx st st')
  then show ?case using registry_frame macro_frame by blast
next
  case (new_appender st a)
  then show ?case by (fastforce simp: registry_ok_def)
next
  case (set_formatter st p a f)
  then show ?case by (fastforce simp: registry_ok_def)
next
  case (logged_fmt lp lv fl ln el tid did tm tn tx st st')
  then show ?case using registry_frame macro_fmt_frame by blast
next
  case (debug st st')
  then show ?case using setLogLevelDebug_ok by blast
next
  case (disable st st')
  then show ?case unfolding setLogDisable_def by (blast intro: on_logger_ok logger_change.level)
qed

interpretation log_runs: step_invariant log_start "log_step env" registry_ok for env
  by unfold_locales (auto intro: log_start_ok log_step_ok)

lemma log_all_returns:
  assumes "\<And>fmt t. length (le_strftime env fmt t) < 64" and "\<forall>p \<in> set ps. ls_appenders st p \<noteq> None"
  shows "\<exists>st'. log_all env e ps st = Inr st'"
  using assms(2)
proof (induction ps arbitrary: st)
  case (Cons p ps)
  have fmt: "\<exists>s. format_items (le_strftime env) e items = Inr s" for items
  proof (induction items)
    case (Cons i items)
    have "\<exists>s. item_format (le_strftime env) e i = Inr s" using assms(1) by (cases i) (simp_all add: Let_def)
    with Cons show ?case by auto
  qed simp
  obtain a where a: "ls_appenders st p = Some a" using Cons(2) by auto
  have "\<exists>st1. appender_log env e p st = Inr st1"
  proof (cases "a_kind a")
    case StdoutLogAppender
    show ?thesis
    proof (cases "m_formatter a")
      case None
      then show ?thesis using a StdoutLogAppender fmt [of "m_items (m_defaultFormatter a)"]
        by (auto simp: appender_log_def StdoutLogAppender_log_def LogFormatter_format_def)
    next
      case (Some f)
      then show ?thesis using a StdoutLogAppender fmt [of "m_items f"]
        by (auto simp: appender_log_def StdoutLogAppender_log_def LogFormatter_format_def)
    qed
  next
    case (FileLogAppender fs)
    let ?f = "case m_formatter a of Some f \<Rightarrow> f | None \<Rightarrow> m_defaultFormatter a"
    obtain s where "LogFormatter_format (le_strftime env) ?f e = Inr s"
      using fmt [of "m_items ?f"] by (auto simp: LogFormatter_format_def)
    then show ?thesis using a FileLogAppender
      by (simp add: appender_log_def FileLogAppender_log_def Let_def split: prod.split)
  qed
  then obtain st1 where s1: "appender_log env e p st = Inr st1" by blast
  then have "\<forall>q \<in> set ps. ls_appenders st1 q \<noteq> None" using Cons(2) appender_log_frame [OF s1] by (simp add: log_frame_def)
  from Cons(1) [OF this] s1 show ?case by simp
qed simp

text \<open>
  (C30) After any sequence of operations on the registry, its loggers and its appenders:
  \<open>getLogger\<close> returns a logger of the name asked for, the same one whenever it is asked again,
  after whatever further operations, and changes no other name; \<open>getLogger("root")\<close> is
  \<open>getRoot()\<close>; and, if a formatted date always has fewer than 64 characters, so that it fits the
  buffer of the formatter, logging through it returns. The operations are atomic, and
  appenders are not null pointers.
\<close>

theorem log_registry_runs:
  assumes "log_start st0" and "(log_step env)\<^sup>*\<^sup>* st0 st" and "getLogger name elapsed st = (lp, st')"
    and "\<And>fmt t. length (le_strftime env fmt t) < 64"
  shows "(\<exists>l. ls_loggers st' lp = Some l \<and> l_name l = name)
    \<and> getLogger name elapsed' st' = (lp, st')
    \<and> (\<forall>st2. (log_step env)\<^sup>*\<^sup>* st' st2 \<longrightarrow> getLogger name elapsed' st2 = (lp, st2))
    \<and> (\<forall>other. other \<noteq> name \<longrightarrow> m_loggers st' other = m_loggers st other)
    \<and> fst (getLogger ''root'' elapsed st) = getRoot st
    \<and> (\<exists>st''. Logger_log env lp e st' = Inr st'')"
proof -
  have ok: "registry_ok st" by (rule log_runs.good_reachable [OF assms(1,2)])
  note G = getLogger_ok [OF ok assms(3)]
  obtain l where l: "ls_loggers st' lp = Some l" "l_name l = name" using registry_okD(1) [OF G(1,2)] by blast
  have "\<exists>st''. log_all env e (l_appenders l) st' = Inr st''"
    using registry_okD(4) [OF G(1) l(1)] by (intro log_all_returns assms(4)) blast
  then have "\<exists>st''. Logger_log env lp e st' = Inr st''" using l(1) by (simp add: Logger_log_def)
  moreover have "getLogger name elapsed' st' = (lp, st')" using G(2) by (simp add: getLogger_def)
  moreover have "getLogger name elapsed' st2 = (lp, st2)" if "(log_step env)\<^sup>*\<^sup>* st' st2" for st2
    using log_steps_names [OF that G(2)] by (simp add: getLogger_def)
  moreover have "fst (getLogger ''root'' elapsed st) = getRoot st"
    using registry_okD(2) [OF ok] by (simp add: getLogger_def getRoot_def)
  ultimately show ?thesis using l G(3) by blast
qed

section \<open>What one event writes\<close>

lemma log_all_stdout:
  assumes "\<forall>p \<in> set ps. \<exists>a. ls_appenders st p = Some a \<and> a_kind a = StdoutLogAppender
    \<and> LogFormatter_format (le_strftime env) (getFormatter a) e = Inr (text p)"
  shows "log_all env e ps st = Inr (st\<lparr>ls_stdout := ls_stdout st @ concat (map text ps)\<rparr>)"
  using assms
proof (induction ps arbitrary: st)
  case (Cons p ps)
  obtain a where a: "ls_appenders st p = Some a" "a_kind a = StdoutLogAppender"
    "LogFormatter_format (le_strftime env) (getFormatter a) e = Inr (text p)" using Cons(2) by auto
  then have "appender_log env e p st = Inr (st\<lparr>ls_stdout := ls_stdout st @ text p\<rparr>)"
    by (simp add: appender_log_def StdoutLogAppender_log_def getFormatter_def split: option.splits)
  moreover have "log_all env e ps (st\<lparr>ls_stdout := ls_stdout st @ text p\<rparr>)
      = Inr (st\<lparr>ls_stdout := (ls_stdout st @ text p) @ concat (map text ps)\<rparr>)"
    using Cons(1) [of "st\<lparr>ls_stdout := ls_stdout st @ text p\<rparr>"] Cons(2) by simp
  ultimately show ?case by simp
qed simp

text \<open>
  A logging statement writes, once for every appender of the logger in the order they were
  added, the event in that appender's format (its own formatter, else the default one), when
  its level is not above that of the logger; else it does nothing, not even format.
\<close>

theorem macro_writes_once:
  assumes "ls_loggers st lp = Some l"
    and "event = getSS_write text (LogEvent_new (l_name l) level file line (sint (elapsed - l_createTime l)) tid did time tname)"
    and "\<forall>p \<in> set (l_appenders l). \<exists>a. ls_appenders st p = Some a \<and> a_kind a = StdoutLogAppender
      \<and> LogFormatter_format (le_strftime env) (getFormatter a) event = Inr (out p)"
  shows "SYLAR_LOG_LEVEL env lp level file line elapsed tid did time tname text st
    = Inr (if level_value level \<le> level_value (l_level l)
           then st\<lparr>ls_stdout := ls_stdout st @ concat (map out (l_appenders l))\<rparr> else st)"
proof -
  have "getLevel event = level" by (simp add: assms(2) getLevel_def getSS_write_def LogEvent_new_def)
  then show ?thesis
    using assms(1) log_all_stdout [OF assms(3)] assms(2)
    by (simp add: SYLAR_LOG_LEVEL_def Let_def LogEventWrap_destroy_def Logger_log_def less_eq_Level_def)
qed

text \<open>
  Disabling the log for the tests does not silence it: it sets the level of the root logger to
  \<open>FATAL\<close>, so that events of exactly that level are still written, and all others are not.
\<close>

theorem setLogDisable_keeps_fatal:
  assumes "ls_loggers st (m_root st) = Some l" and "setLogDisable st = Inr st1"
  shows "ls_loggers st1 (m_root st1) = Some (l\<lparr>l_level := FATAL\<rparr>)
    \<and> (level \<noteq> FATAL \<longrightarrow> SYLAR_LOG_LEVEL env (m_root st1) level file line elapsed tid did time tname text st1 = Inr st1)
    \<and> SYLAR_LOG_LEVEL env (m_root st1) FATAL file line elapsed tid did time tname text st1
        = log_all env (getSS_write text (LogEvent_new (l_name l) FATAL file line
            (sint (elapsed - l_createTime l)) tid did time tname)) (l_appenders l) st1"
proof -
  have s: "ls_loggers st1 (m_root st1) = Some (l\<lparr>l_level := FATAL\<rparr>)"
    using assms by (auto simp: setLogDisable_def on_logger_def getRoot_def setLevel_def)
  moreover have "\<not> level \<le> FATAL" if "level \<noteq> FATAL" using that by (cases level) (simp_all add: less_eq_Level_def)
  ultimately show ?thesis
    by (auto simp: SYLAR_LOG_LEVEL_def Let_def LogEventWrap_destroy_def Logger_log_def getLevel_def getSS_write_def LogEvent_new_def)
qed

section \<open>A file that failed\<close>

lemma reopen_stuck:
  assumes "fs_open fs" and "fs_fail fs"
  shows "fst (reopen env fs) = False" and "fs_open (snd (reopen env fs))" and "fs_fail (snd (reopen env fs))"
  using assms by (simp_all add: reopen_def stream_open_def Let_def)

lemma file_log_stuck:
  assumes "fs_open fs" and "fs_fail fs" and "FileLogAppender_log env p a fs e st = Inr st'"
  shows "ls_files st' = ls_files st
    \<and> (\<exists>fs'. ls_appenders st' p = Some (a\<lparr>a_kind := FileLogAppender fs'\<rparr>) \<and> fs_open fs' \<and> fs_fail fs')"
  using assms reopen_stuck [OF assms(1,2), of env]
  by (auto simp: FileLogAppender_log_def stream_write_def Let_def rbind_eq_Inr split: if_splits)

text \<open>
  A file appender does not recover from a failed write. When the stream is in its error state
  with the file open, \<open>reopen\<close> skips the \<open>close\<close>, so that \<open>open\<close> fails as well: whatever events
  follow, at whatever times and even if the file can be opened and written again, nothing more
  is written by this appender.
\<close>

theorem file_appender_stuck:
  assumes "ls_appenders st p = Some a" and "a_kind a = FileLogAppender fs" and "fs_open fs" and "fs_fail fs"
    and "fold (\<lambda>e r. rbind r (appender_log env e p)) es (Inr st) = Inr st'"
  shows "ls_files st' = ls_files st"
proof -
  define stuck where "stuck = (\<lambda>s :: log_state. ls_files s = ls_files st
    \<and> (\<exists>b fs. ls_appenders s p = Some b \<and> a_kind b = FileLogAppender fs \<and> fs_open fs \<and> fs_fail fs))"
  have step: "stuck s'" if "stuck s" "appender_log env e p s = Inr s'" for s s' e
  proof -
    obtain b fs where b: "ls_appenders s p = Some b" "a_kind b = FileLogAppender fs" "fs_open fs" "fs_fail fs"
      "ls_files s = ls_files st" using \<open>stuck s\<close> by (auto simp: stuck_def)
    have "FileLogAppender_log env p b fs e s = Inr s'" using that(2) b(1,2) by (simp add: appender_log_def)
    from file_log_stuck [OF b(3,4) this] b(5) show ?thesis by (force simp: stuck_def)
  qed
  have fault: "fold (\<lambda>e r. rbind r (appender_log env e p)) es (Inl f) = Inl f" for es f by (induction es) simp_all
  have run: "stuck s'" if "stuck s" "fold (\<lambda>e r. rbind r (appender_log env e p)) es (Inr s) = Inr s'" for s s' es
    using that
  proof (induction es arbitrary: s)
    case (Cons e es)
    show ?case
    proof (cases "appender_log env e p s")
      case (Inl f)
      then show ?thesis using Cons(3) fault by simp
    next
      case (Inr s1)
      then show ?thesis using Cons(1) [OF step [OF Cons(2) Inr]] Cons(3) by simp
    qed
  qed simp
  have "stuck st" using assms(1-4) by (auto simp: stuck_def)
  from run [OF this assms(5)] show ?thesis by (simp add: stuck_def)
qed

section \<open>The scoped lock\<close>

text \<open>
  The destructor of the scoped lock unlocks always, also after \<open>unlock()\<close>: a scope that only
  constructs and destroys the lock gives the mutex back, but a scope that unlocked it before
  unlocks a spin lock nobody holds, which is undefined.
\<close>

theorem scoped_lock_destructor:
  assumes "ScopedLock_new m = Some lm"
  shows "\<not> m \<and> ScopedLock_destroy lm = Inr False \<and> ScopedLock_lock lm = Some lm
    \<and> (\<exists>lm1. ScopedLock_unlock lm = Inr lm1 \<and> \<not> m_locked (fst lm1) \<and> \<not> snd lm1
         \<and> ScopedLock_unlock lm1 = Inr lm1 \<and> ScopedLock_destroy lm1 = Inl Undefined)"
proof -
  have lm: "\<not> m" "lm = (\<lparr>m_locked = True\<rparr>, True)"
    using assms by (auto simp: ScopedLock_new_def spin_mutex_lock_def split: if_splits)
  then show ?thesis
    by (simp add: ScopedLock_destroy_def spin_mutex_unlock_def ScopedLock_lock_def ScopedLock_unlock_def)
qed

section \<open>Concrete runs\<close>

definition wit_log_env :: log_env where
  "wit_log_env = \<lparr>le_strftime = (\<lambda>fmt t. ''now''), le_can_open = (\<lambda>f. True), le_can_write = (\<lambda>f. True)\<rparr>"

lemma wit_registry:
  obtains st f where "LoggerManager_new 0 (\<lambda>f. []) [] = Inr st" and "m_root st = 0"
    and "ls_appenders st 0 = Some \<lparr>a_kind = StdoutLogAppender, m_formatter = None, m_defaultFormatter = f\<rparr>"
    and "LogFormatter_new default_pattern = Inr f"
    and "ls_loggers st 0 = Some \<lparr>l_name = ''root'', l_level = INFO, l_appenders = [0], l_createTime = 0\<rparr>"
proof -
  obtain f where f: "LogFormatter_new default_pattern = Inr f" using default_formatter by blast
  then show thesis
    by (intro that) (auto simp: LoggerManager_new_def StdoutLogAppender_new_def Logger_new_def addAppender_def)
qed

lemma log_registry_runs_witness:
  "\<exists>st lp st'. log_start st \<and> getLogger ''net'' 5 st = (lp, st') \<and> getLogger ''net'' 9 st' = (lp, st')
     \<and> (\<exists>st2. setLogDisable st' = Inr st2 \<and> getLogger ''net'' 9 st2 = (lp, st2))
     \<and> fst (getLogger ''root'' 5 st) = getRoot st"
proof -
  obtain st where "LoggerManager_new 0 (\<lambda>f. []) [] = Inr st" by (rule wit_registry)
  then have s: "log_start st" by (auto simp: log_start_def)
  obtain lp st' where g: "getLogger ''net'' 5 st = (lp, st')" by (cases "getLogger ''net'' 5 st")
  have "length (le_strftime wit_log_env fmt t) < 64" for fmt t by (simp add: wit_log_env_def)
  note R = log_registry_runs [OF s rtranclp.rtrancl_refl g this, of 9]
  have "registry_ok st'" by (rule getLogger_ok(1) [OF log_start_ok [OF s] g])
  then obtain st2 where d: "setLogDisable st' = Inr st2"
    using registry_okD(1,2) [of st'] by (fastforce simp: setLogDisable_def on_logger_def getRoot_def)
  then have "(log_step wit_log_env)\<^sup>*\<^sup>* st' st2" by (blast intro: log_step.disable)
  with R s g d show ?thesis by blast
qed

lemma default_text:
  assumes "LogFormatter_new default_pattern = Inr f"
  shows "\<exists>s. LogFormatter_format (le_strftime wit_log_env) f e = Inr s"
proof -
  have "m_items f = fst (items_of default_date default_tokens)" using assms by (auto simp: default_formatter)
  then show ?thesis
    by (simp add: LogFormatter_format_def default_tokens_def s_format_items_def wit_log_env_def Let_def
      DateTimeFormatItem_new_def)
qed

lemma macro_writes_once_witness:
  "\<exists>st s. SYLAR_LOG_LEVEL wit_log_env 0 WARN ''a.cpp'' 7 3 1 2 0 ''main'' ''hi'' st
     = Inr (st\<lparr>ls_stdout := ls_stdout st @ s\<rparr>)"
proof -
  obtain st f where "LoggerManager_new 0 (\<lambda>f. []) [] = Inr st" and "m_root st = 0"
    and s1: "ls_appenders st 0 = Some \<lparr>a_kind = StdoutLogAppender, m_formatter = None, m_defaultFormatter = f\<rparr>"
    and s2: "LogFormatter_new default_pattern = Inr f"
    and s3: "ls_loggers st 0 = Some \<lparr>l_name = ''root'', l_level = INFO, l_appenders = [0], l_createTime = 0\<rparr>"
    by (rule wit_registry)
  let ?e = "getSS_write ''hi'' (LogEvent_new ''root'' WARN ''a.cpp'' 7 (sint (3 - 0 :: u64)) 1 2 0 ''main'')"
  obtain t where t: "LogFormatter_format (le_strftime wit_log_env) f ?e = Inr t" using default_text [OF s2] by blast
  show ?thesis
    using macro_writes_once [OF s3, of ?e "''hi''" WARN "''a.cpp''" 7 3 1 2 0 "''main''" wit_log_env "\<lambda>p. t"] s1 t
    by (auto simp: getFormatter_def)
qed

lemma setLogDisable_keeps_fatal_witness:
  "\<exists>st st1. setLogDisable st = Inr st1
     \<and> SYLAR_LOG_LEVEL wit_log_env (m_root st1) WARN ''a.cpp'' 7 3 1 2 0 ''main'' ''hi'' st1 = Inr st1"
proof -
  obtain st f where "LoggerManager_new 0 (\<lambda>f. []) [] = Inr st" and r: "m_root st = 0"
    and "ls_appenders st 0 = Some \<lparr>a_kind = StdoutLogAppender, m_formatter = None, m_defaultFormatter = f\<rparr>"
    and "LogFormatter_new default_pattern = Inr f"
    and s: "ls_loggers st 0 = Some \<lparr>l_name = ''root'', l_level = INFO, l_appenders = [0], l_createTime = 0\<rparr>"
    by (rule wit_registry)
  with r have l: "ls_loggers st (m_root st) = Some \<lparr>l_name = ''root'', l_level = INFO, l_appenders = [0], l_createTime = 0\<rparr>"
    by simp
  then obtain st1 where d: "setLogDisable st = Inr st1" by (auto simp: setLogDisable_def on_logger_def getRoot_def)
  from setLogDisable_keeps_fatal [OF l d, of WARN wit_log_env "''a.cpp''" 7 3 1 2 0 "''main''" "''hi''"]
  have "SYLAR_LOG_LEVEL wit_log_env (m_root st1) WARN ''a.cpp'' 7 3 1 2 0 ''main'' ''hi'' st1 = Inr st1" by simp
  with d show ?thesis by blast
qed

lemma file_appender_stuck_witness:
  "\<exists>st st'. ls_files st ''log.txt'' = ''old'' \<and> appender_log wit_log_env wit_event 0 st = Inr st'
     \<and> ls_files st' = ls_files st"
proof -
  obtain st0 f where s: "LoggerManager_new 0 (\<lambda>f. []) [] = Inr st0" "LogFormatter_new default_pattern = Inr f"
    by (rule wit_registry)
  let ?fs = "\<lparr>m_filename = ''log.txt'', fs_open = True, fs_fail = True, m_lastTime = 0, m_reopenError = False\<rparr>"
  let ?a = "\<lparr>a_kind = FileLogAppender ?fs, m_formatter = None, m_defaultFormatter = f\<rparr>"
  let ?st = "st0\<lparr>ls_appenders := (ls_appenders st0)(0 \<mapsto> ?a), ls_files := (\<lambda>p. ''old'')\<rparr>"
  obtain t where t: "LogFormatter_format (le_strftime wit_log_env) f wit_event = Inr t" using default_text [OF s(2)] by blast
  have "\<exists>st'. appender_log wit_log_env wit_event 0 ?st = Inr st'"
    using t by (simp add: appender_log_def FileLogAppender_log_def Let_def split: prod.split)
  then obtain st' where r: "appender_log wit_log_env wit_event 0 ?st = Inr st'" by blast
  have "ls_files st' = ls_files ?st"
    using file_appender_stuck [of ?st 0 ?a ?fs wit_log_env "[wit_event]" st'] r by simp
  then show ?thesis using r by (intro exI [of _ ?st] exI [of _ st']) simp
qed

lemma scoped_lock_destructor_witness:
  "\<exists>lm lm1. ScopedLock_new spin_mutex_new = Some lm \<and> ScopedLock_unlock lm = Inr lm1
     \<and> ScopedLock_destroy lm1 = Inl Undefined"
proof -
  have "ScopedLock_new spin_mutex_new = Some (\<lparr>m_locked = True\<rparr>, True)"
    by (simp add: ScopedLock_new_def spin_mutex_lock_def spin_mutex_new_def)
  from scoped_lock_destructor [OF this] this show ?thesis by blast
qed

end
