(* ===== verification/LogMacros.thy ===== *)
theory LogMacros
  imports Doroutine LogRuns
begin

text \<open>
  The macros of the single levels, the instance of the registry and the macros that reach it
  (\<open>include/log.h\<close>), and the identity of the running coroutine (\<open>src/util.cpp\<close>).
\<close>

section \<open>One macro per level\<close>

text \<open>
  Where a logging statement stands and what the functions it calls return: file, line, elapsed
  time, thread and coroutine, date, name of the thread.
\<close>

record log_site =
  site_file :: string
  site_line :: int
  site_elapsed :: u64
  site_thread :: u32
  site_doroutine :: u64
  site_time :: int
  site_thread_name :: string

text \<open>\<open>GetDoroutineId\<close> of the thread.\<close>

definition GetDoroutineId :: "'f thread_rt \<Rightarrow> fault + u64" where
  "GetDoroutineId rt = GetThisId rt"

definition log_level :: "log_env \<Rightarrow> log_site \<Rightarrow> nat \<Rightarrow> Level \<Rightarrow> string \<Rightarrow> log_state \<Rightarrow> fault + log_state" where
  "log_level env s lp level text = SYLAR_LOG_LEVEL env lp level (site_file s) (site_line s) (site_elapsed s)
     (site_thread s) (site_doroutine s) (site_time s) (site_thread_name s) text"

definition log_fmt_level ::
  "log_env \<Rightarrow> log_site \<Rightarrow> nat \<Rightarrow> Level \<Rightarrow> string option \<Rightarrow> log_state \<Rightarrow> fault + log_state" where
  "log_fmt_level env s lp level text = SYLAR_LOG_FMT_LEVEL env lp level (site_file s) (site_line s) (site_elapsed s)
     (site_thread s) (site_doroutine s) (site_time s) (site_thread_name s) text"

definition SYLAR_LOG_FATAL where "SYLAR_LOG_FATAL env s lp = log_level env s lp FATAL"
definition SYLAR_LOG_ALERT where "SYLAR_LOG_ALERT env s lp = log_level env s lp ALERT"
definition SYLAR_LOG_CRIT where "SYLAR_LOG_CRIT env s lp = log_level env s lp CRIT"
definition SYLAR_LOG_ERROR where "SYLAR_LOG_ERROR env s lp = log_level env s lp ERROR"
definition SYLAR_LOG_WARN where "SYLAR_LOG_WARN env s lp = log_level env s lp WARN"
definition SYLAR_LOG_NOTICE where "SYLAR_LOG_NOTICE env s lp = log_level env s lp NOTICE"
definition SYLAR_LOG_INFO where "SYLAR_LOG_INFO env s lp = log_level env s lp INFO"
definition SYLAR_LOG_DEBUG where "SYLAR_LOG_DEBUG env s lp = log_level env s lp DEBUG"

definition SYLAR_LOG_FMT_FATAL where "SYLAR_LOG_FMT_FATAL env s lp = log_fmt_level env s lp FATAL"
definition SYLAR_LOG_FMT_ALERT where "SYLAR_LOG_FMT_ALERT env s lp = log_fmt_level env s lp ALERT"
definition SYLAR_LOG_FMT_CRIT where "SYLAR_LOG_FMT_CRIT env s lp = log_fmt_level env s lp CRIT"
definition SYLAR_LOG_FMT_ERROR where "SYLAR_LOG_FMT_ERROR env s lp = log_fmt_level env s lp ERROR"
definition SYLAR_LOG_FMT_WARN where "SYLAR_LOG_FMT_WARN env s lp = log_fmt_level env s lp WARN"
definition SYLAR_LOG_FMT_NOTICE where "SYLAR_LOG_FMT_NOTICE env s lp = log_fmt_level env s lp NOTICE"
definition SYLAR_LOG_FMT_INFO where "SYLAR_LOG_FMT_INFO env s lp = log_fmt_level env s lp INFO"
definition SYLAR_LOG_FMT_DEBUG where "SYLAR_LOG_FMT_DEBUG env s lp = log_fmt_level env s lp DEBUG"

text \<open>The macros in the order of their levels, most severe first.\<close>

definition level_macros :: "(Level \<times> (log_env \<Rightarrow> log_site \<Rightarrow> nat \<Rightarrow> string \<Rightarrow> log_state \<Rightarrow> fault + log_state)) list" where
  "level_macros = [(FATAL, SYLAR_LOG_FATAL), (ALERT, SYLAR_LOG_ALERT), (CRIT, SYLAR_LOG_CRIT),
     (ERROR, SYLAR_LOG_ERROR), (WARN, SYLAR_LOG_WARN), (NOTICE, SYLAR_LOG_NOTICE), (INFO, SYLAR_LOG_INFO),
     (DEBUG, SYLAR_LOG_DEBUG)]"

lemmas level_macro_defs = SYLAR_LOG_FATAL_def SYLAR_LOG_ALERT_def SYLAR_LOG_CRIT_def SYLAR_LOG_ERROR_def
  SYLAR_LOG_WARN_def SYLAR_LOG_NOTICE_def SYLAR_LOG_INFO_def SYLAR_LOG_DEBUG_def

lemmas fmt_macro_defs = SYLAR_LOG_FMT_FATAL_def SYLAR_LOG_FMT_ALERT_def SYLAR_LOG_FMT_CRIT_def SYLAR_LOG_FMT_ERROR_def
  SYLAR_LOG_FMT_WARN_def SYLAR_LOG_FMT_NOTICE_def SYLAR_LOG_FMT_INFO_def SYLAR_LOG_FMT_DEBUG_def

lemma level_macros_levels: "(level, mac) \<in> set level_macros \<Longrightarrow> mac env s lp = log_level env s lp level"
  unfolding level_macros_def level_macro_defs by auto

text \<open>A statement below the level of its logger does nothing; all macros agree on the order.\<close>

lemma silent_below:
  assumes "(level, mac) \<in> set level_macros" and "ls_loggers st lp = Some l"
    and "level_value (l_level l) < level_value level"
  shows "mac env s lp text st = Inr st"
  using assms(2,3) by (simp add: level_macros_levels [OF assms(1)] log_level_def SYLAR_LOG_LEVEL_def less_eq_Level_def)

lemma levels_ascend: "sorted_wrt (\<lambda>a b. level_value (fst a) < level_value (fst b)) level_macros"
  by (simp add: level_macros_def)

text \<open>Formatted text that \<open>vasprintf\<close> produces is written as streamed text is.\<close>

lemma log_fmt_level_streams: "log_fmt_level env s lp level (Some text) = log_level env s lp level text"
  by (auto simp: log_fmt_level_def log_level_def SYLAR_LOG_FMT_LEVEL_def SYLAR_LOG_LEVEL_def LogEvent_printf_def
      LogEvent_vprintf_def getSS_write_def fun_eq_iff split: option.split)

section \<open>The instance of the registry\<close>

text \<open>The function-local static: created by the first call, on the clock of that moment.\<close>

definition LoggerManager_init :: "log_state \<Rightarrow> log_state" where
  "LoggerManager_init st = st"

definition LoggerManager_GetInstance ::
  "u64 \<Rightarrow> (string \<Rightarrow> string) \<Rightarrow> string \<Rightarrow> log_state option \<Rightarrow> fault + log_state" where
  "LoggerManager_GetInstance elapsed files out instance_of = (case instance_of of
     Some st \<Rightarrow> Inr st
   | None \<Rightarrow> rbind (LoggerManager_new elapsed files out) (\<lambda>st. Inr (LoggerManager_init st)))"

definition SYLAR_LOG_ROOT ::
  "u64 \<Rightarrow> (string \<Rightarrow> string) \<Rightarrow> string \<Rightarrow> log_state option \<Rightarrow> fault + nat \<times> log_state" where
  "SYLAR_LOG_ROOT elapsed files out inst =
     rbind (LoggerManager_GetInstance elapsed files out inst) (\<lambda>st. Inr (getRoot st, st))"

definition SYLAR_LOG_NAME ::
  "string \<Rightarrow> u64 \<Rightarrow> (string \<Rightarrow> string) \<Rightarrow> string \<Rightarrow> log_state option \<Rightarrow> fault + nat \<times> log_state" where
  "SYLAR_LOG_NAME name elapsed files out inst =
     rbind (LoggerManager_GetInstance elapsed files out inst) (\<lambda>st. Inr (getLogger name elapsed st))"

text \<open>
  Whichever static initialiser asks first, the first request succeeds, and the logger of the
  root is the same whether it is asked for as the root or by its name, then and later.
\<close>

lemma first_request:
  "\<exists>st. LoggerManager_GetInstance elapsed files out None = Inr st \<and> log_start st"
proof -
  obtain f where "LogFormatter_new default_pattern = Inr f" using default_formatter by blast
  then obtain st where st: "LoggerManager_new elapsed files out = Inr st"
    by (simp add: LoggerManager_new_def StdoutLogAppender_new_def Let_def)
  then have "log_start st" unfolding log_start_def by blast
  then show ?thesis using st by (simp add: LoggerManager_GetInstance_def LoggerManager_init_def)
qed

lemma root_by_name:
  assumes "LoggerManager_GetInstance elapsed files out None = Inr st0" and "(log_step env)\<^sup>*\<^sup>* st0 st"
  shows "SYLAR_LOG_ROOT now files' out' (Some st) = Inr (m_root st, st)"
    and "SYLAR_LOG_NAME ''root'' now files' out' (Some st) = Inr (m_root st, st)"
proof -
  have "log_start st0" using assms(1) by (auto simp: LoggerManager_GetInstance_def LoggerManager_init_def log_start_def rbind_eq_Inr)
  then have "registry_ok st" using log_runs.good_reachable [of st0 env st] assms(2) by blast
  then have "getLogger ''root'' now st = (m_root st, st)" using registry_okD(2) by (simp add: getLogger_def)
  then show "SYLAR_LOG_NAME ''root'' now files' out' (Some st) = Inr (m_root st, st)"
    by (simp add: SYLAR_LOG_NAME_def LoggerManager_GetInstance_def)
qed (simp add: SYLAR_LOG_ROOT_def LoggerManager_GetInstance_def getRoot_def)

end
