(* ===== verification/Spec2Isabelle.thy ===== *)
theory Spec2Isabelle
  imports Timer Workers FdManager IORefine IOPoolLosses HookStart RuntimeWitnesses LogMacros
begin

text \<open>
  A verification library for the coroutine runtime: timers, coroutines, an N:M scheduler, an
  \<open>epoll\<close> based IO manager, hooked system calls and the log library they use.

  \<^bold>\<open>The program.\<close> A \<open>Scheduler\<close> owns a queue of tasks (functions or coroutines, possibly pinned
  to a thread) that a pool of threads, and with \<open>useCaller\<close> the creating thread, execute in
  \<open>run()\<close>. \<open>Doroutine\<close> is a coroutine on \<open>ucontext\<close>; tasks yield to the scheduling coroutine of
  their thread. \<open>IOManager\<close> is a scheduler and a \<open>TimerManager\<close> at once: its idle coroutine waits
  in \<open>epoll_wait\<close> for the events coroutines registered and for the next timer, and schedules
  what they resume. \<open>hook.cpp\<close> replaces the blocking system calls: a call on a socket that would
  block registers an event and a timer with the IO manager, yields, and is repeated when it is
  resumed; \<open>FdManager\<close> remembers which descriptors are sockets and their time-outs.

  \<^bold>\<open>Theories and sources.\<close>

  \<^item> \<open>Prelude\<close>: the words of the C++ types, the faults a call can end in, the parts of the C++
    library the sources use (vector indexing and resizing, ordered sets over a comparator), and
    the interfaces \<open>growing_table\<close> (a table that grows by half), \<open>comparator\<close> (a strict order for
    an ordered set) and \<open>step_invariant\<close> (an invariant of a step relation). Each is interpreted
    on the definitions of the component that provides it.
  \<^item> \<open>Timer\<close> (\<open>timer.h\<close>, \<open>timer.cpp\<close>): timers on a heap, the ordered set of \<open>TimerManager\<close>, all its
    operations. The invariant: the set is sorted and holds only timers with a callback.
  \<^item> \<open>Doroutine\<close> (\<open>doroutine.h\<close>, \<open>doroutine.cpp\<close>): the coroutines of one thread. A \<open>ucontext_t\<close> is
    what a jump to it continues. The invariant of the discipline the library keeps: at most one
    task runs, every context that is jumped to was saved.
  \<^item> \<open>Scheduler\<close>, \<open>Workers\<close> (\<open>scheduler.h\<close>, \<open>scheduler.cpp\<close>): the queue, its scan and the loop of
    \<open>run\<close> on one thread; then the interleaving of several threads, a step per critical section.
    The invariant accounts for every submitted task: queued, taken, or held by one thread.
  \<^item> \<open>FdManager\<close> (\<open>fdManager.h\<close>, \<open>fdManager.cpp\<close>): descriptor contexts and their growing table.
  \<^item> \<open>IOManager\<close>, \<open>IOEvents\<close>, \<open>IORuns\<close>, \<open>IORefine\<close> (\<open>iomanager.h\<close>, \<open>iomanager.cpp\<close>): event contexts on
    a heap, \<open>addEvent\<close>, \<open>delEvent\<close>, \<open>cancelEvent\<close>, \<open>cancelAll\<close>, \<open>triggerEvent\<close> and the idle loop; one
    lemma per operation for the invariant (the kernel's masks are the registered masks, contexts
    are well formed, and the pending count exceeds the number of registered events by a surplus
    that is tracked: an event registered while it is taken, and one cancelled by a thread of
    another manager, add one each); all operations that return, by any threads, as a step
    relation with the surplus; and the refinement of an abstract registry of what waits for which
    event, in which a registration replaces what waited.
  \<^item> \<open>IOPool\<close>, \<open>IOPoolLosses\<close> (\<open>scheduler.h\<close>, \<open>scheduler.cpp\<close>, \<open>iomanager.cpp\<close>): several threads in the
    loop of \<open>run\<close> of an IO manager, and how \<open>tickle\<close> wakes the ones in \<open>epoll_wait\<close>: the count of
    idle threads and the pipe, a step per critical section, atomic access or system call. The
    invariant: the count is that of the threads in \<open>idle\<close>, and whoever sleeps over a queued task
    is called, except when a task came in between the scan of a thread and its counting itself
    idle (the thread that takes the report of the pipe reads it empty in a step of its own); and the runs in which a queued task is left to the time-out of \<open>epoll_wait\<close>.
  \<^item> \<open>Hook\<close>, \<open>HookCalls\<close>, \<open>HookFds\<close>, \<open>HookExamples\<close>, \<open>HookStart\<close> (\<open>hook.h\<close>, \<open>hook.cpp\<close>): \<open>do_io\<close> and the
    functions built on it, \<open>connect\<close>, \<open>close\<close>, \<open>fcntl\<close>, \<open>ioctl\<close>, the sleeping calls, the socket
    options, and \<open>hookInit\<close>, which fills the variables of the original functions. They work on
    the IO manager and the descriptor table of the theories above.
  \<^item> \<open>Runtime\<close>, \<open>RuntimeInv\<close>, \<open>RuntimeRuns\<close>, \<open>RuntimeSafe\<close>, \<open>RuntimeExamples\<close>: the parts put
    together. The hooked calls are cut where they yield (\<open>do_io_cut\<close> and \<open>connect_cut\<close> show that
    the pieces are the calls of \<open>Hook\<close>), the code of a coroutine is a codatatype of the calls it
    makes, and one thread in \<open>Scheduler::run\<close> of an IO manager, its idle coroutine, the kernel
    and other threads that submit work and request the stop are the steps of one system
    (\<open>runtime_step\<close>; in \<open>system_step\<close> what \<open>epoll_ctl\<close>, the clock and the original functions answer may
    differ from step to step). The
    invariant is a conservation law: what registered events, timers and queued tasks will
    resume is, counted with multiplicity, the set of suspended coroutines.
  \<^item> \<open>RuntimeFollows\<close>, \<open>RuntimeTimeouts\<close>, \<open>RuntimeTimed\<close>, \<open>RuntimeArmed\<close>, \<open>RuntimeWitnesses\<close>: the
    time-outs of that system. What each operation leaves of the waiting coroutines and of the
    callbacks on timers and in the queue, the account of the \<open>do_io\<close> calls that wait with a
    time-out, its preservation by every step, also when the kernel refuses to take an event back,
    and two runs to apply the results to.
  \<^item> \<open>LogFormat\<close>, \<open>LogParse\<close>, \<open>Logging\<close>, \<open>LogRuns\<close>, \<open>LogMacros\<close> (\<open>log.h\<close>, \<open>log.cpp\<close>, \<open>mutex.h\<close>,
    \<open>util.cpp\<close>, \<open>forTest.h\<close>): levels, events, the pattern parser and the formatter; appenders, loggers, the
    registry and the macros; the scoped spin lock and the utilities.

  \<^bold>\<open>Reading the model.\<close> Objects behind shared pointers live in stores from addresses to values,
  so that aliasing is visible (timers, coroutines, schedulers, contexts, appenders, loggers).
  An operation takes the state and returns it changed; \<open>Inl\<close> is a fault of the program (a null
  or dangling pointer, an index out of range, an exception, an unlocked lock). Integers are
  words of their C++ width wherever they can wrap, and \<open>int\<close> with its bounds as hypotheses where
  a descriptor is only compared. What is outside the sources is a parameter: clock readings,
  addresses of new objects, system calls. What happens while a hooked call has yielded is a
  parameter in \<open>Hook\<close>, so that its theorems hold whatever that is, and steps of the system in
  \<open>Runtime\<close>. \<open>Runtime\<close> has one executing thread: with several, a coroutine can be resumed before
  its \<open>yield\<close> has saved it, which \<open>Workers\<close> shows, and no such law holds. \<open>Workers\<close> and \<open>IOPool\<close> have
  many threads: \<open>Workers\<close> looks at who executes a coroutine, \<open>IOPool\<close> at who is woken for a task, so
  that it leaves open what a task does and when the pipe, timers and events are reported. The
  pipe is registered edge-triggered, so that a byte causes one report to one of the threads.

  \<^bold>\<open>The settings of the theorems.\<close> The theorems about the IO manager over all runs are of atomic
  operations on descriptors from 0 to \<open>2 ^ 30 - 1\<close>, the events \<open>READ\<close> and \<open>WRITE\<close>, registering threads
  that belong to a scheduler, and reports of contexts of the table; operations on other managers
  are not steps. Those about the composed system are of one thread; of coroutines of which at
  most one waits for each event of a descriptor, which is needed
  (\<open>second_waiter_strands_first\<close>); and of code that uses descriptors and timers only through the
  hooked calls, \<open>schedule\<close> and non-repeating \<open>addTimer\<close>: it calls no operation of the IO manager or
  of a \<open>Timer\<close> itself and adds no repeating timer. Those about single hooked calls, where a yield
  is the function \<open>he_yield\<close> that always comes back, say nothing of a coroutine that is never resumed;
  in \<open>Runtime\<close> a coroutine stays suspended until a step resumes it. Every text before a property
  repeats what it needs of this.

  \<^bold>\<open>Loops that may not end\<close> are \<open>partial_function (option)\<close>, \<open>None\<close> for not returning: \<open>run_loop\<close>
  of the scheduler, the retry loop around \<open>epoll_wait\<close>, and the two retry loops of \<open>do_io\<close>. That
  they return is proved, with the hypothesis it needs: the queue of a stopping scheduler holds
  no foreign task; \<open>epoll_wait\<close> is interrupted finitely often; the kernel answers \<open>EINTR\<close> and
  \<open>EAGAIN\<close> finitely often and every yield comes back. All other loops are structural or have a measure; no fuel is used.

  \<^bold>\<open>What the groups of lemmas show.\<close> Functional contracts of the operations, errors included
  (timers, scan of the queue, table look-ups, registration, cancellation, formatting);
  invariants over all runs and interleavings; conservation of tasks, of registered events and of
  wake-ups; in the settings above, that the thread of an IO manager ends only after its coroutines
  and never faults, and that a call with a time-out keeps its callback until it is resumed, and is
  decided when the callback runs;
  that a stopping scheduler runs what was submitted and that a coroutine finishes; the
  equivalence of a hooked call with the original where it must not interfere, and of the index
  loop of the pattern parser with a scanner; round trips; and, as theorems about the same
  definitions, the situations in which the code fails: double unlock, double execution of a
  coroutine queued while it runs, stale events, lost contexts, timers left behind, lost
  wake-ups, a coroutine that a second one waiting for the same event strands, pending counts that never
  return to zero, a descriptor that
  inherits the context of one closed without hooks.

  \<^bold>\<open>Interfaces between the parts.\<close> \<open>IOManager\<close> contains the record of the scheduler and of the
  timer manager and calls their operations; its queue lemma \<open>schedule_to_ok\<close> and the timer
  lemma \<open>listExpiredFunc_ok\<close> are what the theories above it use. The hooks use \<open>addEvent_by\<close>,
  \<open>addEvent_ok\<close>, \<open>cancelEvent_ok\<close>, \<open>cancelAll_ok\<close> and the contracts of the descriptor table. Callbacks of timers
  are data: a function of the user, or what \<open>std::bind\<close> and the lambdas of the hooks capture.

  \<^bold>\<open>Not modelled.\<close> The switch of machine stacks itself (\<open>getcontext\<close>, \<open>makecontext\<close> and
  \<open>swapcontext\<close> are described by what a jump continues) and stack overflow; the creation of
  threads and their joining; what \<open>dlsym\<close> finds; the memory model below critical sections and
  atomic accesses; debug messages of the runtime itself and the line \<open>LogFormatter::init\<close> prints
  about a bad pattern; the destruction of global objects at exit. The programs under \<open>test\<close> and
  \<open>benchmark\<close> and the build files use the library and are not part of it.
\<close>

end
